(* ===== verification/TP_Prelude.thy ===== *)
theory TP_Prelude
  imports Main "HOL-Library.Word" "HOL-Library.Sublist"
begin

text \<open>
  Prelude of the Tomypeers development. It holds what the component theories share: the collections of
  rewrite rules, the ways a C computation can stop, the sequencing of such computations, and
  generic facts on lists and words.

  Two result types are used throughout. A \<^emph>\<open>result\<close> (\<open>abort + 'a\<close>) is a computation that always ends:
  \<open>Inr x\<close> returns \<open>x\<close>, \<open>Inl e\<close> stops because of \<open>e\<close>. A \<^emph>\<open>computation\<close> (\<open>(abort + 'a) option\<close>) may also
  run forever, which is \<open>None\<close>; it is used for the source's loops that have no bound of their own.
\<close>

named_theorems run_simps \<open>unfolding of sequenced computations\<close>
named_theorems text_simps \<open>lexical facts about C strings, decimal numbers and listings\<close>
named_theorems heap_simps \<open>facts about linked structures in the heap\<close>

section \<open>How a C computation stops\<close>

text \<open>
  \<open>Exit_Status\<close> is a call of \<open>exit\<close>. The other values are uses of the language whose behaviour C
  leaves undefined; the model stops at the first of them, so a theorem that an operation returns
  also says that it performs none of them.
\<close>

datatype abort =
    Buffer_Overflow      \<comment> \<open>a write or read outside an array\<close>
  | Use_After_Free       \<comment> \<open>a dereference of a pointer to storage that is not allocated\<close>
  | Wild_Pointer         \<comment> \<open>an integer that is no address, passed as a pointer\<close>
  | Null_Deref           \<comment> \<open>a dereference of \<open>NULL\<close>\<close>
  | Assert_Failed        \<comment> \<open>an \<open>assert\<close> whose condition is false\<close>
  | Uninit_Read          \<comment> \<open>a use of an object that holds no value yet\<close>
  | Int_Overflow         \<comment> \<open>a number that its type cannot hold, in a conversion that requires it\<close>
  | Div_By_Zero          \<comment> \<open>a division or remainder by zero\<close>
  | Exit_Status int

type_synonym 'a res = "abort + 'a"
type_synonym 'a comp = "(abort + 'a) option"

definition bind_res :: "'a res \<Rightarrow> ('a \<Rightarrow> 'b res) \<Rightarrow> 'b res" where
  "bind_res m f = (case m of Inl e \<Rightarrow> Inl e | Inr x \<Rightarrow> f x)"

definition bind_comp :: "'a comp \<Rightarrow> ('a \<Rightarrow> 'b comp) \<Rightarrow> 'b comp" where
  "bind_comp m f = (case m of None \<Rightarrow> None | Some (Inl e) \<Rightarrow> Some (Inl e) | Some (Inr x) \<Rightarrow> f x)"

lemma bind_res_simps [simp, run_simps]:
  "bind_res (Inl e) f = Inl e"
  "bind_res (Inr x) f = f x"
  by (simp_all add: bind_res_def)

lemma bind_comp_simps [simp, run_simps]:
  "bind_comp None f = None"
  "bind_comp (Some (Inl e)) f = Some (Inl e)"
  "bind_comp (Some (Inr x)) f = f x"
  by (simp_all add: bind_comp_def)

lemma bind_res_eq_Inr [simp]:
  "bind_res m f = Inr y \<longleftrightarrow> (\<exists>x. m = Inr x \<and> f x = Inr y)"
  by (cases m) auto

lemma bind_comp_eq_Inr:
  "bind_comp m f = Some (Inr y) \<longleftrightarrow> (\<exists>x. m = Some (Inr x) \<and> f x = Some (Inr y))"
  by (auto simp: bind_comp_def split: option.splits sum.splits)

lemma bind_res_assoc: "bind_res (bind_res m f) g = bind_res m (\<lambda>x. bind_res (f x) g)"
  by (cases m) auto

section \<open>Lists\<close>

lemma takeWhile_dropWhile_span:
  "takeWhile P xs = ys \<Longrightarrow> dropWhile P xs = zs \<Longrightarrow> xs = ys @ zs"
  by (metis takeWhile_dropWhile_id)

lemma takeWhile_all_append:
  "\<forall>x \<in> set xs. P x \<Longrightarrow> takeWhile P (xs @ ys) = xs @ takeWhile P ys"
  by (induction xs) auto

lemma dropWhile_all_append:
  "\<forall>x \<in> set xs. P x \<Longrightarrow> dropWhile P (xs @ ys) = dropWhile P ys"
  by (induction xs) auto

lemma length_dropWhile_Cons_less: "P x \<Longrightarrow> length (dropWhile P (x # xs)) < Suc (length xs)"
  by (simp add: length_dropWhile_le less_Suc_eq_le)

lemma concat_take_drop_cons [simp]:
  "concat (take n x # drop n x # xs) = concat (x # xs)"
  by (metis append.assoc append_take_drop_id concat.simps(2))

lemma take_in_two: "take n (take m xs) @ take (n - m) (drop m xs) = take n xs"
proof (cases "n \<le> m")
  case False
  then show ?thesis using take_add [of m "n - m" xs] by simp
qed simp

lemma map_of_append_fresh: "map_of xs k = None \<Longrightarrow> map_of (xs @ [(k, v)]) k = Some v"
  by (simp add: map_add_Some_iff)

section \<open>Words\<close>

lemma unat_of_nat_small: "n < 2 ^ LENGTH('a::len) \<Longrightarrow> unat (of_nat n :: 'a word) = n"
  by (simp add: unat_of_nat take_bit_nat_eq_self)

lemma unat_minus_small: "unat b \<le> unat a \<Longrightarrow> unat (a - b) = unat a - unat b" for a b :: "'a::len word"
  by (simp add: unat_sub word_le_nat_alt)

lemma unat_plus_small: "unat a + unat b < 2 ^ LENGTH('a) \<Longrightarrow> unat (a + b) = unat a + unat b" for a b :: "'a::len word"
  by (simp add: unat_word_ariths)

lemma of_nat_unat_id: "of_nat (unat w) = (w :: 'a::len word)"
  by simp

lemma uint_less_of_unat: "unat w < n \<Longrightarrow> uint w < int n"
  by (simp only: uint_nat of_nat_less_iff)

lemma unat_diff_add_of_nat:
  fixes a b :: "'a::len word"
  assumes "k \<le> unat (a - b)"
  shows "unat (a - (b + of_nat k)) = unat (a - b) - k"
proof -
  have "unat (a - b) < 2 ^ LENGTH('a)" by (rule unsigned_less)
  with assms have k: "unat (of_nat k :: 'a word) = k" by (intro unat_of_nat_small) linarith
  with assms have "(of_nat k :: 'a word) \<le> a - b" by (simp add: word_le_nat_alt)
  then have "unat ((a - b) - of_nat k) = unat (a - b) - k"
    using k by (simp add: unat_sub)
  then show ?thesis by (simp only: diff_diff_eq)
qed

lemma word_of_nat_eq_small:
  "m < 2 ^ LENGTH('a::len) \<Longrightarrow> n < 2 ^ LENGTH('a) \<Longrightarrow> (of_nat m :: 'a word) = of_nat n \<longleftrightarrow> m = n"
  by (metis unat_of_nat_small)

lemma word_succ_le_iff_less: "a < b \<Longrightarrow> (a + 1 \<le> x) = (a < x)" for a b x :: "'a::len word"
proof -
  assume "a < b"
  then have "unat a < unat b" "unat b < 2 ^ LENGTH('a)" by (simp_all add: word_less_nat_alt unsigned_less)
  then have "Suc (unat a) < 2 ^ LENGTH('a)" by linarith
  then have "unat (a + 1) = Suc (unat a)" by (simp add: unat_word_ariths)
  then show ?thesis by (simp add: word_le_nat_alt word_less_nat_alt Suc_le_eq)
qed

lemma word_le_pred_iff_less: "a < b \<Longrightarrow> (x \<le> b - 1) = (x < b)" for a b x :: "'a::len word"
proof -
  assume "a < b"
  then have "b \<noteq> 0" by auto
  then have "unat (b - 1) = unat b - 1" "unat b \<noteq> 0" by (simp_all add: unat_minus_one unat_eq_0)
  then show ?thesis by (auto simp: word_le_nat_alt word_less_nat_alt)
qed

end
