(* ===== verification/C_Runtime.thy ===== *)
theory C_Runtime
  imports TP_Prelude
begin

text \<open>
  The parts of the C library that the Tomypeers programs call, on C strings. A \<open>char\<close> of the source is a
  HOL \<^typ>\<open>char\<close> (one byte), a C string is the list of its bytes without the terminating NUL, and a
  destination array is represented by its size: a store that does not fit, terminator included,
  is \<^const>\<open>Buffer_Overflow\<close>. Sizes of \<open>int\<close>, \<open>long\<close>, \<open>size_t\<close> and \<open>SOCKET\<close> are 32 bits, as in the i386
  objects that are checked in beside the sources.
\<close>

section \<open>Strings and buffers\<close>

definition NUL :: char where "NUL = CHR 0x00"

definition cstr :: "char list \<Rightarrow> string" where
  \<comment> \<open>the C string at the start of an array of bytes\<close>
  "cstr bs = takeWhile (\<lambda>c. c \<noteq> NUL) bs"

definition store_str :: "nat \<Rightarrow> string \<Rightarrow> string res" where
  \<comment> \<open>\<open>strcpy\<close> or \<open>sprintf\<close> of \<open>s\<close> into an array of \<open>n\<close> bytes\<close>
  "store_str n s = (if length s < n then Inr s else Inl Buffer_Overflow)"

definition strcat_buf :: "nat \<Rightarrow> string \<Rightarrow> string \<Rightarrow> string res" where
  \<comment> \<open>\<open>strcat(dst, src)\<close> where \<open>dst\<close> is an array of \<open>n\<close> bytes\<close>
  "strcat_buf n dst src = store_str n (dst @ src)"

definition nul_terminate :: "nat \<Rightarrow> char list \<Rightarrow> string res" where
  \<comment> \<open>\<open>buf[k] = 0\<close> after \<open>recv\<close> placed \<open>k\<close> bytes in an array of \<open>n\<close> bytes\<close>
  "nul_terminate n bs = (if length bs < n then Inr (cstr bs) else Inl Buffer_Overflow)"

definition snprintf_s :: "nat \<Rightarrow> string \<Rightarrow> string \<Rightarrow> string" where
  \<comment> \<open>\<open>snprintf(buf, n, prefix "%s", s)\<close>: truncates, always terminates\<close>
  "snprintf_s n pre s = take (n - 1) (pre @ s)"

definition char_val :: "char \<Rightarrow> 32 word" where
  \<comment> \<open>a plain \<open>char\<close> is signed; it is promoted to \<open>int\<close> and converted to an unsigned 32-bit type\<close>
  "char_val c = scast (of_char c :: 8 word)"

fun strcmp_c :: "string \<Rightarrow> string \<Rightarrow> int" where
  "strcmp_c [] [] = 0"
| "strcmp_c [] (d # ds) = - 1"
| "strcmp_c (c # cs) [] = 1"
| "strcmp_c (c # cs) (d # ds) = (if c = d then strcmp_c cs ds else if of_char c < (of_char d :: nat) then - 1 else 1)"

lemma strcmp_c_eq_0: "strcmp_c s t = 0 \<longleftrightarrow> s = t"
  by (induction s t rule: strcmp_c.induct) auto

fun strstr_found :: "string \<Rightarrow> string \<Rightarrow> bool" where
  \<comment> \<open>\<open>strstr(hay, needle) != NULL\<close>\<close>
  "strstr_found [] needle = (needle = [])"
| "strstr_found (c # cs) needle = (prefix needle (c # cs) \<or> strstr_found cs needle)"

lemma strstr_found_iff: "strstr_found hay needle \<longleftrightarrow> sublist needle hay"
  by (induction hay) (auto simp: sublist_Cons_right)

lemma cstr_no_NUL [simp]: "NUL \<notin> set (cstr bs)"
  unfolding cstr_def by (metis (mono_tags, lifting) set_takeWhileD)

lemma cstr_id [simp]: "NUL \<notin> set bs \<Longrightarrow> cstr bs = bs"
  unfolding cstr_def by (induction bs) auto

lemma length_cstr_le: "length (cstr bs) \<le> length bs"
  unfolding cstr_def by (rule length_takeWhile_le)

section \<open>White space and words\<close>

definition is_space :: "char \<Rightarrow> bool" where
  "is_space c \<longleftrightarrow> c \<in> {CHR '' '', CHR 0x09, CHR 0x0A, CHR 0x0B, CHR 0x0C, CHR 0x0D}"

definition skip_space :: "string \<Rightarrow> string" where
  "skip_space s = dropWhile is_space s"

definition scan_word :: "string \<Rightarrow> string \<times> string" where
  \<comment> \<open>the conversion \<open>%s\<close>: the word read and what follows it; an empty word is an input failure\<close>
  "scan_word s =
     (takeWhile (\<lambda>c. \<not> is_space c) (skip_space s), dropWhile (\<lambda>c. \<not> is_space c) (skip_space s))"

definition scanf_s :: "nat \<Rightarrow> string \<Rightarrow> (string option \<times> string) res" where
  \<comment> \<open>\<open>scanf("%s", buf)\<close> with \<open>buf\<close> of \<open>n\<close> bytes, on the remaining standard input: the string stored
      (\<open>None\<close> at the end of the input, where nothing is stored) and the input left\<close>
  "scanf_s n inp =
     (case scan_word inp of
        ([], rest) \<Rightarrow> Inr (None, rest)
      | (w, rest) \<Rightarrow> bind_res (store_str n w) (\<lambda>w. Inr (Some (cstr w), rest)))"

section \<open>Decimal numbers\<close>

definition digit :: "nat \<Rightarrow> char" where
  "digit d = ''0123456789'' ! d"

definition is_digit :: "char \<Rightarrow> bool" where
  "is_digit c \<longleftrightarrow> 48 \<le> (of_char c :: nat) \<and> (of_char c :: nat) \<le> 57"

fun dec_of_nat :: "nat \<Rightarrow> string" where
  \<comment> \<open>the conversion \<open>%lu\<close> of \<open>printf\<close>\<close>
  "dec_of_nat n = (if n < 10 then [digit n] else dec_of_nat (n div 10) @ [digit (n mod 10)])"

declare dec_of_nat.simps [simp del]

definition dec_val :: "string \<Rightarrow> nat" where
  "dec_val s = foldl (\<lambda>a c. 10 * a + (of_char c - 48)) 0 s"

definition scan_int :: "string \<Rightarrow> (int \<times> string) option" where
  \<comment> \<open>the conversions \<open>%d\<close> and \<open>%lu\<close>: white space, an optional sign, at least one digit\<close>
  "scan_int s =
     (let t = skip_space s;
          neg = (t \<noteq> [] \<and> hd t = CHR ''-'');
          u = (if t \<noteq> [] \<and> (hd t = CHR ''-'' \<or> hd t = CHR ''+'') then tl t else t);
          ds = takeWhile is_digit u
      in if ds = [] then None
         else Some (if neg then - int (dec_val ds) else int (dec_val ds), dropWhile is_digit u))"

definition atoi :: "string \<Rightarrow> int" where
  "atoi s = (case scan_int s of None \<Rightarrow> 0 | Some (v, _) \<Rightarrow> v)"

lemma less_10_cases:
  "(d::nat) < 10 \<Longrightarrow> d = 0 \<or> d = 1 \<or> d = 2 \<or> d = 3 \<or> d = 4 \<or> d = 5 \<or> d = 6 \<or> d = 7 \<or> d = 8 \<or> d = 9"
  by arith

lemma of_char_digit [text_simps]: "d < 10 \<Longrightarrow> (of_char (digit d) :: nat) = 48 + d"
  using less_10_cases [of d] by (auto simp: digit_def)

lemma is_digit_digit [text_simps]: "d < 10 \<Longrightarrow> is_digit (digit d)"
  by (simp add: is_digit_def of_char_digit)

lemma digit_not_space: "is_digit c \<Longrightarrow> \<not> is_space c"
  by (auto simp: is_digit_def is_space_def)

lemma dec_of_nat_digits [text_simps]: "\<forall>c \<in> set (dec_of_nat n). is_digit c"
proof (induction n rule: dec_of_nat.induct)
  case (1 n)
  then show ?case
    by (subst dec_of_nat.simps) (auto simp: is_digit_digit)
qed

lemma dec_of_nat_nonempty [simp]: "dec_of_nat n \<noteq> []"
  by (subst dec_of_nat.simps) simp

lemma dec_val_snoc: "dec_val (s @ [c]) = 10 * dec_val s + (of_char c - 48)"
  by (simp add: dec_val_def)

lemma dec_val_dec_of_nat [simp]: "dec_val (dec_of_nat n) = n"
proof (induction n rule: dec_of_nat.induct)
  case (1 n)
  show ?case
  proof (cases "n < 10")
    case True
    then show ?thesis
      by (subst dec_of_nat.simps) (simp add: dec_val_def of_char_digit)
  next
    case False
    with "1" show ?thesis
      by (subst dec_of_nat.simps) (simp add: dec_val_snoc of_char_digit)
  qed
qed

lemma hd_dec_of_nat_digit: "is_digit (hd (dec_of_nat n))"
  using dec_of_nat_digits [of n] by (metis dec_of_nat_nonempty hd_in_set)

lemma digit_no_sign: "is_digit c \<Longrightarrow> c \<noteq> CHR ''-'' \<and> c \<noteq> CHR ''+''"
  by (auto simp: is_digit_def)

lemma skip_space_nonspace: "s \<noteq> [] \<Longrightarrow> \<not> is_space (hd s) \<Longrightarrow> skip_space s = s"
  by (cases s) (auto simp: skip_space_def)

text \<open>Scanning reads back what printing wrote, up to the first character that is no digit.\<close>

lemma scan_int_dec_of_nat:
  assumes "t = [] \<or> \<not> is_digit (hd t)"
  shows "scan_int (dec_of_nat n @ t) = Some (int n, t)"
proof -
  let ?s = "dec_of_nat n @ t"
  have hd: "hd ?s = hd (dec_of_nat n)" "?s \<noteq> []" by simp_all
  have skip: "skip_space ?s = ?s"
    using hd digit_not_space [OF hd_dec_of_nat_digit] by (metis skip_space_nonspace)
  have sign: "hd ?s \<noteq> CHR ''-''" "hd ?s \<noteq> CHR ''+''"
    using digit_no_sign [OF hd_dec_of_nat_digit] hd by simp_all
  have tw: "takeWhile is_digit ?s = dec_of_nat n"
    using assms dec_of_nat_digits by (cases t) (auto simp: takeWhile_all_append)
  have dw: "dropWhile is_digit ?s = t"
    using assms dec_of_nat_digits by (cases t) (auto simp: dropWhile_all_append)
  show ?thesis
    using sign by (simp add: scan_int_def skip tw dw Let_def)
qed

section \<open>Tokens\<close>

text \<open>
  One call of \<open>strtok\<close>: skip delimiters, take the token up to the next delimiter, remember what
  follows it. \<open>None\<close> is the null pointer.
\<close>

definition strtok :: "char \<Rightarrow> string \<Rightarrow> (string \<times> string) option" where
  "strtok d s =
     (let t = dropWhile (\<lambda>c. c = d) s
      in if t = [] then None
         else Some (takeWhile (\<lambda>c. c \<noteq> d) t, drop 1 (dropWhile (\<lambda>c. c \<noteq> d) t)))"

lemma strtok_length: "strtok d s = Some (tok, rest) \<Longrightarrow> length rest < length s"
proof -
  assume tok: "strtok d s = Some (tok, rest)"
  let ?t = "dropWhile (\<lambda>c. c = d) s"
  have ne: "?t \<noteq> []" and rest: "rest = drop 1 (dropWhile (\<lambda>c. c \<noteq> d) ?t)"
    using tok by (simp_all add: strtok_def Let_def split: if_splits)
  have "length rest \<le> length ?t - 1"
    using rest length_dropWhile_le [of "\<lambda>c. c \<noteq> d" ?t] by simp
  moreover have "length ?t \<le> length s" by (rule length_dropWhile_le)
  ultimately show ?thesis
    using ne by (cases ?t) auto
qed

lemma strtok_line:
  assumes "tok \<noteq> []" and "d \<notin> set tok"
  shows "strtok d (tok @ d # rest) = Some (tok, rest)"
proof -
  have "hd tok \<noteq> d" using assms by auto
  then have "dropWhile (\<lambda>c. c = d) (tok @ d # rest) = tok @ d # rest"
    using assms(1) by (cases tok) auto
  moreover have "takeWhile (\<lambda>c. c \<noteq> d) (tok @ d # rest) = tok"
    using assms(2) by (subst takeWhile_all_append) auto
  moreover have "dropWhile (\<lambda>c. c \<noteq> d) (tok @ d # rest) = d # rest"
    using assms(2) by (subst dropWhile_all_append) auto
  ultimately show ?thesis by (simp add: strtok_def)
qed

lemma strtok_Nil [simp]: "strtok d [] = None"
  by (simp add: strtok_def)

end
