(* ===== verification/Peer_Env.thy ===== *)
theory Peer_Env
  imports C_Runtime
begin

text \<open>
  What the operating system gives the peers: connected TCP sockets, the scan of the upload directory and
  the file system. None of it is code of the repository, so all of it is data that the definitions of
  the programs take as arguments, with no restriction beyond the documented one that \<open>recv\<close> returns at
  most as many bytes as it was asked for.

  A connection carries the segments that will arrive, in any division of the byte stream, and how the
  stream ends; which of the coming calls of \<open>send\<close> succeed; and the data sent so far.
\<close>

section \<open>Connections\<close>

datatype recv_end = Peer_Closed | Peer_Error

datatype recv_res =
    Got "char list"   \<comment> \<open>a positive return value\<close>
  | Closed            \<comment> \<open>0\<close>
  | Recv_Failed       \<comment> \<open>\<open>SOCKET_ERROR\<close>, that is -1\<close>

record conn =
  inq :: "char list list"
  fin :: recv_end
  sends :: "bool list"     \<comment> \<open>outcome of the coming sends\<close>
  sends_end :: bool        \<comment> \<open>outcome of those beyond the list\<close>
  outq :: "char list list"

fun recv_end_res :: "recv_end \<Rightarrow> recv_res" where
  "recv_end_res Peer_Closed = Closed"
| "recv_end_res Peer_Error = Recv_Failed"

fun recv_queue :: "recv_end \<Rightarrow> nat \<Rightarrow> char list list \<Rightarrow> recv_res \<times> char list list" where
  "recv_queue e n [] = (recv_end_res e, [])"
| "recv_queue e n ([] # q) = recv_queue e n q"
| "recv_queue e n ((b # bs) # q) =
     (if length (b # bs) \<le> n then (Got (b # bs), q)
      else (Got (take n (b # bs)), drop n (b # bs) # q))"

definition sock_recv :: "nat \<Rightarrow> conn \<Rightarrow> recv_res \<times> conn" where
  \<comment> \<open>\<open>recv(socket, buf, n, 0)\<close>\<close>
  "sock_recv n c = (case recv_queue (fin c) n (inq c) of (r, q) \<Rightarrow> (r, c\<lparr>inq := q\<rparr>))"

definition sock_send :: "char list \<Rightarrow> conn \<Rightarrow> bool \<times> conn" where
  \<comment> \<open>\<open>send(socket, data, length, 0) != SOCKET_ERROR\<close>\<close>
  "sock_send d c =
     (case sends c of
        False # q \<Rightarrow> (False, c\<lparr>sends := q\<rparr>)
      | True # q \<Rightarrow> (True, c\<lparr>sends := q, outq := outq c @ [d]\<rparr>)
      | [] \<Rightarrow> (if sends_end c then (True, c\<lparr>outq := outq c @ [d]\<rparr>) else (False, c)))"

definition sends_ok :: "conn \<Rightarrow> bool" where
  "sends_ok c \<longleftrightarrow> sends c = [] \<and> sends_end c"

definition pending :: "conn \<Rightarrow> nat" where
  "pending c = sum_list (map length (inq c)) + length (inq c)"

lemma recv_queue_Got:
  "recv_queue e n q = (Got bs, q') \<Longrightarrow>
     concat q = bs @ concat q' \<and> length bs \<le> n \<and> (0 < n \<longrightarrow> bs \<noteq> [])"
proof (induction e n q rule: recv_queue.induct)
  case (1 e n)
  then show ?case by (cases e) auto
next
  case (3 e n b bs q)
  then show ?case
    by (auto split: if_splits simp del: take_append)
qed auto

lemma recv_queue_end:
  "recv_queue e n q = (r, q') \<Longrightarrow> concat q = [] \<Longrightarrow> r = recv_end_res e \<and> q' = []"
  by (induction e n q rule: recv_queue.induct) (auto split: if_splits)

lemma recv_queue_not_Got:
  "recv_queue e n q = (r, q') \<Longrightarrow> (\<forall>bs. r \<noteq> Got bs) \<Longrightarrow> concat q = [] \<and> q' = []"
  by (induction e n q rule: recv_queue.induct) (auto split: if_splits)

lemma recv_queue_nonempty:
  "concat q \<noteq> [] \<Longrightarrow> \<exists>bs q'. recv_queue e n q = (Got bs, q')"
  by (induction e n q rule: recv_queue.induct) auto

lemma recv_queue_pending:
  "recv_queue e n q = (Got bs, q') \<Longrightarrow> 0 < n \<Longrightarrow>
     sum_list (map length q') + length q' < sum_list (map length q) + length q"
proof (induction e n q rule: recv_queue.induct)
  case (1 e n)
  then show ?case by (cases e) auto
next
  case (3 e n b bs q)
  then show ?case by (cases n) (auto split: if_splits)
qed auto

lemma sock_recv_pending: "sock_recv n c = (Got bs, c') \<Longrightarrow> 0 < n \<Longrightarrow> pending c' < pending c"
  by (auto simp: sock_recv_def pending_def dest: recv_queue_pending split: prod.splits)

lemma sock_recv_Got:
  assumes "sock_recv n c = (Got bs, c')"
  shows "concat (inq c) = bs @ concat (inq c')" "length bs \<le> n" "0 < n \<Longrightarrow> bs \<noteq> []"
    "fin c' = fin c" "sends_ok c' = sends_ok c" "outq c' = outq c"
  using assms by (auto simp: sock_recv_def sends_ok_def dest: recv_queue_Got split: prod.splits)

lemma sock_recv_end:
  "concat (inq c) = [] \<Longrightarrow> sock_recv n c = (recv_end_res (fin c), c\<lparr>inq := []\<rparr>)"
  by (auto simp: sock_recv_def dest: recv_queue_end split: prod.splits)

lemma sock_recv_data:
  "concat (inq c) \<noteq> [] \<Longrightarrow> \<exists>bs c'. sock_recv n c = (Got bs, c')"
  using recv_queue_nonempty [of "inq c" "fin c" n] by (auto simp: sock_recv_def)

lemma sock_recv_long:
  assumes "inq c = s # q" and "n \<le> length s" and "0 < n"
  shows "\<exists>c1. sock_recv n c = (Got (take n s), c1)"
proof -
  obtain b bs where s: "s = b # bs" using assms(2,3) by (cases s) auto
  show ?thesis
  proof (cases "length s = n")
    case True
    then show ?thesis using assms(1) s by (auto simp: sock_recv_def)
  next
    case False
    then have "\<not> length (b # bs) \<le> n" using assms(2) s by simp
    then show ?thesis using assms(1) s by (simp add: sock_recv_def)
  qed
qed

lemma sock_recv_other:
  "sock_recv n c = (r, c') \<Longrightarrow> outq c' = outq c \<and> sends_ok c' = sends_ok c \<and> fin c' = fin c"
  by (auto simp: sock_recv_def sends_ok_def split: prod.splits)

lemma sock_send_inq [simp]: "inq (snd (sock_send d c)) = inq c"
  by (auto simp: sock_send_def split: list.splits bool.splits)

lemma sock_send_fin [simp]: "fin (snd (sock_send d c)) = fin c"
  by (auto simp: sock_send_def split: list.splits bool.splits)

lemma sock_send_ok: "sends_ok c \<Longrightarrow> sock_send d c = (True, c\<lparr>outq := outq c @ [d]\<rparr>)"
  by (simp add: sock_send_def sends_ok_def)

section \<open>The upload directory and the file system\<close>

text \<open>
  \<open>FindFirstFile\<close> fails, or gives a first entry that \<open>FindNextFile\<close> continues until it returns 0; the
  last component is what \<open>GetLastError\<close> then returns.
\<close>

record find_data =
  cFileName :: string
  dwFileAttributes :: "32 word"
  nFileSizeHigh :: "32 word"
  nFileSizeLow :: "32 word"

datatype dir_scan =
    Find_Invalid "32 word"
  | Find_Entries find_data "find_data list" "32 word"

type_synonym file_system = "string \<Rightarrow> char list option"

end
