(* ===== verification/File_Server.thy ===== *)
theory File_Server
  imports Peer_Env
begin

text \<open>
  The serving half of a peer, \<open>restructured code/tomypeersV2.c\<close>: \<open>send_file_list\<close>, \<open>create_file_list\<close>,
  \<open>list_directory\<close> and the thread \<open>listen_for_connections\<close>, with the loop that answers the requests of
  one client. Console messages that only trace progress are left out; \<open>list_directory\<close>, whose purpose is
  its output, returns it.
\<close>

section \<open>The file list\<close>

abbreviation newline :: char where "newline \<equiv> CHR 0x0A"

definition listing_line :: "find_data \<Rightarrow> string" where
  "listing_line fd = cFileName fd @ '' ('' @ dec_of_nat (unat (nFileSizeLow fd)) @ '' bytes)'' @ [newline]"

fun append_entries :: "nat \<Rightarrow> string \<Rightarrow> find_data list \<Rightarrow> string res" where
  "append_entries n file_list [] = Inr file_list"
| "append_entries n file_list (fd # fds) =
     bind_res
       (if cFileName fd \<noteq> ''.'' \<and> cFileName fd \<noteq> ''..''
        then bind_res (store_str 256 (listing_line fd)) (\<lambda>file_info. strcat_buf n file_list file_info)
        else Inr file_list)
       (\<lambda>file_list. append_entries n file_list fds)"

definition send_file_list :: "dir_scan \<Rightarrow> conn \<Rightarrow> conn res" where
  "send_file_list dir c =
     (case dir of
        Find_Invalid _ \<Rightarrow> Inr c
      | Find_Entries e es _ \<Rightarrow>
          bind_res (append_entries 1024 [] (e # es)) (\<lambda>file_list. Inr (snd (sock_send file_list c))))"

definition create_file_list :: "string \<Rightarrow> dir_scan \<Rightarrow> string res" where
  "create_file_list file_list dir =
     (case dir of
        Find_Invalid _ \<Rightarrow> Inr file_list
      | Find_Entries e es _ \<Rightarrow> append_entries 2048 file_list (e # es))"

section \<open>The local directory listing\<close>

definition FILE_ATTRIBUTE_DIRECTORY :: "32 word" where "FILE_ATTRIBUTE_DIRECTORY = 0x10"
definition ERROR_NO_MORE_FILES :: "32 word" where "ERROR_NO_MORE_FILES = 18"

datatype dir_line = Entry string "64 word" | List_Error "32 word"

definition full_size :: "find_data \<Rightarrow> 64 word" where
  "full_size fd = push_bit 32 (ucast (nFileSizeHigh fd)) + ucast (nFileSizeLow fd)"

definition list_directory :: "dir_scan \<Rightarrow> dir_line list" where
  "list_directory dir =
     (case dir of
        Find_Invalid err \<Rightarrow> [List_Error err]
      | Find_Entries e es err \<Rightarrow>
          map (\<lambda>fd. Entry (cFileName fd) (full_size fd))
            (filter (\<lambda>fd. and (dwFileAttributes fd) FILE_ATTRIBUTE_DIRECTORY = 0) (e # es))
          @ (if err \<noteq> ERROR_NO_MORE_FILES then [List_Error err] else []))"

section \<open>Answering the requests of one client\<close>

function send_chunks :: "char list \<Rightarrow> conn \<Rightarrow> conn" where
  \<comment> \<open>\<open>while ((bytes_read = fread(file_buffer, 1, 3072, file)) > 0)\<close>\<close>
  "send_chunks content c =
     (let file_buffer = take 3072 content
      in if file_buffer = [] then c
         else case sock_send file_buffer c of
                (False, c') \<Rightarrow> c'
              | (True, c') \<Rightarrow> send_chunks (drop 3072 content) c')"
  by pat_completeness auto
termination
  by (relation "measure (\<lambda>(content, c). length content)") auto

declare send_chunks.simps [simp del]

definition serve_request :: "file_system \<Rightarrow> string \<Rightarrow> string \<Rightarrow> conn \<Rightarrow> conn" where
  "serve_request fs file_list file_name c =
     (if strstr_found file_list file_name
      then let upload_path = snprintf_s 128 ''upload/'' file_name
           in case fs upload_path of
                Some content \<Rightarrow> send_chunks content c
              | None \<Rightarrow> c
      else snd (sock_send ''File does not exist.'' c))"

lemma send_chunks_inq [simp]: "inq (send_chunks content c) = inq c"
proof (induction content c rule: send_chunks.induct)
  case (1 content c)
  show ?case
  proof (cases "take 3072 content = []")
    case True
    then show ?thesis by (subst send_chunks.simps) simp
  next
    case False
    obtain ok c' where s: "sock_send (take 3072 content) c = (ok, c')" by force
    then have "inq c' = inq c" by (metis sock_send_inq snd_conv)
    with "1" [OF refl False s [symmetric]] s False show ?thesis
      by (subst send_chunks.simps) (auto split: bool.splits)
  qed
qed

lemma serve_request_inq [simp]: "inq (serve_request fs fl name c) = inq c"
  by (simp add: serve_request_def Let_def split: option.splits)

function serve_client :: "file_system \<Rightarrow> string \<Rightarrow> conn \<Rightarrow> conn res" where
  "serve_client fs file_list c =
     (case sock_recv 128 c of
        (Got bytes, c1) \<Rightarrow>
          (case nul_terminate 128 bytes of
             Inl e \<Rightarrow> Inl e
           | Inr file_name \<Rightarrow>
               let c2 = serve_request fs file_list file_name c1
               in if file_name \<noteq> ''exit'' then serve_client fs file_list c2 else Inr c2)
      | (Closed, c1) \<Rightarrow> Inr c1
      | (Recv_Failed, c1) \<Rightarrow> Inr c1)"
  by pat_completeness auto
termination
proof (relation "measure (\<lambda>(fs, fl, c). pending c)", goal_cases)
  case (2 fs fl c r c1 bytes file_name c2)
  then have "pending c2 = pending c1" by (simp add: pending_def)
  moreover have "pending c1 < pending c"
    using 2 sock_recv_pending [of 128 c bytes c1] by simp
  ultimately show ?case by simp
qed simp

declare serve_client.simps [simp del]

section \<open>The listening thread\<close>

record incoming =
  client :: conn
  dir_sent :: dir_scan      \<comment> \<open>the directory as \<open>send_file_list\<close> finds it\<close>
  dir_checked :: dir_scan   \<comment> \<open>the directory as \<open>create_file_list\<close> finds it\<close>

definition handle_connection :: "file_system \<Rightarrow> incoming \<Rightarrow> conn res" where
  "handle_connection fs i =
     bind_res (send_file_list (dir_sent i) (client i)) (\<lambda>c.
     bind_res (create_file_list [] (dir_checked i)) (\<lambda>file_list.
     serve_client fs file_list c))"

datatype listen_stage =
    Socket_Failed | Bind_Failed | Hostname_Failed | Hostinfo_Failed | Listen_Failed | Accept_Failed
  | Accepting

record listener =
  stage :: listen_stage
  listen_closed :: bool
  served :: "conn list"

record os_setup =
  socket_ok :: bool
  bind_ok :: bool
  gethostname_ok :: bool
  gethostbyname_ok :: bool
  listen_ok :: bool

text \<open>
  The accept loop over the connections that arrive; \<open>None\<close> is \<open>INVALID_SOCKET\<close>. When they are used up the
  thread waits in \<open>accept\<close>.
\<close>

fun accept_loop :: "file_system \<Rightarrow> incoming option list \<Rightarrow> conn list \<Rightarrow> listener res" where
  "accept_loop fs [] acc = Inr \<lparr>stage = Accepting, listen_closed = False, served = acc\<rparr>"
| "accept_loop fs (None # arrivals) acc =
     Inr \<lparr>stage = Accept_Failed, listen_closed = True, served = acc\<rparr>"
| "accept_loop fs (Some i # arrivals) acc =
     bind_res (handle_connection fs i) (\<lambda>c. accept_loop fs arrivals (acc @ [c]))"

definition listen_for_connections ::
    "os_setup \<Rightarrow> file_system \<Rightarrow> incoming option list \<Rightarrow> listener res" where
  "listen_for_connections os fs arrivals =
     (if \<not> socket_ok os then Inr \<lparr>stage = Socket_Failed, listen_closed = False, served = []\<rparr>
      else if \<not> bind_ok os then Inr \<lparr>stage = Bind_Failed, listen_closed = True, served = []\<rparr>
      else if \<not> gethostname_ok os then Inr \<lparr>stage = Hostname_Failed, listen_closed = True, served = []\<rparr>
      else if \<not> gethostbyname_ok os then Inr \<lparr>stage = Hostinfo_Failed, listen_closed = True, served = []\<rparr>
      else if \<not> listen_ok os then Inr \<lparr>stage = Listen_Failed, listen_closed = True, served = []\<rparr>
      else accept_loop fs arrivals [])"

section \<open>Lemmas on the file list\<close>

definition visible :: "find_data \<Rightarrow> bool" where
  "visible fd \<longleftrightarrow> cFileName fd \<noteq> ''.'' \<and> cFileName fd \<noteq> ''..''"

definition listing :: "find_data list \<Rightarrow> string" where
  "listing fds = concat (map listing_line (filter visible fds))"

lemma listing_simps [simp, text_simps]:
  "listing [] = []"
  "listing (fd # fds) = (if visible fd then listing_line fd @ listing fds else listing fds)"
  by (simp_all add: listing_def)

lemma listing_line_nonempty [simp]: "listing_line fd \<noteq> []"
  by (simp add: listing_line_def)

lemma listing_none: "\<forall>fd \<in> set fds. \<not> visible fd \<Longrightarrow> listing fds = []"
  by (induction fds) auto

lemma append_entries_Inr:
  "append_entries n fl fds = Inr r \<longleftrightarrow>
     r = fl @ listing fds \<and> (\<forall>fd \<in> set fds. visible fd \<longrightarrow> length (listing_line fd) < 256) \<and>
     ((\<exists>fd \<in> set fds. visible fd) \<longrightarrow> length (fl @ listing fds) < n)"
proof (induction fds arbitrary: fl)
  case Nil
  then show ?case by auto
next
  case (Cons fd fds)
  have "append_entries n fl (fd # fds) = Inr r \<longleftrightarrow>
      (if visible fd
       then length (listing_line fd) < 256 \<and> length (fl @ listing_line fd) < n \<and>
            append_entries n (fl @ listing_line fd) fds = Inr r
       else append_entries n fl fds = Inr r)"
    by (simp add: visible_def strcat_buf_def store_str_def)
  then show ?case
    by (auto simp: Cons.IH listing_none simp del: append_entries.simps)
qed

lemma append_entries_Inl:
  "append_entries n fl fds = Inl e \<Longrightarrow> e = Buffer_Overflow"
  by (induction fds arbitrary: fl)
     (auto simp: strcat_buf_def store_str_def bind_res_def split: if_splits sum.splits)

section \<open>Lemmas on the transfer of a file\<close>

lemma send_chunks_Nil [simp]: "send_chunks [] c = c"
  by (subst send_chunks.simps) simp

lemma send_chunks_prefix:
  "\<exists>k. concat (outq (send_chunks content c)) = concat (outq c) @ take k content"
proof (induction content c rule: send_chunks.induct)
  case (1 content c)
  show ?case
  proof (cases "take 3072 content = []")
    case True
    then show ?thesis
      by (subst send_chunks.simps) (auto intro: exI [of _ 0])
  next
    case False
    obtain ok c' where s: "sock_send (take 3072 content) c = (ok, c')" by force
    show ?thesis
    proof (cases ok)
      case ok: True
      then have out: "concat (outq c') = concat (outq c) @ take 3072 content"
        using s by (auto simp: sock_send_def split: list.splits bool.splits if_splits)
      obtain k where "concat (outq (send_chunks (drop 3072 content) c')) =
          concat (outq c') @ take k (drop 3072 content)"
        using "1" [OF refl False s [symmetric]] ok by auto
      then have "concat (outq (send_chunks content c)) = concat (outq c) @ take (3072 + k) content"
        using ok s False out by (subst send_chunks.simps) (simp add: take_add)
      then show ?thesis by blast
    next
      case False2: False
      then have "outq c' = outq c"
        using s by (auto simp: sock_send_def split: list.splits bool.splits if_splits)
      then show ?thesis
        using False2 s False by (subst send_chunks.simps) (auto intro: exI [of _ 0])
    qed
  qed
qed

lemma send_chunks_all:
  "sends_ok c \<Longrightarrow> concat (outq (send_chunks content c)) = concat (outq c) @ content \<and>
     sends_ok (send_chunks content c) \<and>
     (\<forall>d \<in> set (outq (send_chunks content c)). d \<in> set (outq c) \<or> d \<noteq> [] \<and> length d \<le> 3072)"
proof (induction content c rule: send_chunks.induct)
  case (1 content c)
  show ?case
  proof (cases "take 3072 content = []")
    case True
    with "1.prems" show ?thesis by simp
  next
    case False
    let ?c = "c\<lparr>outq := outq c @ [take 3072 content]\<rparr>"
    have s: "sock_send (take 3072 content) c = (True, ?c)"
      using "1.prems" by (rule sock_send_ok)
    have step: "send_chunks content c = send_chunks (drop 3072 content) ?c"
      using False s by (subst send_chunks.simps) simp
    have "sends_ok ?c" using "1.prems" by (simp add: sends_ok_def)
    from "1.IH" [OF refl False s [symmetric] refl this] show ?thesis
      using False by (auto simp: step)
  qed
qed

section \<open>Properties of the server\<close>

definition listing_fits :: "nat \<Rightarrow> find_data list \<Rightarrow> bool" where
  "listing_fits n fds \<longleftrightarrow>
     (\<forall>fd \<in> set fds. visible fd \<longrightarrow> length (listing_line fd) < 256) \<and>
     ((\<exists>fd \<in> set fds. visible fd) \<longrightarrow> length (listing fds) < n)"

lemma append_entries_eq:
  "append_entries n [] fds = (if listing_fits n fds then Inr (listing fds) else Inl Buffer_Overflow)"
proof (cases "append_entries n [] fds")
  case (Inl e)
  then have "\<not> listing_fits n fds"
    using append_entries_Inr [of n "[]" fds "listing fds"] by (auto simp: listing_fits_def)
  with Inl append_entries_Inl [OF Inl] show ?thesis by simp
next
  case (Inr r)
  with append_entries_Inr [of n "[]" fds r] show ?thesis by (simp add: listing_fits_def)
qed

text \<open>
  C29: \<open>send_file_list\<close> sends one line per directory entry other than \<open>.\<close> and \<open>..\<close>, in the order of
  the scan, exactly when every line is shorter than the 256 bytes of \<open>file_info\<close> and all of them together
  are shorter than the 1024 bytes of \<open>file_list\<close>; otherwise it writes past the end of one of these arrays.
\<close>
theorem send_file_list_spec:
  "send_file_list (Find_Entries e es err) c =
     (if listing_fits 1024 (e # es) then Inr (snd (sock_send (listing (e # es)) c))
      else Inl Buffer_Overflow)"
  by (simp add: send_file_list_def append_entries_eq del: append_entries.simps listing_simps)

text \<open>Confinement: what the requests of a client can reach in the file system.\<close>

definition separators :: "char list" where
  "separators = [CHR ''/'', CHR 0x5C, CHR '':'']"

definition plain_name :: "string \<Rightarrow> bool" where
  "plain_name s \<longleftrightarrow> (\<forall>c \<in> set s. c \<notin> set separators)"

fun scan_entries :: "dir_scan \<Rightarrow> find_data list" where
  "scan_entries (Find_Invalid _) = []"
| "scan_entries (Find_Entries e es _) = e # es"

lemma plain_name_append [simp]: "plain_name (s @ t) \<longleftrightarrow> plain_name s \<and> plain_name t"
  by (auto simp: plain_name_def)

lemma plain_name_Cons [simp]: "plain_name (c # s) \<longleftrightarrow> c \<notin> set separators \<and> plain_name s"
  by (auto simp: plain_name_def)

lemma plain_name_digits: "\<forall>c \<in> set s. is_digit c \<Longrightarrow> plain_name s"
  by (auto simp: plain_name_def separators_def is_digit_def)

lemma plain_name_sublist: "sublist s t \<Longrightarrow> plain_name t \<Longrightarrow> plain_name s"
  by (auto simp: plain_name_def dest: set_mono_sublist)

lemma plain_listing: "\<forall>fd \<in> set fds. plain_name (cFileName fd) \<Longrightarrow> plain_name (listing fds)"
proof (induction fds)
  case (Cons fd fds)
  have "plain_name (dec_of_nat n)" for n by (rule plain_name_digits [OF dec_of_nat_digits])
  then show ?case using Cons by (auto simp: listing_line_def separators_def)
qed (simp add: plain_name_def)

lemma sublist_listing:
  assumes "fd \<in> set fds" and "visible fd"
  shows "sublist (listing_line fd) (listing fds)"
proof -
  have "fd \<in> set (filter visible fds)" using assms by simp
  then obtain ys zs where "filter visible fds = ys @ fd # zs" by (metis split_list)
  then have "listing fds = concat (map listing_line ys) @ listing_line fd @ concat (map listing_line zs)"
    by (simp add: listing_def)
  then show ?thesis unfolding sublist_def by blast
qed

lemma listed_name_found:
  assumes "fd \<in> set fds" and "visible fd"
  shows "strstr_found (listing fds) (cFileName fd)"
proof -
  have "sublist (cFileName fd) (listing_line fd)"
    unfolding listing_line_def by (simp add: sublist_append)
  then show ?thesis
    using sublist_listing [OF assms] sublist_order.order_trans by (auto simp: strstr_found_iff)
qed

lemma create_file_list_listing:
  "create_file_list [] dir = Inr fl \<Longrightarrow> fl = listing (scan_entries dir)"
  by (cases dir) (auto simp: create_file_list_def append_entries_eq
      simp del: append_entries.simps listing_simps(2) split: if_splits)

lemma upload_path: "snprintf_s 128 ''upload/'' name = ''upload/'' @ take 120 name"
  by (simp add: snprintf_s_def)

lemma serve_request_cong:
  assumes "plain_name fl" and "\<And>n. plain_name n \<Longrightarrow> fs (''upload/'' @ n) = fs' (''upload/'' @ n)"
  shows "serve_request fs fl name c = serve_request fs' fl name c"
proof (cases "strstr_found fl name")
  case True
  then have "plain_name name"
    using assms(1) by (auto simp: strstr_found_iff intro: plain_name_sublist)
  then have "plain_name (take 120 name)"
    by (metis append_take_drop_id plain_name_append)
  then show ?thesis
    using assms(2) by (simp add: serve_request_def upload_path Let_def)
qed (simp add: serve_request_def)

lemma serve_client_cong:
  assumes "plain_name fl" and "\<And>n. plain_name n \<Longrightarrow> fs (''upload/'' @ n) = fs' (''upload/'' @ n)"
  shows "serve_client fs fl c = serve_client fs' fl c"
  using assms
proof (induction fs fl c rule: serve_client.induct)
  case (1 fs fl c)
  have eq: "serve_request fs fl name c1 = serve_request fs' fl name c1" for name c1
    using "1.prems" by (intro serve_request_cong) auto
  show ?case
    using "1.IH" "1.prems"
    by (subst (1 2) serve_client.simps)
       (auto simp: eq Let_def split: prod.splits recv_res.splits sum.splits)
qed

text \<open>
  C17: the server is confined to the upload directory. Whatever bytes a client sends, every file
  whose contents can influence the answers is \<open>upload/\<close> followed by a name without a path separator or a
  drive colon: two file systems that agree on those files give the same session, provided that the names
  the directory scan returns contain no separator, as Windows guarantees of file names.
\<close>
theorem serving_confined_to_upload:
  assumes "\<forall>fd \<in> set (scan_entries (dir_checked i)). plain_name (cFileName fd)"
    and "\<forall>n. plain_name n \<longrightarrow> fs (''upload/'' @ n) = fs' (''upload/'' @ n)"
  shows "handle_connection fs i = handle_connection fs' i"
proof -
  have "serve_client fs fl c = serve_client fs' fl c"
    if "create_file_list [] (dir_checked i) = Inr fl" for fl c
    using assms create_file_list_listing [OF that]
    by (intro serve_client_cong) (auto intro: plain_listing)
  then show ?thesis
    by (auto simp: handle_connection_def bind_res_def split: sum.splits)
qed

definition sample_entry :: find_data where
  "sample_entry = \<lparr>cFileName = ''a.txt'', dwFileAttributes = 0x20, nFileSizeHigh = 0, nFileSizeLow = 5\<rparr>"

definition sample_dir :: dir_scan where
  "sample_dir = Find_Entries sample_entry [] ERROR_NO_MORE_FILES"

definition sample_conn :: "char list list \<Rightarrow> conn" where
  "sample_conn q = \<lparr>inq = q, fin = Peer_Closed, sends = [], sends_end = True, outq = []\<rparr>"

definition sample_incoming :: incoming where
  "sample_incoming =
     \<lparr>client = sample_conn [''a.txt'', ''../key''], dir_sent = sample_dir, dir_checked = sample_dir\<rparr>"

theorem serving_confined_to_upload_witness:
  "handle_connection (\<lambda>p. if p = ''upload/a.txt'' then Some ''hello'' else None) sample_incoming =
   handle_connection (\<lambda>p. if p = ''upload/a.txt'' then Some ''hello''
      else if p = ''key'' then Some ''secret'' else None) sample_incoming"
  by (rule serving_confined_to_upload)
     (simp_all add: sample_incoming_def sample_dir_def sample_entry_def plain_name_def separators_def)

lemma serve_request_file:
  assumes "strstr_found fl name" and "length name \<le> 120"
    and "fs (''upload/'' @ name) = Some content" and "sends_ok c"
  shows "concat (outq (serve_request fs fl name c)) = concat (outq c) @ content \<and>
    (\<forall>d \<in> set (outq (serve_request fs fl name c)). d \<in> set (outq c) \<or> d \<noteq> [] \<and> length d \<le> 3072)"
  using assms send_chunks_all [of c content]
  by (simp add: serve_request_def upload_path Let_def)

text \<open>
  A request for a listed name of at most 120 bytes whose file can be opened is answered by exactly the
  contents of \<open>upload/name\<close>, in chunks of at most 3072 bytes, when no \<open>send\<close> fails.
\<close>
lemma serve_request_sends_file:
  assumes "strstr_found fl name" and "length name \<le> 120"
    and "fs (''upload/'' @ name) = Some content" and "sends_ok c"
  shows "concat (outq (serve_request fs fl name c)) = concat (outq c) @ content \<and>
    (\<forall>d \<in> set (outq (serve_request fs fl name c)). d \<in> set (outq c) \<or> d \<noteq> [] \<and> length d \<le> 3072)"
  using assms by (rule serve_request_file)

lemma serve_client_step_Got:
  assumes "sock_recv 128 c = (Got bs, c1)" and "length bs < 128"
  shows "serve_client fs fl c =
    (if cstr bs \<noteq> ''exit'' then serve_client fs fl (serve_request fs fl (cstr bs) c1)
     else Inr (serve_request fs fl (cstr bs) c1))"
  using assms by (subst serve_client.simps) (simp add: nul_terminate_def Let_def)

lemma sock_recv_short:
  assumes "sock_recv n c = (Got bs, c1)" and "\<forall>s \<in> set (inq c). length s < n"
  shows "length bs < n \<and> (\<forall>s \<in> set (inq c1). length s < n)"
proof -
  have "recv_queue e n q = (Got bs, q') \<Longrightarrow> \<forall>s \<in> set q. length s < n \<Longrightarrow>
      length bs < n \<and> (\<forall>s \<in> set q'. length s < n)" for e q q'
    by (induction e n q rule: recv_queue.induct) (auto split: if_splits elim: recv_end_res.elims)
  with assms show ?thesis by (auto simp: sock_recv_def split: prod.splits)
qed

text \<open>
  C35: a session in which every segment that arrives is shorter than the 128 bytes of \<open>file_name\<close> runs to its
  end without touching memory outside the server's arrays; it ends because the client disconnects, the socket
  fails or the client sends \<open>exit\<close>.
\<close>
theorem serve_client_safe:
  assumes "\<forall>s \<in> set (inq c). length s < 128"
  shows "\<exists>c'. serve_client fs fl c = Inr c'"
  using assms
proof (induction fs fl c rule: serve_client.induct)
  case (1 fs fl c)
  show ?case
  proof (cases "sock_recv 128 c")
    case (Pair r c1)
    show ?thesis
    proof (cases r)
      case (Got bs)
      with Pair "1.prems" have short: "length bs < 128" "\<forall>s \<in> set (inq c1). length s < 128"
        using sock_recv_short by blast+
      then have "cstr bs \<noteq> ''exit'' \<Longrightarrow>
          \<exists>c'. serve_client fs fl (serve_request fs fl (cstr bs) c1) = Inr c'"
        using "1.IH" Pair Got by (simp add: nul_terminate_def)
      with Pair Got short show ?thesis
        by (auto simp: serve_client_step_Got)
    qed (use Pair in \<open>subst serve_client.simps; simp\<close>)+
  qed
qed

theorem serve_client_safe_witness:
  "\<exists>c'. serve_client (\<lambda>_. None) ''a.txt (5 bytes)'' (sample_conn [''a.txt'', ''exit'']) = Inr c'"
  by (rule serve_client_safe) (simp add: sample_conn_def)

text \<open>
  A first segment of 128 bytes or more, which any peer can send, makes the server store the terminating NUL
  one byte past the end of \<open>file_name\<close>.
\<close>
lemma serve_client_overflow:
  assumes "inq c = s # q" and "128 \<le> length s"
  shows "serve_client fs fl c = Inl Buffer_Overflow"
proof -
  obtain c1 where "sock_recv 128 c = (Got (take 128 s), c1)"
    using sock_recv_long [OF assms] by auto
  with assms(2) show ?thesis
    by (subst serve_client.simps) (simp add: nul_terminate_def)
qed

text \<open>
  The check of a request against the list is a substring test on the listing text. As soon as one entry is
  listed, the request \<open>bytes\<close>, a word of the listing and no file name, passes it, and when no such file can be
  opened the server sends neither data nor the message that the file does not exist.
\<close>
lemma substring_request_unanswered:
  assumes "create_file_list [] dir = Inr fl" and "fd \<in> set (scan_entries dir)" and "visible fd"
    and "fs ''upload/bytes'' = None"
  shows "strstr_found fl ''bytes'' \<and> serve_request fs fl ''bytes'' c = c"
proof -
  have "sublist ''bytes'' (listing_line fd)"
    unfolding listing_line_def sublist_def
    by (rule exI [of _ "cFileName fd @ '' ('' @ dec_of_nat (unat (nFileSizeLow fd)) @ '' ''"],
        rule exI [of _ "'')'' @ [newline]"]) simp
  moreover have "sublist (listing_line fd) (listing (scan_entries dir))"
    using assms(2,3) by (rule sublist_listing)
  ultimately have "sublist ''bytes'' fl"
    using create_file_list_listing [OF assms(1)] sublist_order.order_trans by blast
  with assms(4) show ?thesis
    by (simp add: serve_request_def strstr_found_iff upload_path)
qed

lemma accept_loop_result:
  "accept_loop fs arrivals acc = Inr l \<Longrightarrow>
     length (served l) = length acc + length (takeWhile (\<lambda>a. a \<noteq> None) arrivals) \<and>
     stage l = (if None \<in> set arrivals then Accept_Failed else Accepting) \<and>
     listen_closed l = (None \<in> set arrivals)"
proof (induction fs arrivals acc rule: accept_loop.induct)
  case (3 fs i arrivals acc)
  then obtain c where "accept_loop fs arrivals (acc @ [c]) = Inr l" by auto
  with 3 show ?case by auto
qed auto

text \<open>
  The listening thread closes its socket on every failure after it was created and on no other
  path, and, when it is set up, it serves every connection accepted before the first failing \<open>accept\<close>.
\<close>
lemma listen_for_connections_outcome:
  assumes "listen_for_connections os fs arrivals = Inr l"
  shows "listen_closed l = (stage l \<noteq> Socket_Failed \<and> stage l \<noteq> Accepting) \<and>
    (stage l = Accepting \<or> stage l = Accept_Failed \<longrightarrow>
       length (served l) = length (takeWhile (\<lambda>a. a \<noteq> None) arrivals))"
  using assms
  by (auto simp: listen_for_connections_def split: if_splits dest: accept_loop_result)

end
