(* ===== verification/Size_Index.thy ===== *)
theory Size_Index
  imports C_Runtime
begin

text \<open>
  The interface between the part of a client that reads the file list of a peer and the part that downloads
  files: an index from file names to sizes. The first program keeps it in a hash table (\<open>Project work
  solo/tomypeers.c\<close>), the restructured one in a linked list (\<open>restructured code/tomypeersV2.c\<close>). They
  disagree on names that occur twice, so the contract speaks of new names only.
\<close>

fun add_all :: "('t \<Rightarrow> string \<Rightarrow> 32 word \<Rightarrow> 't comp) \<Rightarrow> 't \<Rightarrow> (string \<times> 32 word) list \<Rightarrow> 't comp" where
  "add_all add t [] = Some (Inr t)"
| "add_all add t ((k, v) # kvs) = bind_comp (add t k v) (\<lambda>t. add_all add t kvs)"

locale size_index =
  fixes add :: "'t \<Rightarrow> string \<Rightarrow> 32 word \<Rightarrow> 't comp"
    and look :: "'t \<Rightarrow> string \<Rightarrow> 32 word comp"
    and holds :: "'t \<Rightarrow> (string \<rightharpoonup> 32 word) \<Rightarrow> bool"
    and room :: "'t \<Rightarrow> nat"
    and storable :: "string \<Rightarrow> bool"
  assumes look_holds: "holds t m \<Longrightarrow> look t k = Some (Inr (case m k of None \<Rightarrow> 0 | Some v \<Rightarrow> v))"
    and add_holds: "holds t m \<Longrightarrow> m k = None \<Longrightarrow> storable k \<Longrightarrow> 0 < room t \<Longrightarrow>
      \<exists>t'. add t k v = Some (Inr t') \<and> holds t' (m(k \<mapsto> v)) \<and> Suc (room t') = room t"
begin

lemma add_all_holds:
  assumes "holds t m" and "distinct (map fst kvs)" and "\<forall>k \<in> set (map fst kvs). m k = None \<and> storable k"
    and "length kvs \<le> room t"
  shows "\<exists>t'. add_all add t kvs = Some (Inr t') \<and> holds t' (m ++ map_of kvs) \<and>
    room t' + length kvs = room t"
  using assms
proof (induction kvs arbitrary: t m)
  case Nil
  then show ?case by auto
next
  case (Cons kv kvs)
  obtain k v where kv: "kv = (k, v)" by force
  from Cons.prems kv obtain t1 where t1: "add t k v = Some (Inr t1)" "holds t1 (m(k \<mapsto> v))"
      "Suc (room t1) = room t"
    using add_holds [of t m k v] by auto
  have "distinct (map fst kvs)" "\<forall>k' \<in> set (map fst kvs). (m(k \<mapsto> v)) k' = None \<and> storable k'"
      "length kvs \<le> room t1"
    using Cons.prems kv t1(3) by auto
  from Cons.IH [OF t1(2) this] obtain t2 where t2: "add_all add t1 kvs = Some (Inr t2)"
      "holds t2 (m(k \<mapsto> v) ++ map_of kvs)" "room t2 + length kvs = room t1"
    by blast
  have "map_of kvs k = None"
    using Cons.prems(2) kv by (simp add: map_of_eq_None_iff)
  then have eq: "m(k \<mapsto> v) ++ map_of kvs = m ++ map_of (kv # kvs)"
    by (auto simp: kv fun_eq_iff map_add_def split: option.splits)
  show ?case
  proof (intro exI conjI)
    show "add_all add t (kv # kvs) = Some (Inr t2)" using t1 t2 kv by simp
    show "holds t2 (m ++ map_of (kv # kvs))" using t2(2) by (simp only: eq)
    show "room t2 + length (kv # kvs) = room t" using t1 t2 by simp
  qed
qed

lemma look_after_add_all:
  assumes "holds t m" and "distinct (map fst kvs)" and "\<forall>k \<in> set (map fst kvs). m k = None \<and> storable k"
    and "length kvs \<le> room t" and "(k, v) \<in> set kvs"
  shows "bind_comp (add_all add t kvs) (\<lambda>t. look t k) = Some (Inr v)"
proof -
  obtain t' where t': "add_all add t kvs = Some (Inr t')" "holds t' (m ++ map_of kvs)"
    using add_all_holds [OF assms(1-4)] by blast
  have "(m ++ map_of kvs) k = Some v"
    using assms(2,5) by (simp add: map_add_find_right)
  with t' show ?thesis by (simp add: look_holds)
qed

end

end
