(* ===== verification/File_List.thy ===== *)
theory File_List
  imports Size_Index
begin

text \<open>
  The linked list of file names and sizes of \<open>restructured code/tomypeersV2.c\<close> (\<open>createNode\<close>,
  \<open>appendNode\<close>, \<open>printlist\<close>, \<open>freelist\<close>, \<open>get_filesize\<close>) on an explicit heap, so that freed nodes are
  distinguished from live ones. A pointer is an address option, \<open>None\<close> the null pointer. \<open>malloc\<close>
  gives addresses that were never used before and fails when the heap's limit is reached; a
  pointer to a freed node stays invalid, as in the C abstract machine.
\<close>

record filenode =
  filename :: string
  filesize :: "32 word"
  "next" :: "nat option"

record heap =
  cells :: "nat \<rightharpoonup> filenode"
  fresh :: nat
  limit :: nat

section \<open>Operations\<close>

definition createNode :: "heap \<Rightarrow> string \<Rightarrow> 32 word \<Rightarrow> (heap \<times> nat) res" where
  "createNode h name sz =
     (if fresh h < limit h
      then Inr (h\<lparr>cells := (cells h)(fresh h \<mapsto> \<lparr>filename = take 71 name, filesize = sz, next = None\<rparr>),
                  fresh := Suc (fresh h)\<rparr>, fresh h)
      else Inl (Exit_Status 1))"

partial_function (option) last_node :: "(nat \<rightharpoonup> filenode) \<Rightarrow> nat \<Rightarrow> nat comp" where
  "last_node m temp =
     (case m temp of
        None \<Rightarrow> Some (Inl Use_After_Free)
      | Some nd \<Rightarrow> (case next nd of None \<Rightarrow> Some (Inr temp) | Some p \<Rightarrow> last_node m p))"

definition appendNode :: "heap \<Rightarrow> nat option \<Rightarrow> string \<Rightarrow> 32 word \<Rightarrow> (heap \<times> nat option) comp" where
  "appendNode h start name sz =
     (case createNode h name sz of
        Inl e \<Rightarrow> Some (Inl e)
      | Inr (h, newNode) \<Rightarrow>
          (case start of
             None \<Rightarrow> Some (Inr (h, Some newNode))
           | Some p \<Rightarrow>
               bind_comp (last_node (cells h) p) (\<lambda>temp.
               case cells h temp of
                 None \<Rightarrow> Some (Inl Use_After_Free)
               | Some nd \<Rightarrow>
                   Some (Inr (h\<lparr>cells := (cells h)(temp \<mapsto> nd\<lparr>next := Some newNode\<rparr>)\<rparr>, start)))))"

partial_function (option) print_nodes ::
    "(nat \<rightharpoonup> filenode) \<Rightarrow> nat option \<Rightarrow> (string \<times> 32 word) list \<Rightarrow> (string \<times> 32 word) list comp" where
  "print_nodes m temp out =
     (case temp of
        None \<Rightarrow> Some (Inr out)
      | Some p \<Rightarrow>
          (case m p of
             None \<Rightarrow> Some (Inl Use_After_Free)
           | Some nd \<Rightarrow> print_nodes m (next nd) (out @ [(filename nd, filesize nd)])))"

datatype list_output = List_Empty | List_Lines "(string \<times> 32 word) list"

definition printlist :: "heap \<Rightarrow> nat option \<Rightarrow> list_output comp" where
  "printlist h start =
     (if start = None then Some (Inr List_Empty)
      else bind_comp (print_nodes (cells h) start []) (\<lambda>out. Some (Inr (List_Lines out))))"

partial_function (option) free_nodes ::
    "(nat \<rightharpoonup> filenode) \<Rightarrow> nat option \<Rightarrow> (nat \<rightharpoonup> filenode) comp" where
  "free_nodes m start =
     (case start of
        None \<Rightarrow> Some (Inr m)
      | Some temp \<Rightarrow>
          (case m temp of
             None \<Rightarrow> Some (Inl Use_After_Free)
           | Some nd \<Rightarrow> free_nodes (m(temp := None)) (next nd)))"

definition freelist :: "heap \<Rightarrow> nat option \<Rightarrow> heap comp" where
  "freelist h start = bind_comp (free_nodes (cells h) start) (\<lambda>m. Some (Inr (h\<lparr>cells := m\<rparr>)))"

partial_function (option) find_size ::
    "(nat \<rightharpoonup> filenode) \<Rightarrow> string \<Rightarrow> nat option \<Rightarrow> 32 word comp" where
  "find_size m name current =
     (case current of
        None \<Rightarrow> Some (Inr 0)
      | Some p \<Rightarrow>
          (case m p of
             None \<Rightarrow> Some (Inl Use_After_Free)
           | Some nd \<Rightarrow> if filename nd = name then Some (Inr (filesize nd)) else find_size m name (next nd)))"

definition get_filesize :: "heap \<Rightarrow> string \<Rightarrow> nat option \<Rightarrow> 32 word comp" where
  "get_filesize h name start = find_size (cells h) name start"

section \<open>Lists in the heap\<close>

text \<open>
  \<open>list_at m p as xs\<close>: from \<open>p\<close>, the nodes at the addresses \<open>as\<close>, all distinct, hold the entries \<open>xs\<close> and
  the last one's link is null.
\<close>

fun list_at :: "(nat \<rightharpoonup> filenode) \<Rightarrow> nat option \<Rightarrow> nat list \<Rightarrow> (string \<times> 32 word) list \<Rightarrow> bool" where
  "list_at m p [] [] = (p = None)"
| "list_at m p (a # as) (x # xs) =
     (p = Some a \<and> a \<notin> set as \<and>
      (case m a of None \<Rightarrow> False
       | Some nd \<Rightarrow> (filename nd, filesize nd) = x \<and> list_at m (next nd) as xs))"
| "list_at m p _ _ = False"

definition heap_list :: "heap \<Rightarrow> nat option \<Rightarrow> (string \<times> 32 word) list \<Rightarrow> bool" where
  "heap_list h p xs \<longleftrightarrow> (\<exists>as. list_at (cells h) p as xs) \<and> (\<forall>a. cells h a \<noteq> None \<longrightarrow> a < fresh h)"

lemma list_at_None [simp, heap_simps]: "list_at m None as xs \<longleftrightarrow> as = [] \<and> xs = []"
  by (cases "(m, None :: nat option, as, xs)" rule: list_at.cases) auto

lemma list_at_Some [heap_simps]:
  "list_at m (Some a) as xs \<longleftrightarrow>
     (\<exists>as' xs' nd. as = a # as' \<and> xs = (filename nd, filesize nd) # xs' \<and> m a = Some nd \<and> a \<notin> set as' \<and>
        list_at m (next nd) as' xs')"
  by (cases "(m, Some a, as, xs)" rule: list_at.cases) (auto split: option.splits)

lemma list_at_length: "list_at m p as xs \<Longrightarrow> length as = length xs"
  by (induction m p as xs rule: list_at.induct) (auto split: option.splits)

lemma list_at_dom: "list_at m p as xs \<Longrightarrow> a \<in> set as \<Longrightarrow> m a \<noteq> None"
  by (induction m p as xs rule: list_at.induct) (auto split: option.splits)

lemma list_at_frame [heap_simps]:
  "a \<notin> set as \<Longrightarrow> list_at (m(a := v)) p as xs = list_at m p as xs"
  by (induction m p as xs rule: list_at.induct) (auto split: option.splits)

lemma find_size_list:
  "list_at m p as xs \<Longrightarrow>
     find_size m name p = Some (Inr (case map_of xs name of None \<Rightarrow> 0 | Some s \<Rightarrow> s))"
proof (induction m p as xs rule: list_at.induct)
  case (1 m p)
  then show ?case by (subst find_size.simps) simp
next
  case (2 m p a as x xs)
  then show ?case by (subst find_size.simps) (auto split: option.splits)
qed auto

lemma print_nodes_list: "list_at m p as xs \<Longrightarrow> print_nodes m p out = Some (Inr (out @ xs))"
proof (induction m p as xs arbitrary: out rule: list_at.induct)
  case (1 m p)
  then show ?case by (subst print_nodes.simps) simp
next
  case (2 m p a as x xs)
  then show ?case by (subst print_nodes.simps) (auto split: option.splits)
qed auto

lemma free_nodes_list: "list_at m p as xs \<Longrightarrow> free_nodes m p = Some (Inr (m |` (- set as)))"
proof (induction as arbitrary: m p xs)
  case Nil
  then show ?case by (cases xs) (subst free_nodes.simps; simp add: restrict_map_def)+
next
  case (Cons a as)
  then obtain nd xs' where nd: "p = Some a" "m a = Some nd" "a \<notin> set as" "list_at m (next nd) as xs'"
    by (cases xs) (auto split: option.splits)
  then have "list_at (m(a := None)) (next nd) as xs'"
    by (simp add: list_at_frame)
  then have "free_nodes (m(a := None)) (next nd) = Some (Inr ((m(a := None)) |` (- set as)))"
    by (rule Cons.IH)
  moreover have "(m(a := None)) |` (- set as) = m |` (- set (a # as))"
    by (auto simp: restrict_map_def fun_eq_iff)
  ultimately show ?case
    using nd by (subst free_nodes.simps) simp
qed

lemma last_node_list:
  assumes "list_at m (Some p) as xs"
  shows "last_node m p = Some (Inr (last as)) \<and> m (last as) \<noteq> None"
  using assms
proof (induction as arbitrary: p xs)
  case Nil
  then show ?case by (simp add: list_at_Some)
next
  case (Cons a as)
  then obtain nd xs' where nd: "p = a" "m a = Some nd" "list_at m (next nd) as xs'"
    by (auto simp: list_at_Some)
  show ?case
  proof (cases "next nd")
    case None
    with nd show ?thesis by (subst last_node.simps) auto
  next
    case (Some q)
    with nd have "last_node m q = Some (Inr (last as)) \<and> m (last as) \<noteq> None" "as \<noteq> []"
      using Cons.IH [of q xs'] by (auto simp: list_at_Some)
    with nd Some show ?thesis by (subst last_node.simps) auto
  qed
qed

lemma list_at_snoc:
  assumes "list_at m p as xs" and "as \<noteq> []" and "b \<notin> set as"
    and "m (last as) = Some nd" and "m b = Some nb" and "next nb = None"
  shows "list_at (m(last as \<mapsto> nd\<lparr>next := Some b\<rparr>)) p (as @ [b]) (xs @ [(filename nb, filesize nb)])"
  using assms
proof (induction m p as xs rule: list_at.induct)
  case (2 m p a as x xs)
  show ?case
  proof (cases as)
    case Nil
    with 2 show ?thesis by (cases xs) (auto split: option.splits)
  next
    case (Cons a' as')
    then have "last as \<in> set as" by simp
    with 2 Cons show ?thesis by (auto split: option.splits)
  qed
qed auto

section \<open>Refinement of an association list\<close>

lemma appendNode_list:
  assumes "heap_list h start xs" and "fresh h < limit h"
  shows "\<exists>h' start'. appendNode h start name sz = Some (Inr (h', start')) \<and>
    heap_list h' start' (xs @ [(take 71 name, sz)]) \<and> fresh h' = Suc (fresh h) \<and> limit h' = limit h"
proof -
  let ?nb = "\<lparr>filename = take 71 name, filesize = sz, next = None\<rparr>"
  let ?m = "(cells h)(fresh h \<mapsto> ?nb)"
  obtain as where as: "list_at (cells h) start as xs" and dom: "\<forall>a. cells h a \<noteq> None \<longrightarrow> a < fresh h"
    using assms(1) by (auto simp: heap_list_def)
  then have new: "fresh h \<notin> set as" using list_at_dom by blast
  then have at: "list_at ?m start as xs" using as by (simp add: list_at_frame)
  show ?thesis
  proof (cases start)
    case None
    with as assms(2) dom show ?thesis
      by (auto simp: appendNode_def createNode_def heap_list_def intro!: exI [of _ "[fresh h]"])
  next
    case (Some p)
    with at have "as \<noteq> []" by (auto simp: list_at_Some)
    from last_node_list [of ?m p as xs] at Some obtain nd
      where last: "last_node ?m p = Some (Inr (last as))" "?m (last as) = Some nd" by auto
    have "list_at (?m(last as \<mapsto> nd\<lparr>next := Some (fresh h)\<rparr>)) start (as @ [fresh h])
        (xs @ [(filename ?nb, filesize ?nb)])"
      by (rule list_at_snoc [OF at \<open>as \<noteq> []\<close> new last(2)]) simp_all
    moreover have "last as < fresh h" using as dom \<open>as \<noteq> []\<close> list_at_dom last_in_set by blast
    ultimately show ?thesis
      using Some assms(2) last dom
      by (auto simp: appendNode_def createNode_def heap_list_def simp del: fun_upd_apply)
         (auto split: if_splits simp: less_Suc_eq)
  qed
qed

text \<open>
  On a well-formed list \<open>appendNode\<close> adds the entry at the end, its name cut to the 71 bytes that
  \<open>createNode\<close> keeps, and leaves the list well-formed; it ends the process only when \<open>malloc\<close> fails.
\<close>
lemma appendNode_refines_append:
  assumes "heap_list h start xs"
  shows "if fresh h < limit h
    then \<exists>h' start'. appendNode h start name sz = Some (Inr (h', start')) \<and>
           heap_list h' start' (xs @ [(take 71 name, sz)])
    else appendNode h start name sz = Some (Inl (Exit_Status 1))"
proof (cases "fresh h < limit h")
  case True
  from appendNode_list [OF assms this, of name sz] True show ?thesis by auto
next
  case False
  then show ?thesis by (simp add: appendNode_def createNode_def)
qed

definition empty_heap :: "nat \<Rightarrow> heap" where
  "empty_heap n = \<lparr>cells = Map.empty, fresh = 0, limit = n\<rparr>"

lemma empty_heap_simps [simp]: "fresh (empty_heap n) = 0" "limit (empty_heap n) = n"
  by (simp_all add: empty_heap_def)

lemma heap_list_empty [simp]: "heap_list (empty_heap n) None []"
  by (auto simp: heap_list_def empty_heap_def)

text \<open>
  \<open>get_filesize\<close> ends on every well-formed list and returns the size of the first entry with that
  name, and 0 when there is none.
\<close>
lemma get_filesize_first:
  assumes "heap_list h start xs"
  shows "get_filesize h name start = Some (Inr (case map_of xs name of None \<Rightarrow> 0 | Some s \<Rightarrow> s))"
  using assms by (auto simp: get_filesize_def heap_list_def find_size_list)

lemma printlist_lines:
  "heap_list h start xs \<Longrightarrow>
     printlist h start = Some (Inr (if xs = [] then List_Empty else List_Lines xs))"
  unfolding heap_list_def printlist_def
  by (cases start) (auto simp: print_nodes_list [where out = "[]"], auto simp: list_at_Some)

lemma freelist_list:
  assumes "list_at (cells h) start as xs"
  shows "freelist h start = Some (Inr (h\<lparr>cells := cells h |` (- set as)\<rparr>))"
  using free_nodes_list [OF assms] by (simp add: freelist_def)

lemma appendNode_dangling:
  assumes "cells h p = None" and "fresh h \<noteq> p" and "fresh h < limit h"
  shows "appendNode h (Some p) name sz = Some (Inl Use_After_Free)"
  using assms
  by (simp add: appendNode_def createNode_def last_node.simps [of "(cells h)(fresh h \<mapsto> _)"])

text \<open>
  \<open>freelist\<close> ends on every well-formed list and frees exactly its nodes. It cannot reset the
  caller's pointer: a later \<open>appendNode\<close> through the old pointer of a non-empty list, which is what a second
  \<open>connect\<close> command does, dereferences freed storage.
\<close>
lemma freelist_then_append:
  assumes "list_at (cells h) start as xs" and "\<forall>a. cells h a \<noteq> None \<longrightarrow> a < fresh h"
    and "fresh h < limit h"
  shows "\<exists>h'. freelist h start = Some (Inr h') \<and>
    (\<forall>a. cells h' a = (if a \<in> set as then None else cells h a)) \<and>
    (xs \<noteq> [] \<longrightarrow> appendNode h' start name sz = Some (Inl Use_After_Free))"
proof -
  let ?h = "h\<lparr>cells := cells h |` (- set as)\<rparr>"
  have "appendNode ?h start name sz = Some (Inl Use_After_Free)" if ne: "xs \<noteq> []"
  proof -
    obtain p where p: "start = Some p" "p \<in> set as" "cells h p \<noteq> None"
      using assms(1) ne by (cases start) (auto simp: list_at_Some)
    with assms(2,3) show ?thesis
      by (auto intro!: appendNode_dangling simp: restrict_map_def)
  qed
  then show ?thesis
    using freelist_list [OF assms(1)] by (auto simp: restrict_map_def)
qed

definition sample_heap :: heap where
  "sample_heap = \<lparr>cells = [0 \<mapsto> \<lparr>filename = ''a.txt'', filesize = 5, next = None\<rparr>], fresh = 1, limit = 9\<rparr>"

section \<open>The list as an index of sizes\<close>

definition list_add :: "heap \<times> nat option \<Rightarrow> string \<Rightarrow> 32 word \<Rightarrow> (heap \<times> nat option) comp" where
  "list_add t k v = appendNode (fst t) (snd t) k v"

definition list_look :: "heap \<times> nat option \<Rightarrow> string \<Rightarrow> 32 word comp" where
  "list_look t k = get_filesize (fst t) k (snd t)"

definition list_holds :: "heap \<times> nat option \<Rightarrow> (string \<rightharpoonup> 32 word) \<Rightarrow> bool" where
  "list_holds t m \<longleftrightarrow> (\<exists>xs. heap_list (fst t) (snd t) xs \<and> map_of xs = m)"

definition list_room :: "heap \<times> nat option \<Rightarrow> nat" where
  "list_room t = limit (fst t) - fresh (fst t)"

interpretation fl: size_index list_add list_look list_holds list_room "\<lambda>k. length k \<le> 71"
proof unfold_locales
  fix t m k
  assume "list_holds t m"
  then show "list_look t k = Some (Inr (case m k of None \<Rightarrow> 0 | Some v \<Rightarrow> v))"
    by (auto simp: list_holds_def list_look_def get_filesize_def heap_list_def find_size_list)
next
  fix t m k v
  assume "list_holds t m" and new: "m k = None" and len: "length k \<le> 71" and room: "0 < list_room t"
  then obtain xs where xs: "heap_list (fst t) (snd t) xs" "map_of xs = m"
    by (auto simp: list_holds_def)
  from appendNode_list [OF xs(1), of k v] room obtain h' s'
    where app: "appendNode (fst t) (snd t) k v = Some (Inr (h', s'))" "heap_list h' s' (xs @ [(k, v)])"
      "fresh h' = Suc (fresh (fst t))" "limit h' = limit (fst t)"
    using len by (auto simp: list_room_def)
  moreover have "map_of (xs @ [(k, v)]) = m(k \<mapsto> v)"
    using xs(2) new by (auto simp: fun_eq_iff map_add_def split: option.splits)
  ultimately show "\<exists>t'. list_add t k v = Some (Inr t') \<and> list_holds t' (m(k \<mapsto> v)) \<and>
      Suc (list_room t') = list_room t"
    using room by (auto simp: list_add_def list_holds_def list_room_def intro!: exI [of _ "(h', s')"])
qed

end
