(* ===== verification/Peer_Client.thy ===== *)
theory Peer_Client
  imports File_Server File_List
begin

text \<open>
  The client half of a peer, \<open>restructured code/tomypeersV2.c\<close>: the command loop of \<open>main\<close>,
  \<open>establish_connection\<close>, \<open>recv_and_display_file_list\<close> and \<open>download_files\<close>. The state holds the
  remaining standard input, the current connection, the heap with the list of files and the pointer to it,
  the files written and the results shown to the user. The environment says which connections succeed
  and which files can be created.
\<close>

section \<open>State\<close>

datatype report =
    Files_Available string
  | List_Shown list_output
  | Recv_Error
  | Not_There string              \<comment> \<open>\<open>File Does not exist.\<close>\<close>
  | Downloaded string
  | Create_Error string
  | Connect_Failed
  | Connected string string
  | Directory_Shown "dir_line list"
  | Incorrect_Command

record peer =
  inp :: string
  sock :: conn
  hp :: heap
  start :: "nat option"
  files :: "string \<rightharpoonup> char list"
  shown :: "report list"

record peer_env =
  socket_created :: bool
  net :: "string \<Rightarrow> 16 word \<Rightarrow> conn option"   \<comment> \<open>\<open>connect\<close> to a host and a port\<close>
  creatable :: "string \<Rightarrow> bool"                \<comment> \<open>\<open>fopen(path, "wb")\<close> succeeds\<close>
  upload_dir :: dir_scan

abbreviation say :: "report \<Rightarrow> peer \<Rightarrow> peer" where
  "say n w \<equiv> w\<lparr>shown := shown w @ [n]\<rparr>"

section \<open>The file list of the other peer\<close>

definition parse_entry :: "string \<Rightarrow> (string \<times> 32 word) res" where
  \<comment> \<open>\<open>sscanf(token, "%s (%d bytes)", filename, &filesize)\<close> and the use of both variables after it\<close>
  "parse_entry token =
     (case scan_word token of (w, rest) \<Rightarrow>
        if w = [] then Inl Uninit_Read
        else bind_res (store_str 72 w) (\<lambda>name.
          case skip_space rest of
            [] \<Rightarrow> Inl Uninit_Read
          | c # rest2 \<Rightarrow>
              if c \<noteq> CHR ''('' then Inl Uninit_Read
              else (case scan_int rest2 of
                      None \<Rightarrow> Inl Uninit_Read
                    | Some (v, _) \<Rightarrow>
                        if - (2 ^ 31) \<le> v \<and> v < 2 ^ 31 then Inr (name, of_int v) else Inl Int_Overflow)))"

function load_entries :: "heap \<Rightarrow> nat option \<Rightarrow> string \<Rightarrow> (heap \<times> nat option) comp" where
  \<comment> \<open>the loop over \<open>strtok(file_info, "\n")\<close>\<close>
  "load_entries h p s =
     (case strtok newline s of
        None \<Rightarrow> Some (Inr (h, p))
      | Some (token, rest) \<Rightarrow>
          (case parse_entry token of
             Inl e \<Rightarrow> Some (Inl e)
           | Inr (name, sz) \<Rightarrow>
               bind_comp (appendNode h p name sz) (\<lambda>(h, p). load_entries h p rest)))"
  by pat_completeness auto
termination
  by (relation "measure (\<lambda>(h, p, s). length s)") (auto dest: strtok_length)

declare load_entries.simps [simp del]

definition recv_and_display_file_list :: "peer \<Rightarrow> peer comp" where
  "recv_and_display_file_list w =
     (case sock_recv 2048 (sock w) of (r, c) \<Rightarrow>
        let w = w\<lparr>sock := c\<rparr>;
            loaded = (\<lambda>bytes.
              case nul_terminate 2048 bytes of
                Inl e \<Rightarrow> Some (Inl e)
              | Inr file_info \<Rightarrow>
                  bind_comp (load_entries (hp w) (start w) file_info) (\<lambda>(h, p).
                  Some (Inr (say (Files_Available file_info) w\<lparr>hp := h, start := p\<rparr>))))
        in bind_comp
             (case r of Got bytes \<Rightarrow> loaded bytes | Closed \<Rightarrow> loaded [] | Recv_Failed \<Rightarrow> Some (Inr (say Recv_Error w)))
             (\<lambda>w. bind_comp (printlist (hp w) (start w)) (\<lambda>out. Some (Inr (say (List_Shown out) w)))))"

section \<open>Downloading\<close>

partial_function (option) recv_rest ::
    "32 word \<Rightarrow> 32 word \<Rightarrow> char list \<Rightarrow> conn \<Rightarrow> (char list \<times> conn) comp" where
  \<comment> \<open>\<open>do { recv; fwrite } while (filesize != total_bytes_recv)\<close>\<close>
  "recv_rest fsize total_recv written c =
     (case sock_recv 4096 c of (r, c1) \<Rightarrow>
        (case r of
           Got bytes \<Rightarrow>
             (if fsize \<noteq> total_recv + of_nat (length bytes)
              then recv_rest fsize (total_recv + of_nat (length bytes)) (written @ bytes) c1
              else Some (Inr (written @ bytes, c1)))
         | Closed \<Rightarrow>
             (if fsize \<noteq> total_recv then recv_rest fsize total_recv written c1 else Some (Inr (written, c1)))
         | Recv_Failed \<Rightarrow> Some (Inl Buffer_Overflow)))"

definition store_download :: "peer_env \<Rightarrow> string \<Rightarrow> char list \<Rightarrow> peer \<Rightarrow> peer comp" where
  \<comment> \<open>the file is opened, the first bytes are written, the rest is received\<close>
  "store_download env name bytes w =
     (let path = snprintf_s 128 ''download/'' name;
          total_recv = of_nat (length bytes)
      in if creatable env path
         then bind_comp (get_filesize (hp w) name (start w)) (\<lambda>fsize.
              bind_comp (if fsize \<noteq> total_recv then recv_rest fsize total_recv bytes (sock w)
                         else Some (Inr (bytes, sock w))) (\<lambda>(content, c).
              Some (Inr (say (Downloaded name) (w\<lparr>sock := c, files := (files w)(path \<mapsto> content)\<rparr>)))))
         else Some (Inr (say (Create_Error name) w)))"

definition download_one :: "peer_env \<Rightarrow> peer \<Rightarrow> (bool \<times> peer) comp" where
  \<comment> \<open>one turn of the loop of \<open>download_files\<close>; the flag is the loop condition\<close>
  "download_one env w =
     (case scanf_s 128 (inp w) of
        Inl e \<Rightarrow> Some (Inl e)
      | Inr (token, rest) \<Rightarrow>
          let name = (case token of None \<Rightarrow> [] | Some t \<Rightarrow> t); w = w\<lparr>inp := rest\<rparr>
          in if name = ''exit'' then Some (Inr (False, w))
             else (case sock_recv 4096 (snd (sock_send name (sock w))) of (r, c) \<Rightarrow>
                     let w = w\<lparr>sock := c\<rparr>
                     in (case r of
                           Got bytes \<Rightarrow>
                             (case nul_terminate 4096 bytes of
                                Inl e \<Rightarrow> Some (Inl e)
                              | Inr s \<Rightarrow>
                                  if s = ''File does not exist.'' then Some (Inr (True, say (Not_There name) w))
                                  else bind_comp (store_download env name bytes w) (\<lambda>w. Some (Inr (True, w))))
                         | Closed \<Rightarrow> Some (Inr (True, w))
                         | Recv_Failed \<Rightarrow> Some (Inr (True, w)))))"

partial_function (option) download_loop :: "peer_env \<Rightarrow> peer \<Rightarrow> peer comp" where
  "download_loop env w =
     (case download_one env w of
        None \<Rightarrow> None
      | Some (Inl e) \<Rightarrow> Some (Inl e)
      | Some (Inr (again, w1)) \<Rightarrow> (if again then download_loop env w1 else Some (Inr w1)))"

definition download_files :: "peer_env \<Rightarrow> peer \<Rightarrow> peer comp" where
  "download_files env w =
     bind_comp (printlist (hp w) (start w)) (\<lambda>out. download_loop env (say (List_Shown out) w))"

section \<open>Connecting\<close>

definition dead_conn :: conn where
  \<comment> \<open>a socket that is not connected, or closed: every call on it fails\<close>
  "dead_conn = \<lparr>inq = [], fin = Peer_Error, sends = [], sends_end = False, outq = []\<rparr>"

definition port_of :: "string \<Rightarrow> 16 word" where
  \<comment> \<open>\<open>htons(atoi(port))\<close>, as the number of the port\<close>
  "port_of port = of_int (atoi port)"

definition establish_connection :: "peer_env \<Rightarrow> peer \<Rightarrow> peer res" where
  "establish_connection env w =
     bind_res (scanf_s 16 (inp w)) (\<lambda>(host, rest).
     bind_res (scanf_s 6 rest) (\<lambda>(port, rest).
     case (host, port) of
       (Some host, Some port) \<Rightarrow>
         let w = w\<lparr>inp := rest\<rparr>
         in Inr (say (Connected host port)
              (case (if socket_created env then net env host (port_of port) else None) of
                 Some c \<Rightarrow> w\<lparr>sock := c\<rparr>
               | None \<Rightarrow> say Connect_Failed (w\<lparr>sock := dead_conn\<rparr>)))
     | _ \<Rightarrow> Inl Uninit_Read))"

section \<open>The command loop\<close>

definition command_selection :: "string \<Rightarrow> (int \<times> string) res" where
  \<comment> \<open>any other command reaches \<open>strcmp(command[0], "e")\<close>, which takes a character for an address\<close>
  "command_selection input =
     bind_res (scanf_s 12 input) (\<lambda>(command, rest).
     case command of
       None \<Rightarrow> Inl Uninit_Read
     | Some command \<Rightarrow>
         if command = ''upload_list'' then Inr (2, rest)
         else if command = ''connect'' then Inr (1, rest)
         else Inl Wild_Pointer)"

definition connect_command :: "peer_env \<Rightarrow> peer \<Rightarrow> peer comp" where
  "connect_command env w =
     (case establish_connection env w of
        Inl e \<Rightarrow> Some (Inl e)
      | Inr w \<Rightarrow>
          bind_comp (recv_and_display_file_list w) (\<lambda>w.
          bind_comp (download_files env w) (\<lambda>w.
          let w = w\<lparr>sock := dead_conn\<rparr>  \<comment> \<open>\<open>closesocket(connection)\<close>\<close>
          in bind_comp (freelist (hp w) (start w)) (\<lambda>h. Some (Inr (w\<lparr>hp := h\<rparr>))))))"

definition main_turn :: "peer_env \<Rightarrow> peer \<Rightarrow> (int \<times> peer) comp" where
  \<comment> \<open>one turn of the loop of \<open>main\<close>: the value of \<open>command\<close> that the loop condition tests; the last
      branch is \<open>else if (command = -1)\<close>, an assignment\<close>
  "main_turn env w =
     (case command_selection (inp w) of
        Inl e \<Rightarrow> Some (Inl e)
      | Inr (command, rest) \<Rightarrow>
          let w = w\<lparr>inp := rest\<rparr>
          in if command = 1 then bind_comp (connect_command env w) (\<lambda>w. Some (Inr (command, w)))
             else if command = 2
             then Some (Inr (command, say (Directory_Shown (list_directory (upload_dir env))) w))
             else Some (Inr (-1, say Incorrect_Command w)))"

partial_function (option) main_loop :: "peer_env \<Rightarrow> peer \<Rightarrow> peer comp" where
  "main_loop env w =
     (case main_turn env w of
        None \<Rightarrow> None
      | Some (Inl e) \<Rightarrow> Some (Inl e)
      | Some (Inr (command, w1)) \<Rightarrow> (if command \<noteq> 0 then main_loop env w1 else Some (Inr w1)))"

definition main :: "bool \<Rightarrow> bool \<Rightarrow> peer_env \<Rightarrow> peer \<Rightarrow> int comp" where
  \<comment> \<open>the flags are the success of \<open>WSAStartup\<close> and of the first \<open>socket\<close>; the listening thread runs
      beside the loop\<close>
  "main wsa_started first_socket env w =
     (if \<not> wsa_started then Some (Inr 1)
      else if \<not> first_socket then Some (Inr 1)
      else bind_comp (main_loop env w) (\<lambda>_. Some (Inr 0)))"

section \<open>Reading back a listing\<close>

definition listable :: "find_data \<Rightarrow> bool" where
  "listable fd \<longleftrightarrow> cFileName fd \<noteq> [] \<and> (\<forall>c \<in> set (cFileName fd). \<not> is_space c \<and> c \<noteq> NUL) \<and>
     length (cFileName fd) < 72 \<and> unat (nFileSizeLow fd) < 2 ^ 31"

definition entry_of :: "find_data \<Rightarrow> string \<times> 32 word" where
  "entry_of fd = (cFileName fd, nFileSizeLow fd)"

abbreviation entries :: "find_data list \<Rightarrow> (string \<times> 32 word) list" where
  "entries fds \<equiv> map entry_of (filter visible fds)"

definition line_text :: "find_data \<Rightarrow> string" where
  "line_text fd = cFileName fd @ '' ('' @ dec_of_nat (unat (nFileSizeLow fd)) @ '' bytes)''"

lemma listing_line_text: "listing_line fd = line_text fd @ [newline]"
  by (simp add: listing_line_def line_text_def)

lemma scan_word_word:
  assumes "w \<noteq> []" and "\<forall>c \<in> set w. \<not> is_space c" and "is_space d"
  shows "scan_word (w @ d # t) = (w, d # t)"
proof -
  have "skip_space (w @ d # t) = w @ d # t"
    using assms(1,2) by (intro skip_space_nonspace) auto
  then show ?thesis
    using assms by (simp add: scan_word_def takeWhile_all_append dropWhile_all_append)
qed

lemma line_text_scan:
  assumes "cFileName fd \<noteq> []" and "\<forall>c \<in> set (cFileName fd). \<not> is_space c"
  shows "\<exists>rest rest2 rest3. scan_word (line_text fd) = (cFileName fd, rest) \<and>
    skip_space rest = CHR ''('' # rest2 \<and> scan_int rest2 = Some (uint (nFileSizeLow fd), rest3)"
    and "newline \<notin> set (line_text fd)"
proof -
  let ?d = "dec_of_nat (unat (nFileSizeLow fd))"
  have "scan_word (line_text fd) = (cFileName fd, '' ('' @ ?d @ '' bytes)'')"
    using assms scan_word_word [of "cFileName fd" "CHR '' ''" "CHR ''('' # ?d @ '' bytes)''"]
    by (simp add: line_text_def is_space_def)
  moreover have "skip_space ('' ('' @ ?d @ '' bytes)'') = CHR ''('' # ?d @ '' bytes)''"
    by (simp add: skip_space_def is_space_def)
  moreover have "scan_int (?d @ '' bytes)'') = Some (uint (nFileSizeLow fd), '' bytes)'')"
    by (simp add: scan_int_dec_of_nat is_digit_def)
  ultimately show "\<exists>rest rest2 rest3. scan_word (line_text fd) = (cFileName fd, rest) \<and>
      skip_space rest = CHR ''('' # rest2 \<and> scan_int rest2 = Some (uint (nFileSizeLow fd), rest3)"
    by blast
  have "is_space newline" "\<not> is_digit newline" by (simp_all add: is_space_def is_digit_def)
  then have "newline \<notin> set (cFileName fd)" "newline \<notin> set ?d"
    using assms(2) dec_of_nat_digits by blast+
  then show "newline \<notin> set (line_text fd)" by (simp add: line_text_def)
qed

lemma parse_entry_line: "listable fd \<Longrightarrow> parse_entry (line_text fd) = Inr (entry_of fd)"
proof -
  assume ok: "listable fd"
  have "uint (nFileSizeLow fd) < 2147483648"
    using ok uint_less_of_unat [of "nFileSizeLow fd" 2147483648] by (simp add: listable_def)
  moreover have "- 2147483648 \<le> uint (nFileSizeLow fd)"
    by (rule order_trans [of _ 0]) simp_all
  ultimately show ?thesis
    using ok line_text_scan(1) [of fd]
    by (auto simp: parse_entry_def store_str_def listable_def entry_of_def)
qed

lemma newline_not_in_line: "listable fd \<Longrightarrow> newline \<notin> set (line_text fd)"
  by (rule line_text_scan(2)) (auto simp: listable_def)

lemma NUL_not_in_listing:
  "\<forall>fd \<in> set fds. visible fd \<longrightarrow> listable fd \<Longrightarrow> NUL \<notin> set (listing fds)"
proof (induction fds)
  case (Cons fd fds)
  have "\<not> is_digit NUL" by (simp add: is_digit_def NUL_def)
  then have "NUL \<notin> set (dec_of_nat n)" for n
    using dec_of_nat_digits by blast
  moreover have "NUL \<notin> set '' (''" "NUL \<notin> set '' bytes)''" "NUL \<noteq> newline"
    by (simp_all add: NUL_def)
  ultimately show ?case using Cons by (auto simp: listing_line_def listable_def)
qed simp

lemma load_entries_line:
  assumes "listable fd"
  shows "load_entries h p (listing_line fd @ s) =
    bind_comp (appendNode h p (cFileName fd) (nFileSizeLow fd)) (\<lambda>(h, p). load_entries h p s)"
proof -
  have "line_text fd \<noteq> []" by (simp add: line_text_def)
  then have "strtok newline (listing_line fd @ s) = Some (line_text fd, s)"
    using strtok_line [OF _ newline_not_in_line [OF assms]] by (simp add: listing_line_text)
  then show ?thesis
    by (subst load_entries.simps) (simp add: parse_entry_line [OF assms] entry_of_def)
qed

lemma load_entries_Nil [simp]: "load_entries h p [] = Some (Inr (h, p))"
  by (subst load_entries.simps) simp

lemma load_entries_listing:
  "\<forall>fd \<in> set fds. visible fd \<longrightarrow> listable fd \<Longrightarrow>
     load_entries h p (listing fds) = add_all list_add (h, p) (entries fds)"
proof (induction fds arbitrary: h p)
  case (Cons fd fds)
  then show ?case
    by (auto simp: load_entries_line entry_of_def list_add_def bind_comp_def
        split: option.splits sum.splits)
qed simp

lemma load_entries_heap:
  assumes "\<forall>fd \<in> set fds. visible fd \<longrightarrow> listable fd" and "heap_list h p xs"
    and "fresh h + length (entries fds) \<le> limit h"
  shows "\<exists>h' p'. load_entries h p (listing fds) = Some (Inr (h', p')) \<and>
    heap_list h' p' (xs @ entries fds) \<and> fresh h' = fresh h + length (entries fds) \<and> limit h' = limit h"
  using assms
proof (induction fds arbitrary: h p xs)
  case Nil
  then show ?case by simp
next
  case (Cons fd fds)
  show ?case
  proof (cases "visible fd")
    case True
    with Cons.prems have ok: "listable fd" and "fresh h < limit h" by auto
    with Cons.prems(2) obtain h1 p1 where h1: "appendNode h p (cFileName fd) (nFileSizeLow fd) = Some (Inr (h1, p1))"
        "heap_list h1 p1 (xs @ [entry_of fd])" "fresh h1 = Suc (fresh h)" "limit h1 = limit h"
      using appendNode_list [of h p xs "cFileName fd" "nFileSizeLow fd"]
      by (auto simp: listable_def entry_of_def)
    with Cons.prems True have "fresh h1 + length (entries fds) \<le> limit h1" by simp
    from Cons.IH [OF _ h1(2) this] Cons.prems True h1 ok show ?thesis
      by (simp add: load_entries_line)
  next
    case False
    with Cons show ?thesis by simp
  qed
qed

text \<open>
  C19: the text that the server makes of its directory is read back exactly. When every listed name is
  at most 71 bytes long and free of white space, and every size is below 2 GiB, the client's parsing of the
  listing ends and adds to its list the name and the size of every listed entry, in order.
\<close>
theorem listing_roundtrip:
  assumes "\<forall>fd \<in> set fds. visible fd \<longrightarrow> listable fd" and "heap_list h p xs"
    and "fresh h + length (entries fds) \<le> limit h"
  shows "\<exists>h' p'. load_entries h p (listing fds) = Some (Inr (h', p')) \<and>
    heap_list h' p' (xs @ entries fds)"
  using load_entries_heap [OF assms] by blast

definition sample_fds :: "find_data list" where
  "sample_fds =
     [\<lparr>cFileName = ''.'', dwFileAttributes = 0x10, nFileSizeHigh = 0, nFileSizeLow = 0\<rparr>,
      \<lparr>cFileName = ''a.txt'', dwFileAttributes = 0x20, nFileSizeHigh = 0, nFileSizeLow = 5\<rparr>,
      \<lparr>cFileName = ''b.bin'', dwFileAttributes = 0x20, nFileSizeHigh = 0, nFileSizeLow = 70000\<rparr>]"

lemma sample_fds_ok:
  "\<forall>fd \<in> set sample_fds. visible fd \<longrightarrow> listable fd"
  "entries sample_fds = [(''a.txt'', 5), (''b.bin'', 70000)]"
  by (simp_all add: sample_fds_def visible_def listable_def is_space_def NUL_def entry_of_def)

theorem listing_roundtrip_witness:
  "\<exists>h' p'. load_entries (empty_heap 9) None (listing sample_fds) = Some (Inr (h', p')) \<and>
     heap_list h' p' [(''a.txt'', 5), (''b.bin'', 70000)]"
  using listing_roundtrip [OF sample_fds_ok(1) heap_list_empty [of 9]] by (simp add: sample_fds_ok(2))

text \<open>
  After the list of a peer with pairwise different names has been read, \<open>get_filesize\<close> returns for
  each listed name the size that the peer's directory has for it.
\<close>
lemma size_after_listing:
  assumes "\<forall>fd \<in> set fds. visible fd \<longrightarrow> listable fd" and "distinct (map fst (entries fds))"
    and "length (entries fds) \<le> n" and "fd \<in> set fds" and "visible fd"
  shows "bind_comp (load_entries (empty_heap n) None (listing fds))
    (\<lambda>(h, p). get_filesize h (cFileName fd) p) = Some (Inr (nFileSizeLow fd))"
proof -
  have holds: "list_holds (empty_heap n, None) Map.empty"
    unfolding list_holds_def by (intro exI [of _ "[]"]) simp
  have "bind_comp (add_all list_add (empty_heap n, None) (entries fds)) (\<lambda>t. list_look t (cFileName fd)) =
      Some (Inr (nFileSizeLow fd))"
  proof (rule fl.look_after_add_all [OF holds])
    show "distinct (map fst (entries fds))" by (rule assms(2))
    show "\<forall>k \<in> set (map fst (entries fds)). None = None \<and> length k \<le> 71"
      using assms(1) by (auto simp: entry_of_def listable_def)
    show "length (entries fds) \<le> list_room (empty_heap n, None)"
      using assms(3) by (simp add: list_room_def)
    show "(cFileName fd, nFileSizeLow fd) \<in> set (entries fds)"
      using assms(4,5) by (auto simp: entry_of_def)
  qed
  then show ?thesis
    by (simp add: load_entries_listing [OF assms(1)] list_look_def case_prod_unfold)
qed

end
