(* ===== verification/Peer_Session.thy ===== *)
theory Peer_Session
  imports Peer_Client
begin

text \<open>
  What a session of the restructured program achieves: downloads are complete whenever the peer delivers
  the announced bytes, they never end when it delivers fewer, the transfer of a file from the upload
  directory of one peer to the download directory of another is the identity, the command loop has no
  regular end, and a second \<open>connect\<close> follows the pointer to a list that has been freed.
\<close>

section \<open>The receive loop\<close>

lemma recv_rest_Got:
  assumes "sock_recv 4096 c = (Got bs, c1)"
  shows "recv_rest fsize tot w c =
    (if fsize \<noteq> tot + of_nat (length bs) then recv_rest fsize (tot + of_nat (length bs)) (w @ bs) c1
     else Some (Inr (w @ bs, c1)))"
  using assms by (subst recv_rest.simps) simp

text \<open>
  The receive loops of the two programs share one contract: a step that receives bytes adds them to what is
  written and stops when the total reaches the announced size. It already determines what the loop does
  when the stream holds all the missing bytes.
\<close>

locale receive_loop =
  fixes loop :: "32 word \<Rightarrow> 32 word \<Rightarrow> char list \<Rightarrow> conn \<Rightarrow> (char list \<times> conn) comp"
  assumes loop_Got: "sock_recv 4096 c = (Got bs, c1) \<Longrightarrow>
    loop fsize tot w c =
      (if fsize \<noteq> tot + of_nat (length bs) then loop fsize (tot + of_nat (length bs)) (w @ bs) c1
       else Some (Inr (w @ bs, c1)))"
begin

lemma collects:
  assumes "concat (inq c) = d" and "d \<noteq> []" and "length d < 2 ^ 32" and "fsize = tot + of_nat (length d)"
  shows "\<exists>c'. loop fsize tot w c = Some (Inr (w @ d, c')) \<and> concat (inq c') = []"
  using assms
proof (induction "length d" arbitrary: c d tot w rule: less_induct)
  case less
  obtain bs c1 where r: "sock_recv 4096 c = (Got bs, c1)"
    using less.prems sock_recv_data by blast
  from sock_recv_Got [OF r] less.prems(1) have d: "d = bs @ concat (inq c1)" and ne: "bs \<noteq> []"
    by auto
  show ?case
  proof (cases "concat (inq c1) = []")
    case True
    with d less.prems(4) show ?thesis by (simp add: loop_Got [OF r])
  next
    case False
    let ?d = "concat (inq c1)"
    have len: "length d = length bs + length ?d" using d by simp
    have "(of_nat (length ?d) :: 32 word) \<noteq> 0"
      using False len less.prems(3) word_of_nat_eq_small [where 'a = 32, of "length ?d" 0] by simp
    then have more: "fsize \<noteq> tot + of_nat (length bs)"
      using less.prems(4) len by simp
    have "\<exists>c'. loop fsize (tot + of_nat (length bs)) (w @ bs) c1 = Some (Inr ((w @ bs) @ ?d, c')) \<and>
        concat (inq c') = []"
      by (rule less.hyps) (use ne len less.prems False in auto)
    then show ?thesis
      using more d by (simp add: loop_Got [OF r])
  qed
qed

end

interpretation rr: receive_loop recv_rest
  by unfold_locales (rule recv_rest_Got)

lemma recv_rest_starved:
  assumes "concat (inq c) = []" and "fin c = Peer_Closed" and "fsize \<noteq> tot"
  shows "recv_rest fsize tot w c = None"
proof (rule ccontr)
  assume "recv_rest fsize tot w c \<noteq> None"
  then obtain y where ret: "recv_rest fsize tot w c = Some y" by blast
  have "\<not> (concat (inq c) = [] \<and> fin c = Peer_Closed \<and> fsize \<noteq> tot)"
  proof (rule recv_rest.raw_induct
      [where P = "\<lambda>fsize tot w c y. \<not> (concat (inq c) = [] \<and> fin c = Peer_Closed \<and> fsize \<noteq> tot)",
       OF _ ret])
    fix rec fsize tot w c y
    assume IH: "\<And>fsize tot w c y. rec fsize tot w c = Some y \<Longrightarrow>
        \<not> (concat (inq c) = [] \<and> fin c = Peer_Closed \<and> fsize \<noteq> (tot :: 32 word))"
      and eq: "(case sock_recv 4096 c of (r, c1) \<Rightarrow>
        (case r of
           Got bytes \<Rightarrow>
             (if fsize \<noteq> tot + of_nat (length bytes)
              then rec fsize (tot + of_nat (length bytes)) (w @ bytes) c1
              else Some (Inr (w @ bytes, c1)))
         | Closed \<Rightarrow> (if fsize \<noteq> tot then rec fsize tot w c1 else Some (Inr (w, c1)))
         | Recv_Failed \<Rightarrow> Some (Inl Buffer_Overflow))) = Some y"
    show "\<not> (concat (inq c) = [] \<and> fin c = Peer_Closed \<and> fsize \<noteq> tot)"
    proof
      assume stuck: "concat (inq c) = [] \<and> fin c = Peer_Closed \<and> fsize \<noteq> tot"
      then have "rec fsize tot w (c\<lparr>inq := []\<rparr>) = Some y"
        using eq sock_recv_end [of c 4096] by simp
      from IH [OF this] stuck show False by simp
    qed
  qed
  with assms show False by blast
qed

text \<open>
  C36: a download never ends when the connection is closed early. If the peer closes after fewer bytes than
  the announced size still requires, the receive loop runs forever, whatever it has received.
\<close>
theorem truncated_transfer_hangs:
  assumes "fin c = Peer_Closed" and "length (concat (inq c)) < unat (fsize - tot)"
  shows "recv_rest fsize tot written c = None"
  using assms
proof (induction "length (concat (inq c))" arbitrary: c tot written rule: less_induct)
  case less
  show ?case
  proof (cases "concat (inq c) = []")
    case True
    then have "fsize \<noteq> tot" using less.prems(2) by auto
    with True less.prems(1) show ?thesis by (simp add: recv_rest_starved)
  next
    case False
    then obtain bs c1 where r: "sock_recv 4096 c = (Got bs, c1)" using sock_recv_data by blast
    from sock_recv_Got [OF r] have d: "length (concat (inq c)) = length bs + length (concat (inq c1))"
      and ne: "bs \<noteq> []" and fin: "fin c1 = fin c" by auto
    have lt: "length bs < unat (fsize - tot)" using less.prems(2) d by linarith
    then have un: "unat (fsize - (tot + of_nat (length bs))) = unat (fsize - tot) - length bs"
      by (intro unat_diff_add_of_nat) simp
    then have "fsize \<noteq> tot + of_nat (length bs)" using lt by force
    moreover have "recv_rest fsize (tot + of_nat (length bs)) (written @ bs) c1 = None"
      by (rule less.hyps) (use ne fin less.prems d un in auto)
    ultimately show ?thesis by (simp add: recv_rest_Got [OF r])
  qed
qed

theorem truncated_transfer_hangs_witness:
  "recv_rest 10 4 ''abcd'' (sample_conn [''ef'', ''g'']) = None"
  by (rule truncated_transfer_hangs) (simp_all add: sample_conn_def)

section \<open>One download\<close>

lemma download_path: "snprintf_s 128 ''download/'' name = ''download/'' @ take 118 name"
  by (simp add: snprintf_s_def)

lemma scanf_s_word:
  assumes "scan_word i = (name, rest)" and "name \<noteq> []" and "length name < n" and "NUL \<notin> set name"
  shows "scanf_s n i = Inr (Some name, rest)"
proof -
  obtain c cs where "name = c # cs" using assms(2) by (cases name) auto
  with assms show ?thesis by (simp add: scanf_s_def store_str_def)
qed

lemma sock_recv_first:
  assumes "inq c = seg # q" and "seg \<noteq> []" and "length seg \<le> n"
  shows "sock_recv n c = (Got seg, c\<lparr>inq := q\<rparr>)"
  using assms by (cases seg) (auto simp: sock_recv_def)

lemma store_download_sized:
  assumes "get_filesize (hp w) name (start w) = Some (Inr sz)"
    and sz: "sz = of_nat (length bytes) + of_nat (length (concat (inq (sock w))))"
    and small: "length (concat (inq (sock w))) < 2 ^ 32" and "creatable env (''download/'' @ take 118 name)"
  shows "\<exists>c'. store_download env name bytes w = Some (Inr (say (Downloaded name)
      (w\<lparr>sock := c', files := (files w)(''download/'' @ take 118 name \<mapsto> bytes @ concat (inq (sock w)))\<rparr>))) \<and>
    concat (inq c') = []"
proof (cases "concat (inq (sock w)) = []")
  case True
  with sz assms(1,4) show ?thesis
    by (intro exI [of _ "sock w"]) (simp add: store_download_def download_path del: concat_eq_Nil_conv)
next
  case False
  then have "sz \<noteq> of_nat (length bytes)"
    using sz small word_of_nat_eq_small [where 'a = 32, of "length (concat (inq (sock w)))" 0] by simp
  with rr.collects [OF refl False small sz, of bytes] assms(1,4) show ?thesis
    by (auto simp: store_download_def download_path)
qed

lemma store_download_complete:
  assumes "heap_list (hp w) (start w) xs" and "map_of xs name = Some sz"
    and "length (bytes @ concat (inq (sock w))) = unat sz" and "creatable env (''download/'' @ take 118 name)"
  shows "\<exists>c'. store_download env name bytes w = Some (Inr (say (Downloaded name)
      (w\<lparr>sock := c', files := (files w)(''download/'' @ take 118 name \<mapsto> bytes @ concat (inq (sock w)))\<rparr>))) \<and>
    concat (inq c') = []"
proof (rule store_download_sized [OF _ _ _ assms(4)])
  let ?d = "concat (inq (sock w))"
  show "get_filesize (hp w) name (start w) = Some (Inr sz)"
    using assms(1,2) by (auto simp: get_filesize_def heap_list_def find_size_list)
  have "sz = of_nat (length (bytes @ ?d))" unfolding assms(3) by simp
  then show "sz = of_nat (length bytes) + of_nat (length ?d)" by simp
  have "unat sz < 2 ^ LENGTH(32)" by (rule unsigned_less)
  then show "length ?d < 2 ^ 32" using assms(3) by simp
qed

lemma download_one_stores:
  assumes "scan_word (inp w) = (name, rest)" and "name \<noteq> []" and "name \<noteq> ''exit''" and "length name \<le> 118"
    and "NUL \<notin> set name" and "heap_list (hp w) (start w) xs" and "map_of xs name = Some sz"
    and "inq (sock w) = seg # q" and "seg \<noteq> []" and "length seg < 4096" and "cstr seg \<noteq> ''File does not exist.''"
    and "length (concat (seg # q)) = unat sz" and "creatable env (''download/'' @ name)"
  shows "\<exists>w'. download_one env w = Some (Inr (True, w')) \<and>
    files w' = (files w)(''download/'' @ name \<mapsto> concat (seg # q)) \<and>
    inp w' = rest \<and> concat (inq (sock w')) = []"
proof -
  let ?c = "snd (sock_send name (sock w))"
  let ?w = "w\<lparr>inp := rest, sock := ?c\<lparr>inq := q\<rparr>\<rparr>"
  have scan: "scanf_s 128 (inp w) = Inr (Some name, rest)"
    using assms by (intro scanf_s_word) auto
  have rcv: "sock_recv 4096 ?c = (Got seg, ?c\<lparr>inq := q\<rparr>)"
    using assms by (intro sock_recv_first) auto
  obtain c' where "store_download env name seg ?w = Some (Inr (say (Downloaded name)
      (?w\<lparr>sock := c', files := (files ?w)(''download/'' @ take 118 name \<mapsto> seg @ concat (inq (sock ?w)))\<rparr>)))"
      and "concat (inq c') = []"
    using store_download_complete [of ?w xs name sz seg env] assms by auto
  then show ?thesis
    using assms scan rcv by (simp add: download_one_def nul_terminate_def)
qed

text \<open>
  C2: a download is complete. When the user asks for a listed file and the peer answers with as many bytes
  as the list announces, in any number of segments of any sizes (the first one shorter than the 4096 bytes of
  \<open>recv_buffer\<close> and not the message that the file does not exist), then \<open>download_files\<close> ends this turn,
  the file of that name in the download directory holds exactly these bytes, and nothing of the answer is left
  in the socket.
\<close>
theorem download_complete:
  assumes "scan_word (inp w) = (name, rest)" and "name \<noteq> []" and "name \<noteq> ''exit''" and "length name \<le> 118"
    and "NUL \<notin> set name" and "heap_list (hp w) (start w) xs" and "map_of xs name = Some sz"
    and "inq (sock w) = seg # q" and "seg \<noteq> []" and "length seg < 4096" and "cstr seg \<noteq> ''File does not exist.''"
    and "length (concat (seg # q)) = unat sz" and "creatable env (''download/'' @ name)"
  shows "\<exists>w'. download_one env w = Some (Inr (True, w')) \<and>
    files w' = (files w)(''download/'' @ name \<mapsto> concat (seg # q)) \<and>
    inp w' = rest \<and> concat (inq (sock w')) = []"
  using assms by (rule download_one_stores)

definition sample_peer :: peer where
  "sample_peer = \<lparr>inp = ''a.txt exit'', sock = sample_conn [''he'', ''llo''], hp = sample_heap, start = Some 0,
     files = Map.empty, shown = []\<rparr>"

definition sample_env :: peer_env where
  "sample_env = \<lparr>socket_created = True, net = (\<lambda>_ _. None), creatable = (\<lambda>_. True), upload_dir = sample_dir\<rparr>"

lemma sample_heap_list: "heap_list sample_heap (Some 0) [(''a.txt'', 5)]"
  unfolding heap_list_def by (intro conjI exI [of _ "[0]"]) (simp_all add: sample_heap_def)

theorem download_complete_witness:
  "\<exists>w'. download_one sample_env sample_peer = Some (Inr (True, w')) \<and>
     files w' ''download/a.txt'' = Some ''hello''"
  using download_complete [of sample_peer "''a.txt''" "'' exit''" "[(''a.txt'', 5)]" 5 "''he''" "[''llo'']" sample_env]
    sample_heap_list
  by (auto simp: sample_peer_def sample_env_def sample_conn_def scan_word_def skip_space_def is_space_def NUL_def)

lemma sample_load:
  "load_entries (empty_heap 9) None (listing [sample_entry]) = Some (Inr (sample_heap, Some 0))"
proof -
  have "listable sample_entry" "visible sample_entry"
    by (simp_all add: sample_entry_def listable_def visible_def is_space_def NUL_def)
  then have "load_entries (empty_heap 9) None (listing [sample_entry]) =
      bind_comp (appendNode (empty_heap 9) None ''a.txt'' 5) (\<lambda>(h, p). load_entries h p [])"
    using load_entries_line [of sample_entry "empty_heap 9" None "[]"] by (simp add: sample_entry_def)
  then show ?thesis
    by (simp add: appendNode_def createNode_def empty_heap_def sample_heap_def)
qed

section \<open>The limits of a download\<close>

text \<open>
  An answer whose first segment fills the 4096 bytes of \<open>recv_buffer\<close>, which TCP may deliver for any
  file of that size although the server writes 3072 bytes at a time, makes the client store the
  terminating NUL one byte past the end of the buffer.
\<close>
lemma download_overflow:
  assumes "scan_word (inp w) = (name, rest)" and "name \<noteq> []" and "name \<noteq> ''exit''" and "length name < 128"
    and "NUL \<notin> set name" and "inq (sock w) = seg # q" and "4096 \<le> length seg"
  shows "download_one env w = Some (Inl Buffer_Overflow)"
proof -
  let ?c = "snd (sock_send name (sock w))"
  obtain c1 where "sock_recv 4096 ?c = (Got (take 4096 seg), c1)"
    using sock_recv_long [of ?c seg q 4096] assms(6,7) by auto
  moreover have "scanf_s 128 (inp w) = Inr (Some name, rest)"
    using assms by (intro scanf_s_word) auto
  ultimately show ?thesis
    using assms(3,7) by (simp add: download_one_def nul_terminate_def)
qed

section \<open>The command loop\<close>

text \<open>
  The commands. For every word the user types, \<open>command_selection\<close> recognises \<open>upload_list\<close> and
  \<open>connect\<close>; a word of 12 bytes or more overruns \<open>command\<close>; every other word, \<open>exit\<close> included, makes it
  pass the first character of the word to \<open>strcmp\<close> as an address.
\<close>
lemma command_selection_spec:
  assumes "scan_word input = (word, rest)" and "word \<noteq> []" and "NUL \<notin> set word"
  shows "command_selection input =
    (if 12 \<le> length word then Inl Buffer_Overflow
     else if word = ''upload_list'' then Inr (2, rest)
     else if word = ''connect'' then Inr (1, rest)
     else Inl Wild_Pointer)"
proof (cases "12 \<le> length word")
  case True
  then have "scanf_s 12 input = Inl Buffer_Overflow"
    using assms by (cases word) (auto simp: scanf_s_def store_str_def)
  with True show ?thesis by (simp add: command_selection_def)
next
  case False
  then have "scanf_s 12 input = Inr (Some word, rest)"
    using assms by (intro scanf_s_word) auto
  with False show ?thesis by (simp add: command_selection_def)
qed

lemma main_turn_command: "main_turn env w = Some (Inr (command, w')) \<Longrightarrow> command \<noteq> 0"
  by (auto simp: main_turn_def Let_def bind_comp_def split: sum.splits if_splits option.splits)

lemma main_loop_no_return: "main_loop env w = Some y \<Longrightarrow> \<exists>e. y = Inl e"
proof (rule main_loop.raw_induct [where P = "\<lambda>env w y. \<exists>e. y = Inl e"])
  fix rec env w y
  assume IH: "\<And>env w y. rec env w = Some y \<Longrightarrow> \<exists>e. y = Inl e"
    and eq: "(case main_turn env w of None \<Rightarrow> None | Some (Inl e) \<Rightarrow> Some (Inl e)
      | Some (Inr (command, w1)) \<Rightarrow> (if command \<noteq> 0 then rec env w1 else Some (Inr w1))) = Some y"
  show "\<exists>e. y = Inl e"
    using eq main_turn_command [of env w]
    by (auto split: option.splits sum.splits if_splits dest: IH)
qed

text \<open>
  C37: the program has no regular end. Once it has started, \<open>main\<close> never returns: no sequence of
  commands makes the loop condition false, because no branch leaves 0 in \<open>command\<close>.
\<close>
theorem main_never_returns: "main True True env w \<noteq> Some (Inr status)"
  by (auto simp: main_def bind_comp_eq_Inr dest: main_loop_no_return)

lemma load_entries_dangling:
  assumes "cells h p = None" and "fresh h \<noteq> p" and "fresh h < limit h" and "entries fds \<noteq> []"
    and "\<forall>fd \<in> set fds. visible fd \<longrightarrow> listable fd"
  shows "load_entries h (Some p) (listing fds) = Some (Inl Use_After_Free)"
  using assms appendNode_dangling [OF assms(1-3)]
  by (simp add: load_entries_listing) (cases "filter visible fds"; simp add: list_add_def entry_of_def)

lemma store_download_keeps:
  "store_download env name bytes w = Some (Inr w') \<Longrightarrow> hp w' = hp w \<and> start w' = start w"
  by (auto simp: store_download_def Let_def bind_comp_eq_Inr split: if_splits)

lemma download_one_keeps:
  "download_one env w = Some (Inr (again, w')) \<Longrightarrow> hp w' = hp w \<and> start w' = start w"
  by (auto simp: download_one_def Let_def bind_comp_eq_Inr dest!: store_download_keeps
      split: sum.splits prod.splits if_splits recv_res.splits)

lemma download_loop_keeps:
  "download_loop env w = Some y \<Longrightarrow> \<forall>w'. y = Inr w' \<longrightarrow> hp w' = hp w \<and> start w' = start w"
proof (rule download_loop.raw_induct [where P = "\<lambda>env w y. \<forall>w'. y = Inr w' \<longrightarrow> hp w' = hp w \<and> start w' = start w"])
  fix rec env w y
  assume IH: "\<And>env w y. rec env w = Some y \<Longrightarrow> \<forall>w'. y = Inr w' \<longrightarrow> hp w' = hp w \<and> start w' = start w"
    and eq: "(case download_one env w of None \<Rightarrow> None | Some (Inl e) \<Rightarrow> Some (Inl e)
      | Some (Inr (again, w1)) \<Rightarrow> (if again then rec env w1 else Some (Inr w1))) = Some y"
  show "\<forall>w'. y = Inr w' \<longrightarrow> hp w' = hp w \<and> start w' = start w"
    using eq by (auto split: option.splits sum.splits if_splits dest!: IH download_one_keeps)
qed

lemma download_files_keeps:
  "download_files env w = Some (Inr w') \<Longrightarrow> hp w' = hp w \<and> start w' = start w"
  by (auto simp: download_files_def bind_comp_eq_Inr dest: download_loop_keeps)

text \<open>
  \<open>sends_list fds c\<close>: the first segment on the connection is the listing of a directory with at least one
  listed file, shorter than \<open>file_info\<close>, and all listed names can be read back.
\<close>
definition sends_list :: "find_data list \<Rightarrow> conn \<Rightarrow> bool" where
  "sends_list fds c \<longleftrightarrow> (\<exists>q. inq c = listing fds # q) \<and> length (listing fds) < 2048 \<and>
     (\<forall>fd \<in> set fds. visible fd \<longrightarrow> listable fd) \<and> entries fds \<noteq> []"

lemma sends_list_recv:
  assumes "sends_list fds c"
  shows "\<exists>q. sock_recv 2048 c = (Got (listing fds), c\<lparr>inq := q\<rparr>)"
    "nul_terminate 2048 (listing fds) = Inr (listing fds)"
proof -
  have "listing fds \<noteq> []" using assms by (auto simp: sends_list_def listing_def filter_empty_conv)
  then show "\<exists>q. sock_recv 2048 c = (Got (listing fds), c\<lparr>inq := q\<rparr>)"
    using assms sock_recv_first [of c "listing fds" _ 2048] by (auto simp: sends_list_def)
  show "nul_terminate 2048 (listing fds) = Inr (listing fds)"
    using assms NUL_not_in_listing [of fds] by (simp add: sends_list_def nul_terminate_def)
qed

lemma display_fills_list:
  assumes "heap_list (hp w) (start w) []" and "sends_list fds (sock w)"
    and "fresh (hp w) + length (entries fds) < limit (hp w)" and "recv_and_display_file_list w = Some (Inr w')"
  shows "heap_list (hp w') (start w') (entries fds) \<and> fresh (hp w') < limit (hp w')"
proof -
  from sends_list_recv [OF assms(2)] obtain q where
    "sock_recv 2048 (sock w) = (Got (listing fds), (sock w)\<lparr>inq := q\<rparr>)" "nul_terminate 2048 (listing fds) = Inr (listing fds)" by blast
  moreover obtain h p where "load_entries (hp w) (start w) (listing fds) = Some (Inr (h, p))"
      "heap_list h p (entries fds)" "fresh h < limit h"
    using load_entries_heap [OF _ assms(1), of fds] assms(2,3) by (auto simp: sends_list_def)
  ultimately show ?thesis using assms(4) by (auto simp: recv_and_display_file_list_def bind_comp_eq_Inr)
qed

lemma freed_list_dangles:
  assumes "heap_list h p xs" and "xs \<noteq> []" and "freelist h p = Some (Inr h')"
  shows "\<exists>a. p = Some a \<and> cells h' a = None \<and> fresh h' \<noteq> a \<and> fresh h' = fresh h \<and> limit h' = limit h"
proof -
  obtain as where as: "list_at (cells h) p as xs" and dom: "\<forall>a. cells h a \<noteq> None \<longrightarrow> a < fresh h"
    using assms(1) by (auto simp: heap_list_def)
  obtain a where "p = Some a" "a \<in> set as" "cells h a \<noteq> None"
    using as assms(2) by (cases p) (auto simp: list_at_Some)
  then show ?thesis using assms(3) freelist_list [OF as] dom by auto
qed

lemma display_dangling:
  assumes "start w = Some a" and "cells (hp w) a = None" and "fresh (hp w) \<noteq> a" and "fresh (hp w) < limit (hp w)"
    and "concat (inq (sock w)) = [] \<or> (\<exists>fds. sends_list fds (sock w))"
  shows "recv_and_display_file_list w = Some (Inl Use_After_Free)"
  using assms(5)
proof
  assume "concat (inq (sock w)) = []"
  moreover have "printlist (hp w) (Some a) = Some (Inl Use_After_Free)"
    using assms(2) by (simp add: printlist_def print_nodes.simps)
  ultimately show ?thesis
    using assms(1) by (cases "fin (sock w)") (simp_all add: recv_and_display_file_list_def sock_recv_end nul_terminate_def)
next
  assume "\<exists>fds. sends_list fds (sock w)"
  then obtain fds q where s: "sends_list fds (sock w)" "sock_recv 2048 (sock w) = (Got (listing fds), (sock w)\<lparr>inq := q\<rparr>)"
      "nul_terminate 2048 (listing fds) = Inr (listing fds)" using sends_list_recv by blast
  then have "load_entries (hp w) (Some a) (listing fds) = Some (Inl Use_After_Free)"
    by (intro load_entries_dangling [OF assms(2-4)]) (auto simp: sends_list_def)
  with s assms(1) show ?thesis by (simp add: recv_and_display_file_list_def)
qed

lemma establish_keeps:
  "establish_connection env w = Inr w' \<Longrightarrow> hp w' = hp w \<and> start w' = start w"
  by (auto simp: establish_connection_def Let_def bind_res_def split: sum.splits prod.splits option.splits if_splits)

text \<open>
  C38: \<open>main\<close> uses freed storage at the second \<open>connect\<close>. Let the list of files be empty at first, let the user connect to a peer
  whose listing, received in one segment, names at least one file, and let this session, with any downloads in it, come to its end. When
  the user then enters \<open>connect\<close> again, with a host and a port that \<open>establish_connection\<close> reads, the program follows the pointer to the freed
  list: when the new connection fails or delivers nothing, in \<open>printlist\<close>, and when the new peer's listing arrives, in \<open>appendNode\<close>.
\<close>
theorem second_connect_uses_freed_list:
  assumes "heap_list (hp w) (start w) []" and "command_selection (inp w) = Inr (1, rest1)"
    and "establish_connection env (w\<lparr>inp := rest1\<rparr>) = Inr w1" and "sends_list fds (sock w1)"
    and "fresh (hp w) + length (entries fds) < limit (hp w)" and "main_turn env w = Some (Inr (1, w2))"
    and "command_selection (inp w2) = Inr (1, rest2)" and "establish_connection env (w2\<lparr>inp := rest2\<rparr>) = Inr w3"
    and "concat (inq (sock w3)) = [] \<or> (\<exists>fds'. sends_list fds' (sock w3))"
  shows "main True True env w = Some (Inl Use_After_Free)"
proof -
  obtain v u h where v: "recv_and_display_file_list w1 = Some (Inr v)" "download_files env v = Some (Inr u)"
      "freelist (hp u) (start u) = Some (Inr h)" "w2 = u\<lparr>sock := dead_conn, hp := h\<rparr>"
    using assms(2,3,6) by (auto simp: main_turn_def connect_command_def bind_comp_eq_Inr)
  have "heap_list (hp v) (start v) (entries fds) \<and> fresh (hp v) < limit (hp v)"
    using assms(1,5) establish_keeps [OF assms(3)] by (intro display_fills_list [OF _ assms(4) _ v(1)]) auto
  moreover have "entries fds \<noteq> []" using assms(4) by (simp add: sends_list_def)
  ultimately obtain a where a: "start w2 = Some a" "cells (hp w2) a = None" "fresh (hp w2) \<noteq> a" "fresh (hp w2) < limit (hp w2)"
    using freed_list_dangles [OF _ _ v(3), of "entries fds"] download_files_keeps [OF v(2)] v(4) by auto
  have "recv_and_display_file_list w3 = Some (Inl Use_After_Free)"
    using a establish_keeps [OF assms(8)] by (intro display_dangling [OF _ _ _ _ assms(9)]) auto
  then have "main_turn env w2 = Some (Inl Use_After_Free)"
    using assms(7,8) by (simp add: main_turn_def connect_command_def)
  then have "main_loop env w = Some (Inl Use_After_Free)"
    using assms(6) by (subst main_loop.simps, simp) (subst main_loop.simps, simp)
  then show ?thesis by (simp add: main_def)
qed

definition two_sessions :: peer where
  "two_sessions = \<lparr>inp = ''connect 10.0.0.2 8080 exit connect 10.0.0.3 8080 '', sock = dead_conn, hp = empty_heap 9,
     start = None, files = Map.empty, shown = []\<rparr>"

definition one_peer_env :: peer_env where
  "one_peer_env = sample_env\<lparr>net := (\<lambda>host port. if host = ''10.0.0.2'' then Some (sample_conn [listing [sample_entry]]) else None)\<rparr>"

lemma sample_entry_sent: "sends_list [sample_entry] (sample_conn [listing [sample_entry]])"
  by (simp add: sends_list_def sample_conn_def sample_entry_def visible_def listable_def is_space_def NUL_def entry_of_def
      listing_line_def dec_of_nat.simps)

definition first_session :: peer where
  "first_session = two_sessions\<lparr>inp := '' exit connect 10.0.0.3 8080 '', sock := sample_conn [listing [sample_entry]],
     shown := [Connected ''10.0.0.2'' ''8080'']\<rparr>"

lemmas scan_simps = command_selection_def establish_connection_def scanf_s_def scan_word_def skip_space_def is_space_def
  store_str_def cstr_def NUL_def

lemma two_sessions_command:
  "command_selection (inp two_sessions) = Inr (1, '' 10.0.0.2 8080 exit connect 10.0.0.3 8080 '')"
  by (simp add: two_sessions_def scan_simps)

lemma two_sessions_connect:
  "establish_connection one_peer_env (two_sessions\<lparr>inp := '' 10.0.0.2 8080 exit connect 10.0.0.3 8080 ''\<rparr>) = Inr first_session"
  by (simp add: first_session_def two_sessions_def one_peer_env_def sample_env_def scan_simps)

lemma two_sessions_first:
  "\<exists>w2. main_turn one_peer_env two_sessions = Some (Inr (1, w2)) \<and> inp w2 = '' connect 10.0.0.3 8080 ''"
proof -
  let ?c = "sample_conn [listing [sample_entry]]"
  let ?v = "\<lambda>q out. first_session\<lparr>sock := ?c\<lparr>inq := q\<rparr>, hp := sample_heap, start := Some 0, shown := out\<rparr>"
  obtain q where q: "sock_recv 2048 ?c = (Got (listing [sample_entry]), ?c\<lparr>inq := q\<rparr>)"
    using sends_list_recv(1) [OF sample_entry_sent] by blast
  have pr: "printlist sample_heap (Some 0) = Some (Inr (List_Lines [(''a.txt'', 5)]))"
    using printlist_lines [OF sample_heap_list] by simp
  have "\<exists>out. recv_and_display_file_list first_session = Some (Inr (?v q out))"
    using sample_load sends_list_recv(2) [OF sample_entry_sent] pr q
    by (simp add: recv_and_display_file_list_def first_session_def two_sessions_def)
  then obtain out where d: "recv_and_display_file_list first_session = Some (Inr (?v q out))" by blast
  have "\<exists>out'. download_files one_peer_env (?v q out) = Some (Inr ((?v q out')\<lparr>inp := '' connect 10.0.0.3 8080 ''\<rparr>))"
    by (simp add: download_files_def pr first_session_def two_sessions_def download_loop.simps download_one_def scan_simps)
  then obtain out' where "download_files one_peer_env (?v q out) = Some (Inr ((?v q out')\<lparr>inp := '' connect 10.0.0.3 8080 ''\<rparr>))"
    by blast
  moreover have "freelist sample_heap (Some 0) = Some (Inr (sample_heap\<lparr>cells := Map.empty\<rparr>))"
    using freelist_list [of sample_heap "Some 0" "[0]" "[(''a.txt'', 5)]"]
    by (simp add: sample_heap_def restrict_map_def fun_eq_iff)
  ultimately show ?thesis
    using d two_sessions_command two_sessions_connect by (simp add: main_turn_def connect_command_def)
qed

theorem second_connect_uses_freed_list_witness: "main True True one_peer_env two_sessions = Some (Inl Use_After_Free)"
proof -
  obtain w2 where w2: "main_turn one_peer_env two_sessions = Some (Inr (1, w2))" "inp w2 = '' connect 10.0.0.3 8080 ''"
    using two_sessions_first by blast
  have cs: "command_selection (inp w2) = Inr (1, '' 10.0.0.3 8080 '')"
    by (simp add: w2(2) scan_simps)
  have "\<exists>w3. establish_connection one_peer_env (w2\<lparr>inp := '' 10.0.0.3 8080 ''\<rparr>) = Inr w3 \<and> concat (inq (sock w3)) = []"
    by (simp add: one_peer_env_def sample_env_def dead_conn_def scan_simps)
  then obtain w3 where w3: "establish_connection one_peer_env (w2\<lparr>inp := '' 10.0.0.3 8080 ''\<rparr>) = Inr w3" "concat (inq (sock w3)) = []"
    by blast
  show ?thesis
  proof (rule second_connect_uses_freed_list [OF _ two_sessions_command two_sessions_connect _ _ w2(1) cs w3(1) disjI1 [OF w3(2)]])
    show "heap_list (hp two_sessions) (start two_sessions) []" by (simp add: two_sessions_def)
    show "sends_list [sample_entry] (sock first_session)" using sample_entry_sent by (simp add: first_session_def)
    show "fresh (hp two_sessions) + length (entries [sample_entry]) < limit (hp two_sessions)"
      by (simp add: two_sessions_def sample_entry_def visible_def)
  qed
qed

end
