(* ===== verification/Peer_Network.thy ===== *)
theory Peer_Network
  imports Peer_Session
begin

text \<open>
  The transfer of one file as two processes that run at the same time: the sending loop of \<open>listen_for_connections\<close> in one
  peer and the receiving part of \<open>download_files\<close> in the other, \<open>restructured code/tomypeersV2.c\<close>, with
  the TCP connection between them, which holds at most \<open>cap\<close> bytes. A step is one \<open>fread\<close>, the
  acceptance of some bytes of the current \<open>send\<close> by the connection, or one \<open>recv\<close> with what the client does with
  its result; the steps of the two sides are interleaved in any order. \<open>recv\<close> may return any part of what has
  arrived, up to the size of the buffer, and blocks when nothing has.
\<close>

section \<open>Steps\<close>

datatype client_state =
    Waiting             \<comment> \<open>in the first \<open>recv\<close>\<close>
  | Receiving           \<comment> \<open>in the loop\<close>
  | Stored              \<comment> \<open>after \<open>fclose\<close>\<close>
  | Refused             \<comment> \<open>took the data for the message that there is no such file\<close>
  | Stopped abort

record transfer =
  unread :: "char list"        \<comment> \<open>what \<open>fread\<close> has not returned yet\<close>
  file_buffer :: "char list"   \<comment> \<open>what the current \<open>send\<close> still has to hand over\<close>
  chan :: "char list"          \<comment> \<open>bytes in the connection\<close>
  client :: client_state
  total_bytes_recv :: "32 word"
  saved :: "char list"         \<comment> \<open>the bytes given to \<open>fwrite\<close>\<close>
  got :: "char list list"      \<comment> \<open>the results of \<open>recv\<close> so far\<close>

definition transfer_init :: "char list \<Rightarrow> transfer" where
  \<comment> \<open>the server has opened the file, the client has sent the name\<close>
  "transfer_init content = \<lparr>unread = content, file_buffer = [], chan = [], client = Waiting,
     total_bytes_recv = 0, saved = [], got = []\<rparr>"

definition server_read :: "transfer \<Rightarrow> transfer" where
  "server_read s = s\<lparr>file_buffer := take 3072 (unread s), unread := drop 3072 (unread s)\<rparr>"

definition server_send :: "nat \<Rightarrow> transfer \<Rightarrow> transfer" where
  "server_send k s = s\<lparr>chan := chan s @ take k (file_buffer s), file_buffer := drop k (file_buffer s)\<rparr>"

definition save_segment :: "32 word \<Rightarrow> char list \<Rightarrow> transfer \<Rightarrow> transfer" where
  \<comment> \<open>\<open>fwrite\<close> and the test \<open>fsize != total_bytes_recv\<close>\<close>
  "save_segment fsize seg s =
     s\<lparr>saved := saved s @ seg, client := (if fsize \<noteq> total_bytes_recv s then Receiving else Stored)\<rparr>"

definition client_recv :: "32 word \<Rightarrow> nat \<Rightarrow> transfer \<Rightarrow> transfer" where
  "client_recv fsize k s =
     (let seg = take k (chan s);
          s = s\<lparr>chan := drop k (chan s), got := got s @ [seg], total_bytes_recv := total_bytes_recv s + of_nat (length seg)\<rparr>
      in case client s of
           Waiting \<Rightarrow>
             (case nul_terminate 4096 seg of
                Inl e \<Rightarrow> s\<lparr>client := Stopped e\<rparr>
              | Inr t \<Rightarrow> if t = ''File does not exist.'' then s\<lparr>client := Refused\<rparr> else save_segment fsize seg s)
         | _ \<Rightarrow> save_segment fsize seg s)"

inductive transfer_step :: "nat \<Rightarrow> 32 word \<Rightarrow> transfer \<Rightarrow> transfer \<Rightarrow> bool" for cap fsize where
  Read: "file_buffer s = [] \<Longrightarrow> unread s \<noteq> [] \<Longrightarrow> transfer_step cap fsize s (server_read s)"
| Send: "0 < k \<Longrightarrow> k \<le> length (file_buffer s) \<Longrightarrow> length (chan s) + k \<le> cap \<Longrightarrow>
    transfer_step cap fsize s (server_send k s)"
| Recv: "client s = Waiting \<or> client s = Receiving \<Longrightarrow> 0 < k \<Longrightarrow> k \<le> 4096 \<Longrightarrow> k \<le> length (chan s) \<Longrightarrow>
    transfer_step cap fsize s (client_recv fsize k s)"

inductive_cases transfer_stepE: "transfer_step cap fsize s s'"

abbreviation transfer_steps :: "nat \<Rightarrow> 32 word \<Rightarrow> transfer \<Rightarrow> transfer \<Rightarrow> bool" where
  "transfer_steps cap fsize \<equiv> (transfer_step cap fsize)\<^sup>*\<^sup>*"

definition stuck :: "nat \<Rightarrow> 32 word \<Rightarrow> transfer \<Rightarrow> bool" where
  "stuck cap fsize s \<longleftrightarrow> (\<forall>s'. \<not> transfer_step cap fsize s s')"

section \<open>The invariant\<close>

definition no_message :: "char list \<Rightarrow> bool" where
  \<comment> \<open>no first part of the file reads like the server's message\<close>
  "no_message content \<longleftrightarrow> (\<forall>k. cstr (take k content) \<noteq> ''File does not exist.'')"

fun client_inv :: "32 word \<Rightarrow> client_state \<Rightarrow> char list list \<Rightarrow> char list \<Rightarrow> 32 word \<Rightarrow> bool" where
  "client_inv fsize Waiting segs sv tot \<longleftrightarrow> segs = [] \<and> sv = []"
| "client_inv fsize Receiving segs sv tot \<longleftrightarrow> segs \<noteq> [] \<and> length (hd segs) < 4096 \<and> sv = concat segs \<and> fsize \<noteq> tot"
| "client_inv fsize Stored segs sv tot \<longleftrightarrow> segs \<noteq> [] \<and> length (hd segs) < 4096 \<and> sv = concat segs \<and> fsize = tot"
| "client_inv fsize Refused segs sv tot \<longleftrightarrow> (\<exists>seg. segs = [seg] \<and> cstr seg = ''File does not exist.'')"
| "client_inv fsize (Stopped e) segs sv tot \<longleftrightarrow> (\<exists>seg. segs = [seg] \<and> length seg = 4096) \<and> e = Buffer_Overflow"

definition transfer_inv :: "32 word \<Rightarrow> char list \<Rightarrow> transfer \<Rightarrow> bool" where
  "transfer_inv fsize content s \<longleftrightarrow>
     concat (got s) @ chan s @ file_buffer s @ unread s = content \<and>
     total_bytes_recv s = of_nat (length (concat (got s))) \<and>
     client_inv fsize (client s) (got s) (saved s) (total_bytes_recv s)"

lemma transfer_inv_init: "transfer_inv fsize content (transfer_init content)"
  by (simp add: transfer_inv_def transfer_init_def)

lemma client_recv_frame:
  assumes "k \<le> length (chan s)"
  shows "got (client_recv fsize k s) = got s @ [take k (chan s)]" "chan (client_recv fsize k s) = drop k (chan s)"
    "file_buffer (client_recv fsize k s) = file_buffer s" "unread (client_recv fsize k s) = unread s"
    "total_bytes_recv (client_recv fsize k s) = total_bytes_recv s + of_nat k"
  using assms by (auto simp: client_recv_def save_segment_def Let_def split: client_state.split sum.split)

lemma client_recv_client:
  assumes "client_inv fsize (client s) (got s) (saved s) tot" and "client s = Waiting \<or> client s = Receiving"
    and "0 < k" and "k \<le> 4096" and "k \<le> length (chan s)"
  shows "client_inv fsize (client (client_recv fsize k s)) (got s @ [take k (chan s)]) (saved (client_recv fsize k s))
    (total_bytes_recv s + of_nat k)"
proof -
  let ?seg = "take k (chan s)"
  have l: "length ?seg = k" using assms(5) by simp
  from assms(2) show ?thesis
  proof
    assume w: "client s = Waiting"
    then have e: "got s = []" "saved s = []" using assms(1) by auto
    show ?thesis
    proof (cases "nul_terminate 4096 ?seg")
      case (Inl e')
      then have "k = 4096" "e' = Buffer_Overflow" using l assms(4) by (auto simp: nul_terminate_def split: if_splits)
      then show ?thesis using Inl w e l by (simp add: client_recv_def Let_def)
    next
      case (Inr t)
      then have "k < 4096" "t = cstr ?seg" using l by (auto simp: nul_terminate_def split: if_splits)
      then show ?thesis using Inr w e l by (simp add: client_recv_def save_segment_def Let_def)
    qed
  next
    assume "client s = Receiving"
    then show ?thesis using assms(1) l by (simp add: client_recv_def save_segment_def Let_def)
  qed
qed

lemma client_recv_inv:
  assumes i: "transfer_inv fsize content s" and "client s = Waiting \<or> client s = Receiving"
    and k: "0 < k" "k \<le> 4096" "k \<le> length (chan s)"
  shows "transfer_inv fsize content (client_recv fsize k s)"
proof -
  have "take k (chan s) @ drop k (chan s) @ file_buffer s @ unread s = chan s @ file_buffer s @ unread s"
    by (simp flip: append_assoc)
  then show ?thesis
    using i client_recv_client [OF _ assms(2) k, of fsize "total_bytes_recv s"] k(3)
    by (auto simp: transfer_inv_def client_recv_frame)
qed

lemma transfer_step_inv:
  "transfer_step cap fsize s s' \<Longrightarrow> transfer_inv fsize content s \<Longrightarrow> transfer_inv fsize content s'"
proof (induction rule: transfer_step.induct)
  case (Read s)
  then show ?case by (auto simp: transfer_inv_def server_read_def)
next
  case (Send k s)
  have "chan s @ take k (file_buffer s) @ drop k (file_buffer s) @ unread s = chan s @ file_buffer s @ unread s"
    by (simp flip: append_assoc)
  with Send show ?case by (auto simp: transfer_inv_def server_send_def)
next
  case (Recv s k)
  then show ?case by (intro client_recv_inv)
qed

lemma transfer_steps_inv: "transfer_steps cap fsize s s' \<Longrightarrow> transfer_inv fsize content s \<Longrightarrow> transfer_inv fsize content s'"
  by (induction rule: rtranclp_induct) (auto dest: transfer_step_inv)

section \<open>Runs end\<close>

definition remaining :: "transfer \<Rightarrow> nat" where
  "remaining s = 3 * length (unread s) + 2 * length (file_buffer s) + length (chan s)"

lemma transfer_step_remaining: "transfer_step cap fsize s s' \<Longrightarrow> remaining s' < remaining s"
proof (induction rule: transfer_step.induct)
  case (Read s)
  then show ?case by (cases "unread s") (auto simp: remaining_def server_read_def)
next
  case (Send k s)
  then show ?case by (simp add: remaining_def server_send_def)
next
  case (Recv s k)
  then show ?case by (simp add: remaining_def client_recv_frame)
qed

lemma run_length: "(transfer_step cap fsize ^^ n) s s' \<Longrightarrow> n + remaining s' \<le> remaining s"
proof (induction n arbitrary: s')
  case (Suc n)
  then obtain t where "(transfer_step cap fsize ^^ n) s t" "transfer_step cap fsize t s'" by auto
  with Suc.IH [of t] transfer_step_remaining [of cap fsize t s'] show ?case by simp
qed simp

lemma maximal_run: "\<exists>s'. transfer_steps cap fsize s s' \<and> stuck cap fsize s'"
proof (induction "remaining s" arbitrary: s rule: less_induct)
  case less
  show ?case
  proof (cases "stuck cap fsize s")
    case False
    then obtain t where t: "transfer_step cap fsize s t" by (auto simp: stuck_def)
    then obtain s' where "transfer_steps cap fsize t s'" "stuck cap fsize s'"
      using less transfer_step_remaining by blast
    with t show ?thesis by (meson converse_rtranclp_into_rtranclp)
  qed auto
qed

lemma stuck_quiet:
  assumes "stuck cap fsize s" and "0 < cap" and "client s = Waiting \<or> client s = Receiving"
  shows "chan s = []" "file_buffer s = []" "unread s = []"
proof -
  have no: "\<not> transfer_step cap fsize s s'" for s' using assms(1) by (simp add: stuck_def)
  show c: "chan s = []"
  proof (rule ccontr)
    assume "chan s \<noteq> []"
    then have "1 \<le> length (chan s)" by (cases "chan s") auto
    then show False using Recv [OF assms(3), of 1] no by auto
  qed
  show b: "file_buffer s = []"
  proof (rule ccontr)
    assume "file_buffer s \<noteq> []"
    then have "1 \<le> length (file_buffer s)" by (cases "file_buffer s") auto
    then show False using Send [of 1 s cap fsize] no c assms(2) by simp
  qed
  show "unread s = []" using Read [OF b] no by blast
qed

lemma stuck_result:
  assumes inv: "transfer_inv (of_nat (length content)) content s" and "stuck cap (of_nat (length content)) s" and "0 < cap"
    and "content \<noteq> []" and "length content < 2 ^ 32" and "no_message content"
  shows "client s = Stored \<and> saved s = content \<or> client s = Stopped Buffer_Overflow \<and> length (hd (got s)) = 4096"
proof -
  let ?fsize = "of_nat (length content) :: 32 word"
  have all: "concat (got s) @ chan s @ file_buffer s @ unread s = content"
    and tot: "total_bytes_recv s = of_nat (length (concat (got s)))" using inv by (auto simp: transfer_inv_def)
  have busy: False if "client s = Waiting \<or> client s = Receiving"
    using stuck_quiet [OF assms(2,3) that] that all inv tot assms(4) by (auto simp: transfer_inv_def)
  show ?thesis
  proof (cases "client s")
    case Stored
    then have sv: "saved s = concat (got s)" "total_bytes_recv s = ?fsize" using inv by (auto simp: transfer_inv_def)
    have "length (concat (got s)) \<le> length content" unfolding all [symmetric] by simp
    then have "length (concat (got s)) = length content"
      using sv(2) tot assms(5) word_of_nat_eq_small [where 'a = 32, of "length (concat (got s))" "length content"] by simp
    then have "concat (got s) = content" using arg_cong [OF all, of "take (length content)"] by simp
    then show ?thesis using Stored sv by simp
  next
    case Refused
    then obtain seg where "got s = [seg]" "cstr seg = ''File does not exist.''" using inv by (auto simp: transfer_inv_def)
    moreover have "seg = take (length seg) content" unfolding all [symmetric] using calculation(1) by simp
    ultimately show ?thesis using assms(6) unfolding no_message_def by metis
  next
    case (Stopped e)
    then show ?thesis using inv by (auto simp: transfer_inv_def)
  qed (use busy in auto)
qed

lemma steps_of_run: "(transfer_step cap fsize ^^ n) s s' \<Longrightarrow> transfer_steps cap fsize s s'"
  by (rule relpowp_imp_rtranclp)

lemma short_no_message: "length content < 20 \<Longrightarrow> no_message content"
proof -
  assume l: "length content < 20"
  have "length (cstr (take k content)) \<le> length content" for k
    using length_takeWhile_le [of "\<lambda>c. c \<noteq> NUL" "take k content"] by (simp add: cstr_def)
  moreover have "length ''File does not exist.'' = 20" by simp
  ultimately show ?thesis unfolding no_message_def using l by (metis not_le)
qed

section \<open>Particular runs\<close>

lemma server_read_send:
  assumes "file_buffer s = []" and "0 < k" and "k \<le> 3072" and "k \<le> length (unread s)" and "length (chan s) + k \<le> cap"
  shows "transfer_steps cap fsize s (server_send k (server_read s))"
proof -
  have "transfer_step cap fsize s (server_read s)" using assms by (intro Read) auto
  moreover have "transfer_step cap fsize (server_read s) (server_send k (server_read s))"
    using assms by (intro Send) (auto simp: server_read_def)
  ultimately show ?thesis by (meson converse_rtranclp_into_rtranclp r_into_rtranclp)
qed

lemma run_to_overrun:
  assumes "4096 \<le> length content" and "4096 \<le> cap"
  shows "\<exists>s. transfer_steps cap fsize (transfer_init content) s \<and> client s = Stopped Buffer_Overflow"
proof -
  let ?s1 = "server_send 3072 (server_read (transfer_init content))"
  let ?s2 = "server_send 1024 (server_read ?s1)"
  have s1: "file_buffer ?s1 = []" "unread ?s1 = drop 3072 content" "chan ?s1 = take 3072 content" "client ?s1 = Waiting"
    using assms(1) by (auto simp: server_send_def server_read_def transfer_init_def)
  have r1: "transfer_steps cap fsize (transfer_init content) ?s1"
    using assms by (intro server_read_send) (auto simp: transfer_init_def)
  have r2: "transfer_steps cap fsize ?s1 ?s2" using assms s1 by (intro server_read_send) auto
  have s2: "client ?s2 = Waiting" "length (chan ?s2) = 4096"
    using assms(1) s1 by (auto simp: server_send_def [of 1024] server_read_def [of ?s1])
  then have r3: "transfer_step cap fsize ?s2 (client_recv fsize 4096 ?s2)" by (intro Recv) auto
  have "client (client_recv fsize 4096 ?s2) = Stopped Buffer_Overflow"
    using s2 by (simp add: client_recv_def nul_terminate_def Let_def)
  then show ?thesis using r1 r2 r3 by (meson rtranclp_trans rtranclp.rtrancl_into_rtrancl)
qed

lemma receiving_steps:
  "transfer_steps cap fsize s s' \<Longrightarrow> client s = Receiving \<or> client s = Stored \<Longrightarrow> client s' = Receiving \<or> client s' = Stored"
proof (induction rule: rtranclp_induct)
  case (step t u)
  from step.hyps(2) step.IH [OF step.prems] show ?case
    by (cases rule: transfer_step.cases)
      (auto simp: server_read_def server_send_def client_recv_def save_segment_def Let_def)
qed

lemma run_to_end:
  assumes "4096 \<le> length content" and "length content < 2 ^ 32" and "4096 \<le> cap" and "no_message content"
  shows "\<exists>s. transfer_steps cap (of_nat (length content)) (transfer_init content) s \<and> client s = Stored \<and> saved s = content"
proof -
  let ?f = "of_nat (length content) :: 32 word"
  let ?s1 = "server_send 1 (server_read (transfer_init content))"
  let ?s2 = "client_recv ?f 1 ?s1"
  obtain x xs where x: "content = x # xs" using assms(1) by (cases content) auto
  have s1: "chan ?s1 = [x]" "client ?s1 = Waiting" "total_bytes_recv ?s1 = 0"
    by (auto simp: server_send_def server_read_def transfer_init_def x)
  have r1: "transfer_steps cap ?f (transfer_init content) ?s1"
    using assms by (intro server_read_send) (auto simp: transfer_init_def)
  have r2: "transfer_step cap ?f ?s1 ?s2" using s1 by (intro Recv) auto
  have "cstr [x] \<noteq> ''File does not exist.''" using assms(4) x unfolding no_message_def by (metis One_nat_def take_Suc_Cons take0)
  moreover have "?f \<noteq> 1" using assms(1,2) word_of_nat_eq_small [where 'a = 32, of "length content" 1] by simp
  ultimately have "client ?s2 = Receiving"
    using s1 by (simp add: client_recv_def save_segment_def nul_terminate_def Let_def)
  moreover obtain s where s: "transfer_steps cap ?f ?s2 s" "stuck cap ?f s" using maximal_run by blast
  ultimately have "client s = Receiving \<or> client s = Stored" using receiving_steps by blast
  moreover have run: "transfer_steps cap ?f (transfer_init content) s" using r1 r2 s(1) by (meson rtranclp_trans r_into_rtranclp)
  moreover have "content \<noteq> []" "0 < cap" using x assms(3) by auto
  ultimately show ?thesis
    using stuck_result [OF transfer_steps_inv [OF run transfer_inv_init] s(2) _ _ assms(2,4)] by auto
qed

lemma empty_stuck: "stuck cap fsize (transfer_init [])"
  by (auto simp: stuck_def transfer_init_def elim!: transfer_stepE)

lemma hello_run: "\<exists>s. transfer_steps 2 5 (transfer_init ''hello'') s \<and> client s = Stored \<and> saved s = ''hello''"
proof -
  obtain s where s: "transfer_steps 2 5 (transfer_init ''hello'') s" "stuck 2 5 s" using maximal_run by blast
  have inv: "transfer_inv 5 ''hello'' s" by (rule transfer_steps_inv [OF s(1) transfer_inv_init])
  have "length (concat (got s)) \<le> 5" using inv by (auto simp: transfer_inv_def dest: arg_cong [of _ _ length])
  moreover have "no_message ''hello''" by (rule short_no_message) simp
  moreover have "length (concat (got s)) = 4096" if "client s = Stopped Buffer_Overflow"
    using inv that by (auto simp: transfer_inv_def)
  ultimately show ?thesis using stuck_result [of "''hello''" s 2] inv s by fastforce
qed

section \<open>Properties\<close>

text \<open>
  C3: a transfer of less than 4096 bytes always completes. However the steps of the two peers are interleaved, however the connection cuts the bytes and
  whatever it can hold, a run has at most \<open>3 * length content\<close> steps, and it cannot get stuck before the client has stored
  exactly the bytes of the file (which is not empty, has the announced size and does not begin like the message of the server).
\<close>
theorem transfer_completes:
  assumes "(transfer_step cap (of_nat (length content)) ^^ n) (transfer_init content) s" and "0 < cap"
    and "content \<noteq> []" and "length content < 4096" and "no_message content"
  shows "n \<le> 3 * length content \<and>
    (stuck cap (of_nat (length content)) s \<longrightarrow> client s = Stored \<and> saved s = content)"
proof
  show "n \<le> 3 * length content" using run_length [OF assms(1)] by (simp add: remaining_def transfer_init_def)
  have inv: "transfer_inv (of_nat (length content)) content s"
    by (rule transfer_steps_inv [OF steps_of_run [OF assms(1)] transfer_inv_init])
  have small: "length (hd (got s)) \<noteq> 4096" if "client s = Stopped Buffer_Overflow"
  proof -
    have "length (hd (got s)) \<le> length (concat (got s))" using inv that by (cases "got s") (auto simp: transfer_inv_def)
    also have "\<dots> \<le> length content" using inv by (auto simp: transfer_inv_def)
    finally show ?thesis using assms(4) by simp
  qed
  show "stuck cap (of_nat (length content)) s \<longrightarrow> client s = Stored \<and> saved s = content"
    using stuck_result [OF inv _ assms(2,3)] assms(4,5) small by auto
qed

theorem transfer_completes_witness:
  "\<exists>s. transfer_steps 2 (of_nat (length ''hello'')) (transfer_init ''hello'') s \<and> client s = Stored \<and> saved s = ''hello''"
proof -
  obtain s where s: "transfer_steps 2 (of_nat (length ''hello'')) (transfer_init ''hello'') s"
      "stuck 2 (of_nat (length ''hello'')) s" using maximal_run by blast
  obtain n where n: "(transfer_step 2 (of_nat (length ''hello'')) ^^ n) (transfer_init ''hello'') s"
    using s(1) rtranclp_imp_relpowp by fastforce
  have "no_message ''hello''" by (rule short_no_message) simp
  then show ?thesis using transfer_completes [OF n] s by auto
qed

text \<open>
  C16: the order of the steps decides whether a larger file is stored. For a file of 4096 bytes or more and a connection that can hold as many, there
  is a run in which the client stores the whole file, and there is a run in which the server is ahead, the first \<open>recv\<close> fills
  \<open>recv_buffer\<close> and the terminating NUL is written behind its end. For an empty file no step is possible at all: both peers wait for each
  other in \<open>recv\<close>.
\<close>
theorem transfer_race:
  assumes "4096 \<le> length content" and "length content < 2 ^ 32" and "4096 \<le> cap" and "no_message content"
  shows "(\<exists>s. transfer_steps cap (of_nat (length content)) (transfer_init content) s \<and> client s = Stored \<and> saved s = content) \<and>
    (\<exists>s. transfer_steps cap (of_nat (length content)) (transfer_init content) s \<and> client s = Stopped Buffer_Overflow) \<and>
    stuck cap fsize (transfer_init [])"
  using run_to_end [OF assms] run_to_overrun [OF assms(1,3)] empty_stuck by blast

theorem transfer_race_witness:
  "\<exists>s. transfer_steps 4096 (of_nat (length (replicate 5000 CHR ''x''))) (transfer_init (replicate 5000 CHR ''x'')) s \<and>
     client s = Stopped Buffer_Overflow"
proof -
  have "cstr (take k (replicate 5000 CHR ''x'')) \<noteq> ''File does not exist.''" for k
  proof
    assume e: "cstr (take k (replicate 5000 CHR ''x'')) = ''File does not exist.''"
    have "set (cstr (take k (replicate 5000 CHR ''x''))) \<subseteq> {CHR ''x''}"
      by (auto simp: cstr_def dest!: set_takeWhileD in_set_takeD)
    then show False unfolding e by simp
  qed
  then have "no_message (replicate 5000 CHR ''x'')" by (simp add: no_message_def)
  then show ?thesis using transfer_race [of "replicate 5000 CHR ''x''" 4096 0] by simp
qed

text \<open>
  C4: the interleaved transfer is what the sequential model of a download describes. Whenever a run stores a file, the bytes stored are those of the segments
  that \<open>recv\<close> returned in it, \<open>store_download\<close>, given these segments, ends and writes the same bytes, and \<open>send_chunks\<close> sends these bytes for
  the same content, followed by \<open>rest\<close>; when the announced size is the size of the content (below 4 GiB), \<open>rest\<close> is empty: the segments divide exactly
  what \<open>send_chunks\<close> sends, and the file stored is the content. (When another size was announced, the run stores a prefix.)
\<close>
theorem transfer_refines_download:
  assumes "transfer_steps cap fsize (transfer_init content) s" and "client s = Stored" and "length content < 2 ^ 32"
    and "get_filesize (hp w) name (peer.start w) = Some (Inr fsize)" and "creatable env (''download/'' @ take 118 name)"
    and "inq (sock w) = tl (got s)" and "sends_ok c"
  shows "(\<exists>rest. concat (outq (send_chunks content c)) = concat (outq c) @ concat (got s) @ rest \<and>
      (fsize = of_nat (length content) \<longrightarrow> rest = [] \<and> saved s = content)) \<and>
    (\<exists>w'. store_download env name (hd (got s)) w = Some (Inr w') \<and>
      files w' = (files w)(''download/'' @ take 118 name \<mapsto> saved s)) \<and> saved s = concat (got s)"
proof (intro conjI)
  have inv: "transfer_inv fsize content s" by (rule transfer_steps_inv [OF assms(1) transfer_inv_init])
  then have all: "concat (got s) @ chan s @ file_buffer s @ unread s = content" and g: "got s \<noteq> []"
    and sv: "saved s = concat (got s)" "fsize = of_nat (length (concat (got s)))" using assms(2) by (auto simp: transfer_inv_def)
  let ?rest = "chan s @ file_buffer s @ unread s"
  have le: "length (concat (got s)) \<le> length content" unfolding all [symmetric] by simp
  have "?rest = []" if "fsize = of_nat (length content)"
  proof -
    have "length (concat (got s)) = length content"
      using that sv(2) le assms(3) by (intro word_of_nat_eq_small [where 'a = 32, THEN iffD1]) auto
    then show ?thesis using arg_cong [OF all, of length] by simp
  qed
  then show "\<exists>rest. concat (outq (send_chunks content c)) = concat (outq c) @ concat (got s) @ rest \<and>
      (fsize = of_nat (length content) \<longrightarrow> rest = [] \<and> saved s = content)"
    using send_chunks_all [OF assms(7), of content] all sv(1) by (intro exI [of _ ?rest]) auto
  have cat: "hd (got s) @ concat (inq (sock w)) = concat (got s)" using g assms(6) by (cases "got s") auto
  have small: "length (concat (inq (sock w))) < 2 ^ 32" using le arg_cong [OF cat, of length] assms(3) by simp
  have size: "fsize = of_nat (length (hd (got s))) + of_nat (length (concat (inq (sock w))))"
    unfolding sv(2) cat [symmetric] by simp
  show "\<exists>w'. store_download env name (hd (got s)) w = Some (Inr w') \<and>
      files w' = (files w)(''download/'' @ take 118 name \<mapsto> saved s)"
    using store_download_sized [OF assms(4) size small assms(5)] cat sv(1) by auto
  show "saved s = concat (got s)" by (rule sv(1))
qed

theorem transfer_refines_download_witness:
  "\<exists>(s :: transfer) w'. client s = Stored \<and> store_download sample_env ''a.txt'' (hd (got s))
     (sample_peer\<lparr>sock := sample_conn (tl (got s))\<rparr>) = Some (Inr w') \<and> files w' ''download/a.txt'' = Some ''hello''"
proof -
  obtain s where s: "transfer_steps 2 5 (transfer_init ''hello'') s" "client s = Stored" "saved s = ''hello''"
    using hello_run by blast
  let ?w = "sample_peer\<lparr>sock := sample_conn (tl (got s))\<rparr>"
  have "get_filesize (hp ?w) ''a.txt'' (peer.start ?w) = Some (Inr 5)"
    using sample_heap_list by (auto simp: sample_peer_def get_filesize_def heap_list_def find_size_list)
  with transfer_refines_download [OF s(1,2), of ?w "''a.txt''" sample_env "sample_conn []"] s(3)
  obtain w' where "store_download sample_env ''a.txt'' (hd (got s)) ?w = Some (Inr w')"
      "files w' = (files ?w)(''download/a.txt'' \<mapsto> ''hello'')"
    by (auto simp: sample_env_def sample_conn_def sends_ok_def)
  then show ?thesis using s(2) by (intro exI [of _ s] exI [of _ w']) simp
qed

end
