(* ===== verification/Hash_Index.thy ===== *)
theory Hash_Index
  imports Size_Index
begin

text \<open>
  The chained hash table of file sizes in \<open>Project work solo/tomypeers.c\<close>: \<open>hash_function\<close>, \<open>insert\<close>,
  \<open>get_filesize\<close> and \<open>print_hashmap\<close>. A bucket is the list of its nodes from the head; nodes are never changed
  or freed after they are linked in, so the chain is modelled as a list. The number of nodes that \<open>malloc\<close>
  can still give is part of the state.
\<close>

record node =
  node_filename :: string
  node_filesize :: "32 word"

record hashmap =
  buckets :: "node list list"
  mem_left :: nat

abbreviation HASH_SIZE :: nat where "HASH_SIZE \<equiv> 100"

section \<open>Operations\<close>

fun hash_loop :: "32 word \<Rightarrow> string \<Rightarrow> 32 word" where
  "hash_loop hash [] = hash"
| "hash_loop hash (c # cs) = hash_loop (31 * hash + char_val c) cs"

definition hash_function :: "string \<Rightarrow> nat" where
  "hash_function filename = unat (hash_loop 0 filename) mod HASH_SIZE"

definition insert_node :: "hashmap \<Rightarrow> string \<Rightarrow> 32 word \<Rightarrow> hashmap res" where
  \<comment> \<open>\<open>insert\<close>\<close>
  "insert_node t filename sz =
     (let index = hash_function filename
      in if mem_left t = 0 then Inl (Exit_Status 1)
         else bind_res (store_str 256 filename) (\<lambda>name.
              Inr (t\<lparr>buckets := (buckets t)[index := \<lparr>node_filename = name, node_filesize = sz\<rparr> # buckets t ! index],
                     mem_left := mem_left t - 1\<rparr>)))"

fun find_node :: "string \<Rightarrow> node list \<Rightarrow> 32 word" where
  "find_node filename [] = 0"
| "find_node filename (nd # nds) =
     (if node_filename nd = filename then node_filesize nd else find_node filename nds)"

definition table_filesize :: "hashmap \<Rightarrow> string \<Rightarrow> 32 word" where
  \<comment> \<open>\<open>get_filesize\<close>\<close>
  "table_filesize t filename = find_node filename (buckets t ! hash_function filename)"

definition print_hashmap :: "hashmap \<Rightarrow> (string \<times> 32 word) list" where
  "print_hashmap t =
     concat (map (\<lambda>i. map (\<lambda>nd. (node_filename nd, node_filesize nd)) (buckets t ! i)) [0..<HASH_SIZE])"

definition empty_hashmap :: "nat \<Rightarrow> hashmap" where
  "empty_hashmap n = \<lparr>buckets = replicate HASH_SIZE [], mem_left = n\<rparr>"

section \<open>Invariant and abstraction\<close>

definition hash_inv :: "hashmap \<Rightarrow> bool" where
  "hash_inv t \<longleftrightarrow> length (buckets t) = HASH_SIZE \<and>
     (\<forall>i < HASH_SIZE. \<forall>nd \<in> set (buckets t ! i). hash_function (node_filename nd) = i)"

definition hash_abs :: "hashmap \<Rightarrow> string \<rightharpoonup> 32 word" where
  "hash_abs t k =
     map_of (map (\<lambda>nd. (node_filename nd, node_filesize nd)) (buckets t ! hash_function k)) k"

lemma hash_function_less: "hash_function s < HASH_SIZE"
  by (simp add: hash_function_def)

lemma find_node_map_of:
  "find_node k nds = (case map_of (map (\<lambda>nd. (node_filename nd, node_filesize nd)) nds) k of
     None \<Rightarrow> 0 | Some v \<Rightarrow> v)"
  by (induction nds) auto

lemma table_filesize_abs: "table_filesize t k = (case hash_abs t k of None \<Rightarrow> 0 | Some v \<Rightarrow> v)"
  by (simp add: table_filesize_def hash_abs_def find_node_map_of)

lemma hash_inv_empty: "hash_inv (empty_hashmap n)"
  by (simp add: hash_inv_def empty_hashmap_def)

lemma hash_abs_empty: "hash_abs (empty_hashmap n) = Map.empty"
  by (simp add: fun_eq_iff hash_abs_def empty_hashmap_def hash_function_less)

lemma insert_node_result:
  assumes "hash_inv t" and "length k < 256" and "0 < mem_left t"
  shows "\<exists>t'. insert_node t k v = Inr t' \<and> hash_inv t' \<and> hash_abs t' = (hash_abs t)(k \<mapsto> v) \<and>
    mem_left t' = mem_left t - 1"
proof -
  let ?t = "t\<lparr>buckets := (buckets t)[hash_function k := \<lparr>node_filename = k, node_filesize = v\<rparr> #
      buckets t ! hash_function k], mem_left := mem_left t - 1\<rparr>"
  have "insert_node t k v = Inr ?t"
    using assms by (simp add: insert_node_def store_str_def Let_def)
  moreover have "hash_inv ?t"
    using assms(1) hash_function_less [of k] by (auto simp: hash_inv_def nth_list_update split: if_splits)
  moreover have "hash_abs ?t = (hash_abs t)(k \<mapsto> v)"
    using assms(1) hash_function_less by (auto simp: fun_eq_iff hash_abs_def hash_inv_def nth_list_update)
  ultimately show ?thesis by auto
qed

section \<open>Properties\<close>

text \<open>
  C28: \<open>insert\<close> and \<open>get_filesize\<close> implement a finite map. On a table whose nodes are in the buckets of
  their hash values, inserting a name shorter than 256 bytes, when \<open>malloc\<close> succeeds, returns a table
  that keeps this invariant and in which every lookup behaves as in the map with that name bound to the new
  size.
\<close>
theorem insert_lookup:
  assumes "hash_inv t" and "length k < 256" and "0 < mem_left t"
  shows "\<exists>t'. insert_node t k v = Inr t' \<and> hash_inv t' \<and>
    (\<forall>k'. table_filesize t' k' = (if k' = k then v else table_filesize t k'))"
  using insert_node_result [OF assms, of v] by (auto simp: table_filesize_abs)

theorem insert_lookup_witness:
  "\<exists>t'. insert_node (empty_hashmap 5) ''a.txt'' 7 = Inr t' \<and> hash_inv t' \<and>
     table_filesize t' ''a.txt'' = 7"
  using insert_lookup [OF hash_inv_empty, of "''a.txt''" 5 7] by (auto simp: empty_hashmap_def)

lemma print_hashmap_iff:
  assumes "hash_inv t"
  shows "(k, v) \<in> set (print_hashmap t) \<longleftrightarrow>
    (\<exists>nd \<in> set (buckets t ! hash_function k). node_filename nd = k \<and> node_filesize nd = v)"
proof -
  have "(k, v) \<in> set (print_hashmap t) \<longleftrightarrow>
      (\<exists>i < HASH_SIZE. \<exists>nd \<in> set (buckets t ! i). node_filename nd = k \<and> node_filesize nd = v)"
    by (auto simp: print_hashmap_def image_iff)
  also have "\<dots> \<longleftrightarrow> (\<exists>nd \<in> set (buckets t ! hash_function k). node_filename nd = k \<and> node_filesize nd = v)"
    using assms hash_function_less [of k] unfolding hash_inv_def by metis
  finally show ?thesis .
qed

text \<open>
  \<open>print_hashmap\<close> shows every size that \<open>get_filesize\<close> can return: a name is shown exactly when
  the table binds it, and the size that a lookup returns is among those shown for the name.
\<close>
lemma print_hashmap_complete:
  assumes "hash_inv t"
  shows "(\<exists>v. (k, v) \<in> set (print_hashmap t)) = (hash_abs t k \<noteq> None) \<and>
    (hash_abs t k \<noteq> None \<longrightarrow> (k, table_filesize t k) \<in> set (print_hashmap t))"
proof -
  let ?b = "buckets t ! hash_function k"
  have "hash_abs t k \<noteq> None \<longleftrightarrow> (\<exists>nd \<in> set ?b. node_filename nd = k)"
    by (auto simp: hash_abs_def map_of_eq_None_iff image_iff)
  moreover have "(\<exists>nd \<in> set nds. node_filename nd = k) \<Longrightarrow>
      \<exists>nd \<in> set nds. node_filename nd = k \<and> node_filesize nd = find_node k nds" for nds
    by (induction nds) auto
  ultimately show ?thesis
    using print_hashmap_iff [OF assms, of k] by (auto simp: table_filesize_def)
qed

section \<open>The table as an index of sizes\<close>

definition table_add :: "hashmap \<Rightarrow> string \<Rightarrow> 32 word \<Rightarrow> hashmap comp" where
  "table_add t k v = Some (insert_node t k v)"

definition table_look :: "hashmap \<Rightarrow> string \<Rightarrow> 32 word comp" where
  "table_look t k = Some (Inr (table_filesize t k))"

definition table_holds :: "hashmap \<Rightarrow> (string \<rightharpoonup> 32 word) \<Rightarrow> bool" where
  "table_holds t m \<longleftrightarrow> hash_inv t \<and> hash_abs t = m"

interpretation ht: size_index table_add table_look table_holds mem_left "\<lambda>k. length k < 256"
proof unfold_locales
  fix t m k
  assume "table_holds t m"
  then show "table_look t k = Some (Inr (case m k of None \<Rightarrow> 0 | Some v \<Rightarrow> v))"
    by (simp add: table_look_def table_holds_def table_filesize_abs)
next
  fix t m k v
  assume "table_holds t m" and "m k = None" and "length k < 256" and "0 < mem_left t"
  then show "\<exists>t'. table_add t k v = Some (Inr t') \<and> table_holds t' (m(k \<mapsto> v)) \<and> Suc (mem_left t') = mem_left t"
    using insert_node_result [of t k v] by (auto simp: table_add_def table_holds_def)
qed

end
