(* ===== verification/Peer_V1.thy ===== *)
theory Peer_V1
  imports Peer_Session Hash_Index
begin

text \<open>
  The first program, \<open>Project work solo/tomypeers.c\<close>: the same server, written before the restructuring, and
  a client whose \<open>main\<close> holds the whole session and keeps the sizes in the hash table of
  \<open>Hash_Index\<close>. Its definitions are marked \<open>v1_\<close>. The initial contents of the array \<open>command\<close>, which
  the loop condition reads before anything is stored in it, are part of the initial state.
\<close>

section \<open>The server\<close>

fun v1_append_entries :: "nat \<Rightarrow> string \<Rightarrow> find_data list \<Rightarrow> string res" where
  "v1_append_entries n file_list [] = Inr file_list"
| "v1_append_entries n file_list (fd # fds) =
     (if cFileName fd = ''.'' \<or> cFileName fd = ''..'' then v1_append_entries n file_list fds
      else bind_res (store_str 256 (cFileName fd @ '' ('' @ dec_of_nat (unat (nFileSizeLow fd)) @
               '' bytes)'' @ [newline])) (\<lambda>file_info.
           bind_res (strcat_buf n file_list file_info) (\<lambda>file_list. v1_append_entries n file_list fds)))"

definition v1_send_file_list :: "dir_scan \<Rightarrow> conn \<Rightarrow> conn res" where
  "v1_send_file_list dir c =
     (case dir of
        Find_Invalid _ \<Rightarrow> Inr c
      | Find_Entries e es _ \<Rightarrow>
          bind_res (v1_append_entries 1024 [] (e # es)) (\<lambda>file_list. Inr (snd (sock_send file_list c))))"

definition v1_create_file_list :: "string \<Rightarrow> dir_scan \<Rightarrow> string res" where
  "v1_create_file_list file_list dir =
     (case dir of
        Find_Invalid _ \<Rightarrow> Inr file_list
      | Find_Entries e es _ \<Rightarrow> v1_append_entries 2048 file_list (e # es))"

fun v1_directory_lines :: "find_data list \<Rightarrow> dir_line list" where
  "v1_directory_lines [] = []"
| "v1_directory_lines (fd # fds) =
     (if and (dwFileAttributes fd) FILE_ATTRIBUTE_DIRECTORY \<noteq> 0 then v1_directory_lines fds
      else Entry (cFileName fd) (push_bit 32 (ucast (nFileSizeHigh fd)) + ucast (nFileSizeLow fd))
           # v1_directory_lines fds)"

definition v1_list_directory :: "dir_scan \<Rightarrow> dir_line list" where
  "v1_list_directory dir =
     (case dir of
        Find_Invalid err \<Rightarrow> [List_Error err]
      | Find_Entries e es err \<Rightarrow>
          v1_directory_lines (e # es) @ (if err = ERROR_NO_MORE_FILES then [] else [List_Error err]))"

function v1_send_chunks :: "char list \<Rightarrow> conn \<Rightarrow> conn" where
  "v1_send_chunks content c =
     (if content = [] then c
      else case sock_send (take 3072 content) c of
             (ok, c') \<Rightarrow> if ok then v1_send_chunks (drop 3072 content) c' else c')"
  by pat_completeness auto
termination
  by (relation "measure (\<lambda>(content, c). length content)") auto

declare v1_send_chunks.simps [simp del]

definition v1_serve_request :: "file_system \<Rightarrow> string \<Rightarrow> string \<Rightarrow> conn \<Rightarrow> conn" where
  "v1_serve_request fs file_list file_name c =
     (if \<not> strstr_found file_list file_name then snd (sock_send ''File does not exist.'' c)
      else case fs (snprintf_s 128 ''upload/'' file_name) of
             None \<Rightarrow> c
           | Some content \<Rightarrow> v1_send_chunks content c)"

lemma v1_send_chunks_eq: "v1_send_chunks content c = send_chunks content c"
proof (induction content c rule: v1_send_chunks.induct)
  case (1 content c)
  then show ?case
    by (subst v1_send_chunks.simps, subst send_chunks.simps) (auto split: prod.splits)
qed

lemma v1_serve_request_eq: "v1_serve_request = serve_request"
  by (auto simp: fun_eq_iff v1_serve_request_def serve_request_def v1_send_chunks_eq Let_def
      split: option.splits)

function v1_serve_client :: "file_system \<Rightarrow> string \<Rightarrow> conn \<Rightarrow> conn res" where
  "v1_serve_client fs file_list c =
     (case sock_recv 128 c of
        (Got bytes, c1) \<Rightarrow>
          (case nul_terminate 128 bytes of
             Inl e \<Rightarrow> Inl e
           | Inr file_name \<Rightarrow>
               if file_name = ''exit'' then Inr (v1_serve_request fs file_list file_name c1)
               else v1_serve_client fs file_list (v1_serve_request fs file_list file_name c1))
      | (_, c1) \<Rightarrow> Inr c1)"
  by pat_completeness auto
termination
proof (relation "measure (\<lambda>(fs, fl, c). pending c)", goal_cases)
  case (2 fs fl c r c1 bytes file_name)
  then have "pending c1 < pending c"
    using sock_recv_pending [of 128 c bytes c1] by simp
  then show ?case by (simp add: v1_serve_request_eq pending_def)
qed simp

declare v1_serve_client.simps [simp del]

fun v1_accept_loop :: "file_system \<Rightarrow> incoming option list \<Rightarrow> conn list \<Rightarrow> listener res" where
  "v1_accept_loop fs [] acc = Inr \<lparr>stage = Accepting, listen_closed = False, served = acc\<rparr>"
| "v1_accept_loop fs (client_socket # arrivals) acc =
     (case client_socket of
        None \<Rightarrow> Inr \<lparr>stage = Accept_Failed, listen_closed = True, served = acc\<rparr>
      | Some i \<Rightarrow>
          bind_res (v1_send_file_list (dir_sent i) (client i)) (\<lambda>c.
          bind_res (v1_create_file_list [] (dir_checked i)) (\<lambda>file_list.
          bind_res (v1_serve_client fs file_list c) (\<lambda>c. v1_accept_loop fs arrivals (acc @ [c])))))"

definition v1_listen_for_connections ::
    "os_setup \<Rightarrow> file_system \<Rightarrow> incoming option list \<Rightarrow> listener res" where
  "v1_listen_for_connections os fs arrivals =
     (if \<not> socket_ok os then Inr \<lparr>stage = Socket_Failed, listen_closed = False, served = []\<rparr>
      else if \<not> bind_ok os then Inr \<lparr>stage = Bind_Failed, listen_closed = True, served = []\<rparr>
      else if \<not> gethostname_ok os then Inr \<lparr>stage = Hostname_Failed, listen_closed = True, served = []\<rparr>
      else if \<not> gethostbyname_ok os then Inr \<lparr>stage = Hostinfo_Failed, listen_closed = True, served = []\<rparr>
      else if \<not> listen_ok os then Inr \<lparr>stage = Listen_Failed, listen_closed = True, served = []\<rparr>
      else v1_accept_loop fs arrivals [])"

section \<open>The client\<close>

datatype v1_report =
    V1_Files string | V1_Recv_Error | V1_Not_There string | V1_Downloaded string | V1_Create_Error string
  | V1_Socket_Failed | V1_Connect_Failed | V1_Connected string string
  | V1_Directory "dir_line list" | V1_Table "(string \<times> 32 word) list"

record peer1 =
  inp1 :: string
  command1 :: string
  host1 :: "string option"   \<comment> \<open>\<open>None\<close> while the array holds no value\<close>
  port1 :: "string option"
  sock1 :: conn
  table1 :: hashmap
  files1 :: "string \<rightharpoonup> char list"
  shown1 :: "v1_report list"

abbreviation say1 :: "v1_report \<Rightarrow> peer1 \<Rightarrow> peer1" where
  "say1 n w \<equiv> w\<lparr>shown1 := shown1 w @ [n]\<rparr>"

definition v1_parse_entry :: "string \<Rightarrow> (string \<times> 32 word) res" where
  \<comment> \<open>\<open>sscanf(token, "%s (%lu bytes)", filename, &filesize)\<close> and the use of both variables after it\<close>
  "v1_parse_entry token =
     (case scan_word token of (w, rest) \<Rightarrow>
        if w = [] then Inl Uninit_Read
        else bind_res (store_str 256 w) (\<lambda>name.
          case skip_space rest of
            [] \<Rightarrow> Inl Uninit_Read
          | c # rest2 \<Rightarrow>
              if c \<noteq> CHR ''('' then Inl Uninit_Read
              else (case scan_int rest2 of
                      None \<Rightarrow> Inl Uninit_Read
                    | Some (v, _) \<Rightarrow>
                        if - (2 ^ 32) < v \<and> v < 2 ^ 32 then Inr (name, of_int v) else Inl Int_Overflow)))"

function v1_load_entries :: "hashmap \<Rightarrow> string \<Rightarrow> hashmap res" where
  "v1_load_entries t s =
     (case strtok newline s of
        None \<Rightarrow> Inr t
      | Some (token, rest) \<Rightarrow>
          (case v1_parse_entry token of
             Inl e \<Rightarrow> Inl e
           | Inr (name, sz) \<Rightarrow> bind_res (insert_node t name sz) (\<lambda>t. v1_load_entries t rest)))"
  by pat_completeness auto
termination
  by (relation "measure (\<lambda>(t, s). length s)") (auto dest: strtok_length)

declare v1_load_entries.simps [simp del]

definition v1_recv_list :: "peer1 \<Rightarrow> peer1 res" where
  "v1_recv_list w =
     (case sock_recv 2048 (sock1 w) of (r, c) \<Rightarrow>
        let w = w\<lparr>sock1 := c\<rparr>;
            loaded = (\<lambda>bytes.
              bind_res (nul_terminate 2048 bytes) (\<lambda>file_info.
              bind_res (v1_load_entries (table1 w) file_info) (\<lambda>t.
              Inr (say1 (V1_Files file_info) (w\<lparr>table1 := t\<rparr>)))))
        in (case r of Got bytes \<Rightarrow> loaded bytes | Closed \<Rightarrow> loaded [] | Recv_Failed \<Rightarrow> Inr (say1 V1_Recv_Error w)))"

partial_function (option) v1_recv_rest ::
    "32 word \<Rightarrow> 32 word \<Rightarrow> char list \<Rightarrow> conn \<Rightarrow> (char list \<times> conn) comp" where
  "v1_recv_rest fsize total_recv written c =
     (case sock_recv 4096 c of (r, c1) \<Rightarrow>
        (case r of
           Got bytes \<Rightarrow>
             (if fsize \<noteq> total_recv + of_nat (length bytes)
              then v1_recv_rest fsize (total_recv + of_nat (length bytes)) (written @ bytes) c1
              else Some (Inr (written @ bytes, c1)))
         | Closed \<Rightarrow>
             (if fsize \<noteq> total_recv then v1_recv_rest fsize total_recv written c1 else Some (Inr (written, c1)))
         | Recv_Failed \<Rightarrow> Some (Inl Buffer_Overflow)))"

definition v1_download_one :: "peer_env \<Rightarrow> peer1 \<Rightarrow> (bool \<times> peer1) comp" where
  "v1_download_one env w =
     (case scanf_s 128 (inp1 w) of
        Inl e \<Rightarrow> Some (Inl e)
      | Inr (token, rest) \<Rightarrow>
          let name = (case token of None \<Rightarrow> [] | Some t \<Rightarrow> t); w = w\<lparr>inp1 := rest\<rparr>
          in if name = ''exit'' then Some (Inr (False, w))
             else (case sock_recv 4096 (snd (sock_send name (sock1 w))) of (r, c) \<Rightarrow>
                     let w = w\<lparr>sock1 := c\<rparr>
                     in (case r of
                           Got bytes \<Rightarrow>
                             (case nul_terminate 4096 bytes of
                                Inl e \<Rightarrow> Some (Inl e)
                              | Inr s \<Rightarrow>
                                  if s = ''File does not exist.'' then Some (Inr (True, say1 (V1_Not_There name) w))
                                  else let path = snprintf_s 128 ''download/'' name;
                                           total_recv = of_nat (length bytes);
                                           fsize = table_filesize (table1 w) name
                                       in if creatable env path
                                          then bind_comp (if fsize \<noteq> total_recv
                                                          then v1_recv_rest fsize total_recv bytes c
                                                          else Some (Inr (bytes, c))) (\<lambda>(content, c).
                                               Some (Inr (True, say1 (V1_Downloaded name)
                                                 (w\<lparr>sock1 := c, files1 := (files1 w)(path \<mapsto> content)\<rparr>))))
                                          else Some (Inr (True, say1 (V1_Create_Error name) w)))
                         | Closed \<Rightarrow> Some (Inr (True, w))
                         | Recv_Failed \<Rightarrow> Some (Inr (True, w)))))"

partial_function (option) v1_download_loop :: "peer_env \<Rightarrow> peer1 \<Rightarrow> peer1 comp" where
  "v1_download_loop env w =
     (case v1_download_one env w of
        None \<Rightarrow> None
      | Some (Inl e) \<Rightarrow> Some (Inl e)
      | Some (Inr (again, w1)) \<Rightarrow> (if again then v1_download_loop env w1 else Some (Inr w1)))"

definition v1_connect :: "peer_env \<Rightarrow> peer1 \<Rightarrow> (int option \<times> peer1) comp" where
  \<comment> \<open>the branch of the command \<open>connect\<close>; a status is the value that \<open>main\<close> returns\<close>
  "v1_connect env w =
     (case bind_res (scanf_s 256 (inp1 w)) (\<lambda>(h, rest).
           bind_res (scanf_s 10 rest) (\<lambda>(p, rest).
           Inr (w\<lparr>inp1 := rest, host1 := (case h of None \<Rightarrow> host1 w | Some _ \<Rightarrow> h),
                  port1 := (case p of None \<Rightarrow> port1 w | Some _ \<Rightarrow> p)\<rparr>))) of
        Inl e \<Rightarrow> Some (Inl e)
      | Inr w \<Rightarrow>
          (if \<not> socket_created env then Some (Inr (Some 1, say1 V1_Socket_Failed w))
           else case (host1 w, port1 w) of
             (Some host, Some port) \<Rightarrow>
               (case net env host (port_of port) of
                  None \<Rightarrow> Some (Inr (Some 1, say1 V1_Connect_Failed w))
                | Some c \<Rightarrow>
                    bind_comp (Some (v1_recv_list (say1 (V1_Connected host port) (w\<lparr>sock1 := c\<rparr>)))) (\<lambda>w.
                    bind_comp (v1_download_loop env w) (\<lambda>w.
                    Some (Inr (None, w\<lparr>sock1 := dead_conn, port1 := Some [], host1 := Some []\<rparr>)))))
           | _ \<Rightarrow> Some (Inl Uninit_Read)))"

definition v1_turn :: "peer_env \<Rightarrow> peer1 \<Rightarrow> (int option \<times> peer1) comp" where
  "v1_turn env w =
     (case scanf_s 10 (inp1 w) of
        Inl e \<Rightarrow> Some (Inl e)
      | Inr (word, rest) \<Rightarrow>
          let w = w\<lparr>inp1 := rest, command1 := (case word of None \<Rightarrow> command1 w | Some s \<Rightarrow> s)\<rparr>
          in if command1 w = ''connect'' then v1_connect env w
             else if command1 w = ''uplist''
             then Some (Inr (None, say1 (V1_Table (print_hashmap (table1 w)))
                    (say1 (V1_Directory (v1_list_directory (upload_dir env))) w)))
             else Some (Inr (None, w)))"

partial_function (option) v1_main_loop :: "peer_env \<Rightarrow> peer1 \<Rightarrow> (int \<times> peer1) comp" where
  "v1_main_loop env w =
     (if command1 w = ''exit'' then Some (Inr (0, w))
      else case v1_turn env w of
             None \<Rightarrow> None
           | Some (Inl e) \<Rightarrow> Some (Inl e)
           | Some (Inr (Some status, w1)) \<Rightarrow> Some (Inr (status, w1))
           | Some (Inr (None, w1)) \<Rightarrow> v1_main_loop env w1)"

definition v1_main :: "bool \<Rightarrow> peer_env \<Rightarrow> peer1 \<Rightarrow> (int \<times> peer1) comp" where
  "v1_main wsa_started env w = (if wsa_started then v1_main_loop env w else Some (Inr (1, w)))"

section \<open>The restructured server is the same server\<close>

lemma v1_append_entries_eq: "v1_append_entries n fl fds = append_entries n fl fds"
  by (induction fds arbitrary: fl) (auto simp: listing_line_def bind_res_assoc)

lemma v1_send_file_list_eq: "v1_send_file_list = send_file_list"
  by (auto simp: fun_eq_iff v1_send_file_list_def send_file_list_def v1_append_entries_eq
      split: dir_scan.splits)

lemma v1_create_file_list_eq: "v1_create_file_list = create_file_list"
  by (auto simp: fun_eq_iff v1_create_file_list_def create_file_list_def v1_append_entries_eq
      split: dir_scan.splits)

lemma v1_serve_client_eq: "v1_serve_client fs fl c = serve_client fs fl c"
proof (induction fs fl c rule: v1_serve_client.induct)
  case (1 fs fl c)
  then show ?case
    by (subst v1_serve_client.simps, subst serve_client.simps)
       (auto simp: v1_serve_request_eq Let_def split: prod.splits recv_res.splits sum.splits)
qed

lemma v1_accept_loop_eq: "v1_accept_loop fs arrivals acc = accept_loop fs arrivals acc"
  by (induction arrivals arbitrary: acc)
     (auto simp: handle_connection_def v1_send_file_list_eq v1_create_file_list_eq v1_serve_client_eq
        bind_res_assoc split: option.splits)

lemma v1_directory_lines_eq:
  "v1_directory_lines fds = map (\<lambda>fd. Entry (cFileName fd) (full_size fd))
     (filter (\<lambda>fd. and (dwFileAttributes fd) FILE_ATTRIBUTE_DIRECTORY = 0) fds)"
  by (induction fds) (auto simp: full_size_def)

text \<open>
  The servers of the two sources differ in a comment and in the text of one trace, which the model leaves out: the
  two translations are the same functions, so what \<open>File_Server\<close> shows of the server holds for this program too.
\<close>
lemma restructured_server_equivalent:
  "v1_listen_for_connections os fs arrivals = listen_for_connections os fs arrivals \<and>
   v1_list_directory dir = list_directory dir"
  by (auto simp: v1_listen_for_connections_def listen_for_connections_def v1_accept_loop_eq
      v1_list_directory_def list_directory_def v1_directory_lines_eq split: dir_scan.splits)

section \<open>Reading a listing into the table\<close>

definition v1_listable :: "find_data \<Rightarrow> bool" where
  "v1_listable fd \<longleftrightarrow> cFileName fd \<noteq> [] \<and> (\<forall>c \<in> set (cFileName fd). \<not> is_space c \<and> c \<noteq> NUL) \<and>
     length (cFileName fd) < 256"

lemma v1_parse_entry_line: "v1_listable fd \<Longrightarrow> v1_parse_entry (line_text fd) = Inr (entry_of fd)"
proof -
  assume ok: "v1_listable fd"
  have "unat (nFileSizeLow fd) < 2 ^ LENGTH(32)" by (rule unsigned_less)
  then have "uint (nFileSizeLow fd) < 4294967296"
    using uint_less_of_unat [of "nFileSizeLow fd" 4294967296] by simp
  moreover have "- 4294967296 < uint (nFileSizeLow fd)"
    by (rule less_le_trans [of _ 0]) simp_all
  ultimately show ?thesis
    using ok line_text_scan(1) [of fd]
    by (auto simp: v1_parse_entry_def store_str_def v1_listable_def entry_of_def)
qed

lemma newline_not_in_v1_line: "v1_listable fd \<Longrightarrow> newline \<notin> set (line_text fd)"
  by (rule line_text_scan(2)) (auto simp: v1_listable_def)

lemma v1_load_entries_line:
  assumes "v1_listable fd"
  shows "v1_load_entries t (listing_line fd @ s) =
    bind_res (insert_node t (cFileName fd) (nFileSizeLow fd)) (\<lambda>t. v1_load_entries t s)"
proof -
  have "line_text fd \<noteq> []" by (simp add: line_text_def)
  then have "strtok newline (listing_line fd @ s) = Some (line_text fd, s)"
    using strtok_line [OF _ newline_not_in_v1_line [OF assms]] by (simp add: listing_line_text)
  then show ?thesis
    by (subst v1_load_entries.simps) (simp add: v1_parse_entry_line [OF assms] entry_of_def)
qed

lemma v1_load_entries_Nil [simp]: "v1_load_entries t [] = Inr t"
  by (subst v1_load_entries.simps) simp

lemma v1_load_entries_listing:
  "\<forall>fd \<in> set fds. visible fd \<longrightarrow> v1_listable fd \<Longrightarrow>
     Some (v1_load_entries t (listing fds)) = add_all table_add t (entries fds)"
proof (induction fds arbitrary: t)
  case (Cons fd fds)
  then show ?case
    by (auto simp: v1_load_entries_line entry_of_def table_add_def bind_res_def split: sum.splits)
qed simp

text \<open>
  The first program's client also reads back the listing of a peer: after the listing of pairwise
  different names has been loaded into a table that does not know them, \<open>get_filesize\<close> returns the size of
  every listed file. Here names may have up to 255 bytes and sizes up to 4 GiB.
\<close>
lemma v1_size_after_listing:
  assumes "\<forall>fd \<in> set fds. visible fd \<longrightarrow> v1_listable fd" and "distinct (map fst (entries fds))"
    and "length (entries fds) \<le> mem_left t" and "hash_inv t"
    and "\<forall>fd \<in> set fds. visible fd \<longrightarrow> hash_abs t (cFileName fd) = None"
    and "fd \<in> set fds" and "visible fd"
  shows "\<exists>t'. v1_load_entries t (listing fds) = Inr t' \<and> hash_inv t' \<and>
    table_filesize t' (cFileName fd) = nFileSizeLow fd"
proof -
  have holds: "table_holds t (hash_abs t)" using assms(4) by (simp add: table_holds_def)
  have new: "\<forall>k \<in> set (map fst (entries fds)). hash_abs t k = None \<and> length k < 256"
    using assms(1,5) by (auto simp: entry_of_def v1_listable_def)
  obtain t' where t': "add_all table_add t (entries fds) = Some (Inr t')"
      "table_holds t' (hash_abs t ++ map_of (entries fds))"
    using ht.add_all_holds [OF holds assms(2) new assms(3)] by blast
  have "map_of (entries fds) (cFileName fd) = Some (nFileSizeLow fd)"
    using assms(2,6,7) by (intro map_of_is_SomeI) (auto simp: entry_of_def)
  with t' v1_load_entries_listing [OF assms(1), of t] show ?thesis
    by (auto simp: table_holds_def table_filesize_abs map_add_def)
qed

section \<open>Downloads of the first program\<close>

interpretation rr1: receive_loop v1_recv_rest
  by unfold_locales (subst v1_recv_rest.simps, simp)

text \<open>
  A download of the first program is complete under the conditions of the restructured one, with the
  size taken from the hash table.
\<close>
lemma v1_download_complete:
  assumes "scan_word (inp1 w) = (name, rest)" and "name \<noteq> []" and "name \<noteq> ''exit''" and "length name \<le> 118"
    and "NUL \<notin> set name" and "inq (sock1 w) = seg # q" and "seg \<noteq> []" and "length seg < 4096"
    and "cstr seg \<noteq> ''File does not exist.''" and "creatable env (''download/'' @ name)"
    and "length (concat (seg # q)) = unat (table_filesize (table1 w) name)"
  shows "\<exists>w'. v1_download_one env w = Some (Inr (True, w')) \<and>
    files1 w' = (files1 w)(''download/'' @ name \<mapsto> concat (seg # q)) \<and>
    inp1 w' = rest \<and> concat (inq (sock1 w')) = []"
proof -
  let ?sz = "table_filesize (table1 w) name"
  let ?c = "snd (sock_send name (sock1 w))"
  have scan: "scanf_s 128 (inp1 w) = Inr (Some name, rest)"
    using assms by (intro scanf_s_word) auto
  have rcv: "sock_recv 4096 ?c = (Got seg, ?c\<lparr>inq := q\<rparr>)"
    using assms by (intro sock_recv_first) auto
  have path: "snprintf_s 128 ''download/'' name = ''download/'' @ name"
    using assms(4) by (simp add: download_path)
  have "?sz = of_nat (length (concat (seg # q)))" unfolding assms(11) by simp
  then have sz: "?sz = of_nat (length seg) + of_nat (length (concat q))" by simp
  have "unat ?sz < 2 ^ LENGTH(32)" by (rule unsigned_less)
  then have small: "length (concat q) < 2 ^ 32" using assms(11) by simp
  show ?thesis
  proof (cases "concat q = []")
    case True
    with sz scan rcv path assms show ?thesis
      by (simp add: v1_download_one_def nul_terminate_def Let_def del: concat_eq_Nil_conv)
  next
    case False
    then have "?sz \<noteq> of_nat (length seg)"
      using sz small word_of_nat_eq_small [where 'a = 32, of "length (concat q)" 0] by simp
    moreover obtain c' where "v1_recv_rest ?sz (of_nat (length seg)) seg (?c\<lparr>inq := q\<rparr>) =
        Some (Inr (seg @ concat q, c'))" "concat (inq c') = []"
      using rr1.collects [OF _ False small sz, of "?c\<lparr>inq := q\<rparr>" seg] by auto
    ultimately show ?thesis
      using scan rcv path assms
      by (simp add: v1_download_one_def nul_terminate_def Let_def del: concat_eq_Nil_conv)
  qed
qed

definition sample_peer1 :: "hashmap \<Rightarrow> peer1" where
  "sample_peer1 t = \<lparr>inp1 = ''a.txt exit'', command1 = [], host1 = None, port1 = None,
     sock1 = sample_conn [''he'', ''llo''], table1 = t, files1 = Map.empty, shown1 = []\<rparr>"

text \<open>
  C22: in the first program a listed file is downloaded completely. Load the listing of a peer into a table that knows none of its names (all
  names at most 255 bytes long, free of white space and pairwise different, memory for all nodes), and let the user ask for a listed file whose
  name has at most 118 bytes and is not \<open>exit\<close>. When the peer answers with as many bytes as its directory has for the file, in any
  segments (the first one shorter than 4096 bytes and not the message that the file does not exist), the turn ends and the file of that
  name in the download directory holds exactly these bytes.
\<close>
theorem v1_listed_download:
  assumes "\<forall>fd \<in> set fds. visible fd \<longrightarrow> v1_listable fd" and "distinct (map fst (entries fds))"
    and "length (entries fds) \<le> mem_left t" and "hash_inv t"
    and "\<forall>fd \<in> set fds. visible fd \<longrightarrow> hash_abs t (cFileName fd) = None" and "fd \<in> set fds" and "visible fd"
    and "scan_word (inp1 w) = (cFileName fd, rest)" and "cFileName fd \<noteq> ''exit''" and "length (cFileName fd) \<le> 118"
    and "inq (sock1 w) = seg # q" and "seg \<noteq> []" and "length seg < 4096" and "cstr seg \<noteq> ''File does not exist.''"
    and "length (concat (seg # q)) = unat (nFileSizeLow fd)" and "creatable env (''download/'' @ cFileName fd)"
  shows "\<exists>t' w'. v1_load_entries t (listing fds) = Inr t' \<and> v1_download_one env (w\<lparr>table1 := t'\<rparr>) = Some (Inr (True, w')) \<and>
    files1 w' = (files1 w)(''download/'' @ cFileName fd \<mapsto> concat (seg # q)) \<and> inp1 w' = rest \<and> concat (inq (sock1 w')) = []"
proof -
  obtain t' where t': "v1_load_entries t (listing fds) = Inr t'" "table_filesize t' (cFileName fd) = nFileSizeLow fd"
    using v1_size_after_listing [OF assms(1-7)] by blast
  have "cFileName fd \<noteq> []" "NUL \<notin> set (cFileName fd)" using assms(1,6,7) by (auto simp: v1_listable_def)
  then have "\<exists>w'. v1_download_one env (w\<lparr>table1 := t'\<rparr>) = Some (Inr (True, w')) \<and>
      files1 w' = (files1 (w\<lparr>table1 := t'\<rparr>))(''download/'' @ cFileName fd \<mapsto> concat (seg # q)) \<and> inp1 w' = rest \<and>
      concat (inq (sock1 w')) = []"
    using assms t'(2) by (intro v1_download_complete) auto
  with t'(1) show ?thesis by auto
qed

theorem v1_listed_download_witness:
  "\<exists>t' w'. v1_load_entries (empty_hashmap 5) (listing sample_fds) = Inr t' \<and>
     v1_download_one sample_env (sample_peer1 t') = Some (Inr (True, w')) \<and> files1 w' ''download/a.txt'' = Some ''hello''"
proof -
  let ?fd = "\<lparr>cFileName = ''a.txt'', dwFileAttributes = 0x20, nFileSizeHigh = 0, nFileSizeLow = 5\<rparr>"
  have "\<exists>t' w'. v1_load_entries (empty_hashmap 5) (listing sample_fds) = Inr t' \<and>
      v1_download_one sample_env ((sample_peer1 (empty_hashmap 5))\<lparr>table1 := t'\<rparr>) = Some (Inr (True, w')) \<and>
      files1 w' = (files1 (sample_peer1 (empty_hashmap 5)))(''download/'' @ cFileName ?fd \<mapsto> concat [''he'', ''llo'']) \<and>
      inp1 w' = '' exit'' \<and> concat (inq (sock1 w')) = []"
  proof (rule v1_listed_download [where fd = ?fd])
    show "length (entries sample_fds) \<le> mem_left (empty_hashmap 5)" "distinct (map fst (entries sample_fds))"
      by (simp_all add: sample_fds_ok(2) empty_hashmap_def)
    show "hash_inv (empty_hashmap 5)" by (rule hash_inv_empty)
    show "\<forall>fd \<in> set sample_fds. visible fd \<longrightarrow> hash_abs (empty_hashmap 5) (cFileName fd) = None" by (simp add: hash_abs_empty)
  qed (simp_all add: sample_fds_def sample_peer1_def sample_env_def sample_conn_def visible_def v1_listable_def is_space_def
      NUL_def scan_word_def skip_space_def)
  then show ?thesis by (auto simp: sample_peer1_def)
qed

section \<open>The command loop of the first program\<close>

text \<open>
  The first program does end: when the user types \<open>exit\<close> at the prompt, \<open>main\<close> leaves its loop and
  returns 0 without touching a file, the table or the connection.
\<close>
lemma v1_exit_returns:
  assumes "scan_word (inp1 w) = (''exit'', rest)" and "command1 w \<noteq> ''exit''"
  shows "v1_main True env w = Some (Inr (0, w\<lparr>inp1 := rest, command1 := ''exit''\<rparr>))"
proof -
  have "scanf_s 10 (inp1 w) = Inr (Some ''exit'', rest)"
    using assms(1) by (intro scanf_s_word) (simp_all add: NUL_def)
  then have "v1_turn env w = Some (Inr (None, w\<lparr>inp1 := rest, command1 := ''exit''\<rparr>))"
    by (simp add: v1_turn_def)
  then have "v1_main_loop env w = v1_main_loop env (w\<lparr>inp1 := rest, command1 := ''exit''\<rparr>)"
    using assms(2) by (subst v1_main_loop.simps) simp
  then show ?thesis
    by (simp add: v1_main_def) (subst v1_main_loop.simps; simp)
qed

end
