(* ===== verification/Registry.thy ===== *)
theory Registry
  imports C_Runtime
begin

text \<open>
  The registry of \<open>multi-threaded w server client model/tomypeers.c\<close>: \<open>run_registry\<close> with its table of peers,
  \<open>bind_and_listen\<close>, \<open>lookup_and_connect\<close>, \<open>find_max_fd\<close>, \<open>run_peer\<close> and \<open>main\<close>. Sockets are 32-bit numbers.
  What the socket calls return is given to the definitions round by round. An \<open>fd_set\<close> is the list of its
  sockets, which Winsock bounds by 64.
\<close>

type_synonym socket = "32 word"
type_synonym fd_set = "socket list"

definition INVALID_SOCKET :: socket where "INVALID_SOCKET = - 1"
abbreviation MAX_PENDING :: nat where "MAX_PENDING \<equiv> 5"
abbreviation FD_SETSIZE :: nat where "FD_SETSIZE \<equiv> 64"

definition FD_SET :: "socket \<Rightarrow> fd_set \<Rightarrow> fd_set" where
  "FD_SET s fs = (if s \<in> set fs \<or> FD_SETSIZE \<le> length fs then fs else fs @ [s])"

definition FD_CLR :: "socket \<Rightarrow> fd_set \<Rightarrow> fd_set" where
  "FD_CLR s fs = remove1 s fs"

section \<open>Finding an address\<close>

text \<open>
  One entry of the list that \<open>getaddrinfo\<close> returns, as the loop meets it: the socket that \<open>socket\<close>
  creates for it and whether \<open>bind\<close> or \<open>connect\<close> succeeds. The result of a search is the socket, the sockets
  closed on the way and whether \<open>freeaddrinfo\<close> was called.
\<close>

record candidate =
  cand_socket :: socket
  cand_ok :: bool

record search =
  found :: socket
  closed :: "socket list"
  freed :: bool

fun try_candidates :: "candidate list \<Rightarrow> socket \<Rightarrow> socket list \<Rightarrow> socket \<times> socket list" where
  \<comment> \<open>the loop over \<open>rp\<close>: the value of \<open>s\<close> after it and the sockets closed\<close>
  "try_candidates [] s cl = (s, cl)"
| "try_candidates (rp # rps) s cl =
     (let s = cand_socket rp
      in if s = INVALID_SOCKET then try_candidates rps s cl
         else if \<not> cand_ok rp then try_candidates rps INVALID_SOCKET (cl @ [s])
         else (s, cl))"

definition bind_and_listen :: "candidate list option \<Rightarrow> bool \<Rightarrow> search" where
  "bind_and_listen getaddrinfo listen_ok =
     (case getaddrinfo of
        None \<Rightarrow> \<lparr>found = INVALID_SOCKET, closed = [], freed = False\<rparr>
      | Some result \<Rightarrow>
          (case try_candidates result INVALID_SOCKET [] of (s, cl) \<Rightarrow>
             if s = INVALID_SOCKET then \<lparr>found = INVALID_SOCKET, closed = cl, freed = True\<rparr>
             else if \<not> listen_ok then \<lparr>found = INVALID_SOCKET, closed = cl @ [s], freed = True\<rparr>
             else \<lparr>found = s, closed = cl, freed = True\<rparr>))"

definition lookup_and_connect :: "candidate list option \<Rightarrow> search" where
  "lookup_and_connect getaddrinfo =
     (case getaddrinfo of
        None \<Rightarrow> \<lparr>found = INVALID_SOCKET, closed = [], freed = False\<rparr>
      | Some result \<Rightarrow>
          (case try_candidates result INVALID_SOCKET [] of (s, cl) \<Rightarrow>
             if s = INVALID_SOCKET then \<lparr>found = INVALID_SOCKET, closed = cl, freed = True\<rparr>
             else \<lparr>found = s, closed = cl, freed = True\<rparr>))"

section \<open>The largest socket of a set\<close>

partial_function (option) find_max_loop :: "fd_set \<Rightarrow> socket \<Rightarrow> socket option" where
  \<comment> \<open>\<open>i >= 0\<close> always holds of an unsigned \<open>i\<close>, which wraps below 0\<close>
  "find_max_loop fs i =
     (let ret = (if i \<in> set fs then i else 0)
      in if ret = 0 then find_max_loop fs (i - 1) else Some ret)"

definition find_max_fd :: "fd_set \<Rightarrow> socket option" where
  "find_max_fd fs = find_max_loop fs (of_nat MAX_PENDING)"

section \<open>The registry\<close>

record peer_entry =
  peer_id :: "32 word"
  socket_descriptor :: socket
  peer_files :: "string list"
  address :: nat
  numFiles :: "32 word"

record registry =
  peers :: "peer_entry list"    \<comment> \<open>\<open>peer[MAX_PENDING]\<close>\<close>
  numOfSocket :: int
  all_sockets :: fd_set
  max_socket :: "32 word"       \<comment> \<open>an \<open>int\<close>, always compared as an unsigned value\<close>
  listen_socket :: socket

definition accept_client :: "(socket \<times> nat) option \<Rightarrow> registry \<Rightarrow> registry res" where
  "accept_client accepted r =
     (if numOfSocket r < 0 \<or> int MAX_PENDING \<le> numOfSocket r then Inl Buffer_Overflow
      else let n = nat (numOfSocket r)
           in (case accepted of
                 None \<Rightarrow> Inr (r\<lparr>peers := (peers r)[n := (peers r ! n)\<lparr>socket_descriptor := INVALID_SOCKET\<rparr>]\<rparr>)
               | Some (newFD, addr) \<Rightarrow>
                   Inr (r\<lparr>peers := (peers r)[n := (peers r ! n)\<lparr>socket_descriptor := newFD, address := addr\<rparr>],
                          all_sockets := FD_SET newFD (all_sockets r),
                          max_socket := (if max_socket r < newFD then newFD else max_socket r),
                          numOfSocket := numOfSocket r + 1\<rparr>)))"

definition recv_client :: "int \<Rightarrow> socket \<Rightarrow> registry \<Rightarrow> registry" where
  "recv_client numbytes s r =
     (if numbytes \<le> 0
      then r\<lparr>numOfSocket := numOfSocket r - 1, all_sockets := FD_CLR s (all_sockets r)\<rparr>
      else r)"

record round =
  ready :: fd_set                          \<comment> \<open>\<open>call_set\<close> after \<open>select\<close>\<close>
  accepted :: "(socket \<times> nat) option"      \<comment> \<open>\<open>accept\<close>, \<open>None\<close> for \<open>INVALID_SOCKET\<close>\<close>
  numbytes :: "socket \<Rightarrow> int"              \<comment> \<open>\<open>recv\<close> on each socket\<close>

definition visit :: "round \<Rightarrow> socket \<Rightarrow> registry \<Rightarrow> registry res" where
  \<comment> \<open>the body of the loop over the sockets\<close>
  "visit rd s r =
     (if s \<notin> set (ready rd) then Inr r
      else if s = listen_socket r then accept_client (accepted rd) r
      else Inr (recv_client (numbytes rd s) s r))"

partial_function (option) visit_all :: "round \<Rightarrow> socket \<Rightarrow> registry \<Rightarrow> registry comp" where
  \<comment> \<open>\<open>for (SOCKET s = 3; s <= max_socket; ++s)\<close>\<close>
  "visit_all rd s r =
     (if s \<le> max_socket r
      then (case visit rd s r of Inl e \<Rightarrow> Some (Inl e) | Inr r1 \<Rightarrow> visit_all rd (s + 1) r1)
      else Some (Inr r))"

text \<open>
  \<open>run_registry\<close> over a sequence of calls of \<open>select\<close>; \<open>None\<close> is an error. The flag says that the function
  has returned; otherwise the thread waits in the next \<open>select\<close>.
\<close>

fun run_rounds :: "round option list \<Rightarrow> registry \<Rightarrow> (bool \<times> registry) comp" where
  "run_rounds [] r = Some (Inr (False, r))"
| "run_rounds (None # rds) r = Some (Inr (True, r))"
| "run_rounds (Some rd # rds) r = bind_comp (visit_all rd 3 r) (\<lambda>r. run_rounds rds r)"

definition run_registry ::
    "candidate list option \<Rightarrow> bool \<Rightarrow> peer_entry list \<Rightarrow> round option list \<Rightarrow> (bool \<times> registry) comp" where
  \<comment> \<open>\<open>peer0\<close> are the initial contents of the array \<open>peer\<close>\<close>
  "run_registry getaddrinfo listen_ok peer0 rds =
     (let s = found (bind_and_listen getaddrinfo listen_ok)
      in run_rounds rds \<lparr>peers = peer0, numOfSocket = 0, all_sockets = FD_SET s [], max_socket = s,
                         listen_socket = s\<rparr>)"

section \<open>Roles\<close>

definition run_peer :: "candidate list option \<Rightarrow> socket option" where
  \<comment> \<open>\<open>None\<close> when the registry cannot be reached\<close>
  "run_peer getaddrinfo =
     (let s = found (lookup_and_connect getaddrinfo) in if s = INVALID_SOCKET then None else Some s)"

datatype role_run = No_Role | Ran_Registry registry | Ran_Peer "socket option"

definition registry_main ::
    "bool \<Rightarrow> nat \<Rightarrow> string \<Rightarrow> candidate list option \<Rightarrow> bool \<Rightarrow> peer_entry list \<Rightarrow> round option list \<Rightarrow>
     (int \<times> role_run) comp" where
  "registry_main wsa_started argc input getaddrinfo listen_ok peer0 rds =
     (if \<not> wsa_started then Some (Inr (1, No_Role))
      else if argc \<noteq> 2 then Some (Inr (1, No_Role))
      else case scanf_s 10 input of
             Inl e \<Rightarrow> Some (Inl e)
           | Inr (None, _) \<Rightarrow> Some (Inl Uninit_Read)
           | Inr (Some role, _) \<Rightarrow>
               if role = ''registry''
               then bind_comp (run_registry getaddrinfo listen_ok peer0 rds) (\<lambda>(returned, r).
                    if returned then Some (Inr (0, Ran_Registry r)) else None)
               else if role = ''peer'' then Some (Inr (0, Ran_Peer (run_peer getaddrinfo)))
               else Some (Inr (1, No_Role)))"

section \<open>Searches leak no socket\<close>

fun created :: "candidate list \<Rightarrow> socket list" where
  \<comment> \<open>the sockets created before the loop over the addresses ends\<close>
  "created [] = []"
| "created (rp # rps) =
     (if cand_socket rp = INVALID_SOCKET then created rps
      else if cand_ok rp then [cand_socket rp] else cand_socket rp # created rps)"

lemma try_candidates_created:
  "try_candidates rps INVALID_SOCKET cl = (s, cl') \<Longrightarrow>
     cl' @ (if s = INVALID_SOCKET then [] else [s]) = cl @ created rps"
proof (induction rps arbitrary: cl)
  case (Cons rp rps)
  show ?case
    using Cons.prems Cons.IH [of cl] Cons.IH [of "cl @ [cand_socket rp]"]
    by (auto simp: Let_def split: if_splits)
qed simp

lemma try_candidates_found:
  "try_candidates rps INVALID_SOCKET cl = (s, cl') \<Longrightarrow>
     (s \<noteq> INVALID_SOCKET) = (\<exists>rp \<in> set rps. cand_socket rp \<noteq> INVALID_SOCKET \<and> cand_ok rp)"
  by (induction rps arbitrary: cl) (auto simp: Let_def split: if_splits)

text \<open>
  \<open>bind_and_listen\<close> and \<open>lookup_and_connect\<close> leak nothing: every socket they create is closed, in
  order, except the one they return, on every path; \<open>freeaddrinfo\<close> is called whenever \<open>getaddrinfo\<close>
  succeeded; and they succeed exactly when some address can be bound (and listened on) or connected.
\<close>
lemma socket_search_no_leak:
  "(let r = bind_and_listen (Some result) listen_ok
    in closed r @ (if found r = INVALID_SOCKET then [] else [found r]) = created result \<and> freed r \<and>
       (found r \<noteq> INVALID_SOCKET) =
         ((\<exists>rp \<in> set result. cand_socket rp \<noteq> INVALID_SOCKET \<and> cand_ok rp) \<and> listen_ok)) \<and>
   (let r = lookup_and_connect (Some result)
    in closed r @ (if found r = INVALID_SOCKET then [] else [found r]) = created result \<and> freed r \<and>
       (found r \<noteq> INVALID_SOCKET) = (\<exists>rp \<in> set result. cand_socket rp \<noteq> INVALID_SOCKET \<and> cand_ok rp))"
proof -
  obtain s cl where t: "try_candidates result INVALID_SOCKET [] = (s, cl)" by force
  show ?thesis
    using try_candidates_created [OF t] try_candidates_found [OF t] t
    by (auto simp: bind_and_listen_def lookup_and_connect_def Let_def)
qed

section \<open>The registry's table\<close>

definition reg_inv :: "registry \<Rightarrow> bool" where
  "reg_inv r \<longleftrightarrow> length (peers r) = MAX_PENDING \<and> distinct (all_sockets r) \<and>
     listen_socket r \<in> set (all_sockets r) \<and> numOfSocket r = int (length (all_sockets r)) - 1 \<and>
     length (all_sockets r) \<le> Suc MAX_PENDING \<and> max_socket r \<noteq> INVALID_SOCKET \<and>
     (\<forall>s \<in> set (all_sockets r). s \<le> max_socket r)"

text \<open>One step of the registry: a client is accepted, or one of the connected clients is read.\<close>

inductive reg_step :: "registry \<Rightarrow> registry \<Rightarrow> bool" where
  accept_step: "accept_client acc r = Inr r' \<Longrightarrow>
     (\<And>fd a. acc = Some (fd, a) \<Longrightarrow> fd \<notin> set (all_sockets r) \<and> fd \<noteq> INVALID_SOCKET) \<Longrightarrow> reg_step r r'"
| recv_step: "s \<in> set (all_sockets r) \<Longrightarrow> s \<noteq> listen_socket r \<Longrightarrow> reg_step r (recv_client n s r)"

inductive_cases reg_stepE: "reg_step r r'"

lemma accept_client_inv:
  assumes "reg_inv r" and "accept_client acc r = Inr r'"
    and "\<And>fd a. acc = Some (fd, a) \<Longrightarrow> fd \<notin> set (all_sockets r) \<and> fd \<noteq> INVALID_SOCKET"
  shows "reg_inv r' \<and> listen_socket r' = listen_socket r \<and> set (all_sockets r) \<subseteq> set (all_sockets r')"
  using assms
  by (auto simp: reg_inv_def accept_client_def FD_SET_def Let_def split: if_splits option.splits
      intro: less_imp_le order_trans)

lemma recv_client_inv:
  assumes "reg_inv r" and "s \<in> set (all_sockets r)" and "s \<noteq> listen_socket r"
  shows "reg_inv (recv_client n s r) \<and> listen_socket (recv_client n s r) = listen_socket r \<and>
    set (all_sockets r) - {s} \<subseteq> set (all_sockets (recv_client n s r))"
proof -
  have "0 < length (all_sockets r)" using assms(2) by (rule length_pos_if_in_set)
  then have n: "numOfSocket r = int (length (all_sockets r) - Suc 0)"
    using assms(1) unfolding reg_inv_def by linarith
  show ?thesis
    using assms n
    by (auto simp: reg_inv_def recv_client_def FD_CLR_def length_remove1)
qed

lemma reg_step_inv: "reg_step r r' \<Longrightarrow> reg_inv r \<Longrightarrow> reg_inv r'"
  by (erule reg_stepE) (auto dest: accept_client_inv recv_client_inv)

inductive reg_reachable :: "registry \<Rightarrow> registry \<Rightarrow> bool" where
  reg_start: "reg_reachable r r"
| reg_more: "reg_reachable r r1 \<Longrightarrow> reg_step r1 r2 \<Longrightarrow> reg_reachable r r2"

lemma reg_reachable_inv: "reg_reachable r r' \<Longrightarrow> reg_inv r \<Longrightarrow> reg_inv r'"
  by (induction rule: reg_reachable.induct) (auto intro: reg_step_inv)

lemma reg_reachable_trans: "reg_reachable r1 r2 \<Longrightarrow> reg_reachable r r1 \<Longrightarrow> reg_reachable r r2"
  by (induction rule: reg_reachable.induct) (auto intro: reg_reachable.intros)

text \<open>
  A round is possible when \<open>select\<close> reports watched sockets only and \<open>accept\<close> returns a socket that is
  not in use when it is called: one that is not watched, or the socket of a client that the loop closes before it reaches the listening socket.
\<close>

definition unused_at :: "round \<Rightarrow> socket \<Rightarrow> registry \<Rightarrow> socket \<Rightarrow> bool" where
  "unused_at rd s r fd \<longleftrightarrow> fd \<noteq> INVALID_SOCKET \<and>
     (fd \<notin> set (all_sockets r) \<or> fd \<in> set (ready rd) \<and> s \<le> fd \<and> fd < listen_socket r \<and> numbytes rd fd \<le> 0)"

definition round_ok :: "round \<Rightarrow> registry \<Rightarrow> bool" where
  "round_ok rd r \<longleftrightarrow> set (ready rd) \<subseteq> set (all_sockets r) \<and>
     (case accepted rd of None \<Rightarrow> True | Some (fd, a) \<Rightarrow> unused_at rd 3 r fd)"

lemma word_succ_le: "s \<le> m \<Longrightarrow> m \<noteq> (- 1 :: 32 word) \<Longrightarrow> unat (s + 1) = Suc (unat s)"
proof -
  assume "s \<le> m" and "m \<noteq> - 1"
  then have "1 + s \<noteq> 0" by (metis add.inverse_unique word_order.extremum_unique)
  then show ?thesis using unatSuc by (metis add.commute)
qed

text \<open>
  What holds when the loop over the sockets reaches \<open>s\<close>: the reported sockets from \<open>s\<close> on are still
  watched, and if the listening socket is still to come, the table has a free slot and the socket to be
  accepted is unused or will be closed on the way.
\<close>

definition scan_inv :: "round \<Rightarrow> socket \<Rightarrow> registry \<Rightarrow> bool" where
  "scan_inv rd s r \<longleftrightarrow> reg_inv r \<and> (\<forall>x \<in> set (ready rd). s \<le> x \<longrightarrow> x \<in> set (all_sockets r)) \<and>
     (s \<le> listen_socket r \<longrightarrow> numOfSocket r < int MAX_PENDING \<and>
        (case accepted rd of None \<Rightarrow> True | Some (fd, a) \<Rightarrow> unused_at rd s r fd))"

lemma accept_client_free_slot:
  "0 \<le> numOfSocket r \<Longrightarrow> numOfSocket r < int MAX_PENDING \<Longrightarrow> \<exists>r'. accept_client acc r = Inr r'"
  by (auto simp: accept_client_def Let_def split: option.splits)

lemma reg_inv_count: "reg_inv r \<Longrightarrow> 0 \<le> numOfSocket r"
  using length_pos_if_in_set [of "listen_socket r" "all_sockets r"] by (auto simp: reg_inv_def)

lemma reg_inv_ready: "reg_inv r \<Longrightarrow> s \<in> set (all_sockets r) \<Longrightarrow> s \<le> max_socket r \<and> max_socket r \<noteq> - 1"
  by (auto simp: reg_inv_def INVALID_SOCKET_def)

lemma word_succ_le_iff: "s \<le> m \<Longrightarrow> m \<noteq> (- 1 :: 32 word) \<Longrightarrow> (s + 1 \<le> x) = (s < x)"
  using word_succ_le [of s m] by (simp add: word_le_nat_alt word_less_nat_alt Suc_le_eq)

lemma unused_skip:
  assumes "\<And>x. (s + 1 \<le> x) = (s < x)" and "s \<notin> set (ready rd)" and "unused_at rd s r fd"
  shows "unused_at rd (s + 1) r fd"
  using assms by (auto simp: unused_at_def order.order_iff_strict)

lemma unused_recv:
  assumes "\<And>x. (s + 1 \<le> x) = (s < x)" and "reg_inv r" and "unused_at rd s r fd"
  shows "unused_at rd (s + 1) (recv_client (numbytes rd s) s r) fd"
proof -
  have "distinct (all_sockets r)" using assms(2) by (simp add: reg_inv_def)
  then show ?thesis using assms(1,3)
    by (auto simp: unused_at_def recv_client_def FD_CLR_def order.order_iff_strict dest: set_remove1_subset [THEN subsetD])
qed

lemma visit_scan_inv:
  assumes inv: "scan_inv rd s r" and s: "s \<le> max_socket r"
  shows "\<exists>r'. visit rd s r = Inr r' \<and> scan_inv rd (s + 1) r' \<and> (r' = r \<or> reg_step r r')"
proof -
  have ri: "reg_inv r" using inv by (simp add: scan_inv_def)
  then have m: "max_socket r \<noteq> - 1" by (simp add: reg_inv_def INVALID_SOCKET_def)
  note step = word_succ_le_iff [OF s m]
  consider (skip) "s \<notin> set (ready rd)" | (acc) "s \<in> set (ready rd)" "s = listen_socket r"
    | (rcv) "s \<in> set (ready rd)" "s \<noteq> listen_socket r" by blast
  then show ?thesis
  proof cases
    case skip
    then show ?thesis using inv unused_skip [OF step skip] by (cases "accepted rd") (auto simp: visit_def scan_inv_def step)
  next
    case acc
    then obtain r' where r': "accept_client (accepted rd) r = Inr r'"
      using accept_client_free_slot [of r "accepted rd"] inv reg_inv_count [OF ri] by (auto simp: scan_inv_def)
    have fresh: "fd \<notin> set (all_sockets r) \<and> fd \<noteq> INVALID_SOCKET" if "accepted rd = Some (fd, a)" for fd a
      using inv acc that by (auto simp: scan_inv_def unused_at_def)
    have i: "reg_inv r' \<and> listen_socket r' = listen_socket r \<and> set (all_sockets r) \<subseteq> set (all_sockets r')"
      using accept_client_inv [OF ri r'] fresh by blast
    have "scan_inv rd (s + 1) r'" using inv i by (auto simp: scan_inv_def step acc(2) [symmetric])
    then show ?thesis using acc r' accept_step [OF r'] fresh by (auto simp: visit_def)
  next
    case rcv
    then have w: "s \<in> set (all_sockets r)" using inv by (simp add: scan_inv_def)
    note i = recv_client_inv [OF ri w rcv(2), of "numbytes rd s"]
    have n: "numOfSocket (recv_client (numbytes rd s) s r) \<le> numOfSocket r" by (simp add: recv_client_def)
    have "scan_inv rd (s + 1) (recv_client (numbytes rd s) s r)"
      unfolding scan_inv_def step
    proof (intro conjI impI ballI)
      show "case accepted rd of None \<Rightarrow> True
        | Some (fd, a) \<Rightarrow> unused_at rd (s + 1) (recv_client (numbytes rd s) s r) fd"
        if "s < listen_socket (recv_client (numbytes rd s) s r)"
        using inv i that unused_recv [OF step ri] by (cases "accepted rd") (auto simp: scan_inv_def less_imp_le)
    qed (use inv i n in \<open>auto simp: scan_inv_def less_imp_le\<close>)
    moreover have "visit rd s r = Inr (recv_client (numbytes rd s) s r)" using rcv by (simp add: visit_def)
    ultimately show ?thesis using recv_step [OF w rcv(2)] by blast
  qed
qed

lemma visit_all_scan_inv:
  "scan_inv rd s r \<Longrightarrow> \<exists>r'. visit_all rd s r = Some (Inr r') \<and> reg_inv r' \<and> reg_reachable r r'"
proof (induction "2 ^ 32 - unat s" arbitrary: s r rule: less_induct)
  case less
  show ?case
  proof (cases "s \<le> max_socket r")
    case False
    then show ?thesis using less.prems by (auto simp: visit_all.simps scan_inv_def intro: reg_start)
  next
    case True
    then obtain r1 where v: "visit rd s r = Inr r1" and i: "scan_inv rd (s + 1) r1"
      and st: "r1 = r \<or> reg_step r r1"
      using visit_scan_inv [OF less.prems] by blast
    have "max_socket r \<noteq> - 1" using less.prems by (simp add: scan_inv_def reg_inv_def INVALID_SOCKET_def)
    then have "2 ^ 32 - unat (s + 1) < 2 ^ 32 - unat s"
      using word_succ_le [OF True] unsigned_less [of s, where 'a=nat] by simp
    from less.hyps [OF this i] obtain r' where "visit_all rd (s + 1) r1 = Some (Inr r')" "reg_inv r'"
      "reg_reachable r1 r'" by blast
    moreover have "reg_reachable r r1" using st by (auto intro: reg_reachable.intros)
    ultimately show ?thesis using True v
      by (subst visit_all.simps) (auto intro: reg_reachable_trans)
  qed
qed

text \<open>
  C27: with a free slot in the table, a round of the registry ends: whatever \<open>select\<close> reports, \<open>accept\<close> returns (a socket not in use at that time)
  and \<open>recv\<close> returns on the reported sockets, the loop over the sockets terminates without writing outside
  \<open>peer\<close>, and afterwards \<open>numOfSocket\<close> is again the number of connected clients (the watched sockets other
  than the listening one), between 0 and 5, with \<open>max_socket\<close> above every watched socket.
\<close>
theorem registry_round:
  assumes "reg_inv r" and "round_ok rd r" and "numOfSocket r < int MAX_PENDING"
  shows "\<exists>r'. visit_all rd 3 r = Some (Inr r') \<and> distinct (all_sockets r') \<and>
    numOfSocket r' = int (length (all_sockets r')) - 1 \<and> 0 \<le> numOfSocket r' \<and>
    numOfSocket r' \<le> int MAX_PENDING \<and> (\<forall>s \<in> set (all_sockets r'). s \<le> max_socket r')"
proof -
  have "scan_inv rd 3 r" using assms by (auto simp: scan_inv_def round_ok_def split: option.splits)
  then obtain r' where "visit_all rd 3 r = Some (Inr r')" "reg_inv r'" using visit_all_scan_inv by blast
  then show ?thesis using reg_inv_count [of r'] by (auto simp: reg_inv_def)
qed

definition blank_peer :: peer_entry where
  "blank_peer = \<lparr>peer_id = 0, socket_descriptor = 0, peer_files = [], address = 0, numFiles = 0\<rparr>"

theorem registry_round_witness:
  "\<exists>r'. visit_all \<lparr>ready = [4, 5], accepted = Some (4, 1), numbytes = (\<lambda>_. 0)\<rparr> 3
      \<lparr>peers = replicate 5 blank_peer, numOfSocket = 1, all_sockets = [5, 4], max_socket = 5, listen_socket = 5\<rparr>
      = Some (Inr r') \<and> distinct (all_sockets r')"
  using registry_round [of "\<lparr>peers = replicate 5 blank_peer, numOfSocket = 1, all_sockets = [5, 4], max_socket = 5,
      listen_socket = 5\<rparr>" "\<lparr>ready = [4, 5], accepted = Some (4, 1), numbytes = (\<lambda>_. 0)\<rparr>"]
  by (auto simp: reg_inv_def round_ok_def unused_at_def INVALID_SOCKET_def)

text \<open>
  The table is not guarded. When five clients are connected and another one asks for a connection,
  the registry writes \<open>peer[5]\<close>, outside the array, at the listening socket's turn.
\<close>
lemma sixth_client_overflows:
  assumes "numOfSocket r = int MAX_PENDING" and "listen_socket r \<in> set (ready rd)"
  shows "visit rd (listen_socket r) r = Inl Buffer_Overflow"
  using assms by (simp add: visit_def accept_client_def)



section \<open>The largest socket\<close>

lemma find_max_loop_found:
  "unat i = n \<Longrightarrow> \<exists>m \<in> set fs. m \<noteq> 0 \<and> m \<le> i \<Longrightarrow>
   find_max_loop fs i = Some (Max {m \<in> set fs. m \<noteq> 0 \<and> m \<le> i})"
proof (induction n arbitrary: i)
  case 0
  then show ?case by (auto simp: unat_eq_0)
next
  case (Suc n)
  have i: "i \<noteq> 0" using Suc.prems by auto
  show ?case
  proof (cases "i \<in> set fs")
    case True
    then have "Max {m \<in> set fs. m \<noteq> 0 \<and> m \<le> i} = i" using i by (intro Max_eqI) auto
    then show ?thesis using True i by (subst find_max_loop.simps) (simp add: Let_def)
  next
    case False
    have u: "unat (i - 1) = n" using Suc.prems(1) i by (simp add: unat_minus_one)
    have "m \<le> i - 1" if "m \<in> set fs" "m \<le> i" for m
    proof -
      have "m \<noteq> i" using that False by blast
      then have "unat m \<noteq> unat i" by (simp add: word_unat_eq_iff)
      then show ?thesis using that(2) u Suc.prems(1) by (simp add: word_le_nat_alt)
    qed
    then have e: "{m \<in> set fs. m \<noteq> 0 \<and> m \<le> i} = {m \<in> set fs. m \<noteq> 0 \<and> m \<le> i - 1}"
      using u Suc.prems(1) by (auto simp: word_le_nat_alt)
    then have "\<exists>m \<in> set fs. m \<noteq> 0 \<and> m \<le> i - 1" using Suc.prems(2) by blast
    then show ?thesis using False Suc.IH [OF u] e by (subst find_max_loop.simps) (simp add: Let_def)
  qed
qed

lemma find_max_loop_never: "set fs \<subseteq> {0} \<Longrightarrow> find_max_loop fs i = None"
proof -
  assume e: "set fs \<subseteq> {0}"
  have "set fs \<subseteq> {0} \<longrightarrow> False" if "find_max_loop fs i = Some v" for v
    by (rule find_max_loop.raw_induct [where P = "\<lambda>fs i v. set fs \<subseteq> {0} \<longrightarrow> False", OF _ that])
      (auto simp: Let_def split: if_splits)
  then show ?thesis using e by (cases "find_max_loop fs i") auto
qed

text \<open>
  \<open>find_max_fd\<close> starts at \<open>MAX_PENDING\<close>, not at the largest descriptor: when the set has a socket between
  1 and 5, the result is the largest of those, however large the other sockets are; and on a set with no
  socket but 0 the loop never ends, since the unsigned \<open>i\<close> is never below 0.
\<close>
lemma find_max_fd_spec:
  "((\<exists>m \<in> set fs. m \<noteq> 0 \<and> m \<le> 5) \<longrightarrow> find_max_fd fs = Some (Max {m \<in> set fs. m \<noteq> 0 \<and> m \<le> 5})) \<and>
   (set fs \<subseteq> {0} \<longrightarrow> find_max_fd fs = None)"
  unfolding find_max_fd_def using find_max_loop_found [of "of_nat MAX_PENDING" 5 fs] find_max_loop_never by simp

end
