(* ===== verification/Desktop_UI.thy ===== *)
theory Desktop_UI
  imports C_Runtime
begin

unbundle bit_operations_syntax

text \<open>
  The window of \<open>ui.c\<close>: the controls that \<open>InitUI\<close> creates, \<open>WindowProc\<close> with the commands \<open>Connect\<close> and
  \<open>ListFiles\<close>, and the message loop of \<open>WinMain\<close>. A control is the place and the text Windows keeps for it;
  \<open>None\<close> stands for a handle that is \<open>NULL\<close>. Coordinates are 32-bit \<open>int\<close>s, so a difference may overflow.
\<close>

record place =
  px :: int
  py :: int
  pwidth :: int
  pheight :: int

record control =
  class_name :: string
  caption :: string
  menu_id :: int
  location :: place

record ui =
  ip_text_box :: "control option"        \<comment> \<open>\<open>g_hIPTextBox\<close>\<close>
  port_text_box :: "control option"      \<comment> \<open>\<open>g_hPortTextBox\<close>\<close>
  connect_button :: "control option"     \<comment> \<open>\<open>g_hConnectButton\<close>\<close>
  list_box :: "control option"           \<comment> \<open>\<open>g_hListBox\<close>\<close>
  list_items :: "string list"            \<comment> \<open>the strings of the list box\<close>
  connection :: "32 word"                \<comment> \<open>the global \<open>SOCKET\<close>, 0 when the program starts; no function assigns it\<close>
  quit_code :: "int option"              \<comment> \<open>set by \<open>PostQuitMessage\<close>\<close>

record rect =
  rleft :: int
  rtop :: int
  rright :: int
  rbottom :: int

text \<open>A call of \<open>WindowProc\<close>; \<open>client\<close> is what \<open>GetClientRect\<close> reports during it.\<close>

record event =
  uMsg :: "32 word"
  wParam :: "32 word"
  client :: rect

definition WM_CREATE :: "32 word" where "WM_CREATE = 0x0001"
definition WM_DESTROY :: "32 word" where "WM_DESTROY = 0x0002"
definition WM_SIZE :: "32 word" where "WM_SIZE = 0x0005"
definition WM_COMMAND :: "32 word" where "WM_COMMAND = 0x0111"
definition LOWORD :: "32 word \<Rightarrow> 32 word" where "LOWORD w = w AND 0xFFFF"

lemmas msg_defs = WM_CREATE_def WM_DESTROY_def WM_SIZE_def WM_COMMAND_def

definition int_sub :: "int \<Rightarrow> int \<Rightarrow> int res" where
  "int_sub a b = (let d = a - b in if - (2 ^ 31) \<le> d \<and> d < 2 ^ 31 then Inr d else Inl Int_Overflow)"

section \<open>Controls\<close>

definition create_window :: "bool \<Rightarrow> string \<Rightarrow> string \<Rightarrow> int \<Rightarrow> place \<Rightarrow> control option" where
  "create_window created cls cap menu pl =
     (if created then Some \<lparr>class_name = cls, caption = cap, menu_id = menu, location = pl\<rparr> else None)"

definition move_window :: "control option \<Rightarrow> place \<Rightarrow> control option" where
  "move_window h pl = map_option (\<lambda>c. c\<lparr>location := pl\<rparr>) h"

definition get_window_text :: "control option \<Rightarrow> nat \<Rightarrow> string" where
  \<comment> \<open>at most \<open>n - 1\<close> characters, and a NUL\<close>
  "get_window_text h n = (case h of None \<Rightarrow> [] | Some c \<Rightarrow> take (n - 1) (caption c))"

definition InitUI :: "(nat \<Rightarrow> bool) \<Rightarrow> ui \<Rightarrow> ui" where
  \<comment> \<open>\<open>created i\<close>: the \<open>i\<close>-th \<open>CreateWindow\<close> succeeds\<close>
  "InitUI created u = u\<lparr>
     ip_text_box := create_window (created 0) ''EDIT'' [] 0 \<lparr>px = 20, py = 20, pwidth = 200, pheight = 25\<rparr>,
     port_text_box := create_window (created 1) ''EDIT'' [] 0 \<lparr>px = 240, py = 20, pwidth = 100, pheight = 25\<rparr>,
     connect_button := create_window (created 2) ''BUTTON'' ''Connect'' 1
       \<lparr>px = 360, py = 20, pwidth = 100, pheight = 25\<rparr>,
     list_box := create_window (created 3) ''LISTBOX'' [] 0 \<lparr>px = 20, py = 70, pwidth = 740, pheight = 400\<rparr>\<rparr>"

definition AddLog :: "string \<Rightarrow> ui \<Rightarrow> ui" where
  "AddLog line u = (if list_box u = None then u else u\<lparr>list_items := list_items u @ [line]\<rparr>)"

definition Connect :: "ui \<Rightarrow> (string \<times> string) \<times> ui" where
  \<comment> \<open>with the local buffers \<open>host[256]\<close> and \<open>port[10]\<close>\<close>
  "Connect u = ((get_window_text (ip_text_box u) 256, get_window_text (port_text_box u) 10),
                AddLog ''Connected to server!'' u)"

definition ListFiles :: "ui \<Rightarrow> ui" where
  "ListFiles u = AddLog ''file3.txt'' (AddLog ''file2.txt'' (AddLog ''file1.txt'' (AddLog ''List of files:'' u)))"

section \<open>Messages\<close>

definition resize :: "rect \<Rightarrow> ui \<Rightarrow> ui res" where
  \<comment> \<open>the case \<open>WM_SIZE\<close>\<close>
  "resize r u =
     bind_res (int_sub (rright r) (rleft r)) (\<lambda>width.
     bind_res (int_sub (rbottom r) (rtop r)) (\<lambda>height.
     bind_res (int_sub width 40) (\<lambda>list_width.
     bind_res (int_sub height 90) (\<lambda>list_height.
     Inr (u\<lparr>
       ip_text_box := move_window (ip_text_box u) \<lparr>px = 20, py = 20, pwidth = 200, pheight = 25\<rparr>,
       port_text_box := move_window (port_text_box u) \<lparr>px = 240, py = 20, pwidth = 100, pheight = 25\<rparr>,
       connect_button := move_window (connect_button u) \<lparr>px = 360, py = 20, pwidth = 100, pheight = 25\<rparr>,
       list_box := move_window (list_box u) \<lparr>px = 20, py = 70, pwidth = list_width, pheight = list_height\<rparr>\<rparr>)))))"

definition WindowProc :: "(event \<Rightarrow> int) \<Rightarrow> event \<Rightarrow> ui \<Rightarrow> (int \<times> ui) res" where
  \<comment> \<open>\<open>DefWindowProc\<close> is a parameter\<close>
  "WindowProc def_window_proc ev u =
     (if uMsg ev = WM_CREATE then Inr (0, u)
      else if uMsg ev = WM_COMMAND then
        Inr (0, if LOWORD (wParam ev) = 1 then snd (Connect u)
                else if LOWORD (wParam ev) = 2 then ListFiles u else u)
      else if uMsg ev = WM_SIZE then bind_res (resize (client ev) u) (\<lambda>u. Inr (0, u))
      else if uMsg ev = WM_DESTROY then Inr (0, u\<lparr>quit_code := Some 0\<rparr>)
      else Inr (def_window_proc ev, u))"

fun message_loop :: "(event \<Rightarrow> int) \<Rightarrow> event list \<Rightarrow> ui \<Rightarrow> ui res" where
  \<comment> \<open>the events dispatched before \<open>GetMessage\<close> returns 0, or before it waits\<close>
  "message_loop d [] u = Inr u"
| "message_loop d (ev # evs) u = bind_res (WindowProc d ev u) (\<lambda>(_, u). message_loop d evs u)"

definition no_ui :: ui where
  "no_ui = \<lparr>ip_text_box = None, port_text_box = None, connect_button = None, list_box = None, list_items = [],
            connection = 0, quit_code = None\<rparr>"

definition WinMain :: "(event \<Rightarrow> int) \<Rightarrow> bool \<Rightarrow> (nat \<Rightarrow> bool) \<Rightarrow> event list \<Rightarrow> (int \<times> ui) comp" where
  \<comment> \<open>\<open>None\<close> while no \<open>WM_QUIT\<close> has arrived: \<open>GetMessage\<close> waits\<close>
  "WinMain d window_created created evs =
     (if \<not> window_created then Some (Inr (0, no_ui))
      else case message_loop d evs (InitUI created no_ui) of
             Inl e \<Rightarrow> Some (Inl e)
           | Inr u \<Rightarrow> (case quit_code u of None \<Rightarrow> None | Some c \<Rightarrow> Some (Inr (c, u))))"

lemmas ui_defs = WindowProc_def Connect_def ListFiles_def AddLog_def

section \<open>What a session shows\<close>

text \<open>\<open>GetClientRect\<close> reports a rectangle whose upper left corner is the origin.\<close>

definition client_rect :: "rect \<Rightarrow> bool" where
  "client_rect r \<longleftrightarrow> rleft r = 0 \<and> rtop r = 0 \<and> 0 \<le> rright r \<and> 0 \<le> rbottom r \<and> rright r < 2 ^ 31 \<and> rbottom r < 2 ^ 31"

definition event_lines :: "event \<Rightarrow> string list" where
  "event_lines ev =
     (if uMsg ev \<noteq> WM_COMMAND then []
      else if LOWORD (wParam ev) = 1 then [''Connected to server!'']
      else if LOWORD (wParam ev) = 2 then [''List of files:'', ''file1.txt'', ''file2.txt'', ''file3.txt'']
      else [])"

definition next_quit :: "event \<Rightarrow> int option \<Rightarrow> int option" where
  "next_quit ev q = (if uMsg ev = WM_DESTROY then Some 0 else q)"

lemma int_sub_small: "- (2 ^ 31) \<le> a - b \<Longrightarrow> a - b < 2 ^ 31 \<Longrightarrow> int_sub a b = Inr (a - b)"
  by (simp add: int_sub_def Let_def)

lemma resize_client:
  "client_rect r \<Longrightarrow> resize r u = Inr (u\<lparr>
     ip_text_box := move_window (ip_text_box u) \<lparr>px = 20, py = 20, pwidth = 200, pheight = 25\<rparr>,
     port_text_box := move_window (port_text_box u) \<lparr>px = 240, py = 20, pwidth = 100, pheight = 25\<rparr>,
     connect_button := move_window (connect_button u) \<lparr>px = 360, py = 20, pwidth = 100, pheight = 25\<rparr>,
     list_box := move_window (list_box u)
       \<lparr>px = 20, py = 70, pwidth = rright r - 40, pheight = rbottom r - 90\<rparr>\<rparr>)"
  by (simp add: resize_def client_rect_def int_sub_small)

lemma move_window_None [simp]: "(move_window h pl = None) = (h = None)"
  by (simp add: move_window_def)

lemma WindowProc_session:
  assumes "client_rect (client ev)"
  shows "\<exists>c u'. WindowProc d ev u = Inr (c, u') \<and> (list_box u' = None) = (list_box u = None) \<and>
    list_items u' = list_items u @ (if list_box u = None then [] else event_lines ev) \<and>
    quit_code u' = next_quit ev (quit_code u) \<and> connection u' = connection u"
proof -
  consider "uMsg ev = WM_CREATE" | "uMsg ev = WM_COMMAND" | "uMsg ev = WM_SIZE" | "uMsg ev = WM_DESTROY"
    | "uMsg ev \<notin> {WM_CREATE, WM_COMMAND, WM_SIZE, WM_DESTROY}" by blast
  then show ?thesis
    by cases (auto simp: ui_defs event_lines_def next_quit_def resize_client [OF assms] msg_defs)
qed

lemma message_loop_session:
  "\<forall>ev \<in> set evs. client_rect (client ev) \<Longrightarrow>
   \<exists>u'. message_loop d evs u = Inr u' \<and>
     list_items u' = list_items u @ (if list_box u = None then [] else concat (map event_lines evs)) \<and>
     quit_code u' = (if \<exists>ev \<in> set evs. uMsg ev = WM_DESTROY then Some 0 else quit_code u) \<and> connection u' = connection u"
proof (induction evs arbitrary: u)
  case (Cons ev evs)
  obtain c u1 where 1: "WindowProc d ev u = Inr (c, u1)" "(list_box u1 = None) = (list_box u = None)"
    "list_items u1 = list_items u @ (if list_box u = None then [] else event_lines ev)"
    "quit_code u1 = next_quit ev (quit_code u)" "connection u1 = connection u"
    using WindowProc_session [of ev d u] Cons.prems by auto
  then show ?case using Cons.IH [of u1] Cons.prems by (auto simp: next_quit_def)
qed simp

definition connect_pressed :: "event \<Rightarrow> bool" where
  "connect_pressed ev \<longleftrightarrow> uMsg ev = WM_COMMAND \<and> LOWORD (wParam ev) = 1"

lemma count_connected:
  "count_list (concat (map event_lines evs)) ''Connected to server!'' = length (filter connect_pressed evs)"
  by (induction evs) (auto simp: event_lines_def connect_pressed_def)

text \<open>
  C40: a session of the window. For every sequence of messages, with the list box created and client areas as \<open>GetClientRect\<close> reports them,
  no message makes the handler fail; in the state reached the list box says \<open>Connected to server!\<close> as often as the Connect button was pressed,
  although the global \<open>connection\<close> still holds the value 0 it had when the program started; and \<open>WinMain\<close> returns 0, in this state, when the
  window has been destroyed, and otherwise goes on waiting for messages.
\<close>
theorem window_session:
  assumes "\<forall>ev \<in> set evs. client_rect (client ev)" and "created 3"
  shows "\<exists>u. message_loop d evs (InitUI created no_ui) = Inr u \<and> connection u = 0 \<and>
    count_list (list_items u) ''Connected to server!'' = length (filter connect_pressed evs) \<and>
    WinMain d True created evs =
      (if \<exists>ev \<in> set evs. uMsg ev = WM_DESTROY then Some (Inr (0, u)) else None)"
proof -
  obtain u where "message_loop d evs (InitUI created no_ui) = Inr u" "connection u = 0"
    "list_items u = concat (map event_lines evs)"
    "quit_code u = (if \<exists>ev \<in> set evs. uMsg ev = WM_DESTROY then Some 0 else None)"
    using message_loop_session [OF assms(1), of d "InitUI created no_ui"] assms(2)
    by (auto simp: InitUI_def no_ui_def create_window_def)
  then show ?thesis by (intro exI [of _ u]) (auto simp: WinMain_def count_connected)
qed

abbreviation sample_rect :: rect where
  "sample_rect \<equiv> \<lparr>rleft = 0, rtop = 0, rright = 784, rbottom = 561\<rparr>"

theorem window_session_witness:
  "\<exists>u. connection u = 0 \<and> count_list (list_items u) ''Connected to server!'' = 1 \<and>
    WinMain (\<lambda>_. 0) True (\<lambda>_. True)
      [\<lparr>uMsg = 0x111, wParam = 1, client = sample_rect\<rparr>, \<lparr>uMsg = 2, wParam = 0, client = sample_rect\<rparr>]
      = Some (Inr (0, u))"
  using window_session [of "[\<lparr>uMsg = 0x111, wParam = 1, client = sample_rect\<rparr>,
      \<lparr>uMsg = 2, wParam = 0, client = sample_rect\<rparr>]" "\<lambda>_. True" "\<lambda>_. 0"]
  by (auto simp: client_rect_def connect_pressed_def msg_defs LOWORD_def)

section \<open>Layout\<close>

definition inside :: "place \<Rightarrow> rect \<Rightarrow> bool" where
  "inside p r \<longleftrightarrow> 0 \<le> px p \<and> 0 \<le> py p \<and> 0 \<le> pwidth p \<and> 0 \<le> pheight p \<and>
     px p + pwidth p \<le> rright r \<and> py p + pheight p \<le> rbottom r"

definition apart :: "place \<Rightarrow> place \<Rightarrow> bool" where
  "apart p q \<longleftrightarrow> px p + pwidth p \<le> px q \<or> px q + pwidth q \<le> px p \<or>
     py p + pheight p \<le> py q \<or> py q + pheight q \<le> py p"

definition places :: "ui \<Rightarrow> place list" where
  "places u = map location (map the (filter (\<lambda>h. h \<noteq> None)
     [ip_text_box u, port_text_box u, connect_button u, list_box u]))"

text \<open>
  After a \<open>WM_SIZE\<close> message, in a client area of at least 460 by 90, every control lies inside the
  client area and no two controls overlap.
\<close>
lemma resize_layout:
  assumes "client_rect r" and "460 \<le> rright r" and "90 \<le> rbottom r" and "uMsg ev = WM_SIZE" and "client ev = r"
  shows "\<exists>u'. WindowProc d ev u = Inr (0, u') \<and> (\<forall>p \<in> set (places u'). inside p r) \<and>
    (\<forall>i < length (places u'). \<forall>j < i. apart (places u' ! i) (places u' ! j))"
proof -
  let ?u = "u\<lparr>ip_text_box := move_window (ip_text_box u) \<lparr>px = 20, py = 20, pwidth = 200, pheight = 25\<rparr>,
     port_text_box := move_window (port_text_box u) \<lparr>px = 240, py = 20, pwidth = 100, pheight = 25\<rparr>,
     connect_button := move_window (connect_button u) \<lparr>px = 360, py = 20, pwidth = 100, pheight = 25\<rparr>,
     list_box := move_window (list_box u) \<lparr>px = 20, py = 70, pwidth = rright r - 40, pheight = rbottom r - 90\<rparr>\<rparr>"
  have "WindowProc d ev u = Inr (0, ?u)"
    using assms by (simp add: WindowProc_def resize_client msg_defs)
  moreover have "\<forall>p \<in> set (places ?u). inside p r"
    using assms(2,3) by (auto simp: places_def inside_def move_window_def)
  moreover have "\<forall>i < length (places ?u). \<forall>j < i. apart (places ?u ! i) (places ?u ! j)"
    by (cases "ip_text_box u"; cases "port_text_box u"; cases "connect_button u"; cases "list_box u")
      (auto simp: places_def move_window_def apart_def less_Suc_eq nth_Cons')
  ultimately show ?thesis by blast
qed

end
