(* ===== verification/Uint_Set.thy ===== *)
theory Uint_Set
  imports TP_Prelude
begin

text \<open>
  The sets of 64-bit integers of the vendored OpenSSL, \<open>ssl/quic/uint_set.c\<close>. A set is a doubly linked list
  of inclusive ranges, modelled as the list of its ranges in ascending order, with the number of items that
  are allocated for it. The loops walk from the tail to the head: they take the ranges up to the current
  one in reverse order and the ranges after it.
\<close>

record uint_range =
  start :: "64 word"
  "end" :: "64 word"

record uint_set =
  ranges :: "uint_range list"
  allocated :: nat            \<comment> \<open>items allocated and not freed\<close>

abbreviation rng :: "64 word \<Rightarrow> 64 word \<Rightarrow> uint_range" where
  "rng a b \<equiv> \<lparr>start = a, end = b\<rparr>"

definition ossl_uint_set_init :: uint_set where
  "ossl_uint_set_init = \<lparr>ranges = [], allocated = 0\<rparr>"

definition ossl_uint_set_destroy :: "uint_set \<Rightarrow> uint_set" where
  \<comment> \<open>every item of the list is freed\<close>
  "ossl_uint_set_destroy s = \<lparr>ranges = [], allocated = allocated s - length (ranges s)\<rparr>"

definition u64_min :: "64 word \<Rightarrow> 64 word \<Rightarrow> 64 word" where
  "u64_min x y = (if x < y then x else y)"

definition u64_max :: "64 word \<Rightarrow> 64 word \<Rightarrow> 64 word" where
  "u64_max x y = (if x > y then x else y)"

definition uint_range_overlaps :: "uint_range \<Rightarrow> uint_range \<Rightarrow> bool" where
  "uint_range_overlaps a b \<longleftrightarrow> u64_min (end a) (end b) \<ge> u64_max (start a) (start b)"

fun uint_set_merge_adjacent :: "uint_range list \<Rightarrow> uint_range \<Rightarrow> nat \<Rightarrow> uint_range list \<times> uint_range \<times> nat" where
  \<comment> \<open>the ranges before \<open>x\<close>, in reverse order, and \<open>x\<close>; the number counts the allocated items\<close>
  "uint_set_merge_adjacent [] x n = ([], x, n)"
| "uint_set_merge_adjacent (xprev # rp) x n =
     (if start x - 1 \<noteq> end xprev then (xprev # rp, x, n)
      else (rp, x\<lparr>start := start xprev\<rparr>, n - 1))"

section \<open>Insertion\<close>

fun earliest_overlap :: "uint_range \<Rightarrow> uint_range \<Rightarrow> uint_range list \<Rightarrow> nat \<Rightarrow> uint_range \<times> uint_range list \<times> nat" where
  \<comment> \<open>the earliest range that overlaps, the ranges before it, and how many ranges follow up to \<open>ovend\<close>\<close>
  "earliest_overlap rg z [] k = (z, [], k)"
| "earliest_overlap rg z (zprev # rp) k =
     (if uint_range_overlaps zprev rg then earliest_overlap rg zprev rp (Suc k) else (z, zprev # rp, k))"

fun insert_walk ::
    "bool \<Rightarrow> uint_range \<Rightarrow> uint_range list \<Rightarrow> uint_range list \<Rightarrow> nat \<Rightarrow> bool \<times> uint_set" where
  \<comment> \<open>\<open>mem\<close>: the allocation of an item succeeds\<close>
  "insert_walk mem rg [] post n = (True, \<lparr>ranges = post, allocated = n\<rparr>)"
| "insert_walk mem rg (z # rp) post n =
     (if start z \<le> start rg \<and> end z \<ge> end rg
      then (True, \<lparr>ranges = rev (z # rp) @ post, allocated = n\<rparr>)
      else if uint_range_overlaps z rg
      then let ovend_end = u64_max (end rg) (end z)
           in (case earliest_overlap rg z rp 0 of (z0, rp0, k) \<Rightarrow>
                 (True, \<lparr>ranges = rev rp0 @ rng (u64_min (start rg) (start z0)) ovend_end # post,
                         allocated = n - k\<rparr>))
      else if end rg < start z \<and> (rp = [] \<or> start rg > end (hd rp))
      then if start z = end rg + 1
           then (case uint_set_merge_adjacent rp (z\<lparr>start := start rg\<rparr>) n of (rp1, z1, n1) \<Rightarrow>
                   (True, \<lparr>ranges = rev rp1 @ z1 # post, allocated = n1\<rparr>))
           else if rp \<noteq> [] \<and> end (hd rp) + 1 = start rg
           then (case uint_set_merge_adjacent ((hd rp)\<lparr>end := end rg\<rparr> # tl rp) z n of (rp1, z1, n1) \<Rightarrow>
                   (True, \<lparr>ranges = rev rp1 @ z1 # post, allocated = n1\<rparr>))
           else if mem
           then (True, \<lparr>ranges = rev rp @ rng (start rg) (end rg) # z # post, allocated = Suc n\<rparr>)
           else (False, \<lparr>ranges = rev rp @ z # post, allocated = n\<rparr>)
      else insert_walk mem rg rp (z # post) n)"

definition ossl_uint_set_insert :: "bool \<Rightarrow> uint_set \<Rightarrow> uint_range \<Rightarrow> bool \<times> uint_set" where
  \<comment> \<open>a range that covers the whole set replaces the first item; the other items are unlinked\<close>
  "ossl_uint_set_insert mem s rg =
     (let rs = ranges s; n = allocated s; x = rng (start rg) (end rg)
      in if \<not> start rg \<le> end rg then (False, s)
         else if rs = [] then (if mem then (True, \<lparr>ranges = [x], allocated = Suc n\<rparr>) else (False, s))
         else let z = last rs; f = hd rs
              in if start rg > end z
                 then if end z + 1 = start rg
                      then (True, s\<lparr>ranges := butlast rs @ [z\<lparr>end := end rg\<rparr>]\<rparr>)
                      else if mem then (True, \<lparr>ranges = rs @ [x], allocated = Suc n\<rparr>) else (False, s)
                 else if start rg \<le> start f \<and> end rg \<ge> end z
                 then (True, s\<lparr>ranges := [x]\<rparr>)
                 else if end rg < start f then insert_walk mem rg [f] (tl rs) n
                 else insert_walk mem rg (rev rs) [] n)"

section \<open>Removal and query\<close>

fun remove_walk ::
    "bool \<Rightarrow> uint_range \<Rightarrow> uint_range list \<Rightarrow> uint_range list \<Rightarrow> nat \<Rightarrow> uint_set res" where
  "remove_walk mem rg [] post n = Inr \<lparr>ranges = post, allocated = n\<rparr>"
| "remove_walk mem rg (z # rp) post n =
     (if start rg > end z then Inr \<lparr>ranges = rev (z # rp) @ post, allocated = n\<rparr>
      else if start rg \<le> start z \<and> end rg \<ge> end z then remove_walk mem rg rp post (n - 1)
      else if start rg \<le> start z \<and> end rg \<ge> start z
      then if \<not> end rg < end z then Inl Assert_Failed
           else remove_walk mem rg rp (z\<lparr>start := end rg + 1\<rparr> # post) n
      else if end rg \<ge> end z
      then if \<not> (start rg > start z \<and> start rg > 0) then Inl Assert_Failed
           else Inr \<lparr>ranges = rev rp @ z\<lparr>end := start rg - 1\<rparr> # post, allocated = n\<rparr>
      else if start rg > start z \<and> end rg < end z
      then if \<not> mem then Inl Null_Deref
           else Inr \<lparr>ranges = rev rp @ z\<lparr>end := start rg - 1\<rparr> # rng (end rg + 1) (end z) # post,
                     allocated = Suc n\<rparr>
      else if uint_range_overlaps z rg then Inl Assert_Failed
      else remove_walk mem rg rp (z # post) n)"

definition ossl_uint_set_remove :: "bool \<Rightarrow> uint_set \<Rightarrow> uint_range \<Rightarrow> (bool \<times> uint_set) res" where
  "ossl_uint_set_remove mem s rg =
     (if \<not> start rg \<le> end rg then Inr (False, s)
      else bind_res (remove_walk mem rg (rev (ranges s)) [] (allocated s)) (\<lambda>s. Inr (True, s)))"

fun query_walk :: "uint_range list \<Rightarrow> 64 word \<Rightarrow> bool" where
  "query_walk [] v = False"
| "query_walk (x # xs) v =
     (if start x \<le> v \<and> end x \<ge> v then True else if end x < v then False else query_walk xs v)"

definition ossl_uint_set_query :: "uint_set \<Rightarrow> 64 word \<Rightarrow> bool" where
  "ossl_uint_set_query s v = (if ranges s = [] then False else query_walk (rev (ranges s)) v)"

section \<open>The set that a list of ranges stands for\<close>

definition span :: "uint_range \<Rightarrow> 64 word set" where
  "span r = {start r..end r}"

definition elems :: "uint_range list \<Rightarrow> 64 word set" where
  "elems rs = (\<Union>r \<in> set rs. span r)"

definition ordered :: "uint_range list \<Rightarrow> bool" where
  "ordered rs \<longleftrightarrow> sorted_wrt (\<lambda>a b. end a < start b) rs \<and> (\<forall>r \<in> set rs. start r \<le> end r)"

lemma elems_simps [simp]:
  "elems [] = {}" "elems (r # rs) = span r \<union> elems rs" "elems (rs @ rs') = elems rs \<union> elems rs'"
  "elems (rev rs) = elems rs"
  by (auto simp: elems_def)

lemma mem_span: "v \<in> span r \<longleftrightarrow> start r \<le> v \<and> v \<le> end r"
  by (auto simp: span_def)

lemma ordered_append:
  "ordered (xs @ ys) \<longleftrightarrow> ordered xs \<and> ordered ys \<and> (\<forall>x \<in> set xs. \<forall>y \<in> set ys. end x < start y)"
  by (auto simp: ordered_def sorted_wrt_append)

lemma ordered_Cons:
  "ordered (x # ys) \<longleftrightarrow> start x \<le> end x \<and> ordered ys \<and> (\<forall>y \<in> set ys. end x < start y)"
  by (auto simp: ordered_def)

lemma ordered_Nil [simp]: "ordered []"
  by (simp add: ordered_def)

lemma overlaps_iff:
  "start a \<le> end a \<Longrightarrow> start b \<le> end b \<Longrightarrow>
   uint_range_overlaps a b \<longleftrightarrow> start a \<le> end b \<and> start b \<le> end a"
  by (auto simp: uint_range_overlaps_def u64_min_def u64_max_def)

section \<open>Query\<close>

lemma query_walk_elems: "ordered (rev xs) \<Longrightarrow> query_walk xs v \<longleftrightarrow> v \<in> elems xs"
  by (induction xs) (force simp: ordered_append ordered_Cons mem_span elems_def)+

lemma query_elems: "ordered (ranges s) \<Longrightarrow> ossl_uint_set_query s v \<longleftrightarrow> v \<in> elems (ranges s)"
  by (simp add: ossl_uint_set_query_def query_walk_elems)

section \<open>Insertion\<close>

lemma earliest_overlap_split:
  "earliest_overlap rg z rp k = (z0, rp0, k0) \<Longrightarrow> uint_range_overlaps z rg \<Longrightarrow>
   \<exists>ds. z # rp = ds @ z0 # rp0 \<and> k0 = k + length ds \<and> (\<forall>d \<in> set ds. uint_range_overlaps d rg) \<and>
     uint_range_overlaps z0 rg \<and> (rp0 \<noteq> [] \<longrightarrow> \<not> uint_range_overlaps (hd rp0) rg)"
proof (induction rp arbitrary: z k)
  case (Cons y rp)
  show ?case
  proof (cases "uint_range_overlaps y rg")
    case True
    then obtain ds where "y # rp = ds @ z0 # rp0" "k0 = Suc k + length ds"
      "\<forall>d \<in> set ds. uint_range_overlaps d rg" "uint_range_overlaps z0 rg"
      "rp0 \<noteq> [] \<longrightarrow> \<not> uint_range_overlaps (hd rp0) rg"
      using Cons.IH [of y "Suc k"] Cons.prems by auto
    then show ?thesis using Cons.prems(2) by (intro exI [of _ "z # ds"]) auto
  next
    case False
    then show ?thesis using Cons.prems by (intro exI [of _ "[]"]) auto
  qed
qed (auto intro: exI [of _ "[]"])

text \<open>A block of ranges that all overlap the new one is covered by one range.\<close>

lemma overlap_block:
  assumes ord: "ordered (rev ds0)" and ds0: "ds0 = z # ds" "z0 = last ds0"
    and r: "start rg \<le> end rg" and ov: "\<forall>d \<in> set ds0. uint_range_overlaps d rg"
  shows "elems ds0 \<union> span rg = span (rng (u64_min (start rg) (start z0)) (u64_max (end rg) (end z)))"
    (is "?l = ?r")
proof
  have le: "start d \<le> end d" if "d \<in> set ds0" for d using ord that by (auto simp: ordered_def)
  have o: "start d \<le> end rg \<and> start rg \<le> end d" if "d \<in> set ds0" for d
    using overlaps_iff [of d rg] le that r ov by blast
  have z0: "z0 \<in> set ds0" using ds0 by auto
  have lo: "start z0 \<le> start d" if "d \<in> set ds0" for d
  proof -
    have "rev ds0 = z0 # tl (rev ds0)" using ds0 by (metis hd_rev list.collapse list.distinct(1) rev_is_Nil_conv)
    then have "d = z0 \<or> end z0 < start d" using ord that by (metis ordered_Cons set_ConsD set_rev)
    then show ?thesis using le [OF z0] by auto
  qed
  have hi: "end d \<le> end z" if "d \<in> set ds0" for d
    using ord that le [of d] le [of z] by (auto simp: ds0 ordered_append ordered_Cons)
  show "?l \<subseteq> ?r" using lo hi r by (force simp: elems_def mem_span u64_min_def u64_max_def)
  show "?r \<subseteq> ?l"
  proof
    fix v assume v: "v \<in> ?r"
    consider "v < start rg" | "end rg < v" | "v \<in> span rg" by (force simp: mem_span)
    then show "v \<in> ?l"
    proof cases
      case 1
      then have "v \<in> span z0" using v o [OF z0] by (auto simp: mem_span u64_min_def split: if_splits)
      then show ?thesis using z0 by (auto simp: elems_def)
    next
      case 2
      then have "v \<in> span z" using v o [of z] ds0 by (auto simp: mem_span u64_max_def split: if_splits)
      then show ?thesis using ds0 by (auto simp: elems_def)
    qed simp
  qed
qed

text \<open>What an insertion must do to a list of ranges and to the count of its items.\<close>

definition inserted :: "bool \<Rightarrow> uint_range \<Rightarrow> uint_range list \<Rightarrow> nat \<Rightarrow> bool \<times> uint_set \<Rightarrow> bool" where
  "inserted mem rg rs n r \<longleftrightarrow>
     (if fst r
      then ordered (ranges (snd r)) \<and> elems (ranges (snd r)) = elems rs \<union> span rg \<and>
           allocated (snd r) + length rs = n + length (ranges (snd r))
      else \<not> mem \<and> snd r = \<lparr>ranges = rs, allocated = n\<rparr>)"

lemma insert_overlapping:
  assumes ord: "ordered (rev (z # rp) @ post)" and r: "start rg \<le> end rg"
    and ov: "uint_range_overlaps z rg" and post: "\<forall>p \<in> set post. end rg < start p"
    and n: "length (z # rp) + length post \<le> n"
    and e: "earliest_overlap rg z rp 0 = (z0, rp0, k)"
  shows "inserted mem rg (rev (z # rp) @ post) n
    (True, \<lparr>ranges = rev rp0 @ rng (u64_min (start rg) (start z0)) (u64_max (end rg) (end z)) # post,
            allocated = n - k\<rparr>)"
proof -
  let ?x = "rng (u64_min (start rg) (start z0)) (u64_max (end rg) (end z))"
  obtain ds where ds: "z # rp = ds @ z0 # rp0" "k = length ds" "\<forall>d \<in> set (ds @ [z0]). uint_range_overlaps d rg"
    and stop: "rp0 \<noteq> [] \<longrightarrow> \<not> uint_range_overlaps (hd rp0) rg"
    using earliest_overlap_split [OF e ov] by auto
  have sp: "rev (z # rp) @ post = rev rp0 @ rev (ds @ [z0]) @ post" using ds(1) by simp
  have o: "ordered (rev rp0)" "ordered (rev (ds @ [z0]))" "ordered post"
    and ord2: "\<forall>x \<in> set rp0. end x < start z0" and ordp: "\<forall>p \<in> set post. end z < start p"
    using ord unfolding sp by (auto simp: ordered_append ordered_Cons)
      (use ord in \<open>auto simp: ordered_append ordered_Cons\<close>)
  have across: "\<forall>x \<in> set rp0. \<forall>y \<in> set post. end x < start y"
    using ord unfolding sp by (auto simp: ordered_append)
  obtain ds1 where z: "ds @ [z0] = z # ds1" using ds(1) by (cases ds) auto
  have cover: "elems (ds @ [z0]) \<union> span rg = span ?x"
    using overlap_block [OF o(2) z _ r ds(3)] by simp
  have z0: "start z0 \<le> end rg" and z0r: "start z0 \<le> end z0"
    using o(2) ds(3) overlaps_iff [of z0 rg] r by (auto simp: ordered_append ordered_Cons)
  have zr: "start rg \<le> end z" using ov ord overlaps_iff [of z rg] r by (auto simp: ordered_append ordered_Cons)
  have before: "end x < start rg" if x: "x \<in> set rp0" for x
  proof -
    obtain y ys where rp0: "rp0 = y # ys" using x by (cases rp0) auto
    then have y: "start y \<le> end y" "end y < start rg"
      using o(1) stop ord2 z0 r overlaps_iff [of y rg] by (auto simp: ordered_append ordered_Cons)
    show ?thesis using x o(1) y by (auto simp: rp0 ordered_append ordered_Cons)
  qed
  have "ordered (rev rp0 @ ?x # post)"
    using o before ord2 ordp post r zr z0 across by (auto simp: ordered_append ordered_Cons u64_min_def u64_max_def)
  moreover have "elems (rev rp0 @ ?x # post) = elems (rev (z # rp) @ post) \<union> span rg"
    unfolding sp using cover by auto
  moreover have "length (rev (z # rp) @ post) = length rp0 + Suc k + length post" unfolding sp using ds(2) by simp
  ultimately show ?thesis using n by (simp add: inserted_def)
qed

lemma span_join: "end a < start b \<Longrightarrow> start a \<le> end a \<Longrightarrow> start b \<le> end b \<Longrightarrow> start b = end a + 1 \<Longrightarrow>
   span a \<union> span b = span (rng (start a) (end b))"
proof -
  assume h: "end a < start b" "start a \<le> end a" "start b \<le> end b" "start b = end a + 1"
  have k: "start b \<le> v \<longleftrightarrow> end a < v" for v using word_succ_le_iff_less [OF h(1)] h(4) by simp
  show ?thesis
  proof (rule set_eqI)
    fix v
    show "v \<in> span a \<union> span b \<longleftrightarrow> v \<in> span (rng (start a) (end b))"
      using h(1-3) k [of v] by (cases "end a < v") (auto simp: mem_span)
  qed
qed

lemma insert_gap:
  assumes ord: "ordered (rev (z # rp) @ post)" and r: "start rg \<le> end rg" and gap: "end rg < start z"
    and prev: "rp = [] \<or> start rg > end (hd rp)" and n: "length (z # rp) + length post \<le> n"
  shows "inserted mem rg (rev (z # rp) @ post) n (insert_walk mem rg (z # rp) post n)"
proof -
  have o: "ordered (rev rp)" "ordered post" "start z \<le> end z" "\<forall>p \<in> set post. end z < start p"
    and across: "\<forall>x \<in> set rp. end x < start z \<and> (\<forall>p \<in> set post. end x < start p)"
    using ord by (auto simp: ordered_append ordered_Cons)
  have before: "end x < start rg" if x: "x \<in> set rp" for x
    using prev x o(1) by (cases rp) (auto simp: ordered_append ordered_Cons)
  have no: "\<not> uint_range_overlaps z rg" "\<not> (start z \<le> start rg \<and> end z \<ge> end rg)"
    using gap r o(3) by (auto simp: overlaps_iff)
  show ?thesis
  proof (cases "start z = end rg + 1")
    case touch: True
    have j: "span rg \<union> span z = span (rng (start rg) (end z))" by (rule span_join [OF gap r o(3) touch])
    show ?thesis
    proof (cases rp)
      case Nil
      then show ?thesis using no gap touch o r j
        by (auto simp: inserted_def ordered_Cons span_def)
    next
      case (Cons y ys)
      have y: "start y \<le> end y" "end y < start rg" using o(1) before Cons by (auto simp: ordered_append ordered_Cons)
      have s: "start rg - 1 = end y \<longleftrightarrow> start rg = end y + 1" by (auto simp: algebra_simps)
      have j2: "span y \<union> span rg = span (rng (start y) (end rg))" if "start rg = end y + 1"
        by (rule span_join [OF y(2) y(1) r that])
      show ?thesis
      proof (cases "start rg = end y + 1")
        case True
        have "span y \<union> (span rg \<union> span z) = span (rng (start y) (end z))"
          using span_join [of y "rng (start rg) (end z)"] y True j gap o(3) r by (simp add: span_def)
        then show ?thesis using True no gap touch o across y r n
          by (auto simp: inserted_def ordered_append ordered_Cons Cons s) (auto simp: span_def)
      next
        case False
        then show ?thesis using no gap touch o across y r j before
          by (auto simp: inserted_def ordered_append ordered_Cons Cons s span_def)
      qed
    qed
  next
    case apart: False
    show ?thesis
    proof (cases "rp \<noteq> [] \<and> end (hd rp) + 1 = start rg")
      case True
      then obtain y ys where rp: "rp = y # ys" and t: "start rg = end y + 1" by (cases rp) auto
      have y: "start y \<le> end y" "end y < start rg" using o(1) before rp by (auto simp: ordered_append ordered_Cons)
      have j: "span y \<union> span rg = span (rng (start y) (end rg))" by (rule span_join [OF y(2) y(1) r t])
      have "start z - 1 \<noteq> end rg" using apart by (auto simp: algebra_simps)
      then show ?thesis using no gap prev apart o across y r j t
        by (auto simp: inserted_def ordered_append ordered_Cons rp span_def)
    next
      case False
      then show ?thesis using no gap prev apart o across r before n
        by (auto simp: inserted_def ordered_append ordered_Cons span_def)
    qed
  qed
qed

lemma insert_walk_on:
  assumes "start z \<le> end z" and "start rg \<le> end rg" and "end rg < start z" and "rp \<noteq> []" and "start rg \<le> end (hd rp)"
  shows "insert_walk mem rg (z # rp) post n = insert_walk mem rg rp (z # post) n"
proof -
  have "\<not> uint_range_overlaps z rg" "\<not> start z \<le> start rg" using assms by (auto simp: overlaps_iff)
  moreover have "\<not> (rp = [] \<or> end (hd rp) < start rg)" using assms(4,5) by auto
  ultimately show ?thesis by simp
qed

lemma insert_walk_inserted:
  "ordered (rev rp @ post) \<Longrightarrow> start rg \<le> end rg \<Longrightarrow> rp \<noteq> [] \<Longrightarrow> start rg \<le> end (hd rp) \<Longrightarrow>
   \<forall>p \<in> set post. end rg < start p \<Longrightarrow> length rp + length post \<le> n \<Longrightarrow>
   inserted mem rg (rev rp @ post) n (insert_walk mem rg rp post n)"
proof (induction rp arbitrary: post)
  case (Cons z rp)
  have zle: "start z \<le> end z" using Cons.prems(1) by (auto simp: ordered_append ordered_Cons)
  consider (dwarf) "start z \<le> start rg \<and> end z \<ge> end rg"
    | (overlap) "\<not> (start z \<le> start rg \<and> end z \<ge> end rg)" "uint_range_overlaps z rg"
    | (gap) "end rg < start z" "rp = [] \<or> start rg > end (hd rp)"
    | (on) "end rg < start z" "rp \<noteq> []" "start rg \<le> end (hd rp)"
    using overlaps_iff [OF zle Cons.prems(2)] Cons.prems(4) by force
  then show ?case
  proof cases
    case dwarf
    then have "span rg \<subseteq> span z" by (auto simp: span_def)
    then show ?thesis using dwarf Cons.prems(1) by (auto simp: inserted_def)
  next
    case overlap
    obtain z0 rp0 k where e: "earliest_overlap rg z rp 0 = (z0, rp0, k)" using prod_cases3 by blast
    show ?thesis
      using insert_overlapping [OF Cons.prems(1,2) overlap(2) Cons.prems(5,6) e] overlap e by (auto simp: Let_def)
  next
    case gap
    then show ?thesis using insert_gap [OF Cons.prems(1,2) gap Cons.prems(6)] by simp
  next
    case on
    have "inserted mem rg (rev rp @ z # post) n (insert_walk mem rg rp (z # post) n)"
      using Cons.IH [of "z # post"] Cons.prems on by simp
    moreover have "insert_walk mem rg (z # rp) post n = insert_walk mem rg rp (z # post) n"
      using insert_walk_on [OF zle Cons.prems(2) on] by simp
    ultimately show ?thesis by simp
  qed
qed simp

text \<open>Whether an insertion replaces the whole set by one range.\<close>

definition swallows :: "uint_range \<Rightarrow> uint_range list \<Rightarrow> bool" where
  "swallows rg rs \<longleftrightarrow> rs \<noteq> [] \<and> start rg \<le> start (hd rs) \<and> end rg \<ge> end (last rs) \<and> start rg \<le> end (last rs)"

lemma insert_inserted:
  assumes ord: "ordered (ranges s)" and r: "start rg \<le> end rg" and n: "length (ranges s) \<le> allocated s"
    and ns: "\<not> swallows rg (ranges s)"
  shows "inserted mem rg (ranges s) (allocated s) (ossl_uint_set_insert mem s rg)"
proof (cases "ranges s" rule: rev_cases)
  case Nil
  then show ?thesis using r by (auto simp: ossl_uint_set_insert_def inserted_def ordered_Cons span_def intro!: uint_set.equality)
next
  case (snoc rs0 z)
  have z: "start z \<le> end z" using ord snoc by (auto simp: ordered_append ordered_Cons)
  obtain f ts where f: "ranges s = f # ts" by (metis snoc list.exhaust append_is_Nil_conv list.distinct(1))
  consider (tail) "start rg > end z" | (front) "start rg \<le> end z" "end rg < start f"
    | (walk) "start rg \<le> end z" "\<not> end rg < start f" by force
  then show ?thesis
  proof cases
    case tail
    show ?thesis
    proof (cases "start rg = end z + 1")
      case True
      have "span z \<union> span rg = span (rng (start z) (end rg))" by (rule span_join [OF tail z r True])
      then show ?thesis using True tail r snoc ord
        by (auto simp: ossl_uint_set_insert_def inserted_def ordered_append ordered_Cons Let_def span_def)
    next
      case False
      then show ?thesis using tail r ord snoc z
        by (auto simp: ossl_uint_set_insert_def inserted_def ordered_append ordered_Cons Let_def span_def
            intro!: uint_set.equality)
    qed
  next
    case front
    have fle: "start f \<le> end f" "\<forall>p \<in> set ts. end f < start p" using ord f by (auto simp: ordered_Cons)
    then have "inserted mem rg (rev [f] @ ts) (allocated s) (insert_walk mem rg [f] ts (allocated s))"
      using insert_walk_inserted [of "[f]" ts rg "allocated s" mem] ord f front r n by force
    moreover have "last (ranges s) = z" using snoc by simp
    moreover have "hd (ranges s) = f" "tl (ranges s) = ts" using f by simp_all
    ultimately show ?thesis using front r f ns
      by (auto simp: ossl_uint_set_insert_def Let_def swallows_def)
  next
    case walk
    then have "inserted mem rg (rev (rev (ranges s)) @ []) (allocated s)
        (insert_walk mem rg (rev (ranges s)) [] (allocated s))"
      using insert_walk_inserted [of "rev (ranges s)" "[]" rg "allocated s" mem] ord r n snoc by simp
    moreover have "last (ranges s) = z" using snoc by simp
    moreover have "hd (ranges s) = f" using f by simp
    ultimately show ?thesis using walk r f ns
      by (auto simp: ossl_uint_set_insert_def Let_def swallows_def)
  qed
qed

lemma insert_swallows:
  assumes ord: "ordered (ranges s)" and r: "start rg \<le> end rg" and sw: "swallows rg (ranges s)"
  shows "ossl_uint_set_insert mem s rg = (True, s\<lparr>ranges := [rng (start rg) (end rg)]\<rparr>) \<and>
    elems (ranges s) \<subseteq> span rg"
proof -
  have "v \<in> span rg" if v: "v \<in> elems (ranges s)" for v
  proof -
    obtain x where x: "x \<in> set (ranges s)" "start x \<le> v" "v \<le> end x" using v by (auto simp: elems_def mem_span)
    have lo: "start (hd (ranges s)) \<le> start x"
      using ord x(1) by (cases "ranges s") (auto simp: ordered_Cons intro: less_imp_le order_trans)
    have hi: "end x \<le> end (last (ranges s))"
      using ord x(1) by (cases "ranges s" rule: rev_cases)
        (auto simp: ordered_append ordered_Cons intro: less_imp_le order_trans)
    show ?thesis using lo hi x sw by (auto simp: swallows_def mem_span)
  qed
  then show ?thesis using r sw by (auto simp: ossl_uint_set_insert_def Let_def swallows_def)
qed

section \<open>Removal\<close>

lemma elems_before:
  "ordered (rev rp) \<Longrightarrow> \<forall>x \<in> set rp. end x < a \<Longrightarrow> v \<in> elems rp \<Longrightarrow> v < a"
  by (force simp: elems_def mem_span)

lemma span_cut_low:
  assumes "start z \<le> b" and "b < end z" and "a \<le> start z"
  shows "span (z\<lparr>start := b + 1\<rparr>) = span z - {a..b}"
  by (rule set_eqI) (use assms in \<open>auto simp: mem_span word_succ_le_iff_less [OF assms(2)]\<close>)

lemma span_cut_high:
  assumes "start z < a" and "a \<le> end z" and "end z \<le> b"
  shows "span (z\<lparr>end := a - 1\<rparr>) = span z - {a..b}"
  by (rule set_eqI) (use assms in \<open>auto simp: mem_span word_le_pred_iff_less [OF assms(1)]\<close>)

lemma span_cut_middle:
  assumes "start z < a" and "a \<le> b" and "b < end z"
  shows "span (z\<lparr>end := a - 1\<rparr>) \<union> span (rng (b + 1) (end z)) = span z - {a..b}"
  by (rule set_eqI) (use assms in \<open>auto simp: mem_span word_le_pred_iff_less [OF assms(1)]
      word_succ_le_iff_less [OF assms(3)]\<close>)

definition removed :: "bool \<Rightarrow> uint_range \<Rightarrow> uint_range list \<Rightarrow> nat \<Rightarrow> uint_set res \<Rightarrow> bool" where
  "removed mem rg rs n r \<longleftrightarrow>
     (case r of
        Inl e \<Rightarrow> e = Null_Deref \<and> \<not> mem
      | Inr s \<Rightarrow> ordered (ranges s) \<and> elems (ranges s) = elems rs - span rg \<and>
                 allocated s + length rs = n + length (ranges s))"

lemma removed_shift:
  "removed mem rg rs' n' r \<Longrightarrow> elems rs' - span rg = elems rs - span rg \<Longrightarrow> n' + length rs = n + length rs' \<Longrightarrow>
   removed mem rg rs n r"
  by (auto simp: removed_def split: sum.splits)

lemma remove_walk_removed:
  "ordered (rev rp @ post) \<Longrightarrow> start rg \<le> end rg \<Longrightarrow> elems post \<inter> span rg = {} \<Longrightarrow> length rp + length post \<le> n \<Longrightarrow>
   removed mem rg (rev rp @ post) n (remove_walk mem rg rp post n)"
proof (induction rp arbitrary: post n)
  case Nil
  then show ?case by (auto simp: removed_def)
next
  case (Cons z rp)
  have o: "ordered (rev rp)" "ordered post" "start z \<le> end z" "\<forall>p \<in> set post. end z < start p"
    and across: "\<forall>x \<in> set rp. end x < start z \<and> (\<forall>p \<in> set post. end x < start p)"
    using Cons.prems(1) by (auto simp: ordered_append ordered_Cons)
  have low: "elems rp \<inter> {a..b} = {}" if "start z \<le> a" for a b
    using elems_before [OF o(1)] across that by force
  note r = Cons.prems(2) and p = Cons.prems(3)
  consider (stop) "start rg > end z"
    | (all) "start rg \<le> start z" "end rg \<ge> end z"
    | (lower) "start rg \<le> start z" "start z \<le> end rg" "end rg < end z"
    | (upper) "start z < start rg" "start rg \<le> end z" "end rg \<ge> end z"
    | (split) "start z < start rg" "end rg < end z"
    | (on) "end rg < start z" using r by force
  then show ?case
  proof cases
    case stop
    have "elems rp \<inter> span rg = {}" using low [of "start rg"] stop o(3) by (auto simp: span_def)
    moreover have "span z \<inter> span rg = {}" using stop by (auto simp: span_def)
    ultimately show ?thesis using stop p Cons.prems(1) by (auto simp: removed_def)
  next
    case all
    have R: "removed mem rg (rev rp @ post) (n - 1) (remove_walk mem rg rp post (n - 1))"
      using Cons.IH [of post "n - 1"] o across r p Cons.prems(4) by (auto simp: ordered_append)
    moreover have "span z \<subseteq> span rg" using all by (auto simp: span_def)
    moreover have "remove_walk mem rg (z # rp) post n = remove_walk mem rg rp post (n - 1)"
      using all o(3) by auto
    ultimately show ?thesis using removed_shift [OF R, of "rev (z # rp) @ post" n] Cons.prems(4) by auto
  next
    case lower
    let ?z = "z\<lparr>start := end rg + 1\<rparr>"
    have c: "span ?z = span z - span rg" using span_cut_low [of z "end rg" "start rg"] lower by (simp add: span_def)
    have le: "end rg + 1 \<le> x \<longleftrightarrow> end rg < x" for x using word_succ_le_iff_less [OF lower(3)] .
    have d: "end rg < end rg + 1" using le [of "end rg + 1"] by simp
    have "end x < end rg + 1" if "x \<in> set rp" for x
      using across that lower(2) d by fastforce
    then have "ordered (rev rp @ ?z # post)" using o across le lower by (auto simp: ordered_append ordered_Cons)
    then have R: "removed mem rg (rev rp @ ?z # post) n (remove_walk mem rg rp (?z # post) n)"
      using Cons.IH [of "?z # post" n] r p c Cons.prems(4) by auto
    moreover have "remove_walk mem rg (z # rp) post n = remove_walk mem rg rp (?z # post) n"
      using lower o(3) by auto
    ultimately show ?thesis using removed_shift [OF R, of "rev (z # rp) @ post" n] c by auto
  next
    case upper
    let ?z = "z\<lparr>end := start rg - 1\<rparr>"
    have c: "span ?z = span z - span rg" using span_cut_high [of z "start rg" "end rg"] upper by (simp add: span_def)
    have le: "x \<le> start rg - 1 \<longleftrightarrow> x < start rg" for x using word_le_pred_iff_less [OF upper(1)] .
    have pos: "0 < start rg" using upper(1) by (metis not_less_iff_gr_or_eq word_gt_0_no word_not_simps(1))
    have d: "start rg - 1 < start rg" using le [of "start rg - 1"] by simp
    have "start rg - 1 < start q" if "q \<in> set post" for q
      using o(4) that upper(2) d by fastforce
    then have "ordered (rev rp @ ?z # post)" using o across le upper by (auto simp: ordered_append ordered_Cons)
    moreover have "elems rp \<inter> span rg = {}" using low [of "start rg"] upper by (auto simp: span_def)
    ultimately show ?thesis using upper c p o(3) pos by (auto simp: removed_def)
  next
    case split
    let ?y = "z\<lparr>end := start rg - 1\<rparr>" and ?z = "rng (end rg + 1) (end z)"
    have c: "span ?y \<union> span ?z = span z - span rg"
      using span_cut_middle [of z "start rg" "end rg"] split r by (simp add: span_def)
    have le: "x \<le> start rg - 1 \<longleftrightarrow> x < start rg" for x using word_le_pred_iff_less [OF split(1)] .
    have le2: "end rg + 1 \<le> x \<longleftrightarrow> end rg < x" for x using word_succ_le_iff_less [OF split(2)] .
    have d: "start rg - 1 < start rg" "end rg < end rg + 1" using le [of "start rg - 1"] le2 [of "end rg + 1"] by simp_all
    then have g: "start rg - 1 < end rg + 1" using r by (meson le_less_trans less_le_trans less_trans)
    have "end x < end rg + 1" if "x \<in> set rp" for x
      using across that split r d by fastforce
    moreover have "start rg - 1 < start q" if "q \<in> set post" for q
      using o(4) that split r d by fastforce
    ultimately have "ordered (rev rp @ ?y # ?z # post)"
      using o across le le2 split g by (auto simp: ordered_append ordered_Cons)
    moreover have "elems rp \<inter> span rg = {}" using low [of "start rg"] split by (auto simp: span_def)
    ultimately show ?thesis using split c p o(3) r by (auto simp: removed_def)
  next
    case on
    then have d: "span z \<inter> span rg = {}" by (auto simp: span_def)
    have "removed mem rg (rev rp @ z # post) n (remove_walk mem rg rp (z # post) n)"
      using Cons.IH [of "z # post" n] Cons.prems d by auto
    moreover have "\<not> uint_range_overlaps z rg" using on overlaps_iff [OF o(3) r] by auto
    ultimately show ?thesis using on o(3) r by auto
  qed
qed

section \<open>Insertion of a disjoint range\<close>

text \<open>
  Ranges that neither overlap nor border on each other. A range that is disjoint from the set keeps them so.
\<close>

definition apart :: "uint_range \<Rightarrow> uint_range \<Rightarrow> bool" where
  "apart a b \<longleftrightarrow> end a < start b \<and> end a + 1 \<noteq> start b"

definition separated :: "uint_range list \<Rightarrow> bool" where
  "separated rs \<longleftrightarrow> sorted_wrt apart rs \<and> (\<forall>r \<in> set rs. start r \<le> end r)"

lemma separated_append:
  "separated (xs @ ys) \<longleftrightarrow> separated xs \<and> separated ys \<and> (\<forall>x \<in> set xs. \<forall>y \<in> set ys. apart x y)"
  by (auto simp: separated_def sorted_wrt_append)

lemma separated_Cons: "separated (x # ys) \<longleftrightarrow> start x \<le> end x \<and> separated ys \<and> (\<forall>y \<in> set ys. apart x y)"
  by (auto simp: separated_def)

lemma separated_Nil [simp]: "separated []"
  by (simp add: separated_def)

lemma separated_ordered: "separated rs \<Longrightarrow> ordered rs"
  unfolding separated_def ordered_def by (auto elim: sorted_wrt_mono_rel [rotated] simp: apart_def)

lemma disjoint_range:
  assumes "start z \<le> end z" and "start rg \<le> end rg" and "span z \<inter> span rg = {}"
  shows "end rg < start z \<or> end z < start rg"
proof (rule ccontr)
  assume "\<not> ?thesis"
  then have "(if start z \<le> start rg then start rg else start z) \<in> span z \<inter> span rg"
    using assms(1,2) by (auto simp: mem_span)
  then show False using assms(3) by blast
qed

text \<open>Growing a range towards its neighbours keeps it apart from the ranges beyond.\<close>

lemma apart_trans: "apart a b \<Longrightarrow> start b \<le> end b \<Longrightarrow> end b < start c \<Longrightarrow> apart a c"
proof -
  assume h: "apart a b" "start b \<le> end b" "end b < start c"
  then have lt: "end a < start b" "start b < start c" by (auto simp: apart_def)
  have "end a + 1 \<le> start b" using word_succ_le_iff_less [OF lt(1)] lt(1) by simp
  then show ?thesis using lt by (auto simp: apart_def)
qed

lemma insert_gap_separated:
  assumes sep: "separated (rev (z # rp) @ post)" and r: "start rg \<le> end rg" and gap: "end rg < start z"
    and prev: "rp = [] \<or> start rg > end (hd rp)"
    and run: "insert_walk mem rg (z # rp) post n = (True, s')"
  shows "separated (ranges s')"
proof -
  have z: "start z \<le> end z" "separated (rev rp)" "separated post" "\<forall>p \<in> set post. apart z p"
    and rp: "\<forall>x \<in> set rp. apart x z \<and> start x \<le> end x" "\<forall>x \<in> set rp. \<forall>p \<in> set post. apart x p"
    using sep by (auto simp: separated_append separated_Cons) (auto simp: separated_def)
  have no: "\<not> uint_range_overlaps z rg" "\<not> (start z \<le> start rg \<and> end z \<ge> end rg)"
    using gap r z(1) by (auto simp: overlaps_iff)
  have zp: "end z < start p" if "p \<in> set post" for p using z(4) that by (auto simp: apart_def)
  have rgz: "apart rg z" "\<forall>p \<in> set post. apart rg p" if "start z \<noteq> end rg + 1"
    using that gap apart_trans [of rg z] z(1) zp by (auto simp: apart_def)
  show ?thesis
  proof (cases rp)
    case Nil
    then show ?thesis using run no gap z r rgz by (auto simp: separated_Cons apart_def split: if_splits)
  next
    case (Cons y ys)
    have y: "start y \<le> end y" "end y < start rg" "\<forall>x \<in> set ys. apart x y" "separated (rev ys)"
      using z(2) rp(1) prev Cons by (auto simp: separated_append separated_Cons)
    have ys: "\<forall>x \<in> set ys. apart x rg" using y apart_trans [of _ y rg] by blast
    have touch: "start rg - 1 = end y \<longleftrightarrow> end y + 1 = start rg" "start z - 1 = end rg \<longleftrightarrow> start z = end rg + 1"
      by (auto simp: algebra_simps)
    have sy: "start y \<le> end rg" "start y \<le> end z" "start rg \<le> end z" using y r gap z(1) by simp_all
    consider "start z = end rg + 1" "end y + 1 = start rg" | "start z = end rg + 1" "end y + 1 \<noteq> start rg"
      | "start z \<noteq> end rg + 1" "end y + 1 = start rg" | "start z \<noteq> end rg + 1" "end y + 1 \<noteq> start rg" by blast
    then show ?thesis
    proof cases
      case 1
      then have "ranges s' = rev ys @ rng (start y) (end z) # post" using run no gap Cons touch y(2) by (auto simp: Let_def)
      then show ?thesis using z rp y sy Cons by (auto simp: separated_append separated_Cons apart_def)
    next
      case 2
      then have "ranges s' = rev rp @ rng (start rg) (end z) # post" using run no gap Cons touch y(2) by (auto simp: Let_def)
      then show ?thesis using 2 z rp y sy ys Cons by (auto simp: separated_append separated_Cons apart_def)
    next
      case 3
      then have "ranges s' = rev ys @ rng (start y) (end rg) # z # post" using run no gap Cons touch y(2) by (auto simp: Let_def)
      then show ?thesis using rgz [OF 3(1)] z rp y sy Cons by (auto simp: separated_append separated_Cons apart_def)
    next
      case 4
      then have "ranges s' = rev rp @ rng (start rg) (end rg) # z # post" using run no gap Cons touch y(2)
        by (auto simp: Let_def split: if_splits)
      then show ?thesis using rgz [OF 4(1)] 4 z rp y r ys Cons by (auto simp: separated_append separated_Cons apart_def)
    qed
  qed
qed

lemma insert_walk_separated:
  "separated (rev rp @ post) \<Longrightarrow> start rg \<le> end rg \<Longrightarrow> rp \<noteq> [] \<Longrightarrow> start rg \<le> end (hd rp) \<Longrightarrow>
   elems rp \<inter> span rg = {} \<Longrightarrow> insert_walk mem rg rp post n = (True, s') \<Longrightarrow> separated (ranges s')"
proof (induction rp arbitrary: post)
  case (Cons z rp)
  have zle: "start z \<le> end z" using Cons.prems(1) by (auto simp: separated_append separated_Cons)
  have gap: "end rg < start z" using disjoint_range [OF zle Cons.prems(2)] Cons.prems(4,5)
    by (auto simp: Int_Un_distrib2)
  show ?case
  proof (cases "rp = [] \<or> start rg > end (hd rp)")
    case True
    then show ?thesis using insert_gap_separated [OF Cons.prems(1,2) gap True Cons.prems(6)] by simp
  next
    case False
    have "insert_walk mem rg (z # rp) post n = insert_walk mem rg rp (z # post) n"
      using insert_walk_on [OF zle Cons.prems(2) gap] False by (simp add: not_less)
    then show ?thesis using Cons.IH [of "z # post"] Cons.prems False by (auto simp: Int_Un_distrib2)
  qed
qed simp

lemma insert_separated:
  assumes sep: "separated (ranges s)" and r: "start rg \<le> end rg" and dis: "elems (ranges s) \<inter> span rg = {}"
    and run: "ossl_uint_set_insert mem s rg = (True, s')"
  shows "separated (ranges s')"
proof (cases "ranges s" rule: rev_cases)
  case Nil
  then show ?thesis using run r by (auto simp: ossl_uint_set_insert_def separated_Cons Let_def split: if_splits)
next
  case (snoc rs0 z)
  have z: "start z \<le> end z" "\<forall>x \<in> set rs0. apart x z" using sep snoc by (auto simp: separated_append separated_Cons)
  obtain f ts where f: "ranges s = f # ts" by (metis snoc list.exhaust append_is_Nil_conv list.distinct(1))
  have "last (ranges s) = z" using snoc by simp
  moreover have "hd (ranges s) = f" "tl (ranges s) = ts" using f by simp_all
  ultimately have ends: "last (ranges s) = z" "hd (ranges s) = f" "tl (ranges s) = ts" by simp_all
  have ne: "ranges s \<noteq> []" using f by simp
  note run' = run [unfolded ossl_uint_set_insert_def Let_def ends]
  have fle: "start f \<le> end f" "separated (f # ts)" using sep f by (auto simp: separated_Cons)
  have fd: "end rg < start f \<or> end f < start rg" using disjoint_range [OF fle(1) r] dis f by auto
  have zd: "end rg < start z \<or> end z < start rg" using disjoint_range [OF z(1) r] dis snoc by auto
  consider (tail) "start rg > end z" | (front) "start rg \<le> end z" "end rg < start f"
    | (walk) "start rg \<le> end z" "\<not> end rg < start f" by force
  then show ?thesis
  proof cases
    case tail
    have x: "\<forall>x \<in> set rs0. apart x rg" using z tail apart_trans [of _ z rg] by blast
    show ?thesis
    proof (cases "end z + 1 = start rg")
      case True
      then have "ranges s' = rs0 @ [z\<lparr>end := end rg\<rparr>]" using run tail r ends snoc
        by (auto simp: ossl_uint_set_insert_def Let_def)
      then show ?thesis using sep snoc tail r z by (auto simp: separated_append separated_Cons apart_def)
    next
      case False
      then have "ranges s' = rs0 @ [z, rng (start rg) (end rg)]" using run tail r ends snoc
        by (auto simp: ossl_uint_set_insert_def Let_def split: if_splits)
      then show ?thesis using False sep snoc tail r z x by (auto simp: separated_append separated_Cons apart_def)
    qed
  next
    case front
    have "start rg \<le> end f" using front(2) r fle(1) by simp
    moreover have "insert_walk mem rg [f] ts (allocated s) = (True, s')"
    proof -
      have "\<not> end z \<le> end rg" using zd front r z(1) by auto
      then show ?thesis using run' front leD [OF front(1)] r ne by (simp del: insert_walk.simps)
    qed
    ultimately show ?thesis using insert_walk_separated [of "[f]" ts rg mem] fle(2) r dis f by auto
  next
    case walk
    have "\<not> start rg \<le> start f" using walk fd fle(1) by auto
    then have "insert_walk mem rg (rev (ranges s)) [] (allocated s) = (True, s')"
      using run' walk leD [OF walk(1)] r ne by (simp del: insert_walk.simps)
    then show ?thesis using insert_walk_separated [of "rev (ranges s)" "[]" rg mem] sep r dis walk(1) snoc by auto
  qed
qed

section \<open>The interface of an integer set\<close>

text \<open>
  What a user of the sets relies on: a range can be added and removed, and a query answers membership.
  \<open>None\<close> is a call that fails.
\<close>

datatype set_op = Add "64 word" "64 word" | Sub "64 word" "64 word"

fun run_ops :: "('s \<Rightarrow> 64 word \<Rightarrow> 64 word \<Rightarrow> 's option) \<Rightarrow> ('s \<Rightarrow> 64 word \<Rightarrow> 64 word \<Rightarrow> 's option) \<Rightarrow>
    's \<Rightarrow> set_op list \<Rightarrow> 's option" where
  "run_ops ad sb s [] = Some s"
| "run_ops ad sb s (Add a b # ops) = Option.bind (ad s a b) (\<lambda>s. run_ops ad sb s ops)"
| "run_ops ad sb s (Sub a b # ops) = Option.bind (sb s a b) (\<lambda>s. run_ops ad sb s ops)"

fun set_after :: "64 word set \<Rightarrow> set_op list \<Rightarrow> 64 word set" where
  "set_after A [] = A"
| "set_after A (Add a b # ops) = set_after (A \<union> {a..b}) ops"
| "set_after A (Sub a b # ops) = set_after (A - {a..b}) ops"

fun op_ok :: "set_op \<Rightarrow> bool" where
  "op_ok (Add a b) = (a \<le> b)"
| "op_ok (Sub a b) = (a \<le> b)"

locale integer_set =
  fixes init :: 's
    and ad :: "'s \<Rightarrow> 64 word \<Rightarrow> 64 word \<Rightarrow> 's option"
    and sb :: "'s \<Rightarrow> 64 word \<Rightarrow> 64 word \<Rightarrow> 's option"
    and query :: "'s \<Rightarrow> 64 word \<Rightarrow> bool"
    and holds :: "'s \<Rightarrow> 64 word set \<Rightarrow> bool"
  assumes init_holds: "holds init {}"
    and ad_holds: "holds s A \<Longrightarrow> a \<le> b \<Longrightarrow> \<exists>s'. ad s a b = Some s' \<and> holds s' (A \<union> {a..b})"
    and sb_holds: "holds s A \<Longrightarrow> a \<le> b \<Longrightarrow> \<exists>s'. sb s a b = Some s' \<and> holds s' (A - {a..b})"
    and query_holds: "holds s A \<Longrightarrow> query s v \<longleftrightarrow> v \<in> A"
begin

lemma run_ops_holds:
  "holds s A \<Longrightarrow> \<forall>p \<in> set ops. op_ok p \<Longrightarrow> \<exists>s'. run_ops ad sb s ops = Some s' \<and> holds s' (set_after A ops)"
proof (induction ops arbitrary: s A)
  case (Cons p ops)
  show ?case
  proof (cases p)
    case (Add a b)
    then obtain s1 where "ad s a b = Some s1" "holds s1 (A \<union> {a..b})"
      using ad_holds [OF Cons.prems(1), of a b] Cons.prems(2) by auto
    then show ?thesis using Cons.IH [of s1] Cons.prems(2) Add by auto
  next
    case (Sub a b)
    then obtain s1 where "sb s a b = Some s1" "holds s1 (A - {a..b})"
      using sb_holds [OF Cons.prems(1), of a b] Cons.prems(2) by auto
    then show ?thesis using Cons.IH [of s1] Cons.prems(2) Sub by auto
  qed
qed simp

lemma run_ops_query:
  assumes "\<forall>p \<in> set ops. op_ok p"
  shows "\<exists>s. run_ops ad sb init ops = Some s \<and> (\<forall>v. query s v \<longleftrightarrow> v \<in> set_after {} ops)"
  using run_ops_holds [OF init_holds assms] query_holds by blast

end

definition insert_range :: "uint_set \<Rightarrow> 64 word \<Rightarrow> 64 word \<Rightarrow> uint_set option" where
  "insert_range s a b = (case ossl_uint_set_insert True s (rng a b) of (ok, s') \<Rightarrow> if ok then Some s' else None)"

definition remove_range :: "uint_set \<Rightarrow> 64 word \<Rightarrow> 64 word \<Rightarrow> uint_set option" where
  "remove_range s a b =
     (case ossl_uint_set_remove True s (rng a b) of Inr (True, s') \<Rightarrow> Some s' | _ \<Rightarrow> None)"

definition set_holds :: "uint_set \<Rightarrow> 64 word set \<Rightarrow> bool" where
  "set_holds s A \<longleftrightarrow> ordered (ranges s) \<and> length (ranges s) \<le> allocated s \<and> elems (ranges s) = A"

lemma insert_contract:
  assumes "ordered (ranges s)" and "length (ranges s) \<le> allocated s" and "start rg \<le> end rg"
  shows "case ossl_uint_set_insert mem s rg of (ok, s') \<Rightarrow>
    if ok then ordered (ranges s') \<and> length (ranges s') \<le> allocated s' \<and> elems (ranges s') = elems (ranges s) \<union> span rg
    else \<not> mem \<and> s' = s"
proof (cases "swallows rg (ranges s)")
  case True
  have "ranges s \<noteq> []" using True by (simp add: swallows_def)
  then have "1 \<le> allocated s" using assms(2) by (cases "ranges s") auto
  then show ?thesis using insert_swallows [OF assms(1,3) True, of mem] assms(3)
    by (auto simp: ordered_Cons span_def)
next
  case False
  obtain ok s' where e: "ossl_uint_set_insert mem s rg = (ok, s')" by force
  show ?thesis using insert_inserted [OF assms(1,3,2) False, of mem] assms(2)
    by (auto simp: inserted_def e)
qed

lemma remove_contract:
  assumes "ordered (ranges s)" and "length (ranges s) \<le> allocated s" and "start rg \<le> end rg"
  shows "case ossl_uint_set_remove mem s rg of
      Inl e \<Rightarrow> e = Null_Deref \<and> \<not> mem
    | Inr (ok, s') \<Rightarrow> ok \<and> ordered (ranges s') \<and> length (ranges s') \<le> allocated s' \<and>
        elems (ranges s') = elems (ranges s) - span rg"
proof -
  have "removed mem rg (ranges s) (allocated s) (remove_walk mem rg (rev (ranges s)) [] (allocated s))"
    using remove_walk_removed [of "rev (ranges s)" "[]" rg "allocated s" mem] assms by simp
  then show ?thesis using assms by (auto simp: ossl_uint_set_remove_def removed_def bind_res_def split: sum.splits)
qed

interpretation us: integer_set ossl_uint_set_init insert_range remove_range ossl_uint_set_query set_holds
proof
  show "set_holds ossl_uint_set_init {}" by (simp add: set_holds_def ossl_uint_set_init_def)
next
  fix s A and a b :: "64 word" assume "set_holds s A" "a \<le> b"
  then show "\<exists>s'. insert_range s a b = Some s' \<and> set_holds s' (A \<union> {a..b})"
    using insert_contract [of s "rng a b" True] by (auto simp: set_holds_def insert_range_def span_def split: if_splits)
next
  fix s A and a b :: "64 word" assume "set_holds s A" "a \<le> b"
  then show "\<exists>s'. remove_range s a b = Some s' \<and> set_holds s' (A - {a..b})"
    using remove_contract [of s "rng a b" True]
    by (auto simp: set_holds_def remove_range_def span_def split: sum.splits)
next
  fix s A v assume "set_holds s A"
  then show "ossl_uint_set_query s v \<longleftrightarrow> v \<in> A" by (simp add: set_holds_def query_elems)
qed

text \<open>
  C21: the integer sets are sets. After any sequence of insertions and removals of ranges on a new set, in
  which every allocation succeeds, every call has succeeded and a query answers exactly whether the integer
  is in the set that the sequence describes.
\<close>
theorem uint_set_sequence:
  assumes "\<forall>p \<in> set ops. op_ok p"
  shows "\<exists>s. run_ops insert_range remove_range ossl_uint_set_init ops = Some s \<and>
    (\<forall>v. ossl_uint_set_query s v \<longleftrightarrow> v \<in> set_after {} ops)"
  using assms by (rule us.run_ops_query)

theorem uint_set_sequence_witness:
  "\<exists>s. run_ops insert_range remove_range ossl_uint_set_init [Add 1 9, Sub 4 5, Add 20 30] = Some s \<and>
    \<not> ossl_uint_set_query s 4 \<and> ossl_uint_set_query s 25"
  using uint_set_sequence [of "[Add 1 9, Sub 4 5, Add 20 30]"] by auto

text \<open>
  What the calls do when an allocation may fail. An insertion that returns 0 has left the set
  as it was; a removal that needs a new item and cannot have it dereferences \<open>NULL\<close> (the header
  promises a return of 0), and is otherwise correct; no assertion of \<open>ossl_uint_set_remove\<close> can fail.
\<close>
lemma uint_set_allocation:
  assumes "ordered (ranges s)" and "length (ranges s) \<le> allocated s" and "start rg \<le> end rg"
  shows "(ossl_uint_set_insert mem s rg = (False, s) \<and> \<not> mem \<or>
      (\<exists>s'. ossl_uint_set_insert mem s rg = (True, s') \<and> ordered (ranges s') \<and>
         elems (ranges s') = elems (ranges s) \<union> span rg)) \<and>
    (ossl_uint_set_remove mem s rg = Inl Null_Deref \<and> \<not> mem \<or>
      (\<exists>s'. ossl_uint_set_remove mem s rg = Inr (True, s') \<and> ordered (ranges s') \<and>
         elems (ranges s') = elems (ranges s) - span rg))"
proof
  obtain ok s' where e: "ossl_uint_set_insert mem s rg = (ok, s')" by force
  show "ossl_uint_set_insert mem s rg = (False, s) \<and> \<not> mem \<or>
      (\<exists>s'. ossl_uint_set_insert mem s rg = (True, s') \<and> ordered (ranges s') \<and>
         elems (ranges s') = elems (ranges s) \<union> span rg)"
    using insert_contract [OF assms, of mem] e by (cases ok) simp_all
  show "ossl_uint_set_remove mem s rg = Inl Null_Deref \<and> \<not> mem \<or>
      (\<exists>s'. ossl_uint_set_remove mem s rg = Inr (True, s') \<and> ordered (ranges s') \<and>
         elems (ranges s') = elems (ranges s) - span rg)"
    using remove_contract [OF assms, of mem] by (cases "ossl_uint_set_remove mem s rg") auto
qed

text \<open>
  Bordering ranges are not always merged. When the new range overlaps a range and ends right before the
  next one, the two stay separate items, against the invariant the file states for its lists.
\<close>
lemma insert_leaves_bordering_ranges:
  assumes "a < c" and "c \<le> b" and "b < d" and "d < d + 1" and "d + 1 \<le> e"
  shows "ossl_uint_set_insert mem \<lparr>ranges = [rng a b, rng (d + 1) e], allocated = n\<rparr> (rng c d)
    = (True, \<lparr>ranges = [rng a d, rng (d + 1) e], allocated = n\<rparr>)"
proof -
  have l: "c \<le> d" "a \<le> b" "a \<le> c" using assms by auto
  have l2: "\<not> e < c" "\<not> c \<le> a" "\<not> d < a" "\<not> d + 1 \<le> c" "\<not> d \<le> b" "\<not> b < c" "\<not> c < a"
    using assms l by (meson leD le_less_trans less_imp_le less_le_trans not_le order_trans)+
  have no: "\<not> uint_range_overlaps (rng (d + 1) e) (rng c d)" and yes: "uint_range_overlaps (rng a b) (rng c d)"
    using overlaps_iff [of "rng (d + 1) e" "rng c d"] overlaps_iff [of "rng a b" "rng c d"] assms l l2
    by (auto simp: not_le not_less)
  show ?thesis using assms l no yes l2
    by (simp add: ossl_uint_set_insert_def Let_def u64_min_def u64_max_def)
qed

text \<open>
  An insertion that covers the whole set unlinks the old items without freeing them: destroying the set
  afterwards leaves all but one of the old items allocated.
\<close>
lemma covering_insert_leaks:
  assumes "ranges s = f # ts" and "allocated s = length (ranges s)"
    and "start rg \<le> start f" and "end (last (f # ts)) \<le> end rg" and "start rg \<le> end (last (f # ts))"
    and "start rg \<le> end rg"
  shows "allocated (ossl_uint_set_destroy (snd (ossl_uint_set_insert mem s rg))) = length ts"
  using assms by (simp add: ossl_uint_set_insert_def ossl_uint_set_destroy_def Let_def)

end
