(* ===== verification/Lhash.thy ===== *)
theory Lhash
  imports C_Runtime
begin

unbundle bit_operations_syntax

text \<open>
  The dynamic hash tables of the vendored OpenSSL, \<open>crypto/lhash/lhash.c\<close>: linear hashing, where the table
  grows and shrinks by one bucket at a time. A bucket is the list of the nodes chained in it. A hash is an
  \<open>unsigned long\<close> of 32 bits; the counters of buckets and items are natural numbers, since both are bounded by
  the memory of a 32-bit process, but the load, a product, is computed modulo \<open>2 ^ 32\<close>. Whether an allocation
  succeeds is an argument of the operation.
\<close>

section \<open>State\<close>

record 'a lh_node =
  data :: 'a
  node_hash :: "32 word"

record 'a lhash =
  lh_b :: "'a lh_node list list"
  lh_comp :: "'a \<Rightarrow> 'a \<Rightarrow> int"
  lh_hash :: "'a \<Rightarrow> 32 word"
  lh_hashw :: "('a \<Rightarrow> ('a \<Rightarrow> 32 word) \<Rightarrow> 32 word) option"
  lh_compw :: "('a \<Rightarrow> 'a \<Rightarrow> ('a \<Rightarrow> 'a \<Rightarrow> int) \<Rightarrow> int) option"
  num_nodes :: nat
  num_alloc_nodes :: nat
  lh_p :: nat
  lh_pmax :: nat
  up_load :: nat
  down_load :: nat
  num_items :: nat
  lh_error :: int

abbreviation MIN_NODES :: nat where "MIN_NODES \<equiv> 16"
abbreviation LH_LOAD_MULT :: nat where "LH_LOAD_MULT \<equiv> 256"

definition OPENSSL_LH_set_thunks ::
    "('a \<Rightarrow> ('a \<Rightarrow> 32 word) \<Rightarrow> 32 word) option \<Rightarrow> ('a \<Rightarrow> 'a \<Rightarrow> ('a \<Rightarrow> 'a \<Rightarrow> int) \<Rightarrow> int) option \<Rightarrow>
     'a lhash \<Rightarrow> 'a lhash" where
  "OPENSSL_LH_set_thunks hw cw lh = lh\<lparr>lh_compw := cw, lh_hashw := hw\<rparr>"

definition OPENSSL_LH_new ::
    "bool \<Rightarrow> bool \<Rightarrow> ('a \<Rightarrow> 32 word) \<Rightarrow> ('a \<Rightarrow> 'a \<Rightarrow> int) \<Rightarrow> 'a lhash option" where
  "OPENSSL_LH_new alloc_lh alloc_b h c =
     (if \<not> alloc_lh then None
      else if \<not> alloc_b then None
      else Some \<lparr>lh_b = replicate MIN_NODES [], lh_comp = c, lh_hash = h, lh_hashw = None, lh_compw = None,
                 num_nodes = MIN_NODES div 2, num_alloc_nodes = MIN_NODES, lh_p = 0, lh_pmax = MIN_NODES div 2,
                 up_load = 2 * LH_LOAD_MULT, down_load = LH_LOAD_MULT, num_items = 0, lh_error = 0\<rparr>)"

definition OPENSSL_LH_flush :: "'a lhash \<Rightarrow> 'a lhash" where
  "OPENSSL_LH_flush lh =
     lh\<lparr>lh_b := replicate (num_nodes lh) [] @ drop (num_nodes lh) (lh_b lh), num_items := 0\<rparr>"

section \<open>Growing and shrinking\<close>

fun split_bucket :: "nat \<Rightarrow> nat \<Rightarrow> 'a lh_node list \<Rightarrow> 'a lh_node list \<Rightarrow> 'a lh_node list \<times> 'a lh_node list" where
  \<comment> \<open>the loop of \<open>expand\<close>: what stays behind \<open>n1\<close>, and the list that grows at \<open>n2\<close>\<close>
  "split_bucket nni p [] n2 = ([], n2)"
| "split_bucket nni p (np # nodes) n2 =
     (if unat (node_hash np) mod nni \<noteq> p then split_bucket nni p nodes (np # n2)
      else case split_bucket nni p nodes n2 of (n1, n2) \<Rightarrow> (np # n1, n2))"

definition expand :: "bool \<Rightarrow> 'a lhash \<Rightarrow> bool \<times> 'a lhash" where
  "expand realloc_ok lh =
     (let nni = num_alloc_nodes lh; p = lh_p lh; pmax = lh_pmax lh
      in if p + 1 \<ge> pmax \<and> \<not> realloc_ok then (False, lh\<lparr>lh_error := lh_error lh + 1\<rparr>)
         else let lh1 =
                (if p + 1 \<ge> pmax
                 then lh\<lparr>lh_b := take nni (lh_b lh) @ replicate (nni * 2 - nni) [],
                         lh_pmax := nni, num_alloc_nodes := nni * 2, lh_p := 0\<rparr>
                 else lh\<lparr>lh_p := p + 1\<rparr>)
              in (case split_bucket nni p (lh_b lh1 ! p) [] of (n1, n2) \<Rightarrow>
                    (True, lh1\<lparr>num_nodes := num_nodes lh1 + 1, lh_b := (lh_b lh1)[p + pmax := n2, p := n1]\<rparr>)))"

definition contract :: "bool \<Rightarrow> 'a lhash \<Rightarrow> 'a lhash" where
  "contract realloc_ok lh =
     (let i = lh_p lh + lh_pmax lh - 1;
          np = lh_b lh ! i;
          lh1 = lh\<lparr>lh_b := (lh_b lh)[i := []]\<rparr>;
          lh2 = (if lh_p lh1 = 0
                 then (if \<not> realloc_ok then lh1\<lparr>lh_error := lh_error lh1 + 1\<rparr>
                       else lh1\<lparr>lh_b := take (lh_pmax lh1) (lh_b lh1)\<rparr>)
                      \<lparr>num_alloc_nodes := num_alloc_nodes lh1 div 2, lh_pmax := lh_pmax lh1 div 2,
                       lh_p := lh_pmax lh1 div 2 - 1\<rparr>
                 else lh1\<lparr>lh_p := lh_p lh1 - 1\<rparr>)
      in lh2\<lparr>num_nodes := num_nodes lh2 - 1, lh_b := (lh_b lh2)[lh_p lh2 := lh_b lh2 ! lh_p lh2 @ np]\<rparr>)"

section \<open>Finding a node\<close>

definition hash_of :: "'a lhash \<Rightarrow> 'a \<Rightarrow> 32 word" where
  "hash_of lh d = (case lh_hashw lh of Some w \<Rightarrow> w d (lh_hash lh) | None \<Rightarrow> lh_hash lh d)"

definition same :: "'a lhash \<Rightarrow> 'a \<Rightarrow> 'a \<Rightarrow> bool" where
  "same lh x d \<longleftrightarrow> (case lh_compw lh of Some w \<Rightarrow> w x d (lh_comp lh) | None \<Rightarrow> lh_comp lh x d) = 0"

fun find_link :: "('a lh_node \<Rightarrow> bool) \<Rightarrow> 'a lh_node list \<Rightarrow> 'a lh_node list \<times> 'a lh_node list" where
  \<comment> \<open>the nodes before the link that is returned, and the nodes that it points to\<close>
  "find_link P [] = ([], [])"
| "find_link P (n1 # ns) = (if P n1 then ([], n1 # ns) else case find_link P ns of (pre, rest) \<Rightarrow> (n1 # pre, rest))"

definition bucket_of :: "'a lhash \<Rightarrow> 32 word \<Rightarrow> nat" where
  "bucket_of lh h =
     (let nn = unat h mod lh_pmax lh in if nn < lh_p lh then unat h mod num_alloc_nodes lh else nn)"

definition getrn :: "'a lhash \<Rightarrow> 'a \<Rightarrow> 32 word \<times> nat \<times> 'a lh_node list \<times> 'a lh_node list" where
  \<comment> \<open>the hash, the bucket, and the position in it\<close>
  "getrn lh d =
     (let h = hash_of lh d; nn = bucket_of lh h
      in (h, nn, find_link (\<lambda>n1. node_hash n1 = h \<and> same lh (data n1) d) (lh_b lh ! nn)))"

section \<open>Operations\<close>

definition load :: "'a lhash \<Rightarrow> nat" where
  "load lh = (num_items lh * LH_LOAD_MULT) mod 2 ^ 32 div num_nodes lh"

definition OPENSSL_LH_insert :: "bool \<Rightarrow> bool \<Rightarrow> 'a \<Rightarrow> 'a lhash \<Rightarrow> 'a option \<times> 'a lhash" where
  "OPENSSL_LH_insert realloc_ok malloc_ok d lh =
     (let lh0 = lh\<lparr>lh_error := 0\<rparr>
      in (case (if up_load lh0 \<le> load lh0 then expand realloc_ok lh0 else (True, lh0)) of (grown, lh1) \<Rightarrow>
            if \<not> grown then (None, lh1)
            else (case getrn lh1 d of (h, nn, pre, rest) \<Rightarrow>
                    (case rest of
                       [] \<Rightarrow>
                         if \<not> malloc_ok then (None, lh1\<lparr>lh_error := lh_error lh1 + 1\<rparr>)
                         else (None, lh1\<lparr>lh_b := (lh_b lh1)[nn := pre @ [\<lparr>data = d, node_hash = h\<rparr>]],
                                         num_items := num_items lh1 + 1\<rparr>)
                     | n # ns \<Rightarrow>
                         (Some (data n), lh1\<lparr>lh_b := (lh_b lh1)[nn := pre @ n\<lparr>data := d\<rparr> # ns]\<rparr>)))))"

definition OPENSSL_LH_delete :: "bool \<Rightarrow> 'a \<Rightarrow> 'a lhash \<Rightarrow> 'a option \<times> 'a lhash" where
  "OPENSSL_LH_delete realloc_ok d lh =
     (let lh0 = lh\<lparr>lh_error := 0\<rparr>
      in (case getrn lh0 d of (h, nn, pre, rest) \<Rightarrow>
            (case rest of
               [] \<Rightarrow> (None, lh0)
             | n # ns \<Rightarrow>
                 let lh1 = lh0\<lparr>lh_b := (lh_b lh0)[nn := pre @ ns], num_items := num_items lh0 - 1\<rparr>
                 in (Some (data n),
                     if num_nodes lh1 > MIN_NODES \<and> down_load lh1 \<ge> load lh1 then contract realloc_ok lh1 else lh1))))"

definition OPENSSL_LH_retrieve :: "'a \<Rightarrow> 'a lhash \<Rightarrow> 'a option \<times> 'a lhash" where
  "OPENSSL_LH_retrieve d lh =
     (let lh0 = (if lh_error lh \<noteq> 0 then lh\<lparr>lh_error := 0\<rparr> else lh)
      in (case getrn lh0 d of (h, nn, pre, rest) \<Rightarrow>
            (case rest of [] \<Rightarrow> None | n # ns \<Rightarrow> Some (data n), lh0)))"

fun doall_bucket :: "('a \<Rightarrow> 's \<Rightarrow> 's) \<Rightarrow> 'a lh_node list \<Rightarrow> 's \<Rightarrow> 's" where
  "doall_bucket func [] st = st"
| "doall_bucket func (a # n) st = doall_bucket func n (func (data a) st)"

fun doall_loop :: "('a \<Rightarrow> 's \<Rightarrow> 's) \<Rightarrow> 'a lh_node list list \<Rightarrow> nat \<Rightarrow> 's \<Rightarrow> 's" where
  \<comment> \<open>the buckets below \<open>k\<close>, from the last to the first\<close>
  "doall_loop func bs 0 st = st"
| "doall_loop func bs (Suc i) st = doall_loop func bs i (doall_bucket func (bs ! i) st)"

definition OPENSSL_LH_doall_arg :: "'a lhash \<Rightarrow> ('a \<Rightarrow> 's \<Rightarrow> 's) \<Rightarrow> 's \<Rightarrow> 's" where
  \<comment> \<open>for a function that does not change the table; \<open>'s\<close> is the state behind \<open>arg\<close>\<close>
  "OPENSSL_LH_doall_arg lh func st = doall_loop func (lh_b lh) (num_nodes lh) st"

definition doall_util_fn :: "'a lhash option \<Rightarrow> ('a \<Rightarrow> 's \<Rightarrow> 's) \<Rightarrow> 's \<Rightarrow> 's" where
  \<comment> \<open>the argument is what is called for an item, \<open>wfunc_arg(data, arg, func_arg)\<close> or \<open>wfunc(data, func)\<close>\<close>
  "doall_util_fn lh wfunc st = (case lh of None \<Rightarrow> st | Some l \<Rightarrow> doall_loop wfunc (lh_b l) (num_nodes l) st)"

definition OPENSSL_LH_doall :: "(('a \<Rightarrow> 's \<Rightarrow> 's) \<Rightarrow> 'a \<Rightarrow> 's \<Rightarrow> 's) \<Rightarrow> 'a lhash option \<Rightarrow> ('a \<Rightarrow> 's \<Rightarrow> 's) \<Rightarrow> 's \<Rightarrow> 's" where
  \<comment> \<open>with the thunk \<open>daw\<close> that was set for the table\<close>
  "OPENSSL_LH_doall daw lh func st = (case lh of None \<Rightarrow> st | Some _ \<Rightarrow> doall_util_fn lh (daw func) st)"

definition OPENSSL_LH_doall_arg_thunk :: "'a lhash option \<Rightarrow> (('a \<Rightarrow> 's \<Rightarrow> 's) \<Rightarrow> 'a \<Rightarrow> 's \<Rightarrow> 's) \<Rightarrow> ('a \<Rightarrow> 's \<Rightarrow> 's) \<Rightarrow> 's \<Rightarrow> 's" where
  "OPENSSL_LH_doall_arg_thunk lh daaw fn st = doall_util_fn lh (daaw fn) st"

definition OPENSSL_LH_free :: "'a lhash option \<Rightarrow> 'a lh_node list" where
  \<comment> \<open>the nodes that are freed, in this order; then the table itself\<close>
  "OPENSSL_LH_free lh = (case lh of None \<Rightarrow> [] | Some l \<Rightarrow> concat (take (num_nodes l) (lh_b l)))"

definition OPENSSL_LH_get_down_load :: "'a lhash \<Rightarrow> nat" where
  "OPENSSL_LH_get_down_load lh = down_load lh"

definition OPENSSL_LH_error :: "'a lhash \<Rightarrow> int" where
  "OPENSSL_LH_error lh = lh_error lh"

definition OPENSSL_LH_num_items :: "'a lhash option \<Rightarrow> nat" where
  "OPENSSL_LH_num_items lh = (case lh of None \<Rightarrow> 0 | Some l \<Rightarrow> num_items l)"

definition OPENSSL_LH_set_down_load :: "nat \<Rightarrow> 'a lhash \<Rightarrow> 'a lhash" where
  "OPENSSL_LH_set_down_load dl lh = lh\<lparr>down_load := dl\<rparr>"

section \<open>Hashing strings\<close>

definition hash_step :: "32 word \<Rightarrow> 32 word \<Rightarrow> 32 word" where
  "hash_step v ret =
     (let r = unat (((drop_bit 2 v) XOR v) AND 0x0f);
          ret = push_bit r ret OR ucast (drop_bit (32 - r) (ucast ret :: 64 word))
      in ret XOR (v * v))"

fun strhash_loop :: "32 word \<Rightarrow> string \<Rightarrow> 32 word \<Rightarrow> 32 word" where
  "strhash_loop n [] ret = ret"
| "strhash_loop n (c # cs) ret = strhash_loop (n + 0x100) cs (hash_step (n OR char_val c) ret)"

definition OPENSSL_LH_strhash :: "string \<Rightarrow> 32 word" where
  "OPENSSL_LH_strhash c =
     (if c = [] then 0 else let ret = strhash_loop 0x100 c 0 in drop_bit 16 ret XOR ret)"

fun strcasehash_loop :: "32 word \<Rightarrow> string \<Rightarrow> 32 word \<Rightarrow> 32 word" where
  "strcasehash_loop n [] ret = ret"
| "strcasehash_loop n (c # cs) ret =
     strcasehash_loop (n + 0x100) cs (hash_step (n OR (NOT 0x20 AND char_val c)) ret)"

definition ossl_lh_strcasehash :: "string \<Rightarrow> 32 word" where
  "ossl_lh_strcasehash c =
     (if c = [] then 0 else let ret = strcasehash_loop 0x100 c 0 in drop_bit 16 ret XOR ret)"

section \<open>Bucket numbers\<close>

definition bucket_no :: "nat \<Rightarrow> nat \<Rightarrow> nat \<Rightarrow> nat" where
  "bucket_no p pmax h = (if h mod pmax < p then h mod (2 * pmax) else h mod pmax)"

lemma mod_double: "h mod (2 * m) = h mod m \<or> h mod (2 * m) = h mod m + m" for h m :: nat
proof -
  have "h mod (m * 2) = m * (h div m mod 2) + h mod m" by (rule mod_mult2_eq)
  then show ?thesis by (cases "h div m mod 2 = 0") (auto simp: mult.commute)
qed

lemma bucket_no_less: "p < m \<Longrightarrow> bucket_no p m h < p + m"
proof -
  assume p: "p < m"
  obtain q where q: "h mod m = q" "q < m" using p by simp
  then show ?thesis using mod_double [of h m] p by (auto simp: bucket_no_def)
qed

lemma bucket_no_p: "p < m \<Longrightarrow> bucket_no p m h = p \<longleftrightarrow> h mod m = p"
  using mod_double [of h m] by (auto simp: bucket_no_def)

lemma bucket_no_step:
  assumes "p < m"
  shows "(if p + 1 \<ge> m then bucket_no 0 (2 * m) h else bucket_no (p + 1) m h) =
    (if h mod m = p then h mod (2 * m) else bucket_no p m h)"
proof -
  obtain q where q: "h mod m = q" "q < m" using assms by simp
  then show ?thesis using assms by (auto simp: bucket_no_def)
qed

lemma bucket_of_no: "num_alloc_nodes lh = 2 * lh_pmax lh \<Longrightarrow> bucket_of lh h = bucket_no (lh_p lh) (lh_pmax lh) (unat h)"
  by (simp add: bucket_of_def bucket_no_def Let_def)

section \<open>Lists of buckets\<close>

lemma length_concat_update:
  "i < length bs \<Longrightarrow> length (concat (bs[i := x])) + length (bs ! i) = length (concat bs) + length x"
proof (induction bs arbitrary: i)
  case (Cons b bs)
  then show ?case by (cases i) force+
qed simp

lemma split_bucket_filter:
  "split_bucket nni p ns acc =
    (filter (\<lambda>n. unat (node_hash n) mod nni = p) ns, rev (filter (\<lambda>n. unat (node_hash n) mod nni \<noteq> p) ns) @ acc)"
  by (induction ns arbitrary: acc) auto

lemma find_link_split:
  "find_link P ns = (pre, rest) \<Longrightarrow> ns = pre @ rest \<and> (\<forall>n \<in> set pre. \<not> P n) \<and> (rest \<noteq> [] \<longrightarrow> P (hd rest))"
  by (induction ns arbitrary: pre) (auto split: if_splits prod.splits)

section \<open>The invariant\<close>

text \<open>
  A list of buckets is arranged for \<open>p\<close> and \<open>pmax\<close> when every node carries the hash of its data and sits in
  the bucket of that hash, and no two nodes of a bucket have the same key.
\<close>

definition arranged :: "('a \<Rightarrow> 32 word) \<Rightarrow> ('a \<Rightarrow> 'k) \<Rightarrow> nat \<Rightarrow> nat \<Rightarrow> 'a lh_node list list \<Rightarrow> bool" where
  "arranged hf key p m bs \<longleftrightarrow> (\<forall>i < length bs.
     (\<forall>n \<in> set (bs ! i). node_hash n = hf (data n) \<and> bucket_no p m (unat (node_hash n)) = i) \<and>
     distinct (map (\<lambda>n. key (data n)) (bs ! i)))"

definition bucket_items :: "'a lh_node list list \<Rightarrow> 'a set" where
  "bucket_items bs = {d. \<exists>i < length bs. d \<in> data ` set (bs ! i)}"

lemma bucket_items_concat: "bucket_items bs = data ` set (concat bs)"
  by (auto simp: bucket_items_def in_set_conv_nth image_iff) (metis nth_mem)+

lemma arrangedD:
  assumes "arranged hf key p m bs" and "i < length bs" and "n \<in> set (bs ! i)"
  shows "node_hash n = hf (data n)" "bucket_no p m (unat (hf (data n))) = i"
  using assms unfolding arranged_def by metis+

lemma arranged_distinct: "arranged hf key p m bs \<Longrightarrow> i < length bs \<Longrightarrow> distinct (map (\<lambda>n. key (data n)) (bs ! i))"
  by (simp add: arranged_def)

lemma arranged_high:
  assumes "arranged hf key p m bs" and "p < m" and "p + m \<le> i" and "i < length bs"
  shows "bs ! i = []"
proof (rule ccontr)
  assume "bs ! i \<noteq> []"
  then have "hd (bs ! i) \<in> set (bs ! i)" by simp
  then show False using arrangedD(2) [OF assms(1,4)] bucket_no_less [OF assms(2)] assms(3) by (metis not_le)
qed

definition next_p :: "nat \<Rightarrow> nat \<Rightarrow> nat" where "next_p p m = (if p + 1 \<ge> m then 0 else p + 1)"
definition next_pmax :: "nat \<Rightarrow> nat \<Rightarrow> nat" where "next_pmax p m = (if p + 1 \<ge> m then 2 * m else m)"

lemma bucket_no_next:
  "p < m \<Longrightarrow> bucket_no (next_p p m) (next_pmax p m) h = (if h mod m = p then h mod (2 * m) else bucket_no p m h)"
  using bucket_no_step [of p m h] by (auto simp: next_p_def next_pmax_def split: if_splits)

lemma arranged_split:
  assumes a: "arranged hf key p m bs" and p: "p < m" and l: "p + m < length bs"
  defines "stay \<equiv> filter (\<lambda>n. unat (node_hash n) mod (2 * m) = p) (bs ! p)"
    and "move \<equiv> rev (filter (\<lambda>n. unat (node_hash n) mod (2 * m) \<noteq> p) (bs ! p))"
  shows "arranged hf key (next_p p m) (next_pmax p m) (bs[p + m := move, p := stay])"
    and "bucket_items (bs[p + m := move, p := stay]) = bucket_items bs"
    and "length (concat (bs[p + m := move, p := stay])) = length (concat bs)"
proof -
  have e: "bs ! (p + m) = []" using arranged_high [OF a p order_refl l] .
  have nth: "bs[p + m := move, p := stay] ! i = (if i = p then stay else if i = p + m then move else bs ! i)"
    if "i < length bs" for i using that p l by (auto simp: nth_list_update)
  have in_p: "unat (node_hash n) mod m = p" if "n \<in> set (bs ! p)" for n
    using arrangedD [OF a _ that] l bucket_no_p [OF p] by auto
  have node: "node_hash n = hf (data n) \<and> bucket_no (next_p p m) (next_pmax p m) (unat (node_hash n)) = i"
    if i: "i < length bs" and n: "n \<in> set (if i = p then stay else if i = p + m then move else bs ! i)" for i n
  proof -
    consider (stay) "i = p" "n \<in> set (bs ! p)" "unat (node_hash n) mod (2 * m) = p"
      | (move) "i = p + m" "n \<in> set (bs ! p)" "unat (node_hash n) mod (2 * m) \<noteq> p"
      | (other) "i \<noteq> p" "n \<in> set (bs ! i)"
      using n by (auto simp: stay_def move_def split: if_splits)
    then show ?thesis
    proof cases
      case stay
      then show ?thesis using arrangedD(1) [OF a, of p] l in_p bucket_no_next [OF p] by simp
    next
      case move
      then show ?thesis using arrangedD(1) [OF a, of p] l in_p bucket_no_next [OF p]
          mod_double [of "unat (node_hash n)" m] by auto
    next
      case other
      have "unat (node_hash n) mod m \<noteq> p"
        using arrangedD [OF a i other(2)] bucket_no_p [OF p, of "unat (node_hash n)"] other(1) by simp
      then show ?thesis using arrangedD [OF a i other(2)] bucket_no_next [OF p] by simp
    qed
  qed
  have dis: "distinct (map (\<lambda>n. key (data n)) (if i = p then stay else if i = p + m then move else bs ! i))"
    if i: "i < length bs" for i
    using arranged_distinct [OF a] i l by (auto simp: stay_def move_def distinct_map_filter rev_map [symmetric])
  show "arranged hf key (next_p p m) (next_pmax p m) (bs[p + m := move, p := stay])"
    unfolding arranged_def length_list_update
  proof (intro allI impI conjI ballI)
    fix i n assume i: "i < length bs" and n: "n \<in> set (bs[p + m := move, p := stay] ! i)"
    then have n': "n \<in> set (if i = p then stay else if i = p + m then move else bs ! i)" by (simp only: nth)
    show "node_hash n = hf (data n)" using node [OF i n'] ..
    show "bucket_no (next_p p m) (next_pmax p m) (unat (node_hash n)) = i" using node [OF i n'] ..
  next
    fix i assume i: "i < length bs"
    show "distinct (map (\<lambda>n. key (data n)) (bs[p + m := move, p := stay] ! i))"
      using dis [OF i] by (simp only: nth [OF i])
  qed
  have "set stay \<union> set move = set (bs ! p)" by (auto simp: stay_def move_def)
  then show "bucket_items (bs[p + m := move, p := stay]) = bucket_items bs"
    unfolding bucket_items_def using nth e l p
    by (auto split: if_splits) (metis Un_iff add_lessD1 image_eqI less_irrefl list.set(1) empty_iff add.commute)+
  have "length stay + length move = length (bs ! p)"
    unfolding stay_def move_def length_rev by (rule sum_length_filter_compl)
  then show "length (concat (bs[p + m := move, p := stay])) = length (concat bs)"
    using length_concat_update [of "p + m" bs move] length_concat_update [of p "bs[p + m := move]" stay] e l p by simp
qed

lemma arranged_merge:
  assumes a: "arranged hf key (next_p p m) (next_pmax p m) bs" and p: "p < m" and l: "p + m < length bs"
    and k: "\<And>x y. key x = key y \<Longrightarrow> hf x = hf y"
  defines "bs' \<equiv> bs[p + m := [], p := bs ! p @ bs ! (p + m)]"
  shows "arranged hf key p m bs'" and "bucket_items bs' = bucket_items bs"
    and "length (concat bs') = length (concat bs)"
proof -
  have nth: "bs' ! i = (if i = p then bs ! p @ bs ! (p + m) else if i = p + m then [] else bs ! i)"
    if "i < length bs" for i using that p l by (auto simp: bs'_def nth_list_update)
  have len: "length bs' = length bs" by (simp add: bs'_def)
  have old: "bucket_no p m (unat (node_hash n)) = (if i = p + m then p else i)"
    if i: "i < length bs" and n: "n \<in> set (bs ! i)" for i n
  proof -
    have "(if unat (node_hash n) mod m = p then unat (node_hash n) mod (2 * m) else bucket_no p m (unat (node_hash n))) = i"
      using arrangedD [OF a i n] bucket_no_next [OF p] by metis
    then show ?thesis
      using mod_double [of "unat (node_hash n)" m] bucket_no_p [OF p, of "unat (node_hash n)"]
        bucket_no_less [OF p, of "unat (node_hash n)"] p by (auto split: if_splits)
  qed
  have node: "node_hash n = hf (data n) \<and> bucket_no p m (unat (node_hash n)) = i"
    if i: "i < length bs" and n: "n \<in> set (bs' ! i)" for i n
  proof -
    consider "i = p" "n \<in> set (bs ! p)" | "i = p" "n \<in> set (bs ! (p + m))" | "i \<noteq> p + m" "n \<in> set (bs ! i)"
      using n nth [OF i] by (auto split: if_splits)
    then show ?thesis
      using old [of p n] old [of "p + m" n] old [OF i, of n] arrangedD(1) [OF a, of p n]
        arrangedD(1) [OF a, of "p + m" n] arrangedD(1) [OF a i, of n] l p by cases auto
  qed
  have apart: "key (data x) \<noteq> key (data y)" if "x \<in> set (bs ! p)" "y \<in> set (bs ! (p + m))" for x y
    using arrangedD(2) [OF a _ that(1)] arrangedD(2) [OF a l that(2)] k [of "data x" "data y"] l p by auto
  have "distinct (map (\<lambda>n. key (data n)) (bs ! p @ bs ! (p + m)))"
    using apart arranged_distinct [OF a, of p] arranged_distinct [OF a l] l by auto
  then have dis: "distinct (map (\<lambda>n. key (data n)) (bs' ! i))" if i: "i < length bs" for i
    using arranged_distinct [OF a i] nth [OF i] by auto
  show "arranged hf key p m bs'" unfolding arranged_def len using node dis by blast
  have mem: "n \<in> set (bs' ! i) \<Longrightarrow> \<exists>j < length bs. n \<in> set (bs ! j)" if i: "i < length bs" for n i
  proof -
    assume "n \<in> set (bs' ! i)"
    then consider "n \<in> set (bs ! p)" | "n \<in> set (bs ! (p + m))" | "n \<in> set (bs ! i)"
      using nth [OF i] by (auto split: if_splits)
    then show ?thesis using l add_lessD1 [OF l] i by cases blast+
  qed
  have mem': "n \<in> set (bs ! i) \<Longrightarrow> \<exists>j < length bs. n \<in> set (bs' ! j)" if i: "i < length bs" for n i
  proof -
    assume n: "n \<in> set (bs ! i)"
    have pl: "p < length bs" using l by simp
    consider "n \<in> set (bs' ! p)" | "n \<in> set (bs' ! i)"
      using n nth [OF i] nth [OF pl] by (auto split: if_splits)
    then show ?thesis using pl i by cases blast+
  qed
  show "bucket_items bs' = bucket_items bs" unfolding bucket_items_def len using mem mem' by fastforce
  show "length (concat bs') = length (concat bs)"
    using length_concat_update [of "p + m" bs "[]"]
      length_concat_update [of p "bs[p + m := []]" "bs ! p @ bs ! (p + m)"] l p by (simp add: bs'_def)
qed

lemma arranged_take:
  assumes a: "arranged hf key p m bs" and p: "p < m" and k: "p + m \<le> k"
  shows "arranged hf key p m (take k bs @ replicate j [])" and "bucket_items (take k bs @ replicate j []) = bucket_items bs"
    and "length (concat (take k bs @ replicate j [])) = length (concat bs)"
proof -
  have e: "bs ! i = []" if "k \<le> i" "i < length bs" for i using arranged_high [OF a p _ that(2)] k that(1) by simp
  have nth: "(take k bs @ replicate j []) ! i = (if i < min k (length bs) then bs ! i else [])"
    if "i < min k (length bs) + j" for i using that by (auto simp: nth_append)
  show "arranged hf key p m (take k bs @ replicate j [])"
    using a by (auto simp: arranged_def nth_append)
  have "\<forall>x \<in> set (drop k bs). x = []" using e by (auto simp: in_set_conv_nth)
  then have "concat (drop k bs) = []" by (simp add: concat_eq_Nil_conv)
  then have "concat (take k bs) = concat bs" by (metis append_Nil2 append_take_drop_id concat_append)
  moreover have "concat (replicate j []) = []" by (induction j) auto
  ultimately show "length (concat (take k bs @ replicate j [])) = length (concat bs)"
    and "bucket_items (take k bs @ replicate j []) = bucket_items bs" by (simp_all add: bucket_items_concat)
qed

definition lh_struct :: "'a lhash \<Rightarrow> bool" where
  "lh_struct lh \<longleftrightarrow> (\<exists>k. lh_pmax lh = 8 * 2 ^ k) \<and> num_alloc_nodes lh = 2 * lh_pmax lh \<and>
     num_nodes lh = lh_p lh + lh_pmax lh \<and> lh_p lh < lh_pmax lh \<and> num_alloc_nodes lh \<le> length (lh_b lh)"

definition lh_inv :: "('a \<Rightarrow> 'k) \<Rightarrow> 'a lhash \<Rightarrow> bool" where
  "lh_inv key lh \<longleftrightarrow> lh_struct lh \<and> arranged (hash_of lh) key (lh_p lh) (lh_pmax lh) (lh_b lh) \<and>
     num_items lh = length (concat (lh_b lh))"

definition items :: "'a lhash \<Rightarrow> 'a set" where
  "items lh = bucket_items (lh_b lh)"

lemma struct_facts:
  assumes "lh_struct lh"
  shows "lh_p lh < lh_pmax lh" "num_alloc_nodes lh = 2 * lh_pmax lh" "num_nodes lh = lh_p lh + lh_pmax lh"
    "2 * lh_pmax lh \<le> length (lh_b lh)" "\<exists>k. lh_pmax lh = 8 * 2 ^ k"
  using assms by (auto simp: lh_struct_def)

section \<open>Growing and shrinking keep the items\<close>

definition keeps :: "'a lhash \<Rightarrow> 'a lhash \<Rightarrow> bool" where
  "keeps lh lh' \<longleftrightarrow> items lh' = items lh \<and> num_items lh' = num_items lh \<and> hash_of lh' = hash_of lh \<and> same lh' = same lh"

lemma expand_keeps:
  assumes inv: "lh_inv key lh" and e: "expand ok lh = (True, lh')"
  shows "lh_inv key lh' \<and> keeps lh lh'"
proof -
  let ?p = "lh_p lh" and ?m = "lh_pmax lh"
  have s: "lh_struct lh" and a: "arranged (hash_of lh) key ?p ?m (lh_b lh)"
    and ni: "num_items lh = length (concat (lh_b lh))" using inv by (auto simp: lh_inv_def)
  note st = struct_facts [OF s]
  define bs where "bs = (if ?p + 1 \<ge> ?m then take (2 * ?m) (lh_b lh) @ replicate (2 * ?m) [] else lh_b lh)"
  have le: "?p + ?m \<le> 2 * ?m" using st(1) by simp
  have bs: "arranged (hash_of lh) key ?p ?m bs" "bucket_items bs = items lh" "length (concat bs) = num_items lh"
    using arranged_take [OF a st(1) le, of "2 * ?m"] a ni by (auto simp: bs_def items_def)
  have len: "2 * next_pmax ?p ?m \<le> length bs" using st(1,4) by (auto simp: bs_def next_pmax_def)
  have l: "?p + ?m < length bs" using len st(1) by (auto simp: next_pmax_def split: if_splits)
  note sp = arranged_split [OF bs(1) st(1) l]
  let ?n1 = "filter (\<lambda>n. unat (node_hash n) mod (2 * ?m) = ?p) (bs ! ?p)"
  let ?n2 = "rev (filter (\<lambda>n. unat (node_hash n) mod (2 * ?m) \<noteq> ?p) (bs ! ?p))"
  have lh': "lh_b lh' = bs[?p + ?m := ?n2, ?p := ?n1]" "lh_p lh' = next_p ?p ?m" "lh_pmax lh' = next_pmax ?p ?m"
    "num_alloc_nodes lh' = 2 * next_pmax ?p ?m" "num_nodes lh' = num_nodes lh + 1" "num_items lh' = num_items lh"
    "lh_hashw lh' = lh_hashw lh" "lh_hash lh' = lh_hash lh" "lh_compw lh' = lh_compw lh" "lh_comp lh' = lh_comp lh"
    using e st(2) by (auto simp: expand_def Let_def split_bucket_filter bs_def next_p_def next_pmax_def mult.commute
        split: if_splits)
  have hk: "hash_of lh' = hash_of lh" "same lh' = same lh"
    unfolding hash_of_def [abs_def] same_def [abs_def] lh'(7-10) by (rule refl)+
  have "\<exists>k. next_pmax ?p ?m = 8 * 2 ^ k"
    using st(5) by (auto simp: next_pmax_def) (metis power_Suc mult.left_commute)
  moreover have "num_nodes lh' = lh_p lh' + lh_pmax lh'" "lh_p lh' < lh_pmax lh'"
    using st lh' by (auto simp: next_p_def next_pmax_def)
  ultimately have "lh_struct lh'" using len lh' by (simp add: lh_struct_def)
  then show ?thesis using sp bs hk lh' by (simp add: lh_inv_def keeps_def items_def)
qed

lemma contract_keeps:
  assumes inv: "lh_inv key lh" and big: "num_nodes lh > MIN_NODES"
    and k: "\<And>x y. key x = key y \<Longrightarrow> hash_of lh x = hash_of lh y"
  shows "lh_inv key (contract ok lh) \<and> keeps lh (contract ok lh)"
proof -
  let ?p = "lh_p lh" and ?m = "lh_pmax lh"
  have s: "lh_struct lh" and a: "arranged (hash_of lh) key ?p ?m (lh_b lh)"
    and ni: "num_items lh = length (concat (lh_b lh))" using inv by (auto simp: lh_inv_def)
  note st = struct_facts [OF s]
  define q where "q = (if ?p = 0 then ?m div 2 - 1 else ?p - 1)"
  define m where "m = (if ?p = 0 then ?m div 2 else ?m)"
  obtain e where e: "?m = 8 * 2 ^ e" using st(5) by blast
  have e0: "e \<noteq> 0" if "?p = 0" using that big st(3) e by (cases e) auto
  have even: "?m div 2 * 2 = ?m" using e by simp
  have m: "\<exists>e. m = 8 * 2 ^ e"
  proof (cases "?p = 0")
    case True
    then obtain e' where "e = Suc e'" using e0 by (cases e) auto
    then show ?thesis using e True by (auto simp: m_def)
  qed (use e in \<open>auto simp: m_def\<close>)
  then have m8: "8 \<le> m" by auto
  have qm: "q < m" "q + m = ?p + ?m - 1" "next_p q m = ?p" "next_pmax q m = ?m"
    using st(1) even m8 by (cases "?p = 0"; simp add: q_def m_def next_p_def next_pmax_def; fail)+
  have l: "q + m < length (lh_b lh)" using qm(2) st(1,4) m8 by linarith
  let ?bs = "(lh_b lh)[q + m := [], q := lh_b lh ! q @ lh_b lh ! (q + m)]"
  have a': "arranged (hash_of lh) key (next_p q m) (next_pmax q m) (lh_b lh)" using a qm(3,4) by simp
  note mg0 = arranged_merge [OF a' qm(1) l k]
  have mg: "arranged (hash_of lh) key q m ?bs" "bucket_items ?bs = items lh" "length (concat ?bs) = num_items lh"
    using mg0(1) mg0(2,3) ni by (simp_all add: items_def)
  have lt: "q + m \<le> 2 * m" using qm(1) by simp
  note tk = arranged_take [OF mg(1) qm(1) lt, of 0]
  define bs where "bs = (if ?p = 0 \<and> ok then take (2 * m) ?bs else ?bs)"
  have bs: "arranged (hash_of lh) key q m bs" "bucket_items bs = items lh" "length (concat bs) = num_items lh"
    using tk mg by (auto simp: bs_def)
  let ?lh = "contract ok lh"
  have q: "q \<noteq> q + m" "q < 2 * m" using m8 qm(1) by auto
  have i: "?p + ?m - 1 = q + m" using qm(2) by simp
  have nq: "(lh_b lh)[q + m := []] ! q = lh_b lh ! q" using q by simp
  have b: "lh_b ?lh = bs"
  proof (cases "?p = 0")
    case True
    then have "2 * m = ?m" "?m div 2 - 1 = q" using even by (auto simp: m_def q_def)
    then show ?thesis using True i nq q(2)
      by (auto simp: contract_def Let_def bs_def take_update_swap)
  next
    case False
    then have "?p - 1 = q" by (simp add: q_def)
    then show ?thesis using False i nq by (auto simp: contract_def Let_def bs_def)
  qed
  have f: "lh_p ?lh = q" "lh_pmax ?lh = m" "num_alloc_nodes ?lh = 2 * m" "num_nodes ?lh = num_nodes lh - 1"
    "num_items ?lh = num_items lh" "lh_hashw ?lh = lh_hashw lh" "lh_hash ?lh = lh_hash lh"
    "lh_compw ?lh = lh_compw lh" "lh_comp ?lh = lh_comp lh"
    using st(2) even by (auto simp: contract_def Let_def q_def m_def)
  have hk: "hash_of ?lh = hash_of lh" "same ?lh = same lh"
    unfolding hash_of_def [abs_def] same_def [abs_def] f(6-9) by (rule refl)+
  have "2 * m \<le> length bs" using st(1,4) even by (auto simp: bs_def m_def)
  then have "lh_struct ?lh" using m qm st(3) b f by (simp add: lh_struct_def)
  then show ?thesis using bs b f hk by (simp add: lh_inv_def keeps_def items_def)
qed

section \<open>The interface of a table of items with keys\<close>

text \<open>
  What a client relies on: the three operations return the item that had the key before, and act on the table
  as on a map from keys to items.
\<close>

datatype 'a tab_op = Put 'a | Drop 'a | Get 'a

fun run_table :: "('a \<Rightarrow> 't \<Rightarrow> 'a option \<times> 't) \<Rightarrow> ('a \<Rightarrow> 't \<Rightarrow> 'a option \<times> 't) \<Rightarrow> ('a \<Rightarrow> 't \<Rightarrow> 'a option \<times> 't) \<Rightarrow>
    't \<Rightarrow> 'a tab_op list \<Rightarrow> 'a option list \<times> 't" where
  "run_table ins del get t [] = ([], t)"
| "run_table ins del get t (x # xs) =
     (case (case x of Put d \<Rightarrow> ins d t | Drop d \<Rightarrow> del d t | Get d \<Rightarrow> get d t) of (r, t) \<Rightarrow>
        case run_table ins del get t xs of (rs, t) \<Rightarrow> (r # rs, t))"

fun map_after :: "('a \<Rightarrow> 'k) \<Rightarrow> ('k \<rightharpoonup> 'a) \<Rightarrow> 'a tab_op \<Rightarrow> ('k \<rightharpoonup> 'a)" where
  "map_after key m (Put d) = m(key d \<mapsto> d)"
| "map_after key m (Drop d) = m(key d := None)"
| "map_after key m (Get d) = m"

fun op_item :: "'a tab_op \<Rightarrow> 'a" where
  "op_item (Put d) = d" | "op_item (Drop d) = d" | "op_item (Get d) = d"

fun map_results :: "('a \<Rightarrow> 'k) \<Rightarrow> ('k \<rightharpoonup> 'a) \<Rightarrow> 'a tab_op list \<Rightarrow> 'a option list" where
  "map_results key m [] = []"
| "map_results key m (x # xs) = m (key (op_item x)) # map_results key (map_after key m x) xs"

locale keyed_table =
  fixes ins :: "'a \<Rightarrow> 't \<Rightarrow> 'a option \<times> 't" and del :: "'a \<Rightarrow> 't \<Rightarrow> 'a option \<times> 't"
    and get :: "'a \<Rightarrow> 't \<Rightarrow> 'a option \<times> 't" and key :: "'a \<Rightarrow> 'k" and holds :: "'t \<Rightarrow> ('k \<rightharpoonup> 'a) \<Rightarrow> bool"
  assumes ins_holds: "holds t m \<Longrightarrow> \<exists>t'. ins d t = (m (key d), t') \<and> holds t' (m(key d \<mapsto> d))"
    and del_holds: "holds t m \<Longrightarrow> \<exists>t'. del d t = (m (key d), t') \<and> holds t' (m(key d := None))"
    and get_holds: "holds t m \<Longrightarrow> \<exists>t'. get d t = (m (key d), t') \<and> holds t' m"
begin

lemma run_table_results:
  "holds t m \<Longrightarrow> fst (run_table ins del get t xs) = map_results key m xs \<and>
     holds (snd (run_table ins del get t xs)) (foldl (map_after key) m xs)"
proof (induction xs arbitrary: t m)
  case (Cons x xs)
  obtain t1 where "(case x of Put d \<Rightarrow> ins d t | Drop d \<Rightarrow> del d t | Get d \<Rightarrow> get d t) = (m (key (op_item x)), t1)"
    "holds t1 (map_after key m x)"
    using ins_holds [OF Cons.prems] del_holds [OF Cons.prems] get_holds [OF Cons.prems] by (cases x) force+
  then show ?case using Cons.IH [of t1 "map_after key m x"] by (auto split: prod.splits)
qed simp

end

section \<open>The operations\<close>

text \<open>
  The functions of a table are usable with \<open>key\<close> when two items compare equal exactly if they have the same
  key, and items with the same key have the same hash.
\<close>

locale lh_functions =
  fixes hf :: "'a \<Rightarrow> 32 word" and sm :: "'a \<Rightarrow> 'a \<Rightarrow> bool" and key :: "'a \<Rightarrow> 'k"
  assumes same_key: "sm x y \<longleftrightarrow> key x = key y" and hash_key: "key x = key y \<Longrightarrow> hf x = hf y"

definition lh_holds ::
    "('a \<Rightarrow> 32 word) \<Rightarrow> ('a \<Rightarrow> 'a \<Rightarrow> bool) \<Rightarrow> ('a \<Rightarrow> 'k) \<Rightarrow> 'a lhash \<Rightarrow> ('k \<rightharpoonup> 'a) \<Rightarrow> bool" where
  "lh_holds hf sm key lh m \<longleftrightarrow> lh_inv key lh \<and> hash_of lh = hf \<and> same lh = sm \<and>
     (\<forall>d. d \<in> items lh \<longleftrightarrow> m (key d) = Some d) \<and> (\<forall>k d. m k = Some d \<longrightarrow> key d = k)"

lemma lh_holds_keeps:
  "lh_holds hf sm key lh m \<Longrightarrow> lh_inv key lh' \<Longrightarrow> keeps lh lh' \<Longrightarrow> lh_holds hf sm key lh' m"
  by (auto simp: lh_holds_def keeps_def)

lemma hash_of_update [simp]:
  "hash_of (lh\<lparr>lh_error := e\<rparr>) = hash_of lh" "hash_of (lh\<lparr>lh_b := bs, num_items := k\<rparr>) = hash_of lh"
  "hash_of (lh\<lparr>lh_b := bs\<rparr>) = hash_of lh"
  by (rule ext, simp add: hash_of_def split: option.split)+

lemma same_update [simp]:
  "same (lh\<lparr>lh_error := e\<rparr>) = same lh" "same (lh\<lparr>lh_b := bs, num_items := k\<rparr>) = same lh"
  "same (lh\<lparr>lh_b := bs\<rparr>) = same lh"
  by (rule ext, rule ext, simp add: same_def split: option.split)+

lemma lh_holds_error [simp]: "lh_holds hf sm key (lh\<lparr>lh_error := e\<rparr>) m = lh_holds hf sm key lh m"
  by (simp add: lh_holds_def lh_inv_def lh_struct_def items_def)

lemma bucket_items_set:
  assumes a: "arranged hf key p m bs" and i: "i < length bs"
  shows "d \<in> bucket_items (bs[i := xs]) \<longleftrightarrow>
    d \<in> data ` set xs \<or> (d \<in> bucket_items bs \<and> bucket_no p m (unat (hf d)) \<noteq> i)"
proof -
  have "j < length bs \<and> d \<in> data ` set (bs ! j) \<Longrightarrow> bucket_no p m (unat (hf d)) = j" for j
    using arrangedD(2) [OF a] by blast
  then show ?thesis using i by (fastforce simp: bucket_items_def nth_list_update split: if_splits)
qed

lemma bucket_items_at:
  assumes a: "arranged hf key p m bs" and i: "bucket_no p m (unat (hf d)) < length bs"
  shows "d \<in> bucket_items bs \<longleftrightarrow> d \<in> data ` set (bs ! bucket_no p m (unat (hf d)))"
proof -
  have "j < length bs \<Longrightarrow> d \<in> data ` set (bs ! j) \<Longrightarrow> bucket_no p m (unat (hf d)) = j" for j
    using arrangedD(2) [OF a] by blast
  then show ?thesis using i unfolding bucket_items_def mem_Collect_eq by metis
qed

lemma arranged_set:
  assumes a: "arranged hf key p m bs" and d: "distinct (map (\<lambda>n. key (data n)) xs)"
    and x: "\<And>n. n \<in> set xs \<Longrightarrow> node_hash n = hf (data n)"
    and y: "\<And>n. n \<in> set xs \<Longrightarrow> bucket_no p m (unat (hf (data n))) = i"
  shows "arranged hf key p m (bs[i := xs])"
  unfolding arranged_def [of hf key p m "bs[i := xs]"] length_list_update
proof (intro allI impI conjI ballI)
  fix j assume j: "j < length bs"
  have nth: "bs[i := xs] ! j = (if i = j then xs else bs ! j)" using j by (cases "i = j") simp_all
  show "distinct (map (\<lambda>n. key (data n)) (bs[i := xs] ! j))"
    using d arranged_distinct [OF a j] unfolding nth by (cases "i = j") simp_all
  fix n assume "n \<in> set (bs[i := xs] ! j)"
  then consider (new) "i = j" "n \<in> set xs" | (old) "n \<in> set (bs ! j)" unfolding nth by (cases "i = j") simp_all
  then have "node_hash n = hf (data n) \<and> bucket_no p m (unat (hf (data n))) = j"
  proof cases
    case new
    then show ?thesis using x y by blast
  next
    case old
    then show ?thesis using arrangedD [OF a j] by blast
  qed
  then show "node_hash n = hf (data n)" and "bucket_no p m (unat (node_hash n)) = j" by simp_all
qed

context lh_functions
begin

lemma getrn_found:
  assumes h: "lh_holds hf sm key lh m" and g: "getrn lh d = (h, nn, pre, rest)"
  shows "h = hf d" "nn = bucket_no (lh_p lh) (lh_pmax lh) (unat (hf d))" "nn < length (lh_b lh)"
    "lh_b lh ! nn = pre @ rest" "\<forall>n \<in> set pre. key (data n) \<noteq> key d"
    "m (key d) = (case rest of [] \<Rightarrow> None | n # ns \<Rightarrow> Some (data n))"
    "\<forall>n ns. rest = n # ns \<longrightarrow> key (data n) = key d \<and> node_hash n = hf d"
proof -
  have inv: "lh_struct lh" "arranged hf key (lh_p lh) (lh_pmax lh) (lh_b lh)" and f: "hash_of lh = hf" "same lh = sm"
    and it: "\<And>d. d \<in> bucket_items (lh_b lh) \<longleftrightarrow> m (key d) = Some d"
    and mk: "\<And>k d. m k = Some d \<Longrightarrow> key d = k" using h by (auto simp: lh_holds_def lh_inv_def items_def)
  note st = struct_facts [OF inv(1)]
  show hd: "h = hf d" using g f by (auto simp: getrn_def Let_def)
  show nn: "nn = bucket_no (lh_p lh) (lh_pmax lh) (unat (hf d))"
    using g f st(2) by (auto simp: getrn_def Let_def bucket_of_no)
  show l: "nn < length (lh_b lh)" using bucket_no_less [OF st(1)] st(1,4) nn by (metis add_less_cancel_right
        less_le_trans less_trans mult_2)
  have fl: "find_link (\<lambda>n1. node_hash n1 = h \<and> same lh (data n1) d) (lh_b lh ! nn) = (pre, rest)"
    using g by (auto simp: getrn_def Let_def)
  note sp = find_link_split [OF fl]
  show b: "lh_b lh ! nn = pre @ rest" using sp by blast
  have P: "(node_hash n = h \<and> same lh (data n) d) = (key (data n) = key d)" if "n \<in> set (lh_b lh ! nn)" for n
    using arrangedD(1) [OF inv(2) l that] hash_key [of "data n" d] f(2) same_key hd by auto
  show pre: "\<forall>n \<in> set pre. key (data n) \<noteq> key d" using sp P b by auto
  show rest: "\<forall>n ns. rest = n # ns \<longrightarrow> key (data n) = key d \<and> node_hash n = hf d"
    using sp P b hd by (metis in_set_conv_decomp list.sel(1) list.distinct(1))
  show "m (key d) = (case rest of [] \<Rightarrow> None | n # ns \<Rightarrow> Some (data n))"
  proof (cases rest)
    case Nil
    have "m (key d) \<noteq> Some x" for x
    proof
      assume x: "m (key d) = Some x"
      then have "key x = key d" using mk by blast
      moreover from this have "x \<in> data ` set (lh_b lh ! nn)"
        using it [of x] x bucket_items_at [OF inv(2), of x] l nn hash_key [of x d] by auto
      ultimately show False using pre b Nil by auto
    qed
    then show ?thesis using Nil by (cases "m (key d)") auto
  next
    case (Cons n ns)
    then have "data n \<in> bucket_items (lh_b lh)" using b l by (auto simp: bucket_items_def)
    then show ?thesis using it [of "data n"] rest Cons by auto
  qed
qed

lemma holds_set_bucket:
  assumes h: "lh_holds hf sm key lh m" and i: "i < length (lh_b lh)"
    and d: "distinct (map (\<lambda>n. key (data n)) xs)"
    and x: "\<And>n. n \<in> set xs \<Longrightarrow> node_hash n = hf (data n)"
    and y: "\<And>n. n \<in> set xs \<Longrightarrow> bucket_no (lh_p lh) (lh_pmax lh) (unat (hf (data n))) = i"
    and k: "k + length (lh_b lh ! i) = num_items lh + length xs"
    and inside: "\<And>e. bucket_no (lh_p lh) (lh_pmax lh) (unat (hf e)) = i \<Longrightarrow> e \<in> data ` set xs \<longleftrightarrow> m' (key e) = Some e"
    and outside: "\<And>e. bucket_no (lh_p lh) (lh_pmax lh) (unat (hf e)) \<noteq> i \<Longrightarrow> m' (key e) = m (key e)"
    and mk: "\<And>k e. m' k = Some e \<Longrightarrow> key e = k"
  shows "lh_holds hf sm key (lh\<lparr>lh_b := (lh_b lh)[i := xs], num_items := k\<rparr>) m'"
proof -
  have s: "lh_struct lh" and a: "arranged hf key (lh_p lh) (lh_pmax lh) (lh_b lh)" and f: "hash_of lh = hf" "same lh = sm"
    and ni: "num_items lh = length (concat (lh_b lh))"
    and it: "\<And>e. e \<in> bucket_items (lh_b lh) \<longleftrightarrow> m (key e) = Some e"
    using h by (auto simp: lh_holds_def lh_inv_def items_def)
  have "k = length (concat ((lh_b lh)[i := xs]))" using length_concat_update [OF i, of xs] k ni by simp
  moreover have "arranged hf key (lh_p lh) (lh_pmax lh) ((lh_b lh)[i := xs])" by (rule arranged_set [OF a d x y])
  moreover have "lh_struct (lh\<lparr>lh_b := (lh_b lh)[i := xs], num_items := k\<rparr>)" using s by (simp add: lh_struct_def)
  moreover have "e \<in> bucket_items ((lh_b lh)[i := xs]) \<longleftrightarrow> m' (key e) = Some e" for e
  proof (cases "bucket_no (lh_p lh) (lh_pmax lh) (unat (hf e)) = i")
    case True
    then show ?thesis using bucket_items_set [OF a i, of e xs] inside by blast
  next
    case False
    then have "e \<notin> data ` set xs" using y by blast
    then show ?thesis using bucket_items_set [OF a i, of e xs] outside [OF False] it [of e] False by simp
  qed
  ultimately show ?thesis using f mk by (simp add: lh_holds_def lh_inv_def items_def)
qed

lemma bucket_key: "key x = key y \<Longrightarrow> bucket_no p m (unat (hf x)) = bucket_no p m (unat (hf y))"
  using hash_key [of x y] by simp

lemma holds_at:
  assumes h: "lh_holds hf sm key lh m" and g: "getrn lh d = (h, nn, pre, rest)"
  shows "\<And>n. n \<in> set (pre @ rest) \<Longrightarrow> node_hash n = hf (data n)"
    and "\<And>n. n \<in> set (pre @ rest) \<Longrightarrow> bucket_no (lh_p lh) (lh_pmax lh) (unat (hf (data n))) = nn"
    and "distinct (map (\<lambda>n. key (data n)) (pre @ rest))"
    and "\<And>e. bucket_no (lh_p lh) (lh_pmax lh) (unat (hf e)) = nn \<Longrightarrow> e \<in> data ` set (pre @ rest) \<longleftrightarrow> m (key e) = Some e"
    and "\<And>k e. m k = Some e \<Longrightarrow> key e = k"
proof -
  have a: "arranged hf key (lh_p lh) (lh_pmax lh) (lh_b lh)"
    and it: "\<And>e. e \<in> bucket_items (lh_b lh) \<longleftrightarrow> m (key e) = Some e"
    using h by (auto simp: lh_holds_def lh_inv_def items_def)
  note r = getrn_found [OF h g]
  show "\<And>n. n \<in> set (pre @ rest) \<Longrightarrow> node_hash n = hf (data n)"
    and "\<And>n. n \<in> set (pre @ rest) \<Longrightarrow> bucket_no (lh_p lh) (lh_pmax lh) (unat (hf (data n))) = nn"
    using arrangedD [OF a r(3)] r(4) by metis+
  show "distinct (map (\<lambda>n. key (data n)) (pre @ rest))" using arranged_distinct [OF a r(3)] r(4) by simp
  show "e \<in> data ` set (pre @ rest) \<longleftrightarrow> m (key e) = Some e"
    if "bucket_no (lh_p lh) (lh_pmax lh) (unat (hf e)) = nn" for e
    using bucket_items_at [OF a, of e] r(3,4) it [of e] that by simp
  show "\<And>k e. m k = Some e \<Longrightarrow> key e = k" using h by (auto simp: lh_holds_def)
qed

lemma holds_put_new:
  assumes h: "lh_holds hf sm key lh m" and g: "getrn lh d = (h, nn, pre, [])"
  shows "lh_holds hf sm key (lh\<lparr>lh_b := (lh_b lh)[nn := pre @ [\<lparr>data = d, node_hash = h\<rparr>]],
    num_items := num_items lh + 1\<rparr>) (m(key d \<mapsto> d))"
proof -
  note r = getrn_found [OF h g] and at = holds_at [OF h g]
  show ?thesis
  proof (rule holds_set_bucket [OF h r(3)])
    show "distinct (map (\<lambda>n. key (data n)) (pre @ [\<lparr>data = d, node_hash = h\<rparr>]))" using at(3) r(5) by auto
    show "node_hash n = hf (data n)" if "n \<in> set (pre @ [\<lparr>data = d, node_hash = h\<rparr>])" for n
      using that at(1) [of n] r(1) by auto
    show "bucket_no (lh_p lh) (lh_pmax lh) (unat (hf (data n))) = nn"
      if "n \<in> set (pre @ [\<lparr>data = d, node_hash = h\<rparr>])" for n using that at(2) [of n] r(2) by auto
    show "num_items lh + 1 + length (lh_b lh ! nn) = num_items lh + length (pre @ [\<lparr>data = d, node_hash = h\<rparr>])"
      using r(4) by simp
    show "e \<in> data ` set (pre @ [\<lparr>data = d, node_hash = h\<rparr>]) \<longleftrightarrow> (m(key d \<mapsto> d)) (key e) = Some e"
      if "bucket_no (lh_p lh) (lh_pmax lh) (unat (hf e)) = nn" for e
      using at(4) [OF that] r(5,6) by auto
    show "(m(key d \<mapsto> d)) (key e) = m (key e)" if "bucket_no (lh_p lh) (lh_pmax lh) (unat (hf e)) \<noteq> nn" for e
      using that r(2) bucket_key [of e d] by auto
    show "(m(key d \<mapsto> d)) k = Some e \<Longrightarrow> key e = k" for k e using at(5) by (auto split: if_splits)
  qed
qed

lemma holds_replace:
  assumes h: "lh_holds hf sm key lh m" and g: "getrn lh d = (h, nn, pre, n # ns)"
  shows "lh_holds hf sm key (lh\<lparr>lh_b := (lh_b lh)[nn := pre @ n\<lparr>data := d\<rparr> # ns]\<rparr>) (m(key d \<mapsto> d))"
proof -
  note r = getrn_found [OF h g] and at = holds_at [OF h g]
  have n: "key (data n) = key d" "node_hash n = hf d" "m (key d) = Some (data n)" using r(6,7) by auto
  have others: "key (data x) \<noteq> key d" if "x \<in> set pre \<union> set ns" for x using that at(3) n(1) by (auto simp: rev_image_eqI)
  have "lh_holds hf sm key (lh\<lparr>lh_b := (lh_b lh)[nn := pre @ n\<lparr>data := d\<rparr> # ns], num_items := num_items lh\<rparr>)
    (m(key d \<mapsto> d))"
  proof (rule holds_set_bucket [OF h r(3)])
    show "distinct (map (\<lambda>n. key (data n)) (pre @ n\<lparr>data := d\<rparr> # ns))" using at(3) n(1) by simp
    show "node_hash x = hf (data x)" if "x \<in> set (pre @ n\<lparr>data := d\<rparr> # ns)" for x
      using that at(1) [of x] n(2) by auto
    show "bucket_no (lh_p lh) (lh_pmax lh) (unat (hf (data x))) = nn" if "x \<in> set (pre @ n\<lparr>data := d\<rparr> # ns)" for x
      using that at(2) [of x] r(2) by auto
    show "num_items lh + length (lh_b lh ! nn) = num_items lh + length (pre @ n\<lparr>data := d\<rparr> # ns)" using r(4) by simp
    show "e \<in> data ` set (pre @ n\<lparr>data := d\<rparr> # ns) \<longleftrightarrow> (m(key d \<mapsto> d)) (key e) = Some e"
      if "bucket_no (lh_p lh) (lh_pmax lh) (unat (hf e)) = nn" for e
      using at(4) [OF that] others n by auto
    show "(m(key d \<mapsto> d)) (key e) = m (key e)" if "bucket_no (lh_p lh) (lh_pmax lh) (unat (hf e)) \<noteq> nn" for e
      using that r(2) bucket_key [of e d] by auto
    show "(m(key d \<mapsto> d)) k = Some e \<Longrightarrow> key e = k" for k e using at(5) by (auto split: if_splits)
  qed
  then show ?thesis by simp
qed

lemma holds_drop:
  assumes h: "lh_holds hf sm key lh m" and g: "getrn lh d = (h, nn, pre, n # ns)"
  shows "lh_holds hf sm key (lh\<lparr>lh_b := (lh_b lh)[nn := pre @ ns], num_items := num_items lh - 1\<rparr>) (m(key d := None))"
proof -
  note r = getrn_found [OF h g] and at = holds_at [OF h g]
  have n: "key (data n) = key d" "m (key d) = Some (data n)" using r(6,7) by auto
  have others: "key (data x) \<noteq> key d" if "x \<in> set pre \<union> set ns" for x using that at(3) n(1) by (auto simp: rev_image_eqI)
  have pos: "length (lh_b lh ! nn) \<le> num_items lh"
  proof -
    have "lh_b lh ! nn \<in> set (lh_b lh)" using r(3) by simp
    then have "length (lh_b lh ! nn) \<le> sum_list (map length (lh_b lh))" by (intro member_le_sum_list) simp_all
    then show ?thesis using h by (simp add: lh_holds_def lh_inv_def length_concat)
  qed
  show ?thesis
  proof (rule holds_set_bucket [OF h r(3)])
    show "distinct (map (\<lambda>n. key (data n)) (pre @ ns))" using at(3) by simp
    show "node_hash x = hf (data x)" if "x \<in> set (pre @ ns)" for x using that at(1) [of x] by auto
    show "bucket_no (lh_p lh) (lh_pmax lh) (unat (hf (data x))) = nn" if "x \<in> set (pre @ ns)" for x
      using that at(2) [of x] by auto
    show "num_items lh - 1 + length (lh_b lh ! nn) = num_items lh + length (pre @ ns)" using r(4) pos by simp
    show "e \<in> data ` set (pre @ ns) \<longleftrightarrow> (m(key d := None)) (key e) = Some e"
      if "bucket_no (lh_p lh) (lh_pmax lh) (unat (hf e)) = nn" for e
      using at(4) [OF that] others n by auto
    show "(m(key d := None)) (key e) = m (key e)" if "bucket_no (lh_p lh) (lh_pmax lh) (unat (hf e)) \<noteq> nn" for e
      using that r(2) bucket_key [of e d] by auto
    show "(m(key d := None)) k = Some e \<Longrightarrow> key e = k" for k e using at(5) by (auto split: if_splits)
  qed
qed

lemma insert_holds:
  assumes h: "lh_holds hf sm key lh m" and i: "OPENSSL_LH_insert rok mok d lh = (r, lh')"
  shows "r = m (key d) \<and> lh_holds hf sm key lh' (m(key d \<mapsto> d)) \<and> lh_error lh' = 0 \<or>
    r = None \<and> lh_holds hf sm key lh' m \<and> lh_error lh' = 1 \<and> \<not> (rok \<and> mok)"
proof -
  let ?lh = "lh\<lparr>lh_error := 0\<rparr>"
  obtain grown lh1 where e: "(if up_load ?lh \<le> load ?lh then expand rok ?lh else (True, ?lh)) = (grown, lh1)" by force
  show ?thesis
  proof (cases grown)
    case False
    then have "expand rok ?lh = (False, lh1)" using e by (auto split: if_splits)
    then have "lh1 = ?lh\<lparr>lh_error := 1\<rparr>" "\<not> rok" by (auto simp: expand_def Let_def split: if_splits prod.splits)
    moreover have "r = None" "lh' = lh1" using i e False by (auto simp: OPENSSL_LH_insert_def Let_def)
    ultimately show ?thesis using h by simp
  next
    case True
    have h0: "lh_holds hf sm key ?lh m" using h by simp
    have h1: "lh_holds hf sm key lh1 m" and er: "lh_error lh1 = 0"
    proof -
      have "lh1 = ?lh \<or> expand rok ?lh = (True, lh1)" using e True by (auto split: if_splits)
      then show "lh_holds hf sm key lh1 m"
        using h0 expand_keeps [of key ?lh rok lh1] lh_holds_keeps [OF h0] by (auto simp: lh_holds_def)
      show "lh_error lh1 = 0" using e True
        by (auto simp: expand_def Let_def split: if_splits prod.splits)
    qed
    obtain hh nn pre rest where g: "getrn lh1 d = (hh, nn, pre, rest)" using prod_cases4 by blast
    show ?thesis
    proof (cases rest)
      case Nil
      then have "r = None \<and> m (key d) = None" using getrn_found(6) [OF h1 g] i e True g
        by (auto simp: OPENSSL_LH_insert_def Let_def split: if_splits)
      then show ?thesis using i e True g Nil h1 er holds_put_new [OF h1 g [unfolded Nil]]
        by (auto simp: OPENSSL_LH_insert_def Let_def split: if_splits)
    next
      case (Cons n ns)
      then show ?thesis using i e True g er getrn_found(6) [OF h1 g] holds_replace [OF h1 g [unfolded Cons]]
        by (auto simp: OPENSSL_LH_insert_def Let_def)
    qed
  qed
qed

lemma delete_holds:
  assumes h: "lh_holds hf sm key lh m"
  shows "\<exists>lh'. OPENSSL_LH_delete rok d lh = (m (key d), lh') \<and> lh_holds hf sm key lh' (m(key d := None))"
proof -
  let ?lh = "lh\<lparr>lh_error := 0\<rparr>"
  have h0: "lh_holds hf sm key ?lh m" using h by simp
  obtain hh nn pre rest where g: "getrn ?lh d = (hh, nn, pre, rest)" using prod_cases4 by blast
  note r = getrn_found(6) [OF h0 g]
  show ?thesis
  proof (cases rest)
    case Nil
    then have "m (key d) = None" using r by simp
    then have "m(key d := None) = m" by auto
    then show ?thesis using Nil g h \<open>m (key d) = None\<close> by (simp add: OPENSSL_LH_delete_def Let_def)
  next
    case (Cons n ns)
    let ?lh1 = "?lh\<lparr>lh_b := (lh_b ?lh)[nn := pre @ ns], num_items := num_items ?lh - 1\<rparr>"
    have h1: "lh_holds hf sm key ?lh1 (m(key d := None))" by (rule holds_drop [OF h0 g [unfolded Cons]])
    have hf1: "hash_of ?lh1 = hf" using h1 unfolding lh_holds_def by blast
    have hk: "key x = key y \<Longrightarrow> hash_of ?lh1 x = hash_of ?lh1 y" for x y unfolding hf1 by (rule hash_key)
    have "lh_holds hf sm key (contract rok ?lh1) (m(key d := None))" if "num_nodes ?lh1 > MIN_NODES"
    proof -
      have "lh_inv key ?lh1" using h1 unfolding lh_holds_def by blast
      from contract_keeps [where ok = rok, OF this that hk] show ?thesis using lh_holds_keeps [OF h1] by blast
    qed
    then show ?thesis using Cons g r h1 by (auto simp: OPENSSL_LH_delete_def Let_def)
  qed
qed

lemma retrieve_holds:
  assumes h: "lh_holds hf sm key lh m"
  shows "\<exists>lh'. OPENSSL_LH_retrieve d lh = (m (key d), lh') \<and> lh_holds hf sm key lh' m"
proof -
  let ?lh = "if lh_error lh \<noteq> 0 then lh\<lparr>lh_error := 0\<rparr> else lh"
  have h0: "lh_holds hf sm key ?lh m" using h by simp
  obtain hh nn pre rest where g: "getrn ?lh d = (hh, nn, pre, rest)" using prod_cases4 by blast
  show ?thesis using getrn_found(6) [OF h0 g] g h0 by (auto simp: OPENSSL_LH_retrieve_def Let_def)
qed

lemma new_holds:
  assumes "OPENSSL_LH_new True True h c = Some lh" and "hash_of lh = hf" and "same lh = sm"
  shows "lh_holds hf sm key lh Map.empty"
proof -
  have "lh_struct lh" using assms(1) by (auto simp: OPENSSL_LH_new_def lh_struct_def intro: exI [of _ 0])
  moreover have "lh_b lh = replicate 16 []" "num_items lh = 0" using assms(1) by (auto simp: OPENSSL_LH_new_def)
  ultimately show ?thesis
    using assms(2,3) by (simp add: lh_holds_def lh_inv_def items_def bucket_items_def arranged_def)
qed

end

sublocale lh_functions \<subseteq> keyed_table "OPENSSL_LH_insert True True" "OPENSSL_LH_delete rok" OPENSSL_LH_retrieve key
    "lh_holds hf sm key" for rok
proof
  fix t m d assume h: "lh_holds hf sm key t m"
  obtain r t' where "OPENSSL_LH_insert True True d t = (r, t')" by force
  then show "\<exists>t'. OPENSSL_LH_insert True True d t = (m (key d), t') \<and> lh_holds hf sm key t' (m(key d \<mapsto> d))"
    using insert_holds [OF h, of True True d r t'] by auto
qed (use delete_holds retrieve_holds in auto)

context lh_functions
begin

lemma lhash_results:
  "lh_holds hf sm key lh m \<Longrightarrow>
   fst (run_table (OPENSSL_LH_insert True True) (OPENSSL_LH_delete rok) OPENSSL_LH_retrieve lh xs) = map_results key m xs"
  using run_table_results by blast

end

section \<open>Counting and visiting\<close>

lemma length_items:
  assumes a: "arranged hf key p m bs"
  shows "length (concat bs) = card (bucket_items bs)"
proof -
  let ?D = "\<lambda>i. data ` set (bs ! i)"
  have c: "card (?D i) = length (bs ! i)" if "i < length bs" for i
  proof -
    have "distinct (map data (bs ! i))"
      using arranged_distinct [OF a that] by (auto simp: distinct_map inj_on_def)
    then show ?thesis using distinct_card [of "map data (bs ! i)"] by simp
  qed
  have disj: "\<forall>i \<in> {0..<length bs}. \<forall>j \<in> {0..<length bs}. i \<noteq> j \<longrightarrow> ?D i \<inter> ?D j = {}"
    using arrangedD(2) [OF a] by (auto simp: disjoint_iff) metis
  have "bucket_items bs = (\<Union>i \<in> {0..<length bs}. ?D i)" by (auto simp: bucket_items_def)
  then have "card (bucket_items bs) = (\<Sum>i \<in> {0..<length bs}. card (?D i))"
    using card_UN_disjoint [OF _ _ disj] by simp
  also have "\<dots> = (\<Sum>i \<in> {0..<length bs}. length (bs ! i))" using c by simp
  also have "\<dots> = length (concat bs)" by (simp add: length_concat sum_list_sum_nth)
  finally show ?thesis by simp
qed

lemma doall_bucket_fold: "doall_bucket func ns st = fold func (map data ns) st"
  by (induction ns arbitrary: st) auto

lemma doall_loop_fold:
  "k \<le> length bs \<Longrightarrow> doall_loop func bs k st = fold func (map data (concat (rev (take k bs)))) st"
  by (induction k arbitrary: st) (simp_all add: doall_bucket_fold take_Suc_conv_app_nth)

lemma holds_items:
  assumes "lh_holds hf sm key lh m"
  shows "items lh = ran m" and "num_items lh = card (dom m)"
proof -
  show r: "items lh = ran m" using assms by (auto simp: lh_holds_def ran_def)
  have "bij_betw key (ran m) (dom m)"
    using assms by (auto simp: lh_holds_def ran_def bij_betw_def inj_on_def image_iff)
  then have "card (ran m) = card (dom m)" by (rule bij_betw_same_card)
  then show "num_items lh = card (dom m)"
    using assms r length_items [of "hash_of lh" key "lh_p lh" "lh_pmax lh" "lh_b lh"]
    by (auto simp: lh_holds_def lh_inv_def items_def)
qed

lemma doall_visits:
  assumes h: "lh_holds hf sm key lh m"
  shows "\<exists>ds. distinct ds \<and> set ds = ran m \<and> (\<forall>func st. OPENSSL_LH_doall_arg lh func st = fold func ds st)"
proof -
  have s: "lh_struct lh" and a: "arranged hf key (lh_p lh) (lh_pmax lh) (lh_b lh)"
    and n: "num_items lh = length (concat (lh_b lh))" using h by (auto simp: lh_holds_def lh_inv_def)
  note st = struct_facts [OF s]
  have le: "num_nodes lh \<le> length (lh_b lh)" using st(1,3,4) by simp
  let ?bs = "take (num_nodes lh) (lh_b lh)"
  have "bucket_items ?bs = items lh" and len: "length (concat ?bs) = num_items lh"
    using arranged_take [OF a st(1), of "num_nodes lh" 0] st(3) n by (simp_all add: items_def)
  then have set: "data ` set (concat ?bs) = ran m" using holds_items(1) [OF h] by (simp add: bucket_items_concat)
  let ?ds = "map data (concat (rev ?bs))"
  have sds: "set ?ds = ran m" using set by simp
  have lds: "length ?ds = num_items lh" using len by (simp add: length_concat rev_map [symmetric])
  have "card (set ?ds) = length ?ds"
    using sds lds length_items [OF a] n holds_items(1) [OF h] by (simp add: items_def)
  then have "distinct ?ds" by (rule card_distinct)
  then show ?thesis using sds lds
    by (intro exI [of _ ?ds] conjI allI) (simp_all add: OPENSSL_LH_doall_arg_def doall_loop_fold [OF le])
qed

text \<open>Freeing a table frees every node once, and a traversal through a thunk is one with the function that the thunk makes.\<close>
lemma free_releases_all:
  assumes h: "lh_holds hf sm key lh m"
  shows "distinct (map data (OPENSSL_LH_free (Some lh)))" and "set (map data (OPENSSL_LH_free (Some lh))) = ran m"
proof -
  let ?bs = "take (num_nodes lh) (lh_b lh)"
  have "num_nodes lh \<le> length (lh_b lh)" using h struct_facts [of lh] by (simp add: lh_holds_def lh_inv_def)
  note fold = doall_loop_fold [OF this, of Cons "[]"]
  obtain ds where ds: "distinct ds" "set ds = ran m" "OPENSSL_LH_doall_arg lh Cons [] = rev ds"
    using doall_visits [OF h] by (metis fold_Cons_rev append_Nil2)
  then have "ds = map data (concat (rev ?bs))"
    using fold by (simp add: OPENSSL_LH_doall_arg_def fold_Cons_rev flip: rev_map)
  then have l: "length (map data (concat ?bs)) = length ds" and s: "set (map data (concat ?bs)) = set ds"
    by (simp_all add: length_concat rev_map [symmetric])
  then show "set (map data (OPENSSL_LH_free (Some lh))) = ran m" using ds(2) by (simp add: OPENSSL_LH_free_def)
  show "distinct (map data (OPENSSL_LH_free (Some lh)))"
    using l s distinct_card [OF ds(1)] by (intro card_distinct) (simp add: OPENSSL_LH_free_def)
qed

lemma doall_thunks:
  "OPENSSL_LH_doall_arg_thunk (Some lh) daaw fn = OPENSSL_LH_doall_arg lh (daaw fn)"
  "OPENSSL_LH_doall daw (Some lh) func = OPENSSL_LH_doall_arg lh (daw func)"
  by (rule ext, simp add: OPENSSL_LH_doall_arg_thunk_def OPENSSL_LH_doall_def OPENSSL_LH_doall_arg_def doall_util_fn_def)+

section \<open>The default functions\<close>

text \<open>With \<open>NULL\<close> for both functions a table of strings uses \<open>OPENSSL_LH_strhash\<close> and \<open>strcmp\<close>.\<close>

interpretation str_table: lh_functions OPENSSL_LH_strhash "\<lambda>x y. strcmp_c x y = 0" "\<lambda>s. s"
  by unfold_locales (simp_all add: strcmp_c_eq_0)

lemma new_functions:
  assumes "OPENSSL_LH_new a b h c = Some lh"
  shows "hash_of lh = h" and "same lh = (\<lambda>x y. c x y = 0)"
  using assms by (auto simp: OPENSSL_LH_new_def hash_of_def [abs_def] same_def [abs_def] split: if_splits)

text \<open>
  C20: a hash table is a map. For any hash and comparison functions that agree with a notion of key, every
  sequence of \<open>OPENSSL_LH_insert\<close>, \<open>OPENSSL_LH_delete\<close> and \<open>OPENSSL_LH_retrieve\<close> on a new table returns, call by
  call, what the map from keys to items returns, through all the expansions and contractions of
  the table that the sequence causes; whether the shrinking \<open>realloc\<close> succeeds makes no difference.
\<close>
theorem lhash_is_map:
  assumes "\<And>x y. c x y = 0 \<longleftrightarrow> key x = key y" and "\<And>x y. key x = key y \<Longrightarrow> h x = h y"
    and "OPENSSL_LH_new True True h c = Some lh"
  shows "fst (run_table (OPENSSL_LH_insert True True) (OPENSSL_LH_delete rok) OPENSSL_LH_retrieve lh xs) =
    map_results key Map.empty xs"
proof -
  have l: "lh_functions h (\<lambda>x y. c x y = 0) key" by (rule lh_functions.intro [OF assms(1,2)])
  have "lh_holds h (\<lambda>x y. c x y = 0) key lh Map.empty"
    by (rule lh_functions.new_holds [OF l assms(3) new_functions [OF assms(3)]])
  then show ?thesis by (rule lh_functions.lhash_results [OF l])
qed

theorem lhash_is_map_witness:
  "fst (run_table (OPENSSL_LH_insert True True) (OPENSSL_LH_delete False) OPENSSL_LH_retrieve
     (the (OPENSSL_LH_new True True OPENSSL_LH_strhash strcmp_c))
     [Put ''cert'', Get ''cert'', Get ''key'', Drop ''cert'', Get ''cert''])
   = [None, Some ''cert'', None, Some ''cert'', None]"
proof -
  have "OPENSSL_LH_new True True OPENSSL_LH_strhash strcmp_c
      = Some (the (OPENSSL_LH_new True True OPENSSL_LH_strhash strcmp_c))" by (simp add: OPENSSL_LH_new_def)
  from lhash_is_map [of strcmp_c "\<lambda>s. s" OPENSSL_LH_strhash, OF _ _ this] show ?thesis
    by (simp add: strcmp_c_eq_0 del: run_table.simps)
qed

text \<open>
  An insertion when memory may be short, and the items of a table. An insertion either stores the item,
  with no error, or returns \<open>NULL\<close> with an error count of 1 and the contents unchanged, which happens only
  if an allocation failed; the item count of the result is the number of keys; and
  \<open>OPENSSL_LH_doall_arg\<close> passes every item of it to the function exactly once.
\<close>
lemma lhash_insert_outcome:
  assumes "lh_functions hf sm key" and "lh_holds hf sm key lh m"
    and "OPENSSL_LH_insert realloc_ok malloc_ok d lh = (r, lh')"
  shows "\<exists>m'. (r = m (key d) \<and> lh_error lh' = 0 \<and> m' = m(key d \<mapsto> d) \<or>
      r = None \<and> lh_error lh' = 1 \<and> m' = m \<and> \<not> (realloc_ok \<and> malloc_ok)) \<and>
    lh_holds hf sm key lh' m' \<and> num_items lh' = card (dom m') \<and>
    (\<exists>ds. distinct ds \<and> set ds = ran m' \<and> (\<forall>func st. OPENSSL_LH_doall_arg lh' func st = fold func ds st))"
proof -
  have "\<exists>m'. (r = m (key d) \<and> lh_error lh' = 0 \<and> m' = m(key d \<mapsto> d) \<or>
      r = None \<and> lh_error lh' = 1 \<and> m' = m \<and> \<not> (realloc_ok \<and> malloc_ok)) \<and> lh_holds hf sm key lh' m'"
    using lh_functions.insert_holds [OF assms] by (elim disjE conjE) simp_all
  then obtain m' where c: "r = m (key d) \<and> lh_error lh' = 0 \<and> m' = m(key d \<mapsto> d) \<or>
      r = None \<and> lh_error lh' = 1 \<and> m' = m \<and> \<not> (realloc_ok \<and> malloc_ok)" and h: "lh_holds hf sm key lh' m'"
    by (elim exE conjE)
  show ?thesis by (intro exI [of _ m'] conjI c h holds_items(2) [OF h] doall_visits [OF h])
qed

section \<open>String hashes\<close>

text \<open>\<open>ossl_lh_strcasehash\<close> does not look at bit 5 of a character, which tells the case of a letter.\<close>

lemma strcasehash_loop_ignores_case:
  "list_all2 (\<lambda>c d. NOT 0x20 AND char_val c = NOT 0x20 AND char_val d) s t \<Longrightarrow>
   strcasehash_loop n s ret = strcasehash_loop n t ret"
proof (induction s arbitrary: t n ret)
  case (Cons c s)
  then show ?case by (cases t) simp_all
qed simp

lemma strcasehash_ignores_case:
  "list_all2 (\<lambda>c d. NOT 0x20 AND char_val c = NOT 0x20 AND char_val d) s t \<Longrightarrow>
   ossl_lh_strcasehash s = ossl_lh_strcasehash t"
  using strcasehash_loop_ignores_case [of s t "0x100" 0] list_all2_lengthD [of _ s t]
  by (cases "s = []") (auto simp: ossl_lh_strcasehash_def)

end
