(* ===== verification/Block_Modes.thy ===== *)
theory Block_Modes
  imports TP_Prelude
begin

unbundle bit_operations_syntax

text \<open>
  The block cipher modes of the vendored OpenSSL, \<open>crypto/modes\<close>: CBC (\<open>cbc128.c\<close>), CFB (\<open>cfb128.c\<close>), OFB
  (\<open>ofb128.c\<close>) and CTR (\<open>ctr128.c\<close>). A buffer is the list of its bytes. The argument \<open>block\<close> is the block
  function with its key, \<open>(*block) (in, out, key)\<close>. Loops that combine a whole block word by word are given
  byte by byte: an exclusive or of words is the exclusive or of their bytes.
\<close>

type_synonym byte = "8 word"
type_synonym block_fn = "byte list \<Rightarrow> byte list"

section \<open>CBC\<close>

function cbc_encrypt_full :: "block_fn \<Rightarrow> byte list \<Rightarrow> byte list \<Rightarrow> byte list \<times> byte list \<times> byte list" where
  \<comment> \<open>\<open>while (len >= 16)\<close>: the output, the value of \<open>iv\<close> and the rest of the input\<close>
  "cbc_encrypt_full block inp iv =
     (if length inp \<ge> 16
      then let out = block (map2 (XOR) (take 16 inp) iv)
           in (case cbc_encrypt_full block (drop 16 inp) out of (outs, iv, rest) \<Rightarrow> (out @ outs, iv, rest))
      else ([], iv, inp))"
  by pat_completeness auto
termination
  by (relation "measure (\<lambda>(block, inp, iv). length inp)") auto

function cbc_encrypt_tail :: "block_fn \<Rightarrow> byte list \<Rightarrow> byte list \<Rightarrow> byte list \<times> byte list" where
  \<comment> \<open>\<open>while (len)\<close>: the bytes that are missing from a last block are taken from \<open>iv\<close>\<close>
  "cbc_encrypt_tail block inp iv =
     (if inp = [] then ([], iv)
      else let out = block (map2 (XOR) (take 16 inp) iv @ drop (length inp) iv)
           in if length inp \<le> 16 then (out, out)
              else (case cbc_encrypt_tail block (drop 16 inp) out of (outs, iv) \<Rightarrow> (out @ outs, iv)))"
  by pat_completeness auto
termination
  by (relation "measure (\<lambda>(block, inp, iv). length inp)") auto

declare cbc_encrypt_full.simps [simp del] cbc_encrypt_tail.simps [simp del]

definition CRYPTO_cbc128_encrypt :: "block_fn \<Rightarrow> byte list \<Rightarrow> byte list \<Rightarrow> byte list \<times> byte list" where
  \<comment> \<open>the output and the new \<open>ivec\<close>\<close>
  "CRYPTO_cbc128_encrypt block inp ivec =
     (if inp = [] then ([], ivec)
      else case cbc_encrypt_full block inp ivec of (outs, iv, rest) \<Rightarrow>
           case cbc_encrypt_tail block rest iv of (outs2, iv) \<Rightarrow> (outs @ outs2, iv))"

fun cbc_decrypt_full :: "block_fn \<Rightarrow> byte list \<Rightarrow> nat \<Rightarrow> byte list \<Rightarrow> byte list \<times> byte list" where
  \<comment> \<open>\<open>k\<close> whole blocks; \<open>iv\<close> is the preceding block of the input, in the two variants of the loop\<close>
  "cbc_decrypt_full block inp 0 iv = ([], iv)"
| "cbc_decrypt_full block inp (Suc k) iv =
     (let out = map2 (XOR) (block (take 16 inp)) iv
      in (case cbc_decrypt_full block (drop 16 inp) k (take 16 inp) of (outs, iv) \<Rightarrow> (out @ outs, iv)))"

function cbc_decrypt_tail :: "block_fn \<Rightarrow> byte list \<Rightarrow> nat \<Rightarrow> byte list \<Rightarrow> byte list \<times> byte list" where
  \<comment> \<open>\<open>while (len)\<close>: the last block is read whole, but only \<open>len\<close> bytes are written\<close>
  "cbc_decrypt_tail block inp len ivec =
     (if len = 0 then ([], ivec)
      else let out = take len (map2 (XOR) (block (take 16 inp)) ivec); ivec = take 16 inp
           in if len \<le> 16 then (out, ivec)
              else (case cbc_decrypt_tail block (drop 16 inp) (len - 16) ivec of (outs, iv) \<Rightarrow> (out @ outs, iv)))"
  by pat_completeness auto
termination
  by (relation "measure (\<lambda>(block, inp, len, ivec). len)") auto

declare cbc_decrypt_tail.simps [simp del]

definition CRYPTO_cbc128_decrypt :: "block_fn \<Rightarrow> byte list \<Rightarrow> nat \<Rightarrow> byte list \<Rightarrow> byte list \<times> byte list" where
  \<comment> \<open>\<open>inp\<close> is the input buffer, which holds whole blocks, and \<open>len\<close> the number of bytes to decrypt\<close>
  "CRYPTO_cbc128_decrypt block inp len ivec =
     (if len = 0 then ([], ivec)
      else case cbc_decrypt_full block inp (len div 16) ivec of (outs, ivec) \<Rightarrow>
           case cbc_decrypt_tail block (drop (16 * (len div 16)) inp) (len mod 16) ivec of (outs2, ivec) \<Rightarrow>
           (outs @ outs2, ivec))"

section \<open>The byte loop and the block loop of the stream modes\<close>

text \<open>
  CFB, OFB and CTR share the control structure of their loops. A mode is given by what it does to refill
  the block of key stream and by what it does to one byte at position \<open>n\<close> of the block.
\<close>

record stream =
  ivec :: "byte list"
  ecount_buf :: "byte list"

type_synonym refill = "stream \<Rightarrow> stream"
type_synonym byte_step = "nat \<Rightarrow> stream \<Rightarrow> byte \<Rightarrow> byte \<times> stream"

fun byte_loop :: "refill \<Rightarrow> byte_step \<Rightarrow> stream \<Rightarrow> nat \<Rightarrow> byte list \<Rightarrow> byte list \<times> stream \<times> nat" where
  \<comment> \<open>\<open>while (l < len) { if (n == 0) ...; ...; n = (n + 1) % 16; }\<close>\<close>
  "byte_loop refill step s n [] = ([], s, n)"
| "byte_loop refill step s n (x # xs) =
     (let s = (if n = 0 then refill s else s)
      in (case step n s x of (y, s) \<Rightarrow>
          case byte_loop refill step s ((n + 1) mod 16) xs of (ys, s, n) \<Rightarrow> (y # ys, s, n)))"

fun lead_loop :: "byte_step \<Rightarrow> stream \<Rightarrow> nat \<Rightarrow> byte list \<Rightarrow> byte list \<times> stream \<times> nat \<times> byte list" where
  \<comment> \<open>\<open>while (n && len)\<close>\<close>
  "lead_loop step s n [] = ([], s, n, [])"
| "lead_loop step s n (x # xs) =
     (if n = 0 then ([], s, n, x # xs)
      else case step n s x of (y, s) \<Rightarrow>
           case lead_loop step s ((n + 1) mod 16) xs of (ys, s, n, rest) \<Rightarrow> (y # ys, s, n, rest))"

fun block_bytes :: "byte_step \<Rightarrow> stream \<Rightarrow> nat \<Rightarrow> byte list \<Rightarrow> byte list \<times> stream \<times> nat" where
  \<comment> \<open>the bytes of one block, or of the last part: \<open>++n\<close> without a wrap\<close>
  "block_bytes step s n [] = ([], s, n)"
| "block_bytes step s n (x # xs) =
     (case step n s x of (y, s) \<Rightarrow> case block_bytes step s (n + 1) xs of (ys, s, n) \<Rightarrow> (y # ys, s, n))"

function block_loop :: "refill \<Rightarrow> byte_step \<Rightarrow> stream \<Rightarrow> byte list \<Rightarrow> byte list \<times> stream \<times> byte list" where
  \<comment> \<open>\<open>while (len >= 16)\<close>, with \<open>n = 0\<close>\<close>
  "block_loop refill step s xs =
     (if length xs \<ge> 16
      then (case block_bytes step (refill s) 0 (take 16 xs) of (ys, s, n) \<Rightarrow>
            case block_loop refill step s (drop 16 xs) of (zs, s, rest) \<Rightarrow> (ys @ zs, s, rest))
      else ([], s, xs))"
  by pat_completeness auto
termination
  by (relation "measure (\<lambda>(refill, step, s, xs). length xs)") auto

declare block_loop.simps [simp del]

definition stream_loop :: "refill \<Rightarrow> byte_step \<Rightarrow> stream \<Rightarrow> nat \<Rightarrow> byte list \<Rightarrow> byte list \<times> stream \<times> nat" where
  \<comment> \<open>the three parts of the loop that works on whole blocks\<close>
  "stream_loop refill step s n xs =
     (case lead_loop step s n xs of (ys1, s, n, rest) \<Rightarrow>
      case (if length rest \<ge> 16 then (case block_loop refill step s rest of (ys, s, rest) \<Rightarrow> (ys, s, 0, rest))
            else ([], s, n, rest)) of (ys2, s, n, rest) \<Rightarrow>
      case (if rest \<noteq> [] then block_bytes step (refill s) n rest else ([], s, n)) of (ys3, s, n) \<Rightarrow>
      (ys1 @ ys2 @ ys3, s, n))"

section \<open>CFB, OFB and CTR\<close>

definition ecb_refill :: "block_fn \<Rightarrow> refill" where
  \<comment> \<open>\<open>(*block) (ivec, ivec, key)\<close>\<close>
  "ecb_refill block s = s\<lparr>ivec := block (ivec s)\<rparr>"

definition ofb_step :: byte_step where
  "ofb_step n s x = (x XOR ivec s ! n, s)"

definition cfb_enc_step :: byte_step where
  "cfb_enc_step n s x = (let c = ivec s ! n XOR x in (c, s\<lparr>ivec := (ivec s)[n := c]\<rparr>))"

definition cfb_dec_step :: byte_step where
  "cfb_dec_step n s x = (ivec s ! n XOR x, s\<lparr>ivec := (ivec s)[n := x]\<rparr>)"

definition CRYPTO_ofb128_encrypt :: "block_fn \<Rightarrow> stream \<Rightarrow> int \<Rightarrow> byte list \<Rightarrow> byte list \<times> stream \<times> int" where
  \<comment> \<open>the output, the state and \<open>*num\<close>; a negative \<open>*num\<close> is refused\<close>
  "CRYPTO_ofb128_encrypt block s num inp =
     (if num < 0 then ([], s, - 1)
      else case stream_loop (ecb_refill block) ofb_step s (nat num) inp of (out, s, n) \<Rightarrow> (out, s, int n))"

definition CRYPTO_cfb128_encrypt ::
    "block_fn \<Rightarrow> bool \<Rightarrow> stream \<Rightarrow> int \<Rightarrow> byte list \<Rightarrow> byte list \<times> stream \<times> int" where
  "CRYPTO_cfb128_encrypt block enc s num inp =
     (if num < 0 then ([], s, - 1)
      else case stream_loop (ecb_refill block) (if enc then cfb_enc_step else cfb_dec_step) s (nat num) inp of
             (out, s, n) \<Rightarrow> (out, s, int n))"

fun inc_loop :: "byte list \<Rightarrow> 32 word \<Rightarrow> byte list" where
  \<comment> \<open>from the last byte to the first, with the carry \<open>c\<close>\<close>
  "inc_loop [] c = []"
| "inc_loop (b # bs) c = (let c = c + ucast b in ucast c # inc_loop bs (drop_bit 8 c))"

definition ctr128_inc :: "byte list \<Rightarrow> byte list" where
  "ctr128_inc counter = rev (inc_loop (rev counter) 1)"

definition ctr_refill :: "block_fn \<Rightarrow> refill" where
  "ctr_refill block s = s\<lparr>ecount_buf := block (ivec s), ivec := ctr128_inc (ivec s)\<rparr>"

definition ctr_step :: byte_step where
  "ctr_step n s x = (x XOR ecount_buf s ! n, s)"

definition CRYPTO_ctr128_encrypt :: "block_fn \<Rightarrow> stream \<Rightarrow> nat \<Rightarrow> byte list \<Rightarrow> byte list \<times> stream \<times> nat" where
  "CRYPTO_ctr128_encrypt block s num inp = stream_loop (ctr_refill block) ctr_step s num inp"

section \<open>The block loop is the byte loop\<close>

lemma byte_loop_append:
  "byte_loop refill step s n (xs @ ys) =
    (case byte_loop refill step s n xs of (us, s, n) \<Rightarrow> case byte_loop refill step s n ys of (vs, s, n) \<Rightarrow> (us @ vs, s, n))"
  by (induction xs arbitrary: s n) (auto simp: Let_def split: prod.splits)

lemma block_bytes_n: "block_bytes step s n xs = (ys, s', n') \<Longrightarrow> n' = n + length xs"
  by (induction xs arbitrary: s n ys) (fastforce split: prod.splits)+

lemma byte_loop_inside:
  "0 < n \<Longrightarrow> n + length xs \<le> 16 \<Longrightarrow>
   byte_loop refill step s n xs = (case block_bytes step s n xs of (ys, s, m) \<Rightarrow> (ys, s, if xs = [] then n else m mod 16))"
proof (induction xs arbitrary: s n)
  case (Cons x xs)
  show ?case
  proof (cases xs)
    case Nil
    then show ?thesis using Cons.prems by (auto split: prod.splits)
  next
    case (Cons z zs)
    then have "(n + 1) mod 16 = n + 1" "0 < n + 1" "n + 1 + length xs \<le> 16" using Cons.prems by auto
    then show ?thesis using Cons.prems Cons.IH [of "n + 1"] Cons by (auto split: prod.splits)
  qed
qed simp

lemma byte_loop_block:
  assumes "xs \<noteq> []" and "length xs \<le> 16"
  shows "byte_loop refill step s 0 xs = (case block_bytes step (refill s) 0 xs of (ys, s, m) \<Rightarrow> (ys, s, m mod 16))"
proof -
  obtain x zs where xs: "xs = x # zs" using assms(1) by (cases xs) auto
  then have l: "1 + length zs \<le> 16" using assms(2) by simp
  show ?thesis using byte_loop_inside [of 1 zs refill step] l by (auto simp: xs split: prod.splits)
qed

lemma lead_loop_bytes:
  "lead_loop step s n xs = (ys, s1, n1, rest) \<Longrightarrow> n < 16 \<Longrightarrow>
   byte_loop refill step s n xs = (case byte_loop refill step s1 n1 rest of (zs, s, n) \<Rightarrow> (ys @ zs, s, n)) \<and>
   (rest \<noteq> [] \<longrightarrow> n1 = 0) \<and> n1 < 16"
proof (induction xs arbitrary: s n ys)
  case (Cons x xs)
  show ?case
  proof (cases "n = 0")
    case True
    then show ?thesis using Cons.prems by (auto split: prod.splits)
  next
    case False
    obtain y s2 where y: "step n s x = (y, s2)" by force
    obtain ys2 where l: "lead_loop step s2 ((n + 1) mod 16) xs = (ys2, s1, n1, rest)" "ys = y # ys2"
      using Cons.prems(1) False y by (auto split: prod.splits)
    then show ?thesis using Cons.IH [OF l(1)] False y by (auto split: prod.splits)
  qed
qed auto

lemma block_loop_bytes:
  "block_loop refill step s xs = (ys, s1, rest) \<Longrightarrow>
   byte_loop refill step s 0 xs = (case byte_loop refill step s1 0 rest of (zs, s, n) \<Rightarrow> (ys @ zs, s, n)) \<and> length rest < 16"
proof (induction refill step s xs arbitrary: ys rule: block_loop.induct)
  case (1 refill step s xs)
  show ?case
  proof (cases "length xs \<ge> 16")
    case False
    then show ?thesis using 1(2) by (subst (asm) block_loop.simps) (auto split: prod.splits)
  next
    case True
    obtain us s2 m where b: "block_bytes step (refill s) 0 (take 16 xs) = (us, s2, m)" using prod_cases3 by blast
    obtain zs where z: "block_loop refill step s2 (drop 16 xs) = (zs, s1, rest)" "ys = us @ zs"
      using 1(2) True b by (subst (asm) block_loop.simps) (auto split: prod.splits)
    have ih: "byte_loop refill step s2 0 (drop 16 xs) = (case byte_loop refill step s1 0 rest of (ws, s, n) \<Rightarrow> (zs @ ws, s, n))"
      "length rest < 16" using 1(1) [OF True b [symmetric] refl z(1)] by auto
    have m: "m = 16" using block_bytes_n [OF b] True by simp
    have "take 16 xs \<noteq> []" using True by auto
    then have "byte_loop refill step s 0 (take 16 xs) = (us, s2, 0)"
      using byte_loop_block [of "take 16 xs" refill step s] b m by simp
    then have "byte_loop refill step s 0 (take 16 xs @ drop 16 xs) =
        (case byte_loop refill step s1 0 rest of (ws, s, n) \<Rightarrow> (us @ zs @ ws, s, n))"
      unfolding byte_loop_append using ih(1) by (auto split: prod.splits)
    then show ?thesis using ih(2) z(2) by simp
  qed
qed

lemma stream_loop_bytes:
  assumes "n < 16"
  shows "stream_loop refill step s n xs = byte_loop refill step s n xs"
proof -
  obtain ys1 s1 n1 r1 where l: "lead_loop step s n xs = (ys1, s1, n1, r1)" using prod_cases4 by blast
  note lead = lead_loop_bytes [OF l assms, of refill]
  obtain ys2 s2 r2 where b: "block_loop refill step s1 r1 = (ys2, s2, r2)" using prod_cases3 by blast
  note blk = block_loop_bytes [OF b]
  have small: "ys2 = [] \<and> s2 = s1 \<and> r2 = r1" if "length r1 < 16"
    using b that by (subst (asm) block_loop.simps) auto
  have last: "byte_loop refill step s2 0 r2 =
      (if r2 \<noteq> [] then block_bytes step (refill s2) 0 r2 else ([], s2, 0))"
  proof (cases "r2 = []")
    case False
    obtain zs s3 m where z: "block_bytes step (refill s2) 0 r2 = (zs, s3, m)" using prod_cases3 by blast
    then have "m < 16" using block_bytes_n [OF z] blk by simp
    then show ?thesis using byte_loop_block [OF False, of refill step s2] blk False z by simp
  qed simp
  show ?thesis
  proof (cases "length r1 \<ge> 16")
    case True
    then have "n1 = 0" using lead by auto
    then show ?thesis using lead blk last True l b by (auto simp: stream_loop_def split: prod.splits if_splits)
  next
    case False
    then have sm: "ys2 = []" "s2 = s1" "r2 = r1" using small by auto
    show ?thesis
    proof (cases "r1 = []")
      case True
      then show ?thesis using lead l by (simp add: stream_loop_def)
    next
      case nonempty: False
      then have "n1 = 0" using lead by auto
      then show ?thesis using lead last False l sm nonempty by (auto simp: stream_loop_def split: prod.splits)
    qed
  qed
qed

section \<open>Round trips of the stream modes\<close>

text \<open>Two steps are inverse when the second recovers the byte and both leave the same state.\<close>

locale step_pair =
  fixes enc :: byte_step and dec :: byte_step
  assumes step_inverse: "enc n s x = (y, s') \<Longrightarrow> dec n s y = (x, s')"
begin

lemma byte_loop_inverse:
  "byte_loop refill enc s n xs = (ys, s', n') \<Longrightarrow> byte_loop refill dec s n ys = (xs, s', n')"
proof (induction xs arbitrary: s n ys)
  case (Cons x xs)
  let ?s = "if n = 0 then refill s else s"
  obtain y s1 where y: "enc n ?s x = (y, s1)" by force
  obtain zs where z: "byte_loop refill enc s1 ((n + 1) mod 16) xs = (zs, s', n')" "ys = y # zs"
    using Cons.prems y by (auto simp: Let_def split: prod.splits)
  show ?case using Cons.IH [OF z(1)] z(2) step_inverse [OF y] by (simp add: Let_def)
qed simp

lemma stream_loop_inverse:
  "n < 16 \<Longrightarrow> stream_loop refill enc s n xs = (ys, s', n') \<Longrightarrow> stream_loop refill dec s n ys = (xs, s', n')"
  by (simp add: stream_loop_bytes byte_loop_inverse)

end

interpretation ofb: step_pair ofb_step ofb_step
  by unfold_locales (auto simp: ofb_step_def xor.assoc)

interpretation cfb: step_pair cfb_enc_step cfb_dec_step
  by unfold_locales (auto simp: cfb_enc_step_def cfb_dec_step_def Let_def xor.assoc [symmetric])

interpretation ctr: step_pair ctr_step ctr_step
  by unfold_locales (auto simp: ctr_step_def xor.assoc)

text \<open>
  The stream modes decrypt what they encrypt. From the same state and position, for CFB, OFB and CTR
  with any block function and any input, the second call returns the original bytes and ends in the
  state and position of the first.
\<close>
lemma stream_modes_roundtrip:
  assumes "0 \<le> num" and "num < 16"
  shows "(case CRYPTO_cfb128_encrypt block True s num xs of (ys, s', n') \<Rightarrow>
      CRYPTO_cfb128_encrypt block False s num ys = (xs, s', n')) \<and>
    (case CRYPTO_ofb128_encrypt block s num xs of (ys, s', n') \<Rightarrow> CRYPTO_ofb128_encrypt block s num ys = (xs, s', n')) \<and>
    (case CRYPTO_ctr128_encrypt block s (nat num) xs of (ys, s', n') \<Rightarrow>
      CRYPTO_ctr128_encrypt block s (nat num) ys = (xs, s', n'))"
proof -
  have n: "nat num < 16" "\<not> num < 0" using assms by auto
  obtain y1 s1 n1 where 1: "stream_loop (ecb_refill block) cfb_enc_step s (nat num) xs = (y1, s1, n1)"
    using prod_cases3 by blast
  obtain y2 s2 n2 where 2: "stream_loop (ecb_refill block) ofb_step s (nat num) xs = (y2, s2, n2)"
    using prod_cases3 by blast
  obtain y3 s3 n3 where 3: "stream_loop (ctr_refill block) ctr_step s (nat num) xs = (y3, s3, n3)"
    using prod_cases3 by blast
  show ?thesis
    using n(2) 1 2 3 cfb.stream_loop_inverse [OF n(1) 1] ofb.stream_loop_inverse [OF n(1) 2]
      ctr.stream_loop_inverse [OF n(1) 3]
    by (simp add: CRYPTO_cfb128_encrypt_def CRYPTO_ofb128_encrypt_def CRYPTO_ctr128_encrypt_def)
qed

lemma byte_loop_n: "n < 16 \<Longrightarrow> byte_loop refill step s n xs = (ys, s', n') \<Longrightarrow> n' < 16"
proof (induction xs arbitrary: s n ys)
  case (Cons x xs)
  let ?s = "if n = 0 then refill s else s"
  obtain y s1 where y: "step n ?s x = (y, s1)" by force
  obtain zs where z: "byte_loop refill step s1 ((n + 1) mod 16) xs = (zs, s', n')"
    using Cons.prems(2) y by (auto simp: Let_def split: prod.splits)
  show ?case using Cons.IH [OF _ z] by simp
qed simp

lemma stream_loop_append:
  "n < 16 \<Longrightarrow> stream_loop refill step s n (xs @ ys) =
    (case stream_loop refill step s n xs of (us, s, n) \<Rightarrow> case stream_loop refill step s n ys of (vs, s, n) \<Rightarrow> (us @ vs, s, n))"
  by (auto simp: stream_loop_bytes byte_loop_append byte_loop_n split: prod.splits)

text \<open>
  The position \<open>*num\<close> makes the stream modes independent of how the data is cut: a call on \<open>xs @ ys\<close> gives the
  output, the state and the position of a call on \<open>xs\<close> followed by a call on \<open>ys\<close>, although each call
  works on whole blocks where it can.
\<close>
lemma stream_modes_chunked:
  assumes "0 \<le> num" and "num < 16"
  shows "CRYPTO_cfb128_encrypt block enc s num (xs @ ys) =
      (case CRYPTO_cfb128_encrypt block enc s num xs of (us, s1, n1) \<Rightarrow>
       case CRYPTO_cfb128_encrypt block enc s1 n1 ys of (vs, s2, n2) \<Rightarrow> (us @ vs, s2, n2)) \<and>
    CRYPTO_ctr128_encrypt block s (nat num) (xs @ ys) =
      (case CRYPTO_ctr128_encrypt block s (nat num) xs of (us, s1, n1) \<Rightarrow>
       case CRYPTO_ctr128_encrypt block s1 n1 ys of (vs, s2, n2) \<Rightarrow> (us @ vs, s2, n2))"
proof -
  have n: "nat num < 16" "\<not> num < 0" using assms by auto
  show ?thesis using n
    by (auto simp: CRYPTO_cfb128_encrypt_def CRYPTO_ctr128_encrypt_def stream_loop_append split: prod.splits)
qed

section \<open>The counter\<close>

fun le_val :: "byte list \<Rightarrow> nat" where
  "le_val [] = 0"
| "le_val (b # bs) = unat b + 256 * le_val bs"

definition be_val :: "byte list \<Rightarrow> nat" where
  "be_val bs = le_val (rev bs)"

lemma unat_byte_less: "unat (b :: byte) < 256"
  using unsigned_less [of b, where 'a = nat] by simp

lemma le_val_less: "le_val bs < 256 ^ length bs"
proof (induction bs)
  case (Cons b bs)
  have "unat b < 256" by (rule unat_byte_less)
  then show ?case using Cons by simp
qed simp

lemma length_inc_loop [simp]: "length (inc_loop bs c) = length bs"
  by (induction bs arbitrary: c) (auto simp: Let_def)

lemma carry_parts:
  fixes c :: "32 word" and b :: byte
  assumes "unat c \<le> 1"
  shows "unat (ucast (c + ucast b) :: byte) = (unat c + unat b) mod 256"
    and "unat (drop_bit 8 (c + ucast b) :: 32 word) = (unat c + unat b) div 256"
proof -
  have b: "unat b < 256" by (rule unat_byte_less)
  have s: "unat (c + ucast b) = unat c + unat b"
    using b assms by (simp add: unat_word_ariths unsigned_ucast_eq take_bit_nat_eq_self)
  show "unat (ucast (c + ucast b) :: byte) = (unat c + unat b) mod 256"
    using s by (simp add: unsigned_ucast_eq take_bit_eq_mod)
  show "unat (drop_bit 8 (c + ucast b) :: 32 word) = (unat c + unat b) div 256"
    using s by (simp add: drop_bit_eq_div unat_div_distrib)
qed

lemma mod_digit: "x < 256 \<Longrightarrow> x + 256 * (y mod N) = (x + 256 * y) mod (256 * N)" for x y N :: nat
  using mod_mult2_eq [of "x + 256 * y" 256 N] by simp

lemma le_val_inc_loop:
  "unat c \<le> 1 \<Longrightarrow> le_val (inc_loop bs c) = (le_val bs + unat c) mod 256 ^ length bs"
proof (induction bs arbitrary: c)
  case (Cons b bs)
  have b: "unat b < 256" by (rule unat_byte_less)
  let ?t = "unat c + unat b"
  have d: "?t div 256 \<le> 1" using b Cons.prems by simp
  have "le_val (inc_loop (b # bs) c) = ?t mod 256 + 256 * ((le_val bs + ?t div 256) mod 256 ^ length bs)"
    using Cons.IH [of "drop_bit 8 (c + ucast b)"] carry_parts [OF Cons.prems, of b] d by (simp add: Let_def)
  also have "\<dots> = (?t mod 256 + 256 * (le_val bs + ?t div 256)) mod (256 * 256 ^ length bs)"
    by (rule mod_digit) simp
  also have "?t mod 256 + 256 * (le_val bs + ?t div 256) = le_val (b # bs) + unat c" by simp
  finally show ?case by simp
qed simp

text \<open>
  \<open>ctr128_inc\<close> adds one to the 128-bit number that the counter holds, most significant byte first, and
  wraps to zero after the largest.
\<close>
lemma ctr128_inc_adds_one:
  assumes "length counter = 16"
  shows "length (ctr128_inc counter) = 16 \<and> be_val (ctr128_inc counter) = (be_val counter + 1) mod 2 ^ 128"
proof -
  have "(256 :: nat) ^ 16 = 2 ^ 128" by simp
  then show ?thesis
    using assms le_val_inc_loop [of 1 "rev counter"] by (simp add: ctr128_inc_def be_val_def del: power_numeral)
qed

section \<open>CBC\<close>

lemma xor_cancel:
  fixes xs ys :: "byte list"
  shows "length xs \<le> length ys \<Longrightarrow> map2 (XOR) (map2 (XOR) xs ys) ys = xs"
proof (induction xs arbitrary: ys)
  case (Cons x xs)
  then show ?case by (cases ys) (simp_all add: xor.assoc)
qed simp

definition block_sized :: "block_fn \<Rightarrow> bool" where
  "block_sized block \<longleftrightarrow> (\<forall>b. length b = 16 \<longrightarrow> length (block b) = 16)"

locale block_cipher =
  fixes enc :: block_fn and dec :: block_fn
  assumes enc_length: "length b = 16 \<Longrightarrow> length (enc b) = 16"
    and dec_enc: "length b = 16 \<Longrightarrow> dec (enc b) = b"
begin

lemma cbc_full_inverse:
  "cbc_encrypt_full enc p iv = (c, iv', rest) \<Longrightarrow> length iv = 16 \<Longrightarrow>
   length c = 16 * (length p div 16) \<and> rest = drop (16 * (length p div 16)) p \<and> length iv' = 16 \<and>
   cbc_decrypt_full dec (c @ more_in) (length p div 16) iv = (take (16 * (length p div 16)) p, iv')"
proof (induction "length p div 16" arbitrary: p iv c)
  case 0
  then have "\<not> length p \<ge> 16" by auto
  then show ?case using 0 by (subst (asm) cbc_encrypt_full.simps) auto
next
  case (Suc k)
  have p: "length p \<ge> 16" using Suc.hyps(2) by (metis Suc_neq_Zero div_less not_le)
  have k: "k = length (drop 16 p) div 16" using Suc.hyps(2) by simp
  let ?x = "map2 (XOR) (take 16 p) iv" and ?o = "enc (map2 (XOR) (take 16 p) iv)"
  have o: "length ?o = 16" "dec ?o = ?x" using p Suc.prems(2) enc_length [of ?x] dec_enc [of ?x] by auto
  obtain c2 where c2: "cbc_encrypt_full enc (drop 16 p) ?o = (c2, iv', rest)" "c = ?o @ c2"
    using Suc.prems(1) p by (subst (asm) cbc_encrypt_full.simps) (auto simp: Let_def split: prod.splits)
  note ih = Suc.hyps(1) [OF k c2(1) o(1), folded k]
  have d: "length p div 16 = Suc k" using Suc.hyps(2) by simp
  have "map2 (XOR) (dec ?o) iv = take 16 p" using o(2) xor_cancel [of "take 16 p" iv] Suc.prems(2) by simp
  then have "cbc_decrypt_full dec (c @ more_in) (Suc k) iv = (take (16 * Suc k) p, iv')"
    using ih o(1) c2(2) by (simp add: Let_def take_add [symmetric] add.commute)
  then show ?case using ih o(1) c2(2) unfolding d by (simp add: add.commute)
qed

lemma cbc_tail_inverse:
  assumes e: "cbc_encrypt_tail enc p iv = (c, iv')" and iv: "length iv = 16" and p: "length p < 16"
  shows "cbc_decrypt_tail dec c (length p) iv = (p, iv')"
proof (cases "p = []")
  case True
  then show ?thesis using e by (subst (asm) cbc_encrypt_tail.simps, subst cbc_decrypt_tail.simps) simp
next
  case False
  let ?x = "map2 (XOR) p iv @ drop (length p) iv"
  have c: "c = enc ?x" "iv' = enc ?x"
    using e False p by (subst (asm) cbc_encrypt_tail.simps, simp add: Let_def)+
  have l: "length ?x = 16" using iv p by simp
  have "take (length p) (map2 (XOR) ?x iv) = map2 (XOR) (map2 (XOR) p iv) iv"
    using zip_append1 [of "map2 (XOR) p iv" "[]" iv] iv p by (simp add: zip_append1)
  also have "\<dots> = p" using xor_cancel [of p iv] iv p by simp
  finally show ?thesis using False p c l enc_length dec_enc
    by (subst cbc_decrypt_tail.simps) (simp add: Let_def)
qed

lemma cbc_inverse:
  assumes iv: "length iv = 16" and e: "CRYPTO_cbc128_encrypt enc p iv = (c, iv')"
  shows "CRYPTO_cbc128_decrypt dec c (length p) iv = (p, iv')"
proof (cases "p = []")
  case True
  then show ?thesis using e by (simp add: CRYPTO_cbc128_encrypt_def CRYPTO_cbc128_decrypt_def)
next
  case False
  obtain c1 iv1 rest where f: "cbc_encrypt_full enc p iv = (c1, iv1, rest)" using prod_cases3 by blast
  obtain c2 iv2 where t: "cbc_encrypt_tail enc rest iv1 = (c2, iv2)" by force
  have c: "c = c1 @ c2" "iv' = iv2" using e f t False by (auto simp: CRYPTO_cbc128_encrypt_def)
  note full = cbc_full_inverse [OF f iv, of c2]
  have r: "length rest = length p mod 16" using full by (simp add: minus_mult_div_eq_mod)
  then have "cbc_decrypt_tail dec c2 (length p mod 16) iv1 = (rest, iv2)"
    using cbc_tail_inverse [OF t] full by simp
  then show ?thesis using full c False by (simp add: CRYPTO_cbc128_decrypt_def)
qed

end

end
