(* ===== verification/Key_Wrap.thy ===== *)
theory Key_Wrap
  imports Block_Modes
begin

unbundle bit_operations_syntax

text \<open>
  Key wrapping of the vendored OpenSSL, \<open>crypto/modes/wrap128.c\<close>: the algorithms of RFC 3394
  (\<open>CRYPTO_128_wrap\<close>, \<open>CRYPTO_128_unwrap\<close>) and RFC 5649 with padding (\<open>CRYPTO_128_wrap_pad\<close>,
  \<open>CRYPTO_128_unwrap_pad\<close>), for a 128-bit block function. Where the source returns 0 a wrap returns \<open>None\<close>, and
  an unwrap returns \<open>Inl k\<close>, where \<open>k\<close> bytes of the output buffer have been cleansed. The output buffer
  from the second half-block on is the list of the 8-byte halves that the pointer \<open>R\<close> visits.
\<close>

definition default_iv :: "byte list" where
  "default_iv = [0xA6, 0xA6, 0xA6, 0xA6, 0xA6, 0xA6, 0xA6, 0xA6]"

definition default_aiv :: "byte list" where
  "default_aiv = [0xA6, 0x59, 0x59, 0xA6]"

abbreviation CRYPTO128_WRAP_MAX :: nat where "CRYPTO128_WRAP_MAX \<equiv> 2 ^ 31"

function halves :: "byte list \<Rightarrow> byte list list" where
  "halves bs = (if bs = [] then [] else take 8 bs # halves (drop 8 bs))"
  by pat_completeness auto
termination
  by (relation "measure length") auto

declare halves.simps [simp del]

definition xor_counter :: "nat \<Rightarrow> byte list \<Rightarrow> byte list" where
  \<comment> \<open>the exclusive or of \<open>t\<close> into the last bytes of \<open>A\<close>\<close>
  "xor_counter t A =
     (let A = A[7 := A ! 7 XOR of_nat t]
      in if t > 0xff
         then A[6 := A ! 6 XOR of_nat (t div 2 ^ 8), 5 := A ! 5 XOR of_nat (t div 2 ^ 16),
                4 := A ! 4 XOR of_nat (t div 2 ^ 24)]
         else A)"

fun wrap_row :: "block_fn \<Rightarrow> nat \<Rightarrow> byte list \<Rightarrow> byte list list \<Rightarrow> byte list \<times> byte list list \<times> nat" where
  \<comment> \<open>the inner loop over the halves; \<open>B\<close> is \<open>A\<close> followed by the half\<close>
  "wrap_row block t A [] = (A, [], t)"
| "wrap_row block t A (R # Rs) =
     (let B = block (A @ R); A = xor_counter t (take 8 B)
      in (case wrap_row block (t + 1) A Rs of (A, Rs, t) \<Rightarrow> (A, drop 8 B # Rs, t)))"

fun wrap_rows :: "nat \<Rightarrow> block_fn \<Rightarrow> nat \<Rightarrow> byte list \<Rightarrow> byte list list \<Rightarrow> byte list \<times> byte list list" where
  "wrap_rows 0 block t A Rs = (A, Rs)"
| "wrap_rows (Suc j) block t A Rs = (case wrap_row block t A Rs of (A, Rs, t) \<Rightarrow> wrap_rows j block t A Rs)"

definition CRYPTO_128_wrap :: "block_fn \<Rightarrow> byte list option \<Rightarrow> byte list \<Rightarrow> byte list option" where
  "CRYPTO_128_wrap block iv inp =
     (let inlen = length inp
      in if inlen mod 8 \<noteq> 0 \<or> inlen < 16 \<or> inlen > CRYPTO128_WRAP_MAX then None
         else let iv = (case iv of None \<Rightarrow> default_iv | Some iv \<Rightarrow> iv)
              in (case wrap_rows 6 block 1 (take 8 iv) (halves inp) of (A, Rs) \<Rightarrow> Some (A @ concat Rs)))"

fun unwrap_row :: "block_fn \<Rightarrow> nat \<Rightarrow> byte list \<Rightarrow> byte list list \<Rightarrow> byte list \<times> byte list list \<times> nat" where
  \<comment> \<open>from the last half to the first: the halves are in reverse order\<close>
  "unwrap_row block t A [] = (A, [], t)"
| "unwrap_row block t A (R # Rs) =
     (let B = block (xor_counter t A @ R)
      in (case unwrap_row block (t - 1) (take 8 B) Rs of (A, Rs, t) \<Rightarrow> (A, drop 8 B # Rs, t)))"

fun unwrap_rows :: "nat \<Rightarrow> block_fn \<Rightarrow> nat \<Rightarrow> byte list \<Rightarrow> byte list list \<Rightarrow> byte list \<times> byte list list" where
  "unwrap_rows 0 block t A Rs = (A, Rs)"
| "unwrap_rows (Suc j) block t A Rs =
     (case unwrap_row block t A (rev Rs) of (A, Rs, t) \<Rightarrow> unwrap_rows j block t A (rev Rs))"

definition crypto_128_unwrap_raw :: "block_fn \<Rightarrow> byte list \<Rightarrow> (byte list \<times> byte list) option" where
  \<comment> \<open>the initial value found and the plain text; \<open>inlen -= 8\<close> wraps below 8\<close>
  "crypto_128_unwrap_raw block inp =
     (let inlen = unat (of_nat (length inp) - 8 :: 32 word)
      in if inlen mod 8 \<noteq> 0 \<or> inlen < 16 \<or> inlen > CRYPTO128_WRAP_MAX then None
         else (case unwrap_rows 6 block (6 * (inlen div 8)) (take 8 inp) (halves (take inlen (drop 8 inp))) of
                 (A, Rs) \<Rightarrow> Some (A, concat Rs)))"

definition CRYPTO_128_unwrap :: "block_fn \<Rightarrow> byte list option \<Rightarrow> byte list \<Rightarrow> nat + byte list" where
  "CRYPTO_128_unwrap block iv inp =
     (case crypto_128_unwrap_raw block inp of
        None \<Rightarrow> Inl 0
      | Some (got_iv, out) \<Rightarrow>
          let iv = (case iv of None \<Rightarrow> default_iv | Some iv \<Rightarrow> iv)
          in if got_iv \<noteq> take 8 iv then Inl (length out) else Inr out)"

definition make_aiv :: "byte list option \<Rightarrow> nat \<Rightarrow> byte list" where
  "make_aiv icv inlen =
     (case icv of None \<Rightarrow> default_aiv | Some icv \<Rightarrow> take 4 icv) @
     [of_nat (inlen div 2 ^ 24), of_nat (inlen div 2 ^ 16), of_nat (inlen div 2 ^ 8), of_nat inlen]"

definition CRYPTO_128_wrap_pad :: "block_fn \<Rightarrow> byte list option \<Rightarrow> byte list \<Rightarrow> byte list option" where
  "CRYPTO_128_wrap_pad block icv inp =
     (let inlen = length inp; padded_len = (inlen + 7) div 8 * 8; padding_len = padded_len - inlen
      in if inlen = 0 \<or> inlen \<ge> CRYPTO128_WRAP_MAX then None
         else let aiv = make_aiv icv inlen
              in if padded_len = 8 then Some (block (aiv @ inp @ replicate padding_len 0))
                 else CRYPTO_128_wrap block (Some aiv) (inp @ replicate padding_len 0))"

definition aiv_length :: "byte list \<Rightarrow> nat" where
  "aiv_length aiv =
     unat (push_bit 24 (ucast (aiv ! 4)) OR push_bit 16 (ucast (aiv ! 5)) OR push_bit 8 (ucast (aiv ! 6))
           OR ucast (aiv ! 7) :: 32 word)"

definition check_pad :: "byte list option \<Rightarrow> nat \<Rightarrow> byte list \<Rightarrow> byte list \<Rightarrow> nat + byte list" where
  \<comment> \<open>the checks of \<open>CRYPTO_128_unwrap_pad\<close> on the initial value and the padded text\<close>
  "check_pad icv inlen aiv out =
     (let n = inlen div 8 - 1; padded_len = length out
      in if take 4 aiv \<noteq> (case icv of None \<Rightarrow> default_aiv | Some icv \<Rightarrow> take 4 icv) then Inl inlen
         else let ptext_len = aiv_length aiv
              in if 8 * (n - 1) \<ge> ptext_len \<or> ptext_len > 8 * n then Inl inlen
                 else if drop ptext_len out \<noteq> replicate (padded_len - ptext_len) 0 then Inl inlen
                 else Inr (take ptext_len out))"

definition CRYPTO_128_unwrap_pad :: "block_fn \<Rightarrow> byte list option \<Rightarrow> byte list \<Rightarrow> nat + byte list" where
  "CRYPTO_128_unwrap_pad block icv inp =
     (let inlen = length inp
      in if inlen mod 8 \<noteq> 0 \<or> inlen < 16 \<or> inlen \<ge> CRYPTO128_WRAP_MAX then Inl 0
         else if inlen = 16 then (let buff = block inp in check_pad icv inlen (take 8 buff) (drop 8 buff))
         else (case crypto_128_unwrap_raw block inp of
                 None \<Rightarrow> Inl inlen
               | Some (aiv, out) \<Rightarrow> if inlen - 8 \<noteq> length out then Inl inlen else check_pad icv inlen aiv out))"

section \<open>Halves\<close>

lemma halves_Nil [simp]: "halves [] = []"
  by (simp add: halves.simps)

lemma halves_step: "bs \<noteq> [] \<Longrightarrow> halves bs = take 8 bs # halves (drop 8 bs)"
  by (simp add: halves.simps)

lemma concat_halves [simp]: "concat (halves bs) = bs"
proof (induction bs rule: halves.induct)
  case (1 bs)
  then show ?case by (cases "bs = []") (simp_all add: halves_step)
qed

lemma halves_length: "length bs mod 8 = 0 \<Longrightarrow> (\<forall>h \<in> set (halves bs). length h = 8) \<and> length (halves bs) = length bs div 8"
proof (induction bs rule: halves.induct)
  case (1 bs)
  show ?case
  proof (cases "bs = []")
    case False
    then have l: "8 \<le> length bs" using "1.prems" by (metis dvd_imp_le length_greater_0_conv mod_0_imp_dvd)
    have "8 dvd length bs - 8" using "1.prems" by (metis dvd_diff_nat dvd_refl mod_0_imp_dvd)
    then have "length (drop 8 bs) mod 8 = 0" by simp
    note ih = "1.IH" [OF False this]
    have d: "length bs div 8 = Suc (length (drop 8 bs) div 8)" using le_div_geq [of 8 "length bs"] l by simp
    have h: "halves bs = take 8 bs # halves (drop 8 bs)" by (rule halves_step [OF False])
    then have "length (halves bs) = length bs div 8" using ih d by (simp only: list.size)
    moreover have "set (halves bs) = insert (take 8 bs) (set (halves (drop 8 bs)))" by (simp only: h list.set)
    moreover have "length (take 8 bs) = 8" using l by (simp only: length_take min_absorb2)
    moreover note conjunct1 [OF ih]
    ultimately show ?thesis by (simp only: ball_simps simp_thms)
  qed simp
qed

lemma halves_concat: "\<forall>h \<in> set hs. length h = 8 \<Longrightarrow> halves (concat hs) = hs"
proof (induction hs)
  case (Cons h hs)
  then have "h @ concat hs \<noteq> []" by auto
  then show ?case using Cons by (simp add: halves_step)
qed simp

lemma concat_length_8: "\<forall>h \<in> set hs. length h = 8 \<Longrightarrow> length (concat hs) = 8 * length hs"
  by (induction hs) auto

section \<open>Rows\<close>

lemma length_xor_counter [simp]: "length (xor_counter t A) = length A"
  by (simp add: xor_counter_def Let_def)

lemma xor_counter_twice: "length A = 8 \<Longrightarrow> xor_counter t (xor_counter t A) = A"
  by (auto simp: xor_counter_def Let_def xor.assoc nth_list_update intro!: nth_equalityI)

lemma unwrap_row_append:
  "unwrap_row block t A (xs @ ys) =
    (case unwrap_row block t A xs of (A, us, t) \<Rightarrow> case unwrap_row block t A ys of (A, vs, t) \<Rightarrow> (A, us @ vs, t))"
  by (induction xs arbitrary: t A) (auto simp: Let_def split: prod.splits)

lemma wrap_row_t: "wrap_row block t A Rs = (A', Rs', t') \<Longrightarrow> t' = t + length Rs \<and> length Rs' = length Rs"
  by (induction Rs arbitrary: t A Rs') (fastforce simp: Let_def split: prod.splits)+

lemma wrap_rows_last:
  "wrap_rows (Suc j) block t A Rs =
    (case wrap_rows j block t A Rs of (A1, Rs1) \<Rightarrow>
     case wrap_row block (t + j * length Rs) A1 Rs1 of (A2, Rs2, t2) \<Rightarrow> (A2, Rs2))"
proof (induction j arbitrary: t A Rs)
  case (Suc j)
  obtain A1 Rs1 t1 where w: "wrap_row block t A Rs = (A1, Rs1, t1)" using prod_cases3 by blast
  have "t1 + j * length Rs1 = t + Suc j * length Rs" using wrap_row_t [OF w] by simp
  then show ?case using Suc.IH [of t1 A1 Rs1] w by simp
qed (simp split: prod.splits)

context block_cipher
begin

lemma wrap_row_inverse:
  "wrap_row enc t A Rs = (A', Rs', t') \<Longrightarrow> length A = 8 \<Longrightarrow> \<forall>R \<in> set Rs. length R = 8 \<Longrightarrow> 1 \<le> t \<Longrightarrow>
   length A' = 8 \<and> (\<forall>R \<in> set Rs'. length R = 8) \<and> length Rs' = length Rs \<and> t' = t + length Rs \<and>
   unwrap_row dec (t' - 1) A' (rev Rs') = (A, rev Rs, t - 1)"
proof (induction Rs arbitrary: t A Rs')
  case (Cons R Rs)
  let ?B = "enc (A @ R)"
  have B: "length ?B = 16" "dec ?B = A @ R" using Cons.prems enc_length [of "A @ R"] dec_enc [of "A @ R"] by auto
  obtain Rs1 where w: "wrap_row enc (t + 1) (xor_counter t (take 8 ?B)) Rs = (A', Rs1, t')" "Rs' = drop 8 ?B # Rs1"
    using Cons.prems(1) by (auto simp: Let_def split: prod.splits)
  have ih: "length A' = 8" "\<forall>R \<in> set Rs1. length R = 8" "length Rs1 = length Rs" "t' = t + 1 + length Rs"
    and un: "unwrap_row dec (t' - 1) A' (rev Rs1) = (xor_counter t (take 8 ?B), rev Rs, t)"
    using Cons.IH [OF w(1)] Cons.prems(3) B(1) by auto
  have "xor_counter t (xor_counter t (take 8 ?B)) @ drop 8 ?B = ?B" using B(1) by (simp add: xor_counter_twice)
  then have one: "unwrap_row dec t (xor_counter t (take 8 ?B)) [drop 8 ?B] = (A, [R], t - 1)"
    using B(2) Cons.prems(2) by (simp add: Let_def)
  have "unwrap_row dec (t' - 1) A' (rev Rs1 @ [drop 8 ?B]) = (A, rev Rs @ [R], t - 1)"
    unfolding unwrap_row_append un using one by (simp del: unwrap_row.simps)
  then show ?case using ih w(2) B(1) by simp
qed simp

lemma wrap_rows_inverse:
  "wrap_rows j enc t A Rs = (A', Rs') \<Longrightarrow> length A = 8 \<Longrightarrow> \<forall>R \<in> set Rs. length R = 8 \<Longrightarrow> 1 \<le> t \<Longrightarrow>
   length A' = 8 \<and> (\<forall>R \<in> set Rs'. length R = 8) \<and> length Rs' = length Rs \<and>
   unwrap_rows j dec (t + j * length Rs - 1) A' Rs' = (A, Rs)"
proof (induction j arbitrary: A' Rs')
  case (Suc j)
  obtain A1 Rs1 where j: "wrap_rows j enc t A Rs = (A1, Rs1)" by force
  note ih = Suc.IH [OF j Suc.prems(2-4)]
  obtain t2 where w: "wrap_row enc (t + j * length Rs) A1 Rs1 = (A', Rs', t2)"
    using Suc.prems(1) j unfolding wrap_rows_last by (auto split: prod.splits)
  have "1 \<le> t + j * length Rs" using Suc.prems(4) by simp
  from wrap_row_inverse [OF w _ _ this] ih
  have r: "length A' = 8" "\<forall>R \<in> set Rs'. length R = 8" "length Rs' = length Rs" "t2 = t + j * length Rs + length Rs"
    "unwrap_row dec (t2 - 1) A' (rev Rs') = (A1, rev Rs1, t + j * length Rs - 1)" by auto
  have "t + Suc j * length Rs - 1 = t2 - 1" using r(4) by simp
  then show ?case using r ih by simp
qed simp

end

section \<open>Round trips\<close>

lemma wrap_returns:
  assumes "length p mod 8 = 0" and "16 \<le> length p" and "length p \<le> 2 ^ 31"
  shows "\<exists>c. CRYPTO_128_wrap block iv p = Some c"
proof -
  obtain A Rs where "wrap_rows 6 block 1 (take 8 (case iv of None \<Rightarrow> default_iv | Some iv \<Rightarrow> iv)) (halves p) = (A, Rs)"
    by force
  then show ?thesis using assms by (simp add: CRYPTO_128_wrap_def Let_def)
qed

lemma unwrap_length: "k \<ge> 8 \<Longrightarrow> k < 2 ^ 32 \<Longrightarrow> unat (of_nat k - 8 :: 32 word) = k - 8"
proof -
  assume k: "8 \<le> k" "k < 2 ^ 32"
  have "of_nat k - 8 = (of_nat (k - 8) :: 32 word)" using k(1) by (simp add: of_nat_diff)
  then show ?thesis using k unat_of_nat_small [of "k - 8", where 'a = 32] by simp
qed

context block_cipher
begin

lemma raw_inverse:
  assumes w: "CRYPTO_128_wrap enc (Some iv) p = Some c" and iv: "8 \<le> length iv"
  shows "length c = length p + 8 \<and> crypto_128_unwrap_raw dec c = Some (take 8 iv, p)"
proof -
  have g: "length p mod 8 = 0" "16 \<le> length p" "length p \<le> 2 ^ 31"
    using w by (auto simp: CRYPTO_128_wrap_def Let_def split: if_splits)
  obtain A Rs where r: "wrap_rows 6 enc 1 (take 8 iv) (halves p) = (A, Rs)" by force
  have c: "c = A @ concat Rs" using w r by (auto simp: CRYPTO_128_wrap_def Let_def split: if_splits)
  note h = halves_length [OF g(1)]
  have "length (take 8 iv) = 8" using iv by simp
  from wrap_rows_inverse [OF r this] h
  have u: "length A = 8" "\<forall>R \<in> set Rs. length R = 8" "length Rs = length p div 8"
    "unwrap_rows 6 dec (6 * (length p div 8)) A Rs = (take 8 iv, halves p)" by auto
  have "8 * (length p div 8) = length p" using g(1) by (simp add: mod_0_imp_dvd)
  then have l: "length (concat Rs) = length p" using concat_length_8 [OF u(2)] u(3) by simp
  then have lc: "length c = length p + 8" using c u(1) by simp
  then have n: "unat (of_nat (length c) - 8 :: 32 word) = length p" using unwrap_length [of "length c"] g(3) by simp
  show ?thesis using n g u c l lc halves_concat [OF u(2)] by (simp add: crypto_128_unwrap_raw_def Let_def)
qed

end

section \<open>The length field\<close>

lemma byte_of_nat: "k \<le> 24 \<Longrightarrow> (of_nat (n div 2 ^ k) :: byte) = ucast (drop_bit k (of_nat n :: 32 word))"
  by (rule bit_word_eqI) (auto simp: bit_simps drop_bit_eq_div [symmetric])

lemma bytes_join:
  "push_bit 24 (ucast (ucast (drop_bit 24 w) :: byte)) OR push_bit 16 (ucast (ucast (drop_bit 16 w) :: byte)) OR
   push_bit 8 (ucast (ucast (drop_bit 8 w) :: byte)) OR ucast (ucast w :: byte) = (w :: 32 word)"
proof (rule bit_word_eqI)
  fix n assume "n < LENGTH(32)"
  then show "bit (push_bit 24 (ucast (ucast (drop_bit 24 w) :: byte)) OR push_bit 16 (ucast (ucast (drop_bit 16 w) :: byte)) OR
      push_bit 8 (ucast (ucast (drop_bit 8 w) :: byte)) OR ucast (ucast w :: byte) :: 32 word) n = bit w n"
    by (cases "n < 8"; cases "n < 16"; cases "n < 24") (auto simp: bit_simps)
qed

abbreviation icv_bytes :: "byte list option \<Rightarrow> byte list" where
  "icv_bytes icv \<equiv> (case icv of None \<Rightarrow> default_aiv | Some icv \<Rightarrow> take 4 icv)"

lemma make_aiv:
  assumes "case icv of None \<Rightarrow> True | Some v \<Rightarrow> 4 \<le> length v" and "n < 2 ^ 32"
  shows "length (make_aiv icv n) = 8" and "take 4 (make_aiv icv n) = icv_bytes icv" and "aiv_length (make_aiv icv n) = n"
proof -
  have l: "length (icv_bytes icv) = 4" using assms(1) by (cases icv) (simp_all add: default_aiv_def)
  show "length (make_aiv icv n) = 8" "take 4 (make_aiv icv n) = icv_bytes icv"
    using l unfolding make_aiv_def by simp_all
  have nth: "make_aiv icv n ! 4 = of_nat (n div 2 ^ 24)" "make_aiv icv n ! 5 = of_nat (n div 2 ^ 16)"
    "make_aiv icv n ! 6 = of_nat (n div 2 ^ 8)" "make_aiv icv n ! 7 = of_nat (n div 2 ^ 0)"
    using l unfolding make_aiv_def by (simp_all add: nth_append)
  have "of_nat (n div 2 ^ 0) = (ucast (of_nat n :: 32 word) :: byte)" using byte_of_nat [of 0 n] by simp
  then show "aiv_length (make_aiv icv n) = n"
    unfolding aiv_length_def nth using bytes_join [of "of_nat n"] byte_of_nat [of 24 n] byte_of_nat [of 16 n] byte_of_nat [of 8 n]
      unat_of_nat_small [of n, where 'a = 32] assms(2) by simp
qed

lemma padding:
  fixes k :: nat
  assumes "0 < k"
  defines "m \<equiv> (k + 7) div 8 * 8"
  shows "k \<le> m" and "m < k + 8" and "m mod 8 = 0" and "8 \<le> m" and "8 * (m div 8) = m"
  using assms by (auto simp: m_def)

lemma check_pad_ok:
  assumes "0 < length p" and "take 4 aiv = icv_bytes icv" and "aiv_length aiv = length p"
    and "m = (length p + 7) div 8 * 8"
  shows "check_pad icv (m + 8) aiv (p @ replicate (m - length p) 0) = Inr p"
proof -
  note pad = padding [OF assms(1), folded assms(4)]
  have n: "(m + 8) div 8 - 1 = m div 8" by simp
  have "8 * (m div 8 - 1) = m - 8" using pad(5) by (simp add: diff_mult_distrib2)
  then have "\<not> (8 * (m div 8 - 1) \<ge> length p \<or> length p > 8 * (m div 8))" using pad by linarith
  then show ?thesis using assms(2,3) pad(1) n by (simp add: check_pad_def Let_def)
qed

context block_cipher
begin

lemma wrap_pad_inverse:
  assumes w: "CRYPTO_128_wrap_pad enc icv p = Some c" and icv: "case icv of None \<Rightarrow> True | Some v \<Rightarrow> 4 \<le> length v"
    and l: "length p \<le> 2 ^ 31 - 16"
  shows "CRYPTO_128_unwrap_pad dec icv c = Inr p"
proof -
  let ?m = "(length p + 7) div 8 * 8" and ?aiv = "make_aiv icv (length p)"
  let ?q = "p @ replicate (?m - length p) 0"
  have p: "0 < length p" using w by (auto simp: CRYPTO_128_wrap_pad_def Let_def split: if_splits)
  note pad = padding [OF p]
  have "length p < 2 ^ 32" using l by simp
  note aiv = make_aiv [OF icv this]
  have q: "length ?q = ?m" using pad(1) by simp
  have chk: "check_pad icv (?m + 8) ?aiv ?q = Inr p" by (rule check_pad_ok [OF p aiv(2,3) refl])
  have "length p + 16 \<le> 2147483648" using l by simp
  then have "?m + 8 < 2147483648" using pad(2) by linarith
  then have m2: "?m + 8 < 2 ^ 31" by simp
  show ?thesis
  proof (cases "?m = 8")
    case True
    have c: "c = enc (?aiv @ ?q)" using w True p l by (auto simp: CRYPTO_128_wrap_pad_def Let_def split: if_splits)
    have b: "length (?aiv @ ?q) = 16" using aiv(1) q True by simp
    show ?thesis using c enc_length [OF b] dec_enc [OF b] aiv(1) chk True
      by (simp add: CRYPTO_128_unwrap_pad_def Let_def)
  next
    case False
    have c: "CRYPTO_128_wrap enc (Some ?aiv) ?q = Some c"
      using w False p l by (auto simp: CRYPTO_128_wrap_pad_def Let_def split: if_splits)
    have r: "length c = ?m + 8" "crypto_128_unwrap_raw dec c = Some (?aiv, ?q)"
      using raw_inverse [OF c] aiv(1) q by auto
    have g: "\<not> (length c mod 8 \<noteq> 0 \<or> length c < 16 \<or> length c \<ge> 2 ^ 31)" "length c \<noteq> 16"
      using r(1) pad(3,4) m2 False by auto
    have "length c - 8 = length ?q" using r(1) q by simp
    then show ?thesis unfolding CRYPTO_128_unwrap_pad_def Let_def using g r chk by simp
  qed
qed

end

end
