(* ===== verification/Seed_Cipher.thy ===== *)
theory Seed_Cipher
  imports Seed_Tables Key_Wrap
begin

unbundle bit_operations_syntax

text \<open>
  The block cipher SEED of the vendored OpenSSL, \<open>crypto/seed\<close>: the key schedule, encryption and decryption of
  \<open>seed.c\<close> with the macros of \<open>seed_local.h\<close>, and the modes of \<open>seed_ecb.c\<close>, \<open>seed_cbc.c\<close>, \<open>seed_cfb.c\<close> and
  \<open>seed_ofb.c\<close>. It is the cipher on which the interfaces of the modes and of key wrapping are interpreted.
\<close>

type_synonym seed_word = "32 word"
type_synonym seed_state = "seed_word \<times> seed_word \<times> seed_word \<times> seed_word"

section \<open>The function G\<close>

definition G_FUNC :: "seed_word \<Rightarrow> seed_word" where
  "G_FUNC v =
     SS0 ! unat (ucast v :: byte) XOR SS1 ! unat (ucast (drop_bit 8 v) :: byte) XOR
     SS2 ! unat (ucast (drop_bit 16 v) :: byte) XOR SS3 ! unat (ucast (drop_bit 24 v) :: byte)"

definition G_FUNC_small :: "seed_word \<Rightarrow> seed_word" where
  \<comment> \<open>\<open>G_FUNC\<close> in the build for a small footprint\<close>
  "G_FUNC_small v =
     (let s0 = ucast (SEED_Sbox0 ! unat (ucast v :: byte));
          s1 = ucast (SEED_Sbox1 ! unat (ucast (drop_bit 8 v) :: byte));
          s2 = ucast (SEED_Sbox0 ! unat (ucast (drop_bit 16 v) :: byte));
          s3 = ucast (SEED_Sbox1 ! unat (ucast (drop_bit 24 v) :: byte));
          ret = (s0 AND 0xFC) XOR (s1 AND 0xF3) XOR (s2 AND 0xCF) XOR (s3 AND 0x3F);
          ret = ret OR push_bit 8 ((s0 AND 0xF3) XOR (s1 AND 0xCF) XOR (s2 AND 0x3F) XOR (s3 AND 0xFC));
          ret = ret OR push_bit 16 ((s0 AND 0xCF) XOR (s1 AND 0x3F) XOR (s2 AND 0xFC) XOR (s3 AND 0xF3))
      in ret OR push_bit 24 ((s0 AND 0x3F) XOR (s1 AND 0xFC) XOR (s2 AND 0xF3) XOR (s3 AND 0xCF)))"

section \<open>Words and bytes\<close>

definition char2word :: "byte list \<Rightarrow> seed_word" where
  "char2word c =
     push_bit 24 (ucast (c ! 0)) OR push_bit 16 (ucast (c ! 1)) OR push_bit 8 (ucast (c ! 2)) OR ucast (c ! 3)"

definition word2char :: "seed_word \<Rightarrow> byte list" where
  "word2char l = [ucast (drop_bit 24 l), ucast (drop_bit 16 l), ucast (drop_bit 8 l), ucast l]"

section \<open>The key schedule\<close>

definition KC :: "seed_word list" where
  "KC = [0x9e3779b9, 0x3c6ef373, 0x78dde6e6, 0xf1bbcdcc, 0xe3779b99, 0xc6ef3733, 0x8dde6e67, 0x1bbcdccf,
         0x3779b99e, 0x6ef3733c, 0xdde6e678, 0xbbcdccf1, 0x779b99e3, 0xef3733c6, 0xde6e678d, 0xbcdccf1b]"

definition KEYUPDATE_TEMP :: "seed_word \<Rightarrow> seed_word \<Rightarrow> seed_word list" where
  "KEYUPDATE_TEMP t0 t1 = [G_FUNC t0, G_FUNC t1]"

definition KEYSCHEDULE_UPDATE0 :: "seed_word \<Rightarrow> seed_state \<Rightarrow> (seed_word \<times> seed_word) \<times> seed_state" where
  "KEYSCHEDULE_UPDATE0 kc st =
     (case st of (x1, x2, x3, x4) \<Rightarrow>
        let t0 = x3;
            x3 = push_bit 8 x3 XOR drop_bit 24 x4;
            x4 = push_bit 8 x4 XOR drop_bit 24 t0
        in ((x1 + x3 - kc, x2 + kc - x4), (x1, x2, x3, x4)))"

definition KEYSCHEDULE_UPDATE1 :: "seed_word \<Rightarrow> seed_state \<Rightarrow> (seed_word \<times> seed_word) \<times> seed_state" where
  "KEYSCHEDULE_UPDATE1 kc st =
     (case st of (x1, x2, x3, x4) \<Rightarrow>
        let t0 = x1;
            x1 = drop_bit 8 x1 XOR push_bit 24 x2;
            x2 = drop_bit 8 x2 XOR push_bit 24 t0
        in ((x1 + x3 - kc, x2 + kc - x4), (x1, x2, x3, x4)))"

fun key_rounds :: "nat list \<Rightarrow> seed_state \<Rightarrow> seed_word list" where
  \<comment> \<open>the rounds \<open>i\<close> and \<open>i + 1\<close> for each even \<open>i\<close> of the list\<close>
  "key_rounds [] st = []"
| "key_rounds (i # is) st =
     (case KEYSCHEDULE_UPDATE0 (KC ! i) st of ((t0, t1), st) \<Rightarrow>
      case KEYSCHEDULE_UPDATE1 (KC ! (i + 1)) st of ((u0, u1), st) \<Rightarrow>
        KEYUPDATE_TEMP t0 t1 @ KEYUPDATE_TEMP u0 u1 @ key_rounds is st)"

definition load_block :: "byte list \<Rightarrow> seed_state" where
  "load_block s = (char2word s, char2word (drop 4 s), char2word (drop 8 s), char2word (drop 12 s))"

definition SEED_set_key :: "byte list \<Rightarrow> seed_word list" where
  \<comment> \<open>\<open>ks->data[32]\<close>\<close>
  "SEED_set_key rawkey =
     (case load_block rawkey of (x1, x2, x3, x4) \<Rightarrow>
      let t0 = x1 + x3 - KC ! 0; t1 = x2 - x4 + KC ! 0
      in (case KEYSCHEDULE_UPDATE1 (KC ! 1) (x1, x2, x3, x4) of ((u0, u1), st) \<Rightarrow>
            KEYUPDATE_TEMP t0 t1 @ KEYUPDATE_TEMP u0 u1 @ key_rounds [2, 4, 6, 8, 10, 12, 14] st))"

section \<open>Encryption and decryption\<close>

definition E_SEED :: "seed_word list \<Rightarrow> nat \<Rightarrow> seed_state \<Rightarrow> seed_state" where
  "E_SEED ks rbase st =
     (case st of (x1, x2, x3, x4) \<Rightarrow>
        let t0 = x3 XOR ks ! rbase;
            t1 = x4 XOR ks ! (rbase + 1);
            t1 = t1 XOR t0;
            t1 = G_FUNC t1;
            t0 = t0 + t1;
            t0 = G_FUNC t0;
            t1 = t1 + t0;
            t1 = G_FUNC t1;
            t0 = t0 + t1
        in (x1 XOR t0, x2 XOR t1, x3, x4))"

fun swap :: "seed_state \<Rightarrow> seed_state" where
  "swap (x1, x2, x3, x4) = (x3, x4, x1, x2)"

definition enc_pair :: "seed_word list \<Rightarrow> nat \<Rightarrow> seed_state \<Rightarrow> seed_state" where
  \<comment> \<open>\<open>E_SEED(t0, t1, x1, x2, x3, x4, i)\<close> and \<open>E_SEED(t0, t1, x3, x4, x1, x2, i + 2)\<close>\<close>
  "enc_pair ks i st = swap (E_SEED ks (i + 2) (swap (E_SEED ks i st)))"

definition dec_pair :: "seed_word list \<Rightarrow> nat \<Rightarrow> seed_state \<Rightarrow> seed_state" where
  "dec_pair ks i st = swap (E_SEED ks (i - 2) (swap (E_SEED ks i st)))"

definition store_block :: "seed_state \<Rightarrow> byte list" where
  \<comment> \<open>the halves are exchanged\<close>
  "store_block st = (case st of (x1, x2, x3, x4) \<Rightarrow> word2char x3 @ word2char x4 @ word2char x1 @ word2char x2)"

definition SEED_encrypt :: "seed_word list \<Rightarrow> byte list \<Rightarrow> byte list" where
  "SEED_encrypt ks s = store_block (fold (enc_pair ks) [0, 4, 8, 12, 16, 20, 24, 28] (load_block s))"

definition SEED_decrypt :: "seed_word list \<Rightarrow> byte list \<Rightarrow> byte list" where
  "SEED_decrypt ks s = store_block (fold (dec_pair ks) [30, 26, 22, 18, 14, 10, 6, 2] (load_block s))"

section \<open>Modes\<close>

definition SEED_ecb_encrypt :: "seed_word list \<Rightarrow> bool \<Rightarrow> byte list \<Rightarrow> byte list" where
  "SEED_ecb_encrypt ks enc inp = (if enc then SEED_encrypt ks inp else SEED_decrypt ks inp)"

definition SEED_cbc_encrypt :: "seed_word list \<Rightarrow> bool \<Rightarrow> byte list \<Rightarrow> nat \<Rightarrow> byte list \<Rightarrow> byte list \<times> byte list" where
  "SEED_cbc_encrypt ks enc inp len iv =
     (if enc then CRYPTO_cbc128_encrypt (SEED_encrypt ks) (take len inp) iv
      else CRYPTO_cbc128_decrypt (SEED_decrypt ks) inp len iv)"

definition SEED_cfb128_encrypt ::
    "seed_word list \<Rightarrow> bool \<Rightarrow> stream \<Rightarrow> int \<Rightarrow> byte list \<Rightarrow> byte list \<times> stream \<times> int" where
  "SEED_cfb128_encrypt ks enc s num inp = CRYPTO_cfb128_encrypt (SEED_encrypt ks) enc s num inp"

definition SEED_ofb128_encrypt :: "seed_word list \<Rightarrow> stream \<Rightarrow> int \<Rightarrow> byte list \<Rightarrow> byte list \<times> stream \<times> int" where
  "SEED_ofb128_encrypt ks s num inp = CRYPTO_ofb128_encrypt (SEED_encrypt ks) s num inp"

section \<open>Decryption inverts encryption\<close>

lemma swap_swap [simp]: "swap (swap st) = st"
  by (cases st) simp

lemma E_SEED_twice [simp]: "E_SEED ks i (E_SEED ks i st) = st"
  by (cases st) (simp add: E_SEED_def Let_def xor.assoc)

lemma dec_enc_pair: "dec_pair ks (i + 2) (swap (enc_pair ks i st)) = swap st"
  by (simp add: dec_pair_def enc_pair_def)

lemma rounds_inverse: "fold (dec_pair ks) (map (\<lambda>i. i + 2) (rev is)) (swap (fold (enc_pair ks) is st)) = swap st"
  by (induction "is" arbitrary: st) (simp_all add: dec_enc_pair [simplified])

lemma char2word_word2char: "char2word (word2char w @ bs) = w"
  using bytes_join [of w] by (simp add: char2word_def word2char_def)

lemma word2char_char2word:
  assumes "length c \<ge> 4"
  shows "word2char (char2word c) = take 4 c"
proof -
  obtain a b d e rest where c: "c = a # b # d # e # rest"
    using assms by (auto simp: numeral_eq_Suc Suc_le_length_iff)
  have "ucast (drop_bit 24 (char2word c)) = a" "ucast (drop_bit 16 (char2word c)) = b"
    "ucast (drop_bit 8 (char2word c)) = d" "ucast (char2word c) = e"
    by (rule bit_word_eqI, auto simp: c char2word_def bit_simps dest: bit_imp_le_length)+
  then show ?thesis by (simp add: word2char_def c)
qed

lemma length_word2char [simp]: "length (word2char w) = 4"
  by (simp add: word2char_def)

lemma length_store_block [simp]: "length (store_block st) = 16"
  by (cases st) (simp add: store_block_def)

lemma load_store: "load_block (store_block st) = swap st"
  by (cases st) (simp add: store_block_def load_block_def char2word_word2char
      char2word_word2char [where bs = "[]", simplified])

lemma store_load: "length b = 16 \<Longrightarrow> store_block (swap (load_block b)) = b"
  by (simp add: load_block_def store_block_def word2char_char2word take_add [symmetric] flip: append_assoc)

lemma seed_inverse:
  assumes "length b = 16"
  shows "SEED_decrypt ks (SEED_encrypt ks b) = b"
proof -
  let ?is = "[0, 4, 8, 12, 16, 20, 24, 28] :: nat list"
  have "map (\<lambda>i. i + 2) (rev ?is) = [30, 26, 22, 18, 14, 10, 6, 2]" by simp
  then have "fold (dec_pair ks) [30, 26, 22, 18, 14, 10, 6, 2] (swap (fold (enc_pair ks) ?is (load_block b)))
      = swap (load_block b)" using rounds_inverse [of ks ?is "load_block b"] by (simp only:)
  then show ?thesis using store_load [OF assms] by (simp only: SEED_decrypt_def SEED_encrypt_def load_store)
qed

interpretation seed: block_cipher "SEED_encrypt ks" "SEED_decrypt ks" for ks
  by unfold_locales (simp add: SEED_encrypt_def, rule seed_inverse)

section \<open>The tables\<close>

definition spread :: "byte \<Rightarrow> byte \<Rightarrow> byte \<Rightarrow> byte \<Rightarrow> byte \<Rightarrow> seed_word" where
  "spread m0 m1 m2 m3 s =
     ucast (s AND m0) OR push_bit 8 (ucast (s AND m1)) OR push_bit 16 (ucast (s AND m2)) OR push_bit 24 (ucast (s AND m3))"

lemma SS0_spread: "SS0 = map (spread 0xFC 0xF3 0xCF 0x3F) SEED_Sbox0"
  by (simp add: SS0_def SEED_Sbox0_def spread_def)

lemma SS1_spread: "SS1 = map (spread 0xF3 0xCF 0x3F 0xFC) SEED_Sbox1"
  by (simp add: SS1_def SEED_Sbox1_def spread_def)

lemma SS2_spread: "SS2 = map (spread 0xCF 0x3F 0xFC 0xF3) SEED_Sbox0"
  by (simp add: SS2_def SEED_Sbox0_def spread_def)

lemma SS3_spread: "SS3 = map (spread 0x3F 0xFC 0xF3 0xCF) SEED_Sbox1"
  by (simp add: SS3_def SEED_Sbox1_def spread_def)

lemma length_Sbox: "length SEED_Sbox0 = 256" "length SEED_Sbox1 = 256"
  by (simp_all add: SEED_Sbox0_def SEED_Sbox1_def)

lemma byte_high: "8 \<le> n \<Longrightarrow> \<not> bit (x :: byte) n"
  using bit_imp_le_length [of x n] by auto

lemma spread_sum:
  "spread a0 a1 a2 a3 s XOR spread b0 b1 b2 b3 t XOR spread c0 c1 c2 c3 u XOR spread d0 d1 d2 d3 v =
    (((ucast (s AND a0) XOR ucast (t AND b0) XOR ucast (u AND c0) XOR ucast (v AND d0)) OR
      push_bit 8 (ucast (s AND a1) XOR ucast (t AND b1) XOR ucast (u AND c1) XOR ucast (v AND d1))) OR
      push_bit 16 (ucast (s AND a2) XOR ucast (t AND b2) XOR ucast (u AND c2) XOR ucast (v AND d2))) OR
      push_bit 24 (ucast (s AND a3) XOR ucast (t AND b3) XOR ucast (u AND c3) XOR ucast (v AND d3))"
proof (rule bit_word_eqI)
  fix n assume "n < LENGTH(32)"
  then consider "n < 8" | "8 \<le> n" "n < 16" | "16 \<le> n" "n < 24" | "24 \<le> n" "n < 32" by fastforce
  then show "bit (spread a0 a1 a2 a3 s XOR spread b0 b1 b2 b3 t XOR spread c0 c1 c2 c3 u XOR spread d0 d1 d2 d3 v) n =
      bit ((((ucast (s AND a0) XOR ucast (t AND b0) XOR ucast (u AND c0) XOR ucast (v AND d0)) OR
      push_bit 8 (ucast (s AND a1) XOR ucast (t AND b1) XOR ucast (u AND c1) XOR ucast (v AND d1))) OR
      push_bit 16 (ucast (s AND a2) XOR ucast (t AND b2) XOR ucast (u AND c2) XOR ucast (v AND d2))) OR
      push_bit 24 (ucast (s AND a3) XOR ucast (t AND b3) XOR ucast (u AND c3) XOR ucast (v AND d3)) :: seed_word) n"
    by cases (simp_all add: spread_def bit_simps byte_high)
qed

lemma ucast_mask: "(ucast (s AND m) :: seed_word) = ucast s AND ucast m" for s m :: byte
  by (rule bit_word_eqI) (auto simp: bit_simps)

text \<open>
  The two builds of SEED compute the same function \<open>G\<close>: the four tables of 256 words of the default build
  hold exactly what the substitution boxes and the masks of the build for a small footprint give.
\<close>
lemma seed_G_builds_agree: "G_FUNC v = G_FUNC_small v"
  unfolding G_FUNC_def SS0_spread SS1_spread SS2_spread SS3_spread
  by (simp add: nth_map length_Sbox unat_byte_less spread_sum ucast_mask G_FUNC_small_def Let_def)

section \<open>The modes with SEED\<close>

text \<open>
  C23: SEED in CBC mode decrypts what it encrypts: for every key schedule, every initial vector of 16 bytes and
  every text, of any length, the decryption of the ciphertext gives back the text, and both calls leave
  the same value in \<open>ivec\<close>, so that a longer text can follow.
\<close>
theorem seed_cbc_roundtrip:
  assumes "length iv = 16" and "SEED_cbc_encrypt ks True p (length p) iv = (c, iv')"
  shows "SEED_cbc_encrypt ks False c (length p) iv = (p, iv')"
  using seed.cbc_inverse [OF assms(1), of ks p c iv'] assms(2) by (simp add: SEED_cbc_encrypt_def)

theorem seed_cbc_roundtrip_witness:
  "\<exists>c iv'. SEED_cbc_encrypt (SEED_set_key (replicate 16 1)) True [1, 2, 3] (length [1, 2, 3 :: byte]) (replicate 16 0) = (c, iv') \<and>
     SEED_cbc_encrypt (SEED_set_key (replicate 16 1)) False c (length [1, 2, 3 :: byte]) (replicate 16 0) = ([1, 2, 3], iv')"
proof -
  obtain c iv' where c: "SEED_cbc_encrypt (SEED_set_key (replicate 16 1)) True [1, 2, 3] (length [1, 2, 3 :: byte]) (replicate 16 0) = (c, iv')"
    by force
  then show ?thesis using seed_cbc_roundtrip [OF _ c] by fastforce
qed

text \<open>
  Key wrapping. With a block cipher whose decryption inverts its encryption, a text of whole 8-byte
  blocks of the permitted length is wrapped into 8 more bytes, and unwrapping with the same initial value
  returns it.
\<close>
lemma key_wrap_roundtrip:
  assumes "block_cipher enc dec" and "length iv = 8"
    and "length p mod 8 = 0" and "16 \<le> length p" and "length p \<le> 2 ^ 31"
  shows "\<exists>c. CRYPTO_128_wrap enc (Some iv) p = Some c \<and> length c = length p + 8 \<and> CRYPTO_128_unwrap dec (Some iv) c = Inr p"
proof -
  obtain c where c: "CRYPTO_128_wrap enc (Some iv) p = Some c" using wrap_returns [OF assms(3-5)] by blast
  have "length c = length p + 8" "crypto_128_unwrap_raw dec c = Some (take 8 iv, p)"
    using block_cipher.raw_inverse [OF assms(1) c] assms(2) by auto
  then show ?thesis using c assms(2) by (simp add: CRYPTO_128_unwrap_def)
qed

text \<open>
  C24: key wrapping with padding. A text of any length from 1 up to \<open>2 ^ 31 - 16\<close> bytes is wrapped, and unwrapping
  with the same check value returns exactly its bytes, the padding removed.
\<close>
theorem key_wrap_pad_roundtrip:
  assumes "block_cipher enc dec" and "length icv = 4" and "0 < length p" and "length p \<le> 2 ^ 31 - 16"
  shows "\<exists>c. CRYPTO_128_wrap_pad enc (Some icv) p = Some c \<and> CRYPTO_128_unwrap_pad dec (Some icv) c = Inr p"
proof -
  let ?m = "(length p + 7) div 8 * 8"
  note pad = padding [OF assms(3)]
  have "length p + 16 \<le> 2147483648" using assms(4) by simp
  then have m: "?m \<le> 2147483648" "length p < 2147483648" using pad(2) by linarith+
  have "\<exists>c. CRYPTO_128_wrap_pad enc (Some icv) p = Some c"
  proof (cases "?m = 8")
    case True
    then show ?thesis using assms(3) m by (auto simp: CRYPTO_128_wrap_pad_def Let_def)
  next
    case False
    then have "16 \<le> ?m" using pad(3,4) by presburger
    moreover have "length (p @ replicate (?m - length p) 0) = ?m" using pad(1) by simp
    ultimately have "\<exists>c. CRYPTO_128_wrap enc (Some (make_aiv (Some icv) (length p))) (p @ replicate (?m - length p) 0) = Some c"
      using m(1) pad(3) by (intro wrap_returns) simp_all
    then show ?thesis using False assms(3) m by (auto simp: CRYPTO_128_wrap_pad_def Let_def)
  qed
  then show ?thesis using block_cipher.wrap_pad_inverse [OF assms(1)] assms(2,4) by fastforce
qed

theorem key_wrap_pad_roundtrip_witness:
  "\<exists>c. CRYPTO_128_wrap_pad (SEED_encrypt (replicate 32 5)) (Some default_aiv) [1, 2, 3] = Some c \<and>
     CRYPTO_128_unwrap_pad (SEED_decrypt (replicate 32 5)) (Some default_aiv) c = Inr [1, 2, 3]"
  using key_wrap_pad_roundtrip [OF seed.block_cipher_axioms, of default_aiv "[1, 2, 3]" "replicate 32 5"]
  by (simp add: default_aiv_def)

end
