(* ===== verification/Quic_Vlint.thy ===== *)
theory Quic_Vlint
  imports TP_Prelude
begin

unbundle bit_operations_syntax

text \<open>
  The variable-length integers of QUIC in the vendored OpenSSL, \<open>crypto/quic_vlint.c\<close> and
  \<open>include/internal/quic_vlint.h\<close>. A function that writes at \<open>buf\<close> returns the bytes it writes, in order from
  \<open>buf[0]\<close>; \<open>ossl_quic_vlint_decode\<close> returns the number of bytes consumed, 0 for a failure, with the value it
  stores in \<open>*v\<close>.
\<close>

type_synonym octet = "8 word"

abbreviation OSSL_QUIC_VLINT_2B_MIN :: "64 word" where "OSSL_QUIC_VLINT_2B_MIN \<equiv> 64"
abbreviation OSSL_QUIC_VLINT_4B_MIN :: "64 word" where "OSSL_QUIC_VLINT_4B_MIN \<equiv> 16384"
abbreviation OSSL_QUIC_VLINT_8B_MIN :: "64 word" where "OSSL_QUIC_VLINT_8B_MIN \<equiv> 1073741824"
abbreviation OSSL_QUIC_VLINT_MAX :: "64 word" where "OSSL_QUIC_VLINT_MAX \<equiv> push_bit 62 1 - 1"

definition ossl_quic_vlint_encode_len :: "64 word \<Rightarrow> nat" where
  "ossl_quic_vlint_encode_len v =
     (if v < OSSL_QUIC_VLINT_2B_MIN then 1
      else if v < OSSL_QUIC_VLINT_4B_MIN then 2
      else if v < OSSL_QUIC_VLINT_8B_MIN then 4
      else if v \<le> OSSL_QUIC_VLINT_MAX then 8
      else 0)"

definition ossl_quic_vlint_encode_n :: "64 word \<Rightarrow> int \<Rightarrow> octet list" where
  "ossl_quic_vlint_encode_n v n =
     (if n = 1 then [ucast v]
      else if n = 2 then [ucast (0x40 OR (drop_bit 8 v AND 0x3F)), ucast v]
      else if n = 4 then
        [ucast (0x80 OR (drop_bit 24 v AND 0x3F)), ucast (drop_bit 16 v), ucast (drop_bit 8 v), ucast v]
      else
        [ucast (0xC0 OR (drop_bit 56 v AND 0x3F)), ucast (drop_bit 48 v), ucast (drop_bit 40 v), ucast (drop_bit 32 v),
         ucast (drop_bit 24 v), ucast (drop_bit 16 v), ucast (drop_bit 8 v), ucast v])"

definition ossl_quic_vlint_encode :: "64 word \<Rightarrow> octet list" where
  "ossl_quic_vlint_encode v = ossl_quic_vlint_encode_n v (int (ossl_quic_vlint_encode_len v))"

definition ossl_quic_vlint_decode_len :: "octet \<Rightarrow> nat" where
  "ossl_quic_vlint_decode_len first_byte = 2 ^ unat (drop_bit 6 (first_byte AND 0xC0))"

definition ossl_quic_vlint_decode_unchecked :: "octet list \<Rightarrow> 64 word" where
  "ossl_quic_vlint_decode_unchecked buf =
     (let first_byte = buf ! 0; sz = ossl_quic_vlint_decode_len first_byte
      in if sz = 1 then ucast (first_byte AND 0x3F)
         else if sz = 2 then push_bit 8 (ucast (first_byte AND 0x3F)) OR ucast (buf ! 1)
         else if sz = 4 then
           push_bit 24 (ucast (first_byte AND 0x3F)) OR push_bit 16 (ucast (buf ! 1)) OR push_bit 8 (ucast (buf ! 2))
           OR ucast (buf ! 3)
         else
           push_bit 56 (ucast (first_byte AND 0x3F)) OR push_bit 48 (ucast (buf ! 1)) OR push_bit 40 (ucast (buf ! 2))
           OR push_bit 32 (ucast (buf ! 3)) OR push_bit 24 (ucast (buf ! 4)) OR push_bit 16 (ucast (buf ! 5))
           OR push_bit 8 (ucast (buf ! 6)) OR ucast (buf ! 7))"

definition ossl_quic_vlint_decode :: "octet list \<Rightarrow> nat \<times> 64 word option" where
  "ossl_quic_vlint_decode buf =
     (if length buf < 1 then (0, None)
      else let dec_len = ossl_quic_vlint_decode_len (buf ! 0)
           in if length buf < dec_len then (0, None)
              else (dec_len, Some (ossl_quic_vlint_decode_unchecked buf)))"

section \<open>Bits\<close>

lemma mask_byte: "(0x3F :: 'a::len word) = mask 6"
  by (simp add: mask_eq_exp_minus_1)

lemma small_bits:
  fixes v :: "64 word"
  assumes "v < 2 ^ k" and "k \<le> i"
  shows "\<not> bit v i"
proof -
  have "v AND mask k = v" by (rule less_mask_eq [OF assms(1)])
  then have "bit v i = bit (v AND mask k) i" by simp
  then show ?thesis using assms(2) by (simp add: bit_simps)
qed

lemma ucast_tagged:
  "(ucast (a OR (x AND 0x3F) :: 64 word) :: octet) = ucast a OR (ucast x AND 0x3F)" for a :: "64 word"
  unfolding mask_byte by (rule bit_word_eqI) (auto simp: bit_simps)

lemmas tag_simps = ucast_tagged bit.conj_disj_distrib2 and.assoc

lemma decode_len_tag:
  "ossl_quic_vlint_decode_len (ucast (0x40 OR (x AND 0x3F) :: 64 word)) = 2"
  "ossl_quic_vlint_decode_len (ucast (0x80 OR (x AND 0x3F) :: 64 word)) = 4"
  "ossl_quic_vlint_decode_len (ucast (0xC0 OR (x AND 0x3F) :: 64 word)) = 8"
  by (simp_all add: ossl_quic_vlint_decode_len_def tag_simps)

lemma untag:
  "ucast (0x40 OR (x AND 0x3F) :: 64 word) AND 0x3F = (ucast x AND 0x3F :: octet)"
  "ucast (0x80 OR (x AND 0x3F) :: 64 word) AND 0x3F = (ucast x AND 0x3F :: octet)"
  "ucast (0xC0 OR (x AND 0x3F) :: 64 word) AND 0x3F = (ucast x AND 0x3F :: octet)"
  by (simp_all add: tag_simps)

lemma decode_len_1: "v < 64 \<Longrightarrow> ossl_quic_vlint_decode_len (ucast v) = 1" for v :: "64 word"
proof -
  assume "v < 64"
  then have "v AND mask 6 = v" by (intro less_mask_eq) simp
  then have "(ucast v AND 0xC0 :: octet) = ucast (v AND mask 6) AND 0xC0" by simp
  also have "\<dots> = (ucast v AND mask 6) AND 0xC0" by (rule arg_cong [of _ _ "\<lambda>y. y AND 0xC0"], rule bit_word_eqI) (auto simp: bit_simps)
  also have "\<dots> = 0" by (simp add: and.assoc mask_eq_exp_minus_1)
  finally show ?thesis by (simp add: ossl_quic_vlint_decode_len_def)
qed

section \<open>Joining the octets\<close>

lemma join_1: "v < 2 ^ 6 \<Longrightarrow> (ucast (ucast v AND 0x3F :: octet) :: 64 word) = v"
  unfolding mask_byte
proof (rule bit_word_eqI)
  fix n assume v: "v < 2 ^ 6" and "n < LENGTH(64)"
  consider "n < 6" | "6 \<le> n" by linarith
  then show "bit (ucast (ucast v AND mask 6 :: octet) :: 64 word) n = bit v n"
    by cases (use small_bits [OF v, of n] in \<open>simp_all add: bit_simps\<close>)
qed

lemma join_2:
  "v < 2 ^ 14 \<Longrightarrow> push_bit 8 (ucast (ucast (drop_bit 8 v) AND 0x3F :: octet)) OR ucast (ucast v :: octet) = (v :: 64 word)"
  unfolding mask_byte
proof (rule bit_word_eqI)
  fix n assume v: "v < 2 ^ 14" and "n < LENGTH(64)"
  consider "n < 8" | "8 \<le> n" "n < 14" | "14 \<le> n" by linarith
  then show "bit (push_bit 8 (ucast (ucast (drop_bit 8 v) AND mask 6 :: octet)) OR ucast (ucast v :: octet) :: 64 word) n = bit v n"
    by cases (use small_bits [OF v, of n] in \<open>simp_all add: bit_simps less_diff_conv2\<close>)
qed

lemma join_4:
  "v < 2 ^ 30 \<Longrightarrow> push_bit 24 (ucast (ucast (drop_bit 24 v) AND 0x3F :: octet)) OR push_bit 16 (ucast (ucast (drop_bit 16 v) :: octet))
     OR push_bit 8 (ucast (ucast (drop_bit 8 v) :: octet)) OR ucast (ucast v :: octet) = (v :: 64 word)"
  unfolding mask_byte
proof (rule bit_word_eqI)
  fix n assume v: "v < 2 ^ 30" and "n < LENGTH(64)"
  consider "n < 8" | "8 \<le> n" "n < 16" | "16 \<le> n" "n < 24" | "24 \<le> n" "n < 30" | "30 \<le> n" by linarith
  then show "bit (push_bit 24 (ucast (ucast (drop_bit 24 v) AND mask 6 :: octet)) OR push_bit 16 (ucast (ucast (drop_bit 16 v) :: octet))
     OR push_bit 8 (ucast (ucast (drop_bit 8 v) :: octet)) OR ucast (ucast v :: octet) :: 64 word) n = bit v n"
    by cases (use small_bits [OF v, of n] in \<open>simp_all add: bit_simps less_diff_conv2\<close>)
qed

lemma join_8:
  "v < 2 ^ 62 \<Longrightarrow> push_bit 56 (ucast (ucast (drop_bit 56 v) AND 0x3F :: octet)) OR push_bit 48 (ucast (ucast (drop_bit 48 v) :: octet))
     OR push_bit 40 (ucast (ucast (drop_bit 40 v) :: octet)) OR push_bit 32 (ucast (ucast (drop_bit 32 v) :: octet))
     OR push_bit 24 (ucast (ucast (drop_bit 24 v) :: octet)) OR push_bit 16 (ucast (ucast (drop_bit 16 v) :: octet))
     OR push_bit 8 (ucast (ucast (drop_bit 8 v) :: octet)) OR ucast (ucast v :: octet) = (v :: 64 word)"
  unfolding mask_byte
proof (rule bit_word_eqI)
  fix n assume v: "v < 2 ^ 62" and n: "n < LENGTH(64)"
  consider "n < 8" | "8 \<le> n" "n < 16" | "16 \<le> n" "n < 24" | "24 \<le> n" "n < 32" | "32 \<le> n" "n < 40" | "40 \<le> n" "n < 48"
    | "48 \<le> n" "n < 56" | "56 \<le> n" "n < 62" | "62 \<le> n" by linarith
  then show "bit (push_bit 56 (ucast (ucast (drop_bit 56 v) AND mask 6 :: octet)) OR push_bit 48 (ucast (ucast (drop_bit 48 v) :: octet))
     OR push_bit 40 (ucast (ucast (drop_bit 40 v) :: octet)) OR push_bit 32 (ucast (ucast (drop_bit 32 v) :: octet))
     OR push_bit 24 (ucast (ucast (drop_bit 24 v) :: octet)) OR push_bit 16 (ucast (ucast (drop_bit 16 v) :: octet))
     OR push_bit 8 (ucast (ucast (drop_bit 8 v) :: octet)) OR ucast (ucast v :: octet) :: 64 word) n = bit v n"
    by cases (use small_bits [OF v, of n] n in \<open>simp_all add: bit_simps less_diff_conv2\<close>)
qed

section \<open>Round trip\<close>

definition vlint_sizes :: "int list" where "vlint_sizes = [1, 2, 4, 8]"

lemma encode_len_le:
  "(ossl_quic_vlint_encode_len v \<noteq> 0) = (v < 2 ^ 62)"
  "ossl_quic_vlint_encode_len v \<noteq> 0 \<Longrightarrow> ossl_quic_vlint_encode_len v \<le> k \<Longrightarrow> k = 1 \<Longrightarrow> v < 2 ^ 6"
  "ossl_quic_vlint_encode_len v \<noteq> 0 \<Longrightarrow> ossl_quic_vlint_encode_len v \<le> k \<Longrightarrow> k = 2 \<Longrightarrow> v < 2 ^ 14"
  "ossl_quic_vlint_encode_len v \<noteq> 0 \<Longrightarrow> ossl_quic_vlint_encode_len v \<le> k \<Longrightarrow> k = 4 \<Longrightarrow> v < 2 ^ 30"
  by (auto simp: ossl_quic_vlint_encode_len_def word_less_nat_alt word_le_nat_alt split: if_splits)

lemma decode_encode_n:
  assumes "n \<in> set vlint_sizes" and "ossl_quic_vlint_encode_len v \<noteq> 0" and "int (ossl_quic_vlint_encode_len v) \<le> n"
  shows "ossl_quic_vlint_decode (ossl_quic_vlint_encode_n v n @ rest) = (nat n, Some v)"
proof -
  consider "n = 1" "v < 2 ^ 6" | "n = 2" "v < 2 ^ 14" | "n = 4" "v < 2 ^ 30" | "n = 8" "v < 2 ^ 62"
    using assms encode_len_le [of v] by (auto simp: vlint_sizes_def)
  then show ?thesis
  proof cases
    case 1
    then show ?thesis using join_1 [of v] decode_len_1 [of v]
      by (simp add: ossl_quic_vlint_decode_def ossl_quic_vlint_decode_unchecked_def ossl_quic_vlint_encode_n_def)
  next
    case 2
    then show ?thesis using join_2 [of v]
      by (simp add: ossl_quic_vlint_decode_def ossl_quic_vlint_decode_unchecked_def ossl_quic_vlint_encode_n_def decode_len_tag untag)
  next
    case 3
    then show ?thesis using join_4 [of v]
      by (simp add: ossl_quic_vlint_decode_def ossl_quic_vlint_decode_unchecked_def ossl_quic_vlint_encode_n_def decode_len_tag untag)
  next
    case 4
    then show ?thesis using join_8 [of v]
      by (simp add: ossl_quic_vlint_decode_def ossl_quic_vlint_decode_unchecked_def ossl_quic_vlint_encode_n_def decode_len_tag untag)
  qed
qed

lemma tag_byte: "(fb :: octet) AND 0xC0 = push_bit 6 (drop_bit 6 fb)"
proof -
  have "(0xC0 :: octet) = NOT (mask 6)" by (simp add: mask_eq_exp_minus_1)
  moreover have "fb AND NOT (mask 6) = push_bit 6 (drop_bit 6 fb)" by (rule bit_word_eqI) (auto simp: bit_simps)
  ultimately show ?thesis by (simp only:)
qed

lemma first_byte_cases:
  fixes fb :: octet
  obtains "fb AND 0xC0 = 0" "ossl_quic_vlint_decode_len fb = 1"
  | "fb AND 0xC0 = 0x40" "ossl_quic_vlint_decode_len fb = 2"
  | "fb AND 0xC0 = 0x80" "ossl_quic_vlint_decode_len fb = 4"
  | "fb AND 0xC0 = 0xC0" "ossl_quic_vlint_decode_len fb = 8"
proof -
  define t where "t = drop_bit 6 fb"
  have "unat t = unat fb div 64" unfolding t_def unat_drop_bit_eq by (simp add: drop_bit_eq_div)
  moreover have "unat fb < 256" using unsigned_less [of fb, where 'a = nat] by simp
  ultimately have "unat t < 4" by simp
  then have "unat t = 0 \<or> unat t = 1 \<or> unat t = 2 \<or> unat t = 3" by linarith
  then have "t = 0 \<or> t = 1 \<or> t = 2 \<or> t = 3" by (auto simp: word_unat_eq_iff)
  moreover have "fb AND 0xC0 = push_bit 6 t" by (simp add: tag_byte t_def)
  ultimately show ?thesis using that by (auto simp: ossl_quic_vlint_decode_len_def)
qed

lemma retag: "fb AND 0xC0 = t \<Longrightarrow> t OR (fb AND 0x3F) = fb" for fb :: octet
proof -
  have "(0xC0 OR 0x3F :: octet) = - 1" by simp
  then have "fb = (fb AND 0xC0) OR (fb AND 0x3F)" by (simp only: and.right_neutral flip: bit.conj_disj_distrib)
  then show "fb AND 0xC0 = t \<Longrightarrow> t OR (fb AND 0x3F) = fb" by simp
qed

lemma split_octets:
  fixes a b c d e f g h :: octet
  defines "v2 \<equiv> push_bit 8 (ucast (a AND 0x3F)) OR ucast b :: 64 word"
    and "v4 \<equiv> push_bit 24 (ucast (a AND 0x3F)) OR push_bit 16 (ucast b) OR push_bit 8 (ucast c) OR ucast d :: 64 word"
    and "v8 \<equiv> push_bit 56 (ucast (a AND 0x3F)) OR push_bit 48 (ucast b) OR push_bit 40 (ucast c) OR push_bit 32 (ucast d)
      OR push_bit 24 (ucast e) OR push_bit 16 (ucast f) OR push_bit 8 (ucast g) OR ucast h :: 64 word"
  shows "ucast (drop_bit 8 v2) AND 0x3F = a AND 0x3F" "ucast v2 = b"
    "ucast (drop_bit 24 v4) AND 0x3F = a AND 0x3F" "ucast (drop_bit 16 v4) = b" "ucast (drop_bit 8 v4) = c" "ucast v4 = d"
    "ucast (drop_bit 56 v8) AND 0x3F = a AND 0x3F" "ucast (drop_bit 48 v8) = b" "ucast (drop_bit 40 v8) = c"
    "ucast (drop_bit 32 v8) = d" "ucast (drop_bit 24 v8) = e" "ucast (drop_bit 16 v8) = f" "ucast (drop_bit 8 v8) = g"
    "ucast v8 = h"
  unfolding v2_def v4_def v8_def mask_byte
  by (rule bit_word_eqI, auto simp: bit_simps dest: bit_imp_le_length)+

lemmas vlint_defs = ossl_quic_vlint_decode_def ossl_quic_vlint_decode_unchecked_def ossl_quic_vlint_encode_n_def Let_def

lemma take_octets:
  "1 \<le> length buf \<Longrightarrow> take 1 buf = [buf ! 0]"
  "2 \<le> length buf \<Longrightarrow> take 2 buf = [buf ! 0, buf ! 1]"
  "4 \<le> length buf \<Longrightarrow> take 4 buf = [buf ! 0, buf ! 1, buf ! 2, buf ! 3]"
  "8 \<le> length buf \<Longrightarrow> take 8 buf = [buf ! 0, buf ! 1, buf ! 2, buf ! 3, buf ! 4, buf ! 5, buf ! 6, buf ! 7]"
  by (auto simp: list_eq_iff_nth_eq nth_Cons numeral_eq_Suc less_Suc_eq)

lemma encode_decode:
  assumes "ossl_quic_vlint_decode buf = (k, Some v)"
  shows "k \<le> length buf \<and> int k \<in> set vlint_sizes \<and> ossl_quic_vlint_encode_n v (int k) = take k buf"
proof -
  let ?fb = "buf ! 0"
  have k: "k = ossl_quic_vlint_decode_len ?fb" "k \<le> length buf" "v = ossl_quic_vlint_decode_unchecked buf"
    using assms by (auto simp: ossl_quic_vlint_decode_def Let_def split: if_splits)
  show ?thesis
  proof (cases rule: first_byte_cases [of ?fb])
    case 1
    have u: "(ucast (ucast x :: 64 word) :: octet) = x" for x by (rule bit_word_eqI) (auto simp: bit_simps)
    have "ucast v = ?fb" using k(3) 1 retag [OF 1(1)] by (simp add: vlint_defs u)
    then show ?thesis using k 1 take_octets(1) [of buf] by (simp add: vlint_defs vlint_sizes_def)
  next
    case 2
    then have v: "v = push_bit 8 (ucast (?fb AND 0x3F)) OR ucast (buf ! 1)" using k(3) by (simp add: vlint_defs)
    have "ucast (0x40 OR (drop_bit 8 v AND 0x3F)) = ?fb"
      unfolding ucast_tagged v split_octets using retag [OF 2(1)] by simp
    moreover have "ucast v = buf ! 1" unfolding v split_octets ..
    ultimately show ?thesis using k 2 by (simp add: ossl_quic_vlint_encode_n_def vlint_sizes_def take_octets)
  next
    case 3
    then have v: "v = push_bit 24 (ucast (?fb AND 0x3F)) OR push_bit 16 (ucast (buf ! 1)) OR push_bit 8 (ucast (buf ! 2))
      OR ucast (buf ! 3)" using k(3) by (simp add: vlint_defs)
    have "ucast (0x80 OR (drop_bit 24 v AND 0x3F)) = ?fb"
      unfolding ucast_tagged v split_octets using retag [OF 3(1)] by simp
    moreover have "ucast (drop_bit 16 v) = buf ! 1" "ucast (drop_bit 8 v) = buf ! 2" "ucast v = buf ! 3"
      unfolding v split_octets by rule+
    ultimately show ?thesis using k 3 by (simp add: ossl_quic_vlint_encode_n_def vlint_sizes_def take_octets)
  next
    case 4
    then have v: "v = push_bit 56 (ucast (?fb AND 0x3F)) OR push_bit 48 (ucast (buf ! 1)) OR push_bit 40 (ucast (buf ! 2))
      OR push_bit 32 (ucast (buf ! 3)) OR push_bit 24 (ucast (buf ! 4)) OR push_bit 16 (ucast (buf ! 5))
      OR push_bit 8 (ucast (buf ! 6)) OR ucast (buf ! 7)" using k(3) by (simp add: vlint_defs)
    have "ucast (0xC0 OR (drop_bit 56 v AND 0x3F)) = ?fb"
      unfolding ucast_tagged v split_octets using retag [OF 4(1)] by simp
    moreover have "ucast (drop_bit 48 v) = buf ! 1" "ucast (drop_bit 40 v) = buf ! 2" "ucast (drop_bit 32 v) = buf ! 3"
      "ucast (drop_bit 24 v) = buf ! 4" "ucast (drop_bit 16 v) = buf ! 5" "ucast (drop_bit 8 v) = buf ! 6" "ucast v = buf ! 7"
      unfolding v split_octets by rule+
    ultimately show ?thesis using k 4 by (simp add: ossl_quic_vlint_encode_n_def vlint_sizes_def take_octets)
  qed
qed

section \<open>Properties\<close>

lemma length_encode_n: "n \<in> set vlint_sizes \<Longrightarrow> length (ossl_quic_vlint_encode_n v n) = nat n"
  by (auto simp: vlint_sizes_def ossl_quic_vlint_encode_n_def)

lemma decode_prefix: "ossl_quic_vlint_decode (take k (buf @ rest)) = (0, None)" if
  "ossl_quic_vlint_decode (buf @ rest) = (length buf, Some v)" "k < length buf"
proof -
  have "length buf = ossl_quic_vlint_decode_len ((buf @ rest) ! 0)"
    using that by (auto simp: ossl_quic_vlint_decode_def Let_def split: if_splits)
  moreover have "0 < k \<Longrightarrow> take k (buf @ rest) ! 0 = (buf @ rest) ! 0"
    by (simp only: nth_take)
  ultimately show ?thesis using that(2) by (cases "k = 0") (auto simp: ossl_quic_vlint_decode_def Let_def)
qed

text \<open>
  C30: the variable-length integers round-trip, in both directions. A value written in one of the sizes 1, 2, 4 or 8
  that can hold it is read back, with that size, whatever follows it, and every proper prefix is refused;
  \<open>ossl_quic_vlint_encode\<close> uses the number of bytes that \<open>ossl_quic_vlint_encode_len\<close> announces. Conversely, whatever
  bytes are read successfully are those that writing the value in the same size gives.
\<close>
theorem vlint_roundtrip:
  "(n \<in> {1, 2, 4, 8} \<and> v < 2 ^ 62 \<and> int (ossl_quic_vlint_encode_len v) \<le> n \<longrightarrow>
     ossl_quic_vlint_decode (ossl_quic_vlint_encode_n v n @ rest) = (nat n, Some v) \<and>
     (\<forall>k < nat n. ossl_quic_vlint_decode (take k (ossl_quic_vlint_encode_n v n)) = (0, None)) \<and>
     length (ossl_quic_vlint_encode v) = ossl_quic_vlint_encode_len v) \<and>
   (ossl_quic_vlint_decode buf = (m, Some u) \<longrightarrow> ossl_quic_vlint_encode_n u (int m) = take m buf \<and> m \<le> length buf)"
proof (intro conjI impI allI; (elim conjE)?)
  assume n: "n \<in> {1, 2, 4, 8}" and v: "v < 2 ^ 62" and l: "int (ossl_quic_vlint_encode_len v) \<le> n"
  have n': "n \<in> set vlint_sizes" using n by (simp add: vlint_sizes_def)
  have e: "ossl_quic_vlint_encode_len v \<noteq> 0" using v encode_len_le(1) [of v] by blast
  note dec = decode_encode_n [OF n' e l]
  show "ossl_quic_vlint_decode (ossl_quic_vlint_encode_n v n @ rest) = (nat n, Some v)" by (rule dec)
  show "length (ossl_quic_vlint_encode v) = ossl_quic_vlint_encode_len v"
    using e unfolding ossl_quic_vlint_encode_def
    by (subst length_encode_n) (auto simp: vlint_sizes_def ossl_quic_vlint_encode_len_def split: if_splits)
  fix k assume "k < nat n"
  then show "ossl_quic_vlint_decode (take k (ossl_quic_vlint_encode_n v n)) = (0, None)"
    using decode_prefix [of "ossl_quic_vlint_encode_n v n" "[]" v k] dec [of "[]"] length_encode_n [OF n'] by simp
qed (use encode_decode in blast)+

theorem vlint_roundtrip_witness:
  "ossl_quic_vlint_decode (ossl_quic_vlint_encode_n 37 2 @ [9]) = (2, Some 37) \<and>
   ossl_quic_vlint_encode_n 37 2 = [0x40, 37] \<and> ossl_quic_vlint_encode_n 37 (int 2) = take 2 [0x40, 37, 9]"
proof -
  have d: "ossl_quic_vlint_decode [0x40, 37, 9] = (2, Some 37)"
    by (simp add: vlint_defs ossl_quic_vlint_decode_len_def)
  show ?thesis
    using vlint_roundtrip [of 2 37 "[9]" "[0x40, 37, 9]" 2 37] d
    by (simp add: ossl_quic_vlint_encode_n_def ossl_quic_vlint_encode_len_def)
qed

end
