(* ===== verification/Ossl_Common.thy ===== *)
theory Ossl_Common
  imports TP_Prelude
begin

text \<open>
  What the containers of the vendored OpenSSL share: the allocation of arrays and the contract of a comparison function.
  The contents of newly allocated storage, which C leaves undetermined, come from the
  allocator, an argument that for a number of cells returns their contents or fails.
\<close>

section \<open>Allocation\<close>

type_synonym 'c allocator = "nat \<Rightarrow> 'c list option"

definition realloc :: "'c allocator \<Rightarrow> 'c list \<Rightarrow> nat \<Rightarrow> 'c list option" where
  "realloc alloc cs n = map_option (\<lambda>new. take n cs @ new) (alloc (n - length cs))"

definition alloc_ok :: "'c allocator \<Rightarrow> bool" where
  \<comment> \<open>an allocation that succeeds gives the number of cells asked for\<close>
  "alloc_ok al \<longleftrightarrow> (\<forall>n cs. al n = Some cs \<longrightarrow> length cs = n)"

lemma realloc_ok:
  assumes "alloc_ok al" and "realloc al cs n = Some cs'"
  shows "length cs' = n" and "k \<le> length cs \<Longrightarrow> k \<le> n \<Longrightarrow> take k cs' = take k cs"
  using assms by (auto simp: realloc_def alloc_ok_def min_def)

section \<open>Comparison functions\<close>

text \<open>A comparison function orders its arguments by a key.\<close>

locale cmp_order =
  fixes cmp :: "'a \<Rightarrow> 'a \<Rightarrow> int" and key :: "'a \<Rightarrow> 'k::linorder"
  assumes cmp_less: "cmp x y < 0 \<longleftrightarrow> key x < key y"
    and cmp_greater: "0 < cmp x y \<longleftrightarrow> key y < key x"
begin

lemma cmp_nonneg: "0 \<le> cmp x y \<longleftrightarrow> key y \<le> key x"
  using cmp_less [of x y] by (simp add: not_less [symmetric])

lemma cmp_nonpos: "cmp x y \<le> 0 \<longleftrightarrow> key x \<le> key y"
  using cmp_greater [of x y] by (simp add: not_less [symmetric])

lemma cmp_equal: "cmp x y = 0 \<longleftrightarrow> key x = key y"
  using cmp_less [of x y] cmp_greater [of x y] by (metis less_linear less_irrefl)

end

end
