(* ===== verification/Safe_Math.thy ===== *)
theory Safe_Math
  imports TP_Prelude "HOL-Library.Signed_Division"
begin

unbundle bit_operations_syntax

text \<open>
  The overflow-checked arithmetic of the vendored OpenSSL, \<open>include/internal/safe_math.h\<close>. Its macros define one
  set of functions for each integer type. Here the unsigned functions are generic in the width of a word type, and
  the signed functions take the width \<open>w\<close> of their type, whose values are the integers between \<open>MINS w\<close> and
  \<open>MAXS w\<close>. A function takes the value of \<open>*err\<close> and returns its result with the new value of \<open>*err\<close>. The
  definitions follow the portable branches of the header; for addition, subtraction and multiplication the
  branches for compilers with overflow builtins are the functions ending in \<open>_builtin\<close>.
\<close>

section \<open>Ranges\<close>

definition MINS :: "nat \<Rightarrow> int" where "MINS w = - (2 ^ (w - 1))"
definition MAXS :: "nat \<Rightarrow> int" where "MAXS w = - MINS w - 1"

abbreviation MAXU :: "'a::len word" where "MAXU \<equiv> - 1"

definition in_range :: "nat \<Rightarrow> int \<Rightarrow> bool" where
  "in_range w a \<longleftrightarrow> MINS w \<le> a \<and> a \<le> MAXS w"

section \<open>Unsigned types\<close>

definition safe_add_u :: "'a::len word \<Rightarrow> 'a word \<Rightarrow> bool \<Rightarrow> 'a word \<times> bool" where
  "safe_add_u a b err = (a + b, err \<or> b > MAXU - a)"

definition safe_sub_u :: "'a::len word \<Rightarrow> 'a word \<Rightarrow> bool \<Rightarrow> 'a word \<times> bool" where
  "safe_sub_u a b err = (a - b, err \<or> b > a)"

definition safe_mul_u :: "'a::len word \<Rightarrow> 'a word \<Rightarrow> bool \<Rightarrow> 'a word \<times> bool" where
  "safe_mul_u a b err = (a * b, err \<or> b \<noteq> 0 \<and> a > MAXU div b)"

definition safe_div_u :: "'a::len word \<Rightarrow> 'a word \<Rightarrow> bool \<Rightarrow> 'a word \<times> bool" where
  "safe_div_u a b err = (if b \<noteq> 0 then (a div b, err) else (MAXU, True))"

definition safe_mod_u :: "'a::len word \<Rightarrow> 'a word \<Rightarrow> bool \<Rightarrow> 'a word \<times> bool" where
  "safe_mod_u a b err = (if b \<noteq> 0 then (a mod b, err) else (0, True))"

definition safe_neg_u :: "'a::len word \<Rightarrow> bool \<Rightarrow> 'a word \<times> bool" where
  "safe_neg_u a err = (if a = 0 then (a, err) else (1 + NOT a, True))"

definition safe_abs_u :: "'a::len word \<Rightarrow> bool \<Rightarrow> 'a word \<times> bool" where
  "safe_abs_u a err = (a, err)"

definition safe_muldiv_u :: "'a::len word \<Rightarrow> 'a word \<Rightarrow> 'a word \<Rightarrow> bool \<Rightarrow> 'a word \<times> bool" where
  "safe_muldiv_u a b c err =
     (if c = 0 then (if a = 0 \<or> b = 0 then 0 else MAXU, True)
      else case safe_mul_u a b False of
             (x, False) \<Rightarrow> (x div c, err)
           | (x, True) \<Rightarrow>
               let (a, b) = (if b > a then (b, a) else (a, b));
                   (x, err) = safe_mul_u (a mod c) b err;
                   (y, err) = safe_mul_u (a div c) b err
               in safe_add_u y (x div c) err)"

definition safe_div_round_up_u :: "'a::len word \<Rightarrow> 'a word \<Rightarrow> bool \<Rightarrow> 'a word \<times> bool" where
  "safe_div_round_up_u a b err =
     (if b > 0 \<and> a > 0 then
        (if a < MAXU - b then ((a + b - 1) div b, err) else (a div b + (if a mod b \<noteq> 0 then 1 else 0), err))
      else if b = 0 then (if a = 0 then 0 else MAXU, True)
      else if a = 0 then (0, err)
      else let (x, err) = safe_mod_u a b err; (d, err) = safe_div_u a b err
           in safe_add_u d (if x \<noteq> 0 then 1 else 0) err)"

section \<open>Signed types\<close>

definition safe_add_s :: "nat \<Rightarrow> int \<Rightarrow> int \<Rightarrow> bool \<Rightarrow> int \<times> bool" where
  "safe_add_s w a b err =
     (if (a < 0) \<noteq> (b < 0) \<or> a > 0 \<and> b \<le> MAXS w - a \<or> a < 0 \<and> b \<ge> MINS w - a \<or> a = 0 then (a + b, err)
      else (if a < 0 then MINS w else MAXS w, True))"

definition safe_add_s_builtin :: "nat \<Rightarrow> int \<Rightarrow> int \<Rightarrow> bool \<Rightarrow> int \<times> bool" where
  "safe_add_s_builtin w a b err =
     (if in_range w (a + b) then (a + b, err) else (if a < 0 then MINS w else MAXS w, True))"

definition safe_sub_s :: "nat \<Rightarrow> int \<Rightarrow> int \<Rightarrow> bool \<Rightarrow> int \<times> bool" where
  "safe_sub_s w a b err =
     (if \<not> ((a < 0) \<noteq> (b < 0)) \<or> b > 0 \<and> a \<ge> MINS w + b \<or> b < 0 \<and> a \<le> MAXS w + b \<or> b = 0 then (a - b, err)
      else (if a < 0 then MINS w else MAXS w, True))"

definition safe_sub_s_builtin :: "nat \<Rightarrow> int \<Rightarrow> int \<Rightarrow> bool \<Rightarrow> int \<times> bool" where
  "safe_sub_s_builtin w a b err =
     (if in_range w (a - b) then (a - b, err) else (if a < 0 then MINS w else MAXS w, True))"

definition safe_mul_s :: "nat \<Rightarrow> int \<Rightarrow> int \<Rightarrow> bool \<Rightarrow> int \<times> bool" where
  "safe_mul_s w a b err =
     (if a = 0 \<or> b = 0 then (0, err)
      else if a = 1 then (b, err)
      else if b = 1 then (a, err)
      else let x = (if a < 0 then - a else a); y = (if b < 0 then - b else b)
           in if a \<noteq> MINS w \<and> b \<noteq> MINS w \<and> x \<le> MAXS w sdiv y then (a * b, err)
              else (if (a < 0) \<noteq> (b < 0) then MINS w else MAXS w, True))"

definition safe_mul_s_builtin :: "nat \<Rightarrow> int \<Rightarrow> int \<Rightarrow> bool \<Rightarrow> int \<times> bool" where
  "safe_mul_s_builtin w a b err =
     (if in_range w (a * b) then (a * b, err) else (if (a < 0) \<noteq> (b < 0) then MINS w else MAXS w, True))"

definition safe_div_s :: "nat \<Rightarrow> int \<Rightarrow> int \<Rightarrow> bool \<Rightarrow> int \<times> bool" where
  "safe_div_s w a b err =
     (if b = 0 then (if a < 0 then MINS w else MAXS w, True)
      else if b = - 1 \<and> a = MINS w then (MAXS w, True)
      else (a sdiv b, err))"

definition safe_mod_s :: "nat \<Rightarrow> int \<Rightarrow> int \<Rightarrow> bool \<Rightarrow> int \<times> bool" where
  "safe_mod_s w a b err =
     (if b = 0 then (0, True)
      else if b = - 1 \<and> a = MINS w then (MAXS w, True)
      else (a smod b, err))"

definition safe_neg_s :: "nat \<Rightarrow> int \<Rightarrow> bool \<Rightarrow> int \<times> bool" where
  "safe_neg_s w a err = (if a \<noteq> MINS w then (- a, err) else (MINS w, True))"

definition safe_abs_s :: "nat \<Rightarrow> int \<Rightarrow> bool \<Rightarrow> int \<times> bool" where
  "safe_abs_s w a err = (if a \<noteq> MINS w then (if a < 0 then - a else a, err) else (MINS w, True))"

definition safe_muldiv_s :: "nat \<Rightarrow> int \<Rightarrow> int \<Rightarrow> int \<Rightarrow> bool \<Rightarrow> int \<times> bool" where
  "safe_muldiv_s w a b c err =
     (if c = 0 then (if a = 0 \<or> b = 0 then 0 else MAXS w, True)
      else case safe_mul_s w a b False of
             (x, False) \<Rightarrow> safe_div_s w x c err
           | (x, True) \<Rightarrow>
               let (a, b) = (if b > a then (b, a) else (a, b));
                   (q, err) = safe_div_s w a c err;
                   (r, err) = safe_mod_s w a c err;
                   (x, err) = safe_mul_s w r b err;
                   (y, err) = safe_mul_s w q b err;
                   (q, err) = safe_div_s w x c err
               in safe_add_s w y q err)"

definition safe_div_round_up_s :: "nat \<Rightarrow> int \<Rightarrow> int \<Rightarrow> bool \<Rightarrow> int \<times> bool" where
  "safe_div_round_up_s w a b err =
     (if b > 0 \<and> a > 0 then
        (if a < MAXS w - b then ((a + b - 1) sdiv b, err) else (a sdiv b + (if a smod b \<noteq> 0 then 1 else 0), err))
      else if b = 0 then (if a = 0 then 0 else MAXS w, True)
      else if a = 0 then (0, err)
      else let (x, err) = safe_mod_s w a b err; (d, err) = safe_div_s w a b err
           in safe_add_s w d (if x \<noteq> 0 then 1 else 0) err)"

section \<open>The contract of a checked operation\<close>

text \<open>
  A checked operation reports an error exactly when the exact result is not a value of the type, and returns
  the exact result otherwise. An error, once reported, is never withdrawn, so a sequence of checked operations
  that ends without one has computed exactly.
\<close>

locale checked_op =
  fixes f :: "'v \<Rightarrow> 'v \<Rightarrow> bool \<Rightarrow> 'v \<times> bool"
    and exact :: "int \<Rightarrow> int \<Rightarrow> int"
    and val :: "'v \<Rightarrow> int"
    and fits :: "int \<Rightarrow> bool"
  assumes op_err: "fits (val a) \<Longrightarrow> fits (val b) \<Longrightarrow> snd (f a b e) = (e \<or> \<not> fits (exact (val a) (val b)))"
    and op_val: "fits (val a) \<Longrightarrow> fits (val b) \<Longrightarrow> fits (exact (val a) (val b)) \<Longrightarrow>
      val (fst (f a b e)) = exact (val a) (val b)"
begin

lemma no_error:
  assumes "f a b e = (v, e')" and "\<not> e'" and "fits (val a)" and "fits (val b)"
  shows "\<not> e \<and> val v = exact (val a) (val b) \<and> fits (val v)"
  using op_err [OF assms(3,4), of e] op_val [OF assms(3,4), of e] assms(1,2) by auto

lemma no_overflow:
  assumes "f a b e = (v, e')" and "fits (exact (val a) (val b))" and "fits (val a)" and "fits (val b)"
  shows "e' = e \<and> val v = exact (val a) (val b)"
  using op_err [OF assms(3,4), of e] op_val [OF assms(3,4,2), of e] assms(1,2) by auto

end

section \<open>Unsigned operations are checked\<close>

definition fits_u :: "'a::len itself \<Rightarrow> int \<Rightarrow> bool" where
  "fits_u ty k \<longleftrightarrow> 0 \<le> k \<and> k < 2 ^ LENGTH('a)"

lemma fits_uint [simp]: "fits_u TYPE('a) (uint (a :: 'a::len word))"
  by (simp add: fits_u_def)

lemma uint_MAXU: "uint (MAXU :: 'a::len word) = 2 ^ LENGTH('a) - 1"
  by (simp add: uint_word_ariths(1) unsigned_minus_1_eq_mask mask_eq_exp_minus_1)

lemma add_u_overflow: "(b > MAXU - a) = (2 ^ LENGTH('a) \<le> uint a + uint b)" for a b :: "'a::len word"
proof -
  have "uint (MAXU - a) = uint (MAXU :: 'a word) - uint a"
    by (rule uint_sub_lem [THEN iffD1]) (simp add: uint_MAXU uint_lt2p zle_diff1_eq)
  then show ?thesis by (simp add: word_less_def uint_MAXU) linarith
qed

lemma mul_u_overflow: "(b \<noteq> 0 \<and> a > MAXU div b) = (2 ^ LENGTH('a) \<le> uint a * uint b)" for a b :: "'a::len word"
proof (cases "b = 0")
  case False
  then have b: "0 < unat b" by (simp add: unat_gt_0)
  have "(a > MAXU div b) = ((2 ^ LENGTH('a) - 1) div unat b < unat a)"
    by (simp add: word_less_nat_alt unat_div unsigned_minus_1_eq_mask mask_eq_exp_minus_1)
  also have "\<dots> = (2 ^ LENGTH('a) - 1 < unat a * unat b)" using b by (simp add: div_less_iff_less_mult)
  also have "\<dots> = (2 ^ LENGTH('a) \<le> unat a * unat b)" by (metis Suc_le_eq Suc_pred' zero_less_numeral zero_less_power)
  also have "\<dots> = (int (2 ^ LENGTH('a)) \<le> int (unat a * unat b))" by (simp only: of_nat_le_iff)
  also have "\<dots> = (2 ^ LENGTH('a) \<le> uint a * uint b)" by (simp only: of_nat_mult of_nat_power of_nat_numeral uint_nat)
  finally show ?thesis using False by blast
qed simp

interpretation add_u: checked_op "safe_add_u :: 'a::len word \<Rightarrow> 'a word \<Rightarrow> bool \<Rightarrow> 'a word \<times> bool" "(+)" uint "fits_u TYPE('a)"
proof
  fix a b :: "'a word" and e
  have ge: "0 \<le> uint a + uint b" by simp
  show "snd (safe_add_u a b e) = (e \<or> \<not> fits_u TYPE('a) (uint a + uint b))"
    using ge by (simp add: safe_add_u_def fits_u_def add_u_overflow not_less)
  show "uint (fst (safe_add_u a b e)) = uint a + uint b" if "fits_u TYPE('a) (uint a)" "fits_u TYPE('a) (uint b)" "fits_u TYPE('a) (uint a + uint b)"
    using that(3) by (simp add: safe_add_u_def fits_u_def uint_word_ariths)
qed

interpretation sub_u: checked_op "safe_sub_u :: 'a::len word \<Rightarrow> 'a word \<Rightarrow> bool \<Rightarrow> 'a word \<times> bool" "(-)" uint "fits_u TYPE('a)"
proof
  fix a b :: "'a word" and e
  have lt: "uint a - uint b < 2 ^ LENGTH('a)" using uint_lt2p [of a] uint_ge_0 [of b] by linarith
  show "snd (safe_sub_u a b e) = (e \<or> \<not> fits_u TYPE('a) (uint a - uint b))"
    using lt by (simp add: safe_sub_u_def fits_u_def word_less_def not_le)
  show "uint (fst (safe_sub_u a b e)) = uint a - uint b" if "fits_u TYPE('a) (uint a)" "fits_u TYPE('a) (uint b)" "fits_u TYPE('a) (uint a - uint b)"
    using that(3) by (simp add: safe_sub_u_def fits_u_def uint_word_ariths)
qed

interpretation mul_u: checked_op "safe_mul_u :: 'a::len word \<Rightarrow> 'a word \<Rightarrow> bool \<Rightarrow> 'a word \<times> bool" "(*)" uint "fits_u TYPE('a)"
proof
  fix a b :: "'a word" and e
  have ge: "0 \<le> uint a * uint b" by simp
  show "snd (safe_mul_u a b e) = (e \<or> \<not> fits_u TYPE('a) (uint a * uint b))"
    using ge mul_u_overflow [of b a] by (auto simp: safe_mul_u_def fits_u_def not_less)
  show "uint (fst (safe_mul_u a b e)) = uint a * uint b" if "fits_u TYPE('a) (uint a)" "fits_u TYPE('a) (uint b)" "fits_u TYPE('a) (uint a * uint b)"
    using that(3) by (simp add: safe_mul_u_def fits_u_def uint_word_ariths)
qed

section \<open>Signed operations are checked\<close>

lemma MINS_neg: "MINS w < 0" by (simp add: MINS_def)
lemma MAXS_nonneg: "0 \<le> MAXS w" by (simp add: MAXS_def MINS_def)

lemma add_s_builtin: "in_range w a \<Longrightarrow> in_range w b \<Longrightarrow> safe_add_s w a b err = safe_add_s_builtin w a b err"
  by (auto simp: safe_add_s_def safe_add_s_builtin_def in_range_def MAXS_def)

lemma sub_s_builtin: "in_range w a \<Longrightarrow> in_range w b \<Longrightarrow> safe_sub_s w a b err = safe_sub_s_builtin w a b err"
  using MINS_neg [of w] by (auto simp: safe_sub_s_def safe_sub_s_builtin_def in_range_def MAXS_def)

lemma abs_le_MAXS: "in_range w k = (\<bar>k\<bar> \<le> MAXS w \<or> k = MINS w)"
  using MINS_neg [of w] by (auto simp: in_range_def MAXS_def)

lemma le_sdiv_iff: "0 < y \<Longrightarrow> 0 \<le> m \<Longrightarrow> (x \<le> m sdiv y) = (x * y \<le> m)" for x y m :: int
proof -
  assume y: "0 < y" and m: "0 \<le> m"
  have "m sdiv y = m div y" using y m by (simp add: signed_divide_int_def sgn_if)
  moreover have "(x \<le> m div y) = (x * y \<le> m)"
  proof
    assume "x \<le> m div y"
    then have "x * y \<le> m div y * y" using y by simp
    also have "\<dots> \<le> m" using y by (metis add_le_same_cancel1 div_mult_mod_eq le_add_same_cancel1 pos_mod_sign)
    finally show "x * y \<le> m" .
  next
    assume "x * y \<le> m"
    then have "x * y div y \<le> m div y" by (rule zdiv_mono1 [OF _ y])
    then show "x \<le> m div y" using y by simp
  qed
  ultimately show ?thesis by simp
qed

text \<open>
  The portable signed multiplication agrees with the builtin except for a product equal to the least value of the
  type, where it reports an error that the builtin does not.
\<close>

lemma mul_s_builtin:
  assumes "in_range w a" and "in_range w b"
  shows "safe_mul_s w a b err =
    (if a * b = MINS w \<and> a \<noteq> 1 \<and> b \<noteq> 1 then (MINS w, True) else safe_mul_s_builtin w a b err)"
proof (cases "a = 0 \<or> b = 0 \<or> a = 1 \<or> b = 1")
  case True
  moreover have "in_range w 0" using MINS_neg [of w] by (simp add: in_range_def MAXS_def)
  ultimately show ?thesis
    using assms MINS_neg [of w] by (auto simp: safe_mul_s_def safe_mul_s_builtin_def)
next
  case False
  let ?x = "\<bar>a\<bar>" and ?y = "\<bar>b\<bar>"
  have y: "0 < ?y" using False by simp
  have test: "(?x \<le> MAXS w sdiv ?y) = (\<bar>a * b\<bar> \<le> MAXS w)"
    using le_sdiv_iff [OF y MAXS_nonneg] by (simp add: abs_mult)
  have gt: "1 \<le> ?x" "1 \<le> ?y" using False by auto
  have "?x * 1 \<le> ?x * ?y" "1 * ?y \<le> ?x * ?y" using gt by (intro mult_left_mono mult_right_mono; simp)+
  then have big: "\<bar>a * b\<bar> \<le> MAXS w \<Longrightarrow> a \<noteq> MINS w \<and> b \<noteq> MINS w"
    using MINS_neg [of w] by (auto simp: abs_mult MAXS_def)
  have sgn: "a * b = MINS w \<Longrightarrow> (a < 0) \<noteq> (b < 0)"
    using MINS_neg [of w] by (metis False linorder_neqE_linordered_idom mult_neg_neg mult_pos_pos not_less_iff_gr_or_eq)
  have "safe_mul_s w a b err = (if \<bar>a * b\<bar> \<le> MAXS w then (a * b, err)
      else (if (a < 0) \<noteq> (b < 0) then MINS w else MAXS w, True))"
    using False big test by (auto simp: safe_mul_s_def Let_def abs_if)
  then show ?thesis
    using False sgn MINS_neg [of w] by (auto simp: safe_mul_s_builtin_def abs_le_MAXS MAXS_def)
qed

interpretation add_s: checked_op "safe_add_s w" "(+)" "\<lambda>k. k" "in_range w"
  by unfold_locales (simp_all add: add_s_builtin safe_add_s_builtin_def)

interpretation sub_s: checked_op "safe_sub_s w" "(-)" "\<lambda>k. k" "in_range w"
  by unfold_locales (simp_all add: sub_s_builtin safe_sub_s_builtin_def)

interpretation mul_s: checked_op "safe_mul_s_builtin w" "(*)" "\<lambda>k. k" "in_range w"
  by unfold_locales (simp_all add: safe_mul_s_builtin_def)

lemma mul_s_no_error:
  assumes "safe_mul_s w a b e = (v, e')" and "\<not> e'" and "in_range w a" and "in_range w b"
  shows "\<not> e \<and> v = a * b \<and> in_range w v"
  using assms mul_s.no_error [of w a b e v e'] mul_s_builtin [OF assms(3,4), of e] by (auto split: if_splits)

section \<open>Multiplication followed by division\<close>

lemma muldiv_nat: "0 < c \<Longrightarrow> (a div c) * b + (a mod c) * b div c = a * b div c" for a b c :: int
proof -
  assume c: "0 < c"
  have "a * b = (a div c * b) * c + (a mod c) * b" by (metis (no_types, opaque_lifting) distrib_right div_mult_mod_eq mult.assoc mult.commute)
  then have "a * b div c = ((a div c * b) * c + (a mod c) * b) div c" by simp
  then show ?thesis using c by simp
qed

lemma muldiv_u_split:
  fixes a b c :: "'a::len word"
  assumes c: "c \<noteq> 0" and r: "(let (x, err) = safe_mul_u (a mod c) b False; (y, err) = safe_mul_u (a div c) b err
      in safe_add_u y (x div c) err) = (v, False)"
  shows "uint v = uint a * uint b div uint c"
proof -
  obtain x e1 where x: "safe_mul_u (a mod c) b False = (x, e1)" by force
  obtain y e2 where y: "safe_mul_u (a div c) b e1 = (y, e2)" by force
  have v: "safe_add_u y (x div c) e2 = (v, False)" using r x y by simp
  have e2: "\<not> e2" and v': "uint v = uint y + uint (x div c)" using add_u.no_error [OF v] by auto
  then have e1: "\<not> e1" and y': "uint y = uint (a div c) * uint b" using mul_u.no_error [OF y] by auto
  then have x': "uint x = uint (a mod c) * uint b" using mul_u.no_error [OF x] by auto
  have "0 < uint c" using c uint_ge_0 [of c] uint_0_iff [of c] by linarith
  then show ?thesis using muldiv_nat [of "uint c" "uint a" "uint b"]
    by (simp only: v' y' x' uint_div uint_mod)
qed

lemma muldiv_u:
  fixes a b c :: "'a::len word"
  assumes "c \<noteq> 0" and m: "safe_muldiv_u a b c False = (v, e)"
  shows "\<not> e \<Longrightarrow> uint v = uint a * uint b div uint c"
    and "uint a * uint b < 2 ^ LENGTH('a) \<Longrightarrow> \<not> e"
proof -
  obtain x e1 where x: "safe_mul_u a b False = (x, e1)" by force
  have e1: "e1 = (\<not> fits_u TYPE('a) (uint a * uint b))" using mul_u.op_err [of a b False] x by simp
  show "\<not> e" if "uint a * uint b < 2 ^ LENGTH('a)"
    using that e1 x m assms(1) by (simp add: safe_muldiv_u_def fits_u_def)
  show "uint v = uint a * uint b div uint c" if "\<not> e"
  proof (cases e1)
    case False
    then have "uint x = uint a * uint b" "v = x div c"
      using mul_u.no_error [OF x] x m assms(1) by (auto simp: safe_muldiv_u_def)
    then show ?thesis by (simp only: uint_div)
  next
    case True
    show ?thesis
    proof (cases "b > a")
      case bigger: True
      then show ?thesis using muldiv_u_split [OF assms(1), of b a v] that True m assms(1) x
        by (simp add: safe_muldiv_u_def mult.commute)
    next
      case smaller: False
      then show ?thesis using muldiv_u_split [OF assms(1), of a b v] that True m assms(1) x
        by (simp add: safe_muldiv_u_def)
    qed
  qed
qed

lemma sdiv_sgn: "(sgn u * k) sdiv c = sgn u * sgn c * (k div \<bar>c\<bar>)" if "0 \<le> k" for k u c :: int
  using that by (cases "k = 0 \<or> u = 0") (auto simp: signed_divide_int_def abs_mult sgn_mult)

lemma muldiv_trunc: "c \<noteq> 0 \<Longrightarrow> (a sdiv c) * b + ((a smod c) * b) sdiv c = (a * b) sdiv c" for a b c :: int
proof -
  assume c: "c \<noteq> 0"
  have ab: "a * b = sgn (a * b) * (\<bar>a\<bar> * \<bar>b\<bar>)" by (simp add: sgn_mult_abs flip: abs_mult)
  have b: "b = sgn b * \<bar>b\<bar>" by (simp add: sgn_mult_abs)
  have r: "(a smod c) * b = sgn (a * b) * ((\<bar>a\<bar> mod \<bar>c\<bar>) * \<bar>b\<bar>)"
    by (subst b) (simp add: signed_modulo_int_def sgn_mult)
  have q: "(a sdiv c) * b = sgn (a * b) * sgn c * ((\<bar>a\<bar> div \<bar>c\<bar>) * \<bar>b\<bar>)"
    by (subst b) (simp add: signed_divide_int_def sgn_mult)
  have "0 \<le> (\<bar>a\<bar> mod \<bar>c\<bar>) * \<bar>b\<bar>" "0 \<le> \<bar>a\<bar> * \<bar>b\<bar>" using c by simp_all
  then have r': "((a smod c) * b) sdiv c = sgn (a * b) * sgn c * (((\<bar>a\<bar> mod \<bar>c\<bar>) * \<bar>b\<bar>) div \<bar>c\<bar>)"
    and ab': "(a * b) sdiv c = sgn (a * b) * sgn c * (\<bar>a\<bar> * \<bar>b\<bar> div \<bar>c\<bar>)"
    unfolding r using sdiv_sgn [of "\<bar>a\<bar> * \<bar>b\<bar>" "a * b" c] ab by (simp_all only: sdiv_sgn)
  have "0 < \<bar>c\<bar>" using c by simp
  then show ?thesis unfolding q r' ab' distrib_left [symmetric] by (simp only: muldiv_nat)
qed

lemma div_s_no_error:
  assumes "safe_div_s w a c e = (q, e')" and "\<not> e'" and "in_range w a"
  shows "\<not> e \<and> c \<noteq> 0 \<and> q = a sdiv c \<and> in_range w q"
proof -
  have q: "\<not> e" "c \<noteq> 0" "q = a sdiv c" "\<not> (c = - 1 \<and> a = MINS w)"
    using assms(1,2) by (auto simp: safe_div_s_def split: if_splits)
  have "\<bar>q\<bar> \<le> \<bar>a\<bar>" using sdiv_int_range [of a c] q(3) by auto
  moreover have "a = MINS w \<Longrightarrow> q \<noteq> - a" using q(3,4) MINS_neg [of w] int_sdiv_negated_is_minus1 [of a c] by auto
  ultimately have "in_range w q"
    using assms(3) MINS_neg [of w] by (cases "a = MINS w") (auto simp: in_range_def MAXS_def)
  then show ?thesis using q by blast
qed

lemma mod_s_no_error:
  assumes "safe_mod_s w a c e = (r, e')" and "\<not> e'" and "in_range w a"
  shows "\<not> e \<and> c \<noteq> 0 \<and> r = a smod c \<and> in_range w r"
proof -
  have r: "\<not> e" "c \<noteq> 0" "r = a smod c" using assms(1,2) by (auto simp: safe_mod_s_def split: if_splits)
  have "0 \<le> \<bar>a\<bar> mod \<bar>c\<bar>" "\<bar>a\<bar> mod \<bar>c\<bar> \<le> \<bar>a\<bar>" using r(2) by (simp_all add: zmod_le_nonneg_dividend)
  then have "in_range w r" using assms(3) r(3) by (auto simp: in_range_def MAXS_def signed_modulo_int_def sgn_if MINS_def)
  then show ?thesis using r by blast
qed

lemma muldiv_s_split:
  assumes c: "c \<noteq> 0" "in_range w a" "in_range w b" "in_range w c"
    and r: "(let (q, err) = safe_div_s w a c False; (r, err) = safe_mod_s w a c err; (x, err) = safe_mul_s w r b err;
        (y, err) = safe_mul_s w q b err; (q, err) = safe_div_s w x c err in safe_add_s w y q err) = (v, False)"
  shows "v = (a * b) sdiv c"
proof -
  obtain q e1 where q: "safe_div_s w a c False = (q, e1)" by force
  obtain r e2 where m: "safe_mod_s w a c e1 = (r, e2)" by force
  obtain x e3 where x: "safe_mul_s w r b e2 = (x, e3)" by force
  obtain y e4 where y: "safe_mul_s w q b e3 = (y, e4)" by force
  obtain z e5 where z: "safe_div_s w x c e4 = (z, e5)" by force
  have v: "safe_add_s w y z e5 = (v, False)" using r q m x y z by simp
  then have "\<not> e5" by (auto simp: safe_add_s_def split: if_splits)
  moreover from this have "\<not> e4" using z by (auto simp: safe_div_s_def split: if_splits)
  moreover from this have "\<not> e3" using y by (auto simp: safe_mul_s_def Let_def split: if_splits)
  moreover from this have "\<not> e2" using x by (auto simp: safe_mul_s_def Let_def split: if_splits)
  moreover from this have "\<not> e1" using m by (auto simp: safe_mod_s_def split: if_splits)
  ultimately have e: "\<not> e1" "\<not> e2" "\<not> e3" "\<not> e4" "\<not> e5" by blast+
  have q': "q = a sdiv c" "in_range w q" using div_s_no_error [OF q e(1) c(2)] by auto
  have r': "r = a smod c" "in_range w r" using mod_s_no_error [OF m e(2) c(2)] by auto
  have x': "x = r * b" "in_range w x" using mul_s_no_error [OF x e(3) r'(2) c(3)] by auto
  have y': "y = q * b" "in_range w y" using mul_s_no_error [OF y e(4) q'(2) c(3)] by auto
  have z': "z = x sdiv c" "in_range w z" using div_s_no_error [OF z e(5) x'(2)] by auto
  have "v = y + z" using add_s.no_error [OF v] y'(2) z'(2) by simp
  then show ?thesis using muldiv_trunc [OF c(1), of a b] q'(1) r'(1) x'(1) y'(1) z'(1) by simp
qed

lemma muldiv_s:
  assumes "c \<noteq> 0" and m: "safe_muldiv_s w a b c False = (v, e)" and "\<not> e"
    and rg: "in_range w a" "in_range w b" "in_range w c"
  shows "v = (a * b) sdiv c"
proof -
  obtain x e1 where x: "safe_mul_s w a b False = (x, e1)" by force
  show ?thesis
  proof (cases e1)
    case False
    then have "x = a * b" "in_range w x" using mul_s_no_error [OF x _ rg(1,2)] by auto
    moreover have "safe_div_s w x c False = (v, e)" using False x m assms(1) by (simp add: safe_muldiv_s_def)
    ultimately show ?thesis using div_s_no_error assms(3) by blast
  next
    case True
    show ?thesis
    proof (cases "b > a")
      case bigger: True
      then show ?thesis using muldiv_s_split [OF assms(1) rg(2,1,3), of v] True m assms(1,3) x
        by (simp add: safe_muldiv_s_def mult.commute)
    next
      case smaller: False
      then show ?thesis using muldiv_s_split [OF assms(1) rg(1,2,3), of v] True m assms(1,3) x
        by (simp add: safe_muldiv_s_def)
    qed
  qed
qed

section \<open>Division with rounding up\<close>

lemma ceil_div: "0 < b \<Longrightarrow> (a + b - 1) div b = a div b + of_bool (a mod b \<noteq> 0)" for a b :: int
proof -
  assume b: "0 < b"
  have m: "0 \<le> a mod b" "a mod b < b" using b by simp_all
  have "a + b - 1 = (a mod b + b - 1) + b * (a div b)" using mult_div_mod_eq [of b a] by simp
  then have "(a + b - 1) div b = a div b + (a mod b + b - 1) div b"
    using b div_mult_self2 [of b "a mod b + b - 1" "a div b"] by (simp only:)
  moreover have "(a mod b + b - 1) div b = of_bool (a mod b \<noteq> 0)"
  proof (cases "a mod b = 0")
    case True
    then show ?thesis using b by (simp add: div_pos_pos_trivial)
  next
    case False
    have "(a mod b + b - 1) div b = ((a mod b - 1) + b * 1) div b" by (rule arg_cong [of _ _ "\<lambda>x. x div b"]) simp
    also have "\<dots> = (a mod b - 1) div b + 1" using b by (subst div_mult_self2) simp_all
    finally show ?thesis using False m by (simp add: div_pos_pos_trivial)
  qed
  ultimately show ?thesis by simp
qed

lemma div_round_up_u:
  fixes a b :: "'a::len word"
  assumes "b \<noteq> 0"
  shows "snd (safe_div_round_up_u a b err) = err \<and>
    uint (fst (safe_div_round_up_u a b err)) = (uint a + uint b - 1) div uint b"
proof -
  have b: "0 < uint b" using assms uint_ge_0 [of b] uint_0_iff [of b] by linarith
  then have b': "b > 0" by (simp add: word_less_def)
  show ?thesis
  proof (cases "a > 0")
    case False
    then have "a = 0" by (simp add: word_gt_0)
    then show ?thesis using b assms by (simp add: safe_div_round_up_u_def div_pos_pos_trivial)
  next
    case True
    then have a: "0 < uint a" by (simp add: word_less_def)
    show ?thesis
    proof (cases "a < MAXU - b")
      case fast: True
      have "uint (MAXU - b) = uint (MAXU :: 'a word) - uint b"
        by (rule uint_sub_lem [THEN iffD1]) (simp add: uint_MAXU uint_lt2p zle_diff1_eq)
      then have "uint a + uint b < 2 ^ LENGTH('a)" using fast by (simp add: word_less_def uint_MAXU)
      then have "uint (a + b - 1) = uint a + uint b - 1" using a b by (simp add: uint_word_ariths)
      then show ?thesis using True b' fast by (simp add: safe_div_round_up_u_def) (simp only: uint_div)
    next
      case slow: False
      have m: "(a mod b \<noteq> 0) = (uint a mod uint b \<noteq> 0)" using uint_0_iff [of "a mod b"] by (simp add: uint_mod)
      have "uint (a div b + of_bool (a mod b \<noteq> 0)) = uint a div uint b + of_bool (a mod b \<noteq> 0)"
      proof (cases "a mod b = 0")
        case True
        then show ?thesis by (simp only: uint_div of_bool_eq simp_thms add_0_right)
      next
        case rest: False
        then have "uint b \<noteq> 1" using m by auto
        then have "2 \<le> uint b" using b by linarith
        then have "uint a div uint b \<le> uint a div 2" using a by (intro zdiv_mono2) simp_all
        then have "uint (a div b) < uint a" using a by (simp only: uint_div)
        then have "uint (a div b) + 1 < 2 ^ LENGTH('a)" using uint_lt2p [of a] by linarith
        then have "uint (a div b + 1) = uint (a div b) + 1" by (simp add: uint_word_ariths del: uint_div)
        then show ?thesis using rest by (simp only: uint_div of_bool_eq simp_thms)
      qed
      then show ?thesis using True b' slow m ceil_div [OF b, of "uint a"]
        by (auto simp: safe_div_round_up_u_def of_bool_def simp del: uint_div)
    qed
  qed
qed

lemma div_round_up_s:
  assumes "b \<noteq> 0" and "\<not> (a = MINS w \<and> b = - 1)" and rg: "in_range w a" and w: "2 < w"
  shows "safe_div_round_up_s w a b err = (a sdiv b + of_bool (\<not> b dvd a), err)"
proof -
  have m: "(a smod b \<noteq> 0) = (\<not> b dvd a)"
    by (cases "a = 0") (simp_all add: signed_modulo_int_def sgn_if mod_eq_0_iff_dvd)
  consider "b > 0" "a > 0" | "a = 0" | "a \<noteq> 0" "\<not> (b > 0 \<and> a > 0)" by auto
  then show ?thesis
  proof cases
    case 1
    then have "(a + b - 1) sdiv b = a sdiv b + of_bool (\<not> b dvd a)"
      using ceil_div [of b a] by (simp add: signed_divide_int_eq_divide_int sgn_if dvd_eq_mod_eq_0)
    then show ?thesis using 1 m by (simp add: safe_div_round_up_s_def of_bool_def)
  next
    case 2
    then show ?thesis using assms(1) by (simp add: safe_div_round_up_s_def)
  next
    case 3
    have q: "safe_div_s w a b err = (a sdiv b, err)" "safe_mod_s w a b err = (a smod b, err)"
      using assms by (auto simp: safe_div_s_def safe_mod_s_def)
    have "in_range w (a sdiv b)" using div_s_no_error [of w a b False] q assms by (auto simp: safe_div_s_def)
    moreover have "a sdiv b \<noteq> MAXS w" if "\<not> b dvd a"
    proof
      assume eq: "a sdiv b = MAXS w"
      have "\<bar>b\<bar> \<noteq> 1" "\<bar>b\<bar> \<noteq> 0" using that assms(1) by (auto simp: abs_if split: if_splits)
      then have "\<bar>a\<bar> div \<bar>b\<bar> \<le> \<bar>a\<bar> div 2" by (intro zdiv_mono2) simp_all
      moreover have "\<bar>a sdiv b\<bar> \<le> \<bar>a\<bar> div \<bar>b\<bar>" 
        using pos_imp_zdiv_nonneg_iff [of "\<bar>b\<bar>" "\<bar>a\<bar>"] assms(1) by (auto simp: signed_divide_int_def abs_mult abs_sgn_eq)
      moreover have "\<bar>a\<bar> \<le> MAXS w + 1" using rg by (auto simp: in_range_def MAXS_def)
      moreover have "a \<noteq> 0 \<longrightarrow> \<bar>a\<bar> div 2 < \<bar>a\<bar>" by auto
      ultimately have "MAXS w \<le> (MAXS w + 1) div 2" using eq MAXS_nonneg [of w] by linarith
      moreover have "(2 :: int) ^ 2 \<le> 2 ^ (w - 1)" using w by (intro power_increasing) simp_all
      ultimately show False by (simp add: MAXS_def MINS_def)
    qed
    ultimately have "safe_add_s w (a sdiv b) (of_bool (\<not> b dvd a)) err = (a sdiv b + of_bool (\<not> b dvd a), err)"
      using MAXS_nonneg [of w] by (auto simp: safe_add_s_def in_range_def of_bool_def)
    then show ?thesis using 3 q m assms(1) by (auto simp: safe_div_round_up_s_def of_bool_def)
  qed
qed

section \<open>Properties\<close>

text \<open>
  The fused multiplication and division never returns a wrong value silently. Without an error the result is the
  exact quotient of the product by the divisor, rounded towards zero, for unsigned types of every width and for
  signed types, although the product may exceed the type; and an unsigned call reports no error when the
  product fits the type.
\<close>
lemma safe_muldiv_exact:
  fixes a b c v :: "'a::len word"
  shows "(c \<noteq> 0 \<and> safe_muldiv_u a b c False = (v, e) \<longrightarrow>
     (\<not> e \<longrightarrow> uint v = uint a * uint b div uint c) \<and> (uint a * uint b < 2 ^ LENGTH('a) \<longrightarrow> \<not> e)) \<and>
   (safe_muldiv_s w i j k False = (q, False) \<and> in_range w i \<and> in_range w j \<and> in_range w k \<longrightarrow>
     k \<noteq> 0 \<and> q = (i * j) sdiv k)"
proof (intro conjI impI; elim conjE)
  show "uint v = uint a * uint b div uint c" if "c \<noteq> 0" "safe_muldiv_u a b c False = (v, e)" "\<not> e"
    using muldiv_u(1) [OF that] .
  show "\<not> e" if "c \<noteq> 0" "safe_muldiv_u a b c False = (v, e)" "uint a * uint b < 2 ^ LENGTH('a)"
    using muldiv_u(2) [OF that] .
  assume s: "safe_muldiv_s w i j k False = (q, False)" and rg: "in_range w i" "in_range w j" "in_range w k"
  show k: "k \<noteq> 0" using s by (auto simp: safe_muldiv_s_def)
  show "q = (i * j) sdiv k" using muldiv_s [OF k s _ rg] by simp
qed

text \<open>
  The two branches of the header for signed types compute the same sums, differences and products, with the same
  errors, except that the portable multiplication refuses a product equal to the least value of the type
  (unless a factor is 1), which the compiler builtin accepts.
\<close>
lemma safe_math_builds_agree:
  assumes "in_range w a" and "in_range w b"
  shows "safe_add_s w a b err = safe_add_s_builtin w a b err \<and> safe_sub_s w a b err = safe_sub_s_builtin w a b err \<and>
    safe_mul_s w a b err =
      (if a * b = MINS w \<and> a \<noteq> 1 \<and> b \<noteq> 1 then (MINS w, True) else safe_mul_s_builtin w a b err)"
  using add_s_builtin [OF assms] sub_s_builtin [OF assms] mul_s_builtin [OF assms] by blast

text \<open>
  Division rounding up. For a divisor other than 0 no error is reported (but for the one quotient that does not
  fit). The unsigned result is the quotient rounded up; so is the signed result when it is exact or the operands
  have the same sign, but a negative inexact quotient is returned one too large.
\<close>
lemma safe_div_round_up_result:
  assumes "b \<noteq> 0" and "j \<noteq> 0" and "\<not> (i = MINS w \<and> j = - 1)" and "in_range w i" and "2 < w"
  shows "snd (safe_div_round_up_u a b err) = err \<and>
    uint (fst (safe_div_round_up_u a b err)) = (uint a + uint b - 1) div uint b \<and>
    safe_div_round_up_s w i j err = (- ((- i) div j) + of_bool (sgn i \<noteq> sgn j \<and> \<not> j dvd i), err)"
proof -
  have "a div j + of_bool (\<not> j dvd a) = - ((- a) div j)" for a
    by (cases "j dvd a") (use assms(2) in \<open>auto simp: dvd_neg_div zdiv_zminus1_eq_if dvd_eq_mod_eq_0\<close>)
  then show ?thesis
    using div_round_up_u [OF assms(1)] div_round_up_s [OF assms(2-5)] assms(2)
    by (simp add: signed_divide_int_eq_divide_int)
qed

end
