(* ===== verification/Ring_Buf.thy ===== *)
theory Ring_Buf
  imports Ossl_Common Safe_Math
begin

text \<open>
  The ring buffers of the vendored OpenSSL, \<open>include/internal/ring_buf.h\<close>, which hold the window of a stream that is not yet
  acknowledged or not yet read. Offsets into the stream have 64 bits and sizes 32. The storage is an optional list of
  bytes: \<open>None\<close> is the null pointer. A pointer into the storage is the position of the byte it points to.
\<close>

record ring_buf =
  rb_start :: "8 word list option"
  alloc :: "32 word"
  head_offset :: "64 word"
  ctail_offset :: "64 word"

abbreviation u64 :: "32 word \<Rightarrow> 64 word" where "u64 n \<equiv> ucast n"
abbreviation size_t :: "64 word \<Rightarrow> 32 word" where "size_t n \<equiv> ucast n"

definition MAX_OFFSET :: "64 word" where "MAX_OFFSET = push_bit 62 1"

definition ring_buf_init :: ring_buf where
  "ring_buf_init = \<lparr>rb_start = None, alloc = 0, head_offset = 0, ctail_offset = 0\<rparr>"

definition ring_buf_destroy :: "ring_buf \<Rightarrow> bool \<Rightarrow> 8 word list option \<times> ring_buf" where
  \<comment> \<open>with the contents of the storage at the moment it goes back to the allocator\<close>
  "ring_buf_destroy r cleanse =
     (if cleanse then map_option (\<lambda>cs. replicate (length cs) 0) (rb_start r) else rb_start r,
      r\<lparr>rb_start := None, alloc := 0\<rparr>)"

definition ring_buf_used :: "ring_buf \<Rightarrow> 32 word" where
  "ring_buf_used r = size_t (head_offset r - ctail_offset r)"

definition ring_buf_avail :: "ring_buf \<Rightarrow> 32 word" where
  "ring_buf_avail r = alloc r - ring_buf_used r"

definition memcpy_to :: "8 word list option \<Rightarrow> nat \<Rightarrow> 8 word list \<Rightarrow> nat \<Rightarrow> 8 word list option res" where
  "memcpy_to st i src n =
     (case st of
        None \<Rightarrow> Inl Null_Deref
      | Some cs \<Rightarrow> if i + n \<le> length cs \<and> n \<le> length src
                   then Inr (Some (take i cs @ take n src @ drop (i + n) cs)) else Inl Buffer_Overflow)"

section \<open>Writing\<close>

fun write_rounds :: "nat \<Rightarrow> ring_buf \<Rightarrow> 64 word \<Rightarrow> 8 word list \<Rightarrow> 32 word \<Rightarrow> (ring_buf \<times> 32 word) res" where
  \<comment> \<open>the loop of \<open>ring_buf_write_at\<close>, with the number of rounds left\<close>
  "write_rounds 0 r lo buf n = Inr (r, n)"
| "write_rounds (Suc i) r lo buf n =
     (if n = 0 then Inr (r, n)
      else if alloc r = 0 then Inl Div_By_Zero
      else let idx = size_t (lo mod u64 (alloc r));
               l = (if n < alloc r - idx then n else alloc r - idx)
           in bind_res (memcpy_to (rb_start r) (unat idx) buf (unat l)) (\<lambda>st.
                let r = r\<lparr>rb_start := st\<rparr>;
                    r = (if head_offset r < lo + u64 l then r\<lparr>head_offset := lo + u64 l\<rparr> else r)
                in write_rounds i r (lo + u64 l) (drop (unat l) buf) (n - l)))"

declare write_rounds.simps(2) [simp del]

definition ring_buf_write_at :: "ring_buf \<Rightarrow> 64 word \<Rightarrow> 8 word list \<Rightarrow> 32 word \<Rightarrow> (bool \<times> ring_buf) res" where
  "ring_buf_write_at r lo buf n =
     (let avail = ring_buf_avail r;
          (e1, err) = safe_add_u lo (u64 n) False;
          (e2, err) = safe_add_u (head_offset r) (u64 avail) err;
          (e3, err) = safe_add_u (head_offset r) (u64 n) err
      in if lo < ctail_offset r \<or> e1 > e2 \<or> e3 > MAX_OFFSET \<or> err then Inr (False, r)
         else bind_res (write_rounds 2 r lo buf n) (\<lambda>(r, n).
                if n \<noteq> 0 then Inl Assert_Failed else Inr (True, r)))"

lemma unat_u64 [simp]: "unat (u64 n) = unat n"
proof -
  have "unat n < 2 ^ 32" using unsigned_less [of n] by simp
  then show ?thesis by (simp add: unsigned_ucast_eq take_bit_nat_eq_self)
qed

lemma unat_size_t: "unat k < 2 ^ 32 \<Longrightarrow> unat (size_t k) = unat k"
  by (simp add: unsigned_ucast_eq take_bit_nat_eq_self)

lemma unat_size_t_le: "unat (size_t k) \<le> unat k"
  by (simp add: unsigned_ucast_eq)

lemma unat_ring_index: "a \<noteq> 0 \<Longrightarrow> unat (size_t (k mod u64 a)) = unat k mod unat a"
proof -
  assume "a \<noteq> 0"
  then have "unat k mod unat a < unat a" by (simp add: unat_gt_0)
  moreover have "unat a < 2 ^ 32" using unsigned_less [of a] by simp
  ultimately show ?thesis using unat_size_t [of "k mod u64 a"] by (simp add: unat_mod)
qed

lemma ring_index_less: "a \<noteq> 0 \<Longrightarrow> size_t (k mod u64 a) < a"
  by (simp add: word_less_nat_alt unat_ring_index unat_gt_0)

definition push_len :: "ring_buf \<Rightarrow> 32 word \<Rightarrow> 32 word" where
  \<comment> \<open>\<open>buf_len\<close> after the two limits at the head of the loop of \<open>ring_buf_push\<close>\<close>
  "push_len r n =
     (let avail = ring_buf_avail r;
          n = (if n > avail then avail else n)
      in if u64 n > MAX_OFFSET - head_offset r then size_t (MAX_OFFSET - head_offset r) else n)"

lemma push_len_le: "push_len r n \<le> n"
proof -
  have "size_t m \<le> k" if "u64 k > m" for k m
    using that unat_size_t_le [of m] by (simp add: word_less_nat_alt word_le_nat_alt)
  then show ?thesis by (force simp: push_len_def Let_def not_less intro: order_trans)
qed

function (sequential) push_loop :: "ring_buf \<Rightarrow> 8 word list \<Rightarrow> 32 word \<Rightarrow> 32 word \<Rightarrow> (32 word \<times> ring_buf) res" where
  "push_loop r buf n pushed =
     (let n = push_len r n
      in if n = 0 then Inr (pushed, r)
         else if alloc r = 0 then Inl Div_By_Zero
         else let idx = size_t (head_offset r mod u64 (alloc r));
                  l = (if n < alloc r - idx then n else alloc r - idx)
              in bind_res (memcpy_to (rb_start r) (unat idx) buf (unat l)) (\<lambda>st.
                   push_loop (r\<lparr>rb_start := st, head_offset := head_offset r + u64 l\<rparr>)
                     (drop (unat l) buf) (n - l) (pushed + l)))"
  by pat_completeness auto

lemma round_decreases:
  fixes n l a i :: "32 word"
  assumes "l = (if n < a - i then n else a - i)" and "n \<noteq> 0" and "i < a"
  shows "n - l < n"
proof -
  have "0 < l" "l \<le> n" using assms by (auto simp: word_gt_0)
  then show ?thesis by (simp add: word_less_nat_alt word_le_nat_alt unat_sub)
qed

termination push_loop
proof (relation "measure (\<lambda>(r, buf, n, pushed). unat n)")
  fix r :: ring_buf and buf :: "8 word list" and n pushed n' idx l :: "32 word" and st
  assume "n' = push_len r n" "n' \<noteq> 0" "alloc r \<noteq> 0" "idx = size_t (head_offset r mod u64 (alloc r))"
    "l = (if n' < alloc r - idx then n' else alloc r - idx)"
  then have "n' - l < n" using round_decreases [of l n' "alloc r" idx] push_len_le [of r n]
    by (simp add: ring_index_less)
  then show "((r\<lparr>rb_start := st, head_offset := head_offset r + u64 l\<rparr>, drop (unat l) buf, n' - l, pushed + l), r, buf, n, pushed)
      \<in> measure (\<lambda>(r, buf, n, pushed). unat n)" by (simp add: word_less_nat_alt)
qed simp

declare push_loop.simps [simp del]

definition ring_buf_push :: "ring_buf \<Rightarrow> 8 word list \<Rightarrow> 32 word \<Rightarrow> (32 word \<times> ring_buf) res" where
  "ring_buf_push r buf n = push_loop r buf n 0"

section \<open>Reading and culling\<close>

definition ring_buf_get_ptr :: "ring_buf \<Rightarrow> 64 word \<Rightarrow> (nat \<times> 32 word) option res" where
  "ring_buf_get_ptr r lo =
     (if lo \<ge> head_offset r \<or> lo < ctail_offset r then Inr None
      else if alloc r = 0 then Inl Div_By_Zero
      else let idx = size_t (lo mod u64 (alloc r)) in Inr (Some (unat idx, alloc r - idx)))"

definition ring_buf_get_buf_at :: "ring_buf \<Rightarrow> 64 word \<Rightarrow> (nat option \<times> 32 word) option" where
  "ring_buf_get_buf_at r lo =
     (if lo > head_offset r \<or> lo < ctail_offset r then None
      else if alloc r = 0 then Some (None, 0)
      else let idx = size_t (lo mod u64 (alloc r));
               l = size_t (head_offset r - lo);
               l = (if l > alloc r - idx then alloc r - idx else l)
           in Some (Some (unat idx), l))"

definition OPENSSL_cleanse :: "8 word list option \<Rightarrow> nat \<Rightarrow> nat \<Rightarrow> 8 word list option res" where
  "OPENSSL_cleanse st i n = memcpy_to st i (replicate n 0) n"

definition cleanse_culled :: "ring_buf \<Rightarrow> 64 word \<Rightarrow> 8 word list option res" where
  \<comment> \<open>the block of \<open>ring_buf_cpop_range\<close> that clears the bytes up to \<open>en\<close>\<close>
  "cleanse_culled r en =
     (let idx = size_t (ctail_offset r mod u64 (alloc r));
          cleanse_end = (if en + 1 > head_offset r then head_offset r else en + 1);
          l = size_t (cleanse_end - ctail_offset r)
      in bind_res
           (if l > alloc r - idx
            then bind_res (OPENSSL_cleanse (rb_start r) (unat idx) (unat (alloc r - idx)))
                   (\<lambda>st. Inr (st, l - (alloc r - idx), 0))
            else Inr (rb_start r, l, idx))
           (\<lambda>(st, l, idx). if l > 0 then OPENSSL_cleanse st (unat idx) (unat l) else Inr st))"

definition ring_buf_cpop_range :: "ring_buf \<Rightarrow> 64 word \<Rightarrow> 64 word \<Rightarrow> bool \<Rightarrow> ring_buf res" where
  "ring_buf_cpop_range r st en cleanse =
     (if \<not> en \<ge> st then Inl Assert_Failed
      else if st > ctail_offset r \<or> en \<ge> MAX_OFFSET then Inr r
      else bind_res
             (if cleanse \<and> alloc r > 0 \<and> en > ctail_offset r then cleanse_culled r en else Inr (rb_start r))
             (\<lambda>cs. let r = r\<lparr>rb_start := cs, ctail_offset := en + 1\<rparr>
                   in Inr (if head_offset r < ctail_offset r then r\<lparr>head_offset := ctail_offset r\<rparr> else r)))"

section \<open>Resizing\<close>

definition buf_bytes :: "ring_buf \<Rightarrow> nat option \<times> 32 word \<Rightarrow> 8 word list" where
  \<comment> \<open>the bytes a pointer into the storage and a length stand for\<close>
  "buf_bytes r b = (case b of (Some i, n) \<Rightarrow> take (unat n) (drop i (the (rb_start r))) | (None, n) \<Rightarrow> [])"

partial_function (option) resize_loop :: "ring_buf \<Rightarrow> ring_buf \<Rightarrow> 32 word \<Rightarrow> (bool \<times> ring_buf) comp" where
  "resize_loop r rnew copied =
     (case ring_buf_get_buf_at r (ctail_offset r + u64 copied) of
        None \<Rightarrow> Some (Inr (False, rnew))
      | Some (src, src_len) \<Rightarrow>
          if src_len = 0 then Some (Inr (True, rnew))
          else (case ring_buf_push rnew (buf_bytes r (src, src_len)) src_len of
                  Inl e \<Rightarrow> Some (Inl e)
                | Inr (l, rnew) \<Rightarrow> if l \<noteq> src_len then Some (Inr (False, rnew))
                                   else resize_loop r rnew (copied + src_len)))"

declare resize_loop.simps [code]

definition ring_buf_resize :: "8 word allocator \<Rightarrow> ring_buf \<Rightarrow> 32 word \<Rightarrow> bool \<Rightarrow> (bool \<times> ring_buf) comp" where
  \<comment> \<open>\<open>OPENSSL_malloc\<close> of no bytes gives \<open>NULL\<close>; \<open>cleanse\<close> only matters to the released storage, see \<open>ring_buf_destroy\<close>\<close>
  "ring_buf_resize mal r num_bytes cleanse =
     (if num_bytes = alloc r then Some (Inr (True, r))
      else if num_bytes < ring_buf_used r then Some (Inr (False, r))
      else (case (if num_bytes = 0 then None else mal (unat num_bytes)) of
              None \<Rightarrow> Some (Inr (False, r))
            | Some cs \<Rightarrow>
                let h = head_offset r - u64 (ring_buf_used r)
                in bind_comp (resize_loop r \<lparr>rb_start = Some cs, alloc = num_bytes, head_offset = h, ctail_offset = h\<rparr> 0)
                     (\<lambda>(ok, rnew).
                       if \<not> ok then Some (Inr (False, r))
                       else if head_offset rnew \<noteq> head_offset r then Some (Inl Assert_Failed)
                       else Some (Inr (True, rnew\<lparr>ctail_offset := ctail_offset r\<rparr>)))))"

section \<open>The stream in the buffer\<close>

text \<open>
  A buffer is well formed when its offsets are ordered, the bytes between them fit into the storage, and the storage has the size
  recorded. It holds a stream when every byte between the offsets is found at its place.
\<close>

definition rb_wf :: "ring_buf \<Rightarrow> bool" where
  "rb_wf r \<longleftrightarrow> unat (ctail_offset r) \<le> unat (head_offset r) \<and> unat (head_offset r) \<le> 2 ^ 62 \<and>
     unat (head_offset r) \<le> unat (ctail_offset r) + unat (alloc r) \<and>
     (case rb_start r of None \<Rightarrow> alloc r = 0 | Some cs \<Rightarrow> length cs = unat (alloc r))"

definition cell :: "ring_buf \<Rightarrow> nat \<Rightarrow> 8 word" where
  "cell r k = the (rb_start r) ! (k mod unat (alloc r))"

definition rb_stream :: "ring_buf \<Rightarrow> 8 word list \<Rightarrow> bool" where
  "rb_stream r hist \<longleftrightarrow> rb_wf r \<and> length hist = unat (head_offset r) \<and>
     (\<forall>k. unat (ctail_offset r) \<le> k \<and> k < unat (head_offset r) \<longrightarrow> cell r k = hist ! k)"

definition room :: "ring_buf \<Rightarrow> nat" where
  "room r = min (unat (alloc r) - (unat (head_offset r) - unat (ctail_offset r))) (2 ^ 62 - unat (head_offset r))"

lemma unat_MAX_OFFSET [simp]: "unat MAX_OFFSET = 2 ^ 62"
  by (simp add: MAX_OFFSET_def)

lemma unat_word32_less: "unat (n :: 32 word) < 2 ^ 32"
  using unsigned_less [of n] by simp

lemma rb_wf_offsets:
  assumes "rb_wf r"
  shows "unat (ctail_offset r) \<le> unat (head_offset r)" and "unat (head_offset r) \<le> 2 ^ 62"
    and "unat (head_offset r) - unat (ctail_offset r) \<le> unat (alloc r)"
  using assms by (auto simp: rb_wf_def)

lemma unat_used: "rb_wf r \<Longrightarrow> unat (ring_buf_used r) = unat (head_offset r) - unat (ctail_offset r)"
proof -
  assume "rb_wf r"
  then have "unat (head_offset r - ctail_offset r) = unat (head_offset r) - unat (ctail_offset r)"
    by (intro unat_minus_small rb_wf_offsets)
  moreover have "\<dots> < 2 ^ 32" using rb_wf_offsets(3) [OF \<open>rb_wf r\<close>] unat_word32_less [of "alloc r"] by simp
  ultimately show ?thesis unfolding ring_buf_used_def by (simp only: unat_size_t)
qed

lemma unat_avail:
  "rb_wf r \<Longrightarrow> unat (ring_buf_avail r) = unat (alloc r) - (unat (head_offset r) - unat (ctail_offset r))"
  unfolding ring_buf_avail_def using rb_wf_offsets(3) [of r] by (simp only: unat_minus_small unat_used)

lemma mod_eq_near: "a mod n = b mod n \<Longrightarrow> a \<le> b \<Longrightarrow> b < a + n \<Longrightarrow> a = b" for a b n :: nat
  using mod_eq_dvd_iff_nat [of a b n] nat_dvd_not_less [of "b - a" n] by (cases "a = b") auto

lemma window_mod:
  fixes c n k j :: nat
  assumes "c \<le> k" and "k < c + n" and "c \<le> j" and "j < c + n"
  shows "k mod n = j mod n \<longleftrightarrow> k = j"
  using mod_eq_near [of k n j] mod_eq_near [of j n k] assms by (cases "k \<le> j") auto

lemma copy_window:
  assumes "length cs = n" and "0 < n" and "c \<le> j" and "j + l \<le> c + n" and "l \<le> n - j mod n"
    and "l \<le> length src"
  shows "\<exists>cs'. memcpy_to (Some cs) (j mod n) src l = Inr (Some cs') \<and> length cs' = n \<and>
    (\<forall>k. c \<le> k \<and> k < c + n \<longrightarrow> cs' ! (k mod n) = (if j \<le> k \<and> k < j + l then src ! (k - j) else cs ! (k mod n)))"
proof -
  let ?i = "j mod n" and ?cs = "take (j mod n) cs @ take l src @ drop (j mod n + l) cs"
  have i: "?i < n" using assms(2) by simp
  then have i2: "?i + l \<le> n" using assms(5) by linarith
  note i = i i2
  have "?cs ! (k mod n) = (if j \<le> k \<and> k < j + l then src ! (k - j) else cs ! (k mod n))"
    if k: "c \<le> k" "k < c + n" for k
  proof (cases "j \<le> k \<and> k < j + l")
    case True
    then obtain d where d: "k = j + d" "d < l" by (metis le_Suc_ex nat_add_left_cancel_less)
    then have "?i + d < n" using i by linarith
    then have "k mod n = ?i + d" using d(1) by (metis mod_add_left_eq mod_less)
    then show ?thesis using d i assms(1,6) by (simp add: nth_append)
  next
    case False
    have "\<not> (?i \<le> k mod n \<and> k mod n < ?i + l)"
    proof
      assume b: "?i \<le> k mod n \<and> k mod n < ?i + l"
      define d where "d = k mod n - ?i"
      have d: "k mod n = ?i + d" "d < l" using b by (auto simp: d_def)
      then have "(j + d) mod n = k mod n" using i by (metis mod_add_left_eq mod_mod_trivial)
      then have "j + d = k" using window_mod [of c "j + d" n k] assms(3,4) d(2) k by simp
      then show False using False d(2) by simp
    qed
    then show ?thesis using False i assms(1,6) by (auto simp: nth_append min_def)
  qed
  then show ?thesis using i assms(1,6) by (auto simp: memcpy_to_def)
qed

text \<open>One round of a loop that copies: the bytes go to their places, and no other retained byte changes.\<close>

lemma copy_round:
  assumes r: "rb_stream r hist" and n: "alloc r \<noteq> 0" and m: "m \<le> room r" "m \<noteq> 0" "m \<le> length buf"
    and l: "l = min m (unat (alloc r) - unat (head_offset r) mod unat (alloc r))"
  shows "\<exists>cs'. memcpy_to (rb_start r) (unat (head_offset r) mod unat (alloc r)) buf l = Inr (Some cs') \<and>
    rb_stream (r\<lparr>rb_start := Some cs', head_offset := head_offset r + of_nat l\<rparr>) (hist @ take l buf) \<and>
    unat (head_offset r + of_nat l) = unat (head_offset r) + l"
proof -
  let ?n = "unat (alloc r)" and ?h = "unat (head_offset r)" and ?c = "unat (ctail_offset r)"
  have wf: "rb_wf r" using r by (simp add: rb_stream_def)
  note off = rb_wf_offsets [OF wf]
  have pos: "0 < ?n" using n by (simp add: unat_gt_0)
  obtain cs where cs: "rb_start r = Some cs" "length cs = ?n"
    using wf n by (auto simp: rb_wf_def split: option.splits)
  have lm: "l \<le> m" "l \<le> ?n - ?h mod ?n" using l by simp_all
  have bound: "?h + l \<le> ?c + ?n" "?h + l \<le> 2 ^ 62" using lm(1) m(1) off unfolding room_def by linarith+
  obtain cs' where cs': "memcpy_to (Some cs) (?h mod ?n) buf l = Inr (Some cs')" "length cs' = ?n"
    "\<forall>k. ?c \<le> k \<and> k < ?c + ?n \<longrightarrow> cs' ! (k mod ?n) = (if ?h \<le> k \<and> k < ?h + l then buf ! (k - ?h) else cs ! (k mod ?n))"
    using copy_window [OF cs(2) pos off(1) bound(1) lm(2), of buf] lm(1) m(3) by auto
  have "unat (of_nat l :: 64 word) = l" using bound(2) by (intro unat_of_nat_small) simp
  then have head: "unat (head_offset r + of_nat l) = ?h + l" using bound(2) by (subst unat_plus_small) simp_all
  have "rb_wf (r\<lparr>rb_start := Some cs', head_offset := head_offset r + of_nat l\<rparr>)"
    using bound cs'(2) off by (simp add: rb_wf_def head)
  then have "rb_stream (r\<lparr>rb_start := Some cs', head_offset := head_offset r + of_nat l\<rparr>) (hist @ take l buf)"
    using r cs'(3) cs(1) lm m(3) bound(1) by (auto simp: rb_stream_def cell_def head nth_append)
  then show ?thesis using cs'(1) cs(1) head by simp
qed

lemma unat_push_len:
  assumes "rb_wf r"
  shows "unat (push_len r n) = min (unat n) (room r)"
proof -
  let ?h = "unat (head_offset r)" and ?a = "unat (alloc r)"
  note off = rb_wf_offsets [OF assms]
  define n1 where "n1 = (if n > ring_buf_avail r then ring_buf_avail r else n)"
  have n1: "unat n1 = min (unat n) (?a - (?h - unat (ctail_offset r)))"
    unfolding n1_def using unat_avail [OF assms] by (simp add: word_less_nat_alt min_def)
  have max: "unat (MAX_OFFSET - head_offset r) = 2 ^ 62 - ?h"
    using off(2) by (subst unat_minus_small) simp_all
  have run: "push_len r n = (if u64 n1 > MAX_OFFSET - head_offset r then size_t (MAX_OFFSET - head_offset r) else n1)"
    by (simp add: push_len_def n1_def Let_def)
  show ?thesis
  proof (cases "u64 n1 > MAX_OFFSET - head_offset r")
    case True
    then have lt: "2 ^ 62 - ?h < unat n1" using max by (simp add: word_less_nat_alt)
    then have "unat (size_t (MAX_OFFSET - head_offset r)) = 2 ^ 62 - ?h"
      using unat_size_t [of "MAX_OFFSET - head_offset r"] max unat_word32_less [of n1] by simp
    then show ?thesis using lt n1 unfolding run if_P [OF True] room_def by linarith
  next
    case False
    then have "unat n1 \<le> 2 ^ 62 - ?h" using max by (simp add: word_less_nat_alt)
    then show ?thesis using n1 unfolding run room_def if_not_P [OF False] by linarith
  qed
qed

lemma push_loop_stream:
  assumes "rb_stream r hist" and "unat n \<le> length buf" and "m = min (unat n) (room r)"
  shows "\<exists>r'. push_loop r buf n pushed = Inr (pushed + of_nat m, r') \<and> rb_stream r' (hist @ take m buf) \<and>
    ctail_offset r' = ctail_offset r \<and> alloc r' = alloc r"
  using assms
proof (induction r buf n pushed arbitrary: hist m rule: push_loop.induct)
  case (1 r buf n pushed)
  let ?h = "unat (head_offset r)" and ?a = "unat (alloc r)"
  have wf: "rb_wf r" using "1.prems"(1) by (simp add: rb_stream_def)
  note off = rb_wf_offsets [OF wf]
  define n2 where "n2 = push_len r n"
  have n2: "unat n2 = m" using unat_push_len [OF wf] "1.prems"(3) by (simp add: n2_def)
  show ?case
  proof (cases "n2 = 0")
    case True
    then have "push_loop r buf n pushed = Inr (pushed, r)" by (subst push_loop.simps) (simp add: n2_def)
    moreover have "m = 0" using True n2 by simp
    ultimately show ?thesis using "1.prems"(1) by simp
  next
    case False
    then have m: "m \<noteq> 0" using n2 by (auto simp: unat_gt_0)
    then have a: "alloc r \<noteq> 0" using "1.prems"(3) off by (auto simp: room_def)
    define idx where "idx = size_t (head_offset r mod u64 (alloc r))"
    define l where "l = (if n2 < alloc r - idx then n2 else alloc r - idx)"
    have idx: "unat idx = ?h mod ?a" using a by (simp add: idx_def unat_ring_index)
    have "unat (alloc r - idx) = ?a - ?h mod ?a" using idx a by (subst unat_minus_small) (simp_all add: unat_gt_0 less_imp_le)
    then have l: "unat l = min m (?a - ?h mod ?a)" using n2 by (auto simp: l_def word_less_nat_alt)
    have lw: "of_nat (unat l) = u64 l" by (simp add: unsigned_ucast_eq word_eq_iff_unsigned)
    have mb: "m \<le> room r" "m \<le> length buf" using "1.prems"(2,3) by simp_all
    from copy_round [OF "1.prems"(1) a mb(1) m mb(2) l]
    obtain cs' where cs': "memcpy_to (rb_start r) (unat idx) buf (unat l) = Inr (Some cs')"
      and st: "rb_stream (r\<lparr>rb_start := Some cs', head_offset := head_offset r + u64 l\<rparr>) (hist @ take (unat l) buf)"
      and hd: "unat (head_offset r + u64 l) = ?h + unat l"
      using idx lw by auto
    let ?r = "r\<lparr>rb_start := Some cs', head_offset := head_offset r + u64 l\<rparr>"
    have run: "push_loop r buf n pushed = push_loop ?r (drop (unat l) buf) (n2 - l) (pushed + l)"
      using False a cs' by (subst push_loop.simps) (simp add: n2_def [symmetric] idx_def [symmetric] l_def [symmetric] Let_def)
    have n2l: "unat (n2 - l) = m - unat l" using l n2 by (subst unat_minus_small) simp_all
    have "room ?r = room r - unat l" using hd off by (simp add: room_def)
    then have "m - unat l = min (unat (n2 - l)) (room ?r)" using n2l "1.prems"(3) by simp
    moreover have "unat (n2 - l) \<le> length (drop (unat l) buf)" using n2l mb(2) by simp
    ultimately have "\<exists>r'. push_loop ?r (drop (unat l) buf) (n2 - l) (pushed + l) = Inr (pushed + l + of_nat (m - unat l), r') \<and>
      rb_stream r' ((hist @ take (unat l) buf) @ take (m - unat l) (drop (unat l) buf)) \<and>
      ctail_offset r' = ctail_offset ?r \<and> alloc r' = alloc ?r"
      by (intro "1.IH" [OF n2_def False a idx_def l_def] st)
    then obtain r' where "push_loop ?r (drop (unat l) buf) (n2 - l) (pushed + l) = Inr (pushed + l + of_nat (m - unat l), r')"
      "rb_stream r' ((hist @ take (unat l) buf) @ take (m - unat l) (drop (unat l) buf))"
      "ctail_offset r' = ctail_offset ?r" "alloc r' = alloc ?r" by blast
    moreover have "l + of_nat (m - unat l) = of_nat m" 
    proof -
      have "m = unat l + (m - unat l)" using l by simp
      then show ?thesis by (metis of_nat_add of_nat_unat_id)
    qed
    moreover have "take (unat l) buf @ take (m - unat l) (drop (unat l) buf) = take m buf"
      using l by (metis le_add_diff_inverse min.cobounded1 take_add)
    ultimately show ?thesis using run by (simp add: add.assoc)
  qed
qed

lemma push_stream:
  assumes "rb_stream r hist" and "unat n \<le> length buf"
  shows "\<exists>r'. ring_buf_push r buf n = Inr (of_nat (min (unat n) (room r)), r') \<and>
    rb_stream r' (hist @ take (min (unat n) (room r)) buf) \<and> ctail_offset r' = ctail_offset r \<and> alloc r' = alloc r"
  using push_loop_stream [OF assms refl, of 0] by (simp add: ring_buf_push_def)

section \<open>What is read\<close>

lemma mod_add_small: "j mod n + d < n \<Longrightarrow> (j + d) mod n = j mod n + d" for j n d :: nat
  by (metis mod_add_left_eq mod_less)

lemma get_buf_at_stream:
  assumes r: "rb_stream r hist" and lo: "unat (ctail_offset r) \<le> unat lo" "unat lo \<le> unat (head_offset r)"
  shows "\<exists>src l. ring_buf_get_buf_at r lo = Some (src, l) \<and>
    buf_bytes r (src, l) = take (unat l) (drop (unat lo) hist) \<and> (l = 0 \<longleftrightarrow> unat lo = length hist) \<and>
    unat lo + unat l \<le> length hist \<and>
    (unat lo + unat l = length hist \<or> (unat lo + unat l) mod unat (alloc r) = 0)"
proof -
  let ?n = "unat (alloc r)" and ?h = "unat (head_offset r)" and ?o = "unat lo"
  have wf: "rb_wf r" and len: "length hist = ?h" using r by (simp_all add: rb_stream_def)
  note off = rb_wf_offsets [OF wf]
  have in_range: "\<not> (lo > head_offset r \<or> lo < ctail_offset r)" using lo by (simp add: word_less_nat_alt)
  show ?thesis
  proof (cases "alloc r = 0")
    case True
    then have "?h = unat (ctail_offset r)" using off by simp
    then show ?thesis using True in_range lo len by (simp add: ring_buf_get_buf_at_def buf_bytes_def)
  next
    case False
    then obtain cs where cs: "rb_start r = Some cs" "length cs = ?n"
      using wf by (auto simp: rb_wf_def split: option.splits)
    define idx where "idx = size_t (lo mod u64 (alloc r))"
    define d where "d = size_t (head_offset r - lo)"
    define l where "l = (if d > alloc r - idx then alloc r - idx else d)"
    have idx: "unat idx = ?o mod ?n" "unat idx < ?n" using False by (simp_all add: idx_def unat_ring_index unat_gt_0)
    have d: "unat d = ?h - ?o"
      using unat_size_t [of "head_offset r - lo"] unat_minus_small [OF lo(2)] off(3) lo(1) unat_word32_less [of "alloc r"]
      by (simp add: d_def)
    have "unat (alloc r - idx) = ?n - ?o mod ?n" using idx by (subst unat_minus_small) simp_all
    then have l: "unat l = min (?h - ?o) (?n - ?o mod ?n)" using d by (auto simp: l_def word_less_nat_alt)
    have bound: "?o mod ?n + unat l \<le> ?n" "?o + unat l \<le> ?h" using l idx lo(2) by linarith+
    have "take (unat l) (drop (?o mod ?n) cs) = take (unat l) (drop ?o hist)"
    proof (rule nth_equalityI)
      fix i assume "i < length (take (unat l) (drop (?o mod ?n) cs))"
      then have i: "i < unat l" by simp
      then have "cell r (?o + i) = hist ! (?o + i)" using r lo(1) bound(2) by (simp add: rb_stream_def)
      then show "take (unat l) (drop (?o mod ?n) cs) ! i = take (unat l) (drop ?o hist) ! i"
        using i bound len cs lo by (simp add: cell_def mod_add_small)
    qed (use bound len cs in simp)
    then have bytes: "buf_bytes r (Some (unat idx), l) = take (unat l) (drop ?o hist)"
      using cs by (simp add: buf_bytes_def idx(1))
    have "unat l = 0 \<longleftrightarrow> ?o = ?h" using l lo(2) idx by linarith
    then have zero: "l = 0 \<longleftrightarrow> ?o = length hist" using len by (simp add: unat_eq_0)
    have "?o + unat l = ?h \<or> (?o + unat l) mod ?n = 0"
    proof (cases "?h - ?o \<le> ?n - ?o mod ?n")
      case False
      then have "unat l = ?n - ?o mod ?n" using l by simp
      then show ?thesis using idx
        by (metis add.commute add_diff_inverse_nat less_imp_not_less mod_add_left_eq mod_self)
    qed (use l lo(2) in simp)
    then show ?thesis using in_range False bytes zero bound len
      by (simp add: ring_buf_get_buf_at_def Let_def idx_def [symmetric] d_def [symmetric] l_def [symmetric])
  qed
qed

lemma get_buf_at_outside:
  "unat lo < unat (ctail_offset r) \<or> unat (head_offset r) < unat lo \<Longrightarrow> ring_buf_get_buf_at r lo = None"
  by (auto simp: ring_buf_get_buf_at_def word_less_nat_alt)

lemma get_ptr_stream:
  assumes r: "rb_stream r hist" and lo: "unat (ctail_offset r) \<le> unat lo" "unat lo < unat (head_offset r)"
  shows "\<exists>i l. ring_buf_get_ptr r lo = Inr (Some (i, l)) \<and> the (rb_start r) ! i = hist ! unat lo \<and>
    i + unat l = unat (alloc r)"
proof -
  have "alloc r \<noteq> 0" using r lo by (auto simp: rb_stream_def rb_wf_def)
  moreover have "cell r (unat lo) = hist ! unat lo" using r lo by (simp add: rb_stream_def)
  ultimately show ?thesis using lo
    by (auto simp: ring_buf_get_ptr_def word_less_nat_alt word_le_nat_alt Let_def unat_ring_index cell_def
        unat_minus_small unat_gt_0 less_imp_le)
qed

section \<open>Culling\<close>

lemma mod_fill: "0 < n \<Longrightarrow> (j + (n - j mod n)) mod n = 0" for j n :: nat
  by (metis add.commute le_add_diff_inverse mod_add_left_eq mod_less_divisor mod_self less_imp_le)

lemma cleanse_window:
  assumes "length cs = n" and "0 < n" and "c \<le> j" and "j + l \<le> c + n" and "l \<le> n - j mod n"
  shows "\<exists>cs'. OPENSSL_cleanse (Some cs) (j mod n) l = Inr (Some cs') \<and> length cs' = n \<and>
    (\<forall>k. c \<le> k \<and> k < c + n \<longrightarrow> cs' ! (k mod n) = (if j \<le> k \<and> k < j + l then 0 else cs ! (k mod n)))"
  using copy_window [OF assms, of "replicate l 0"] unfolding OPENSSL_cleanse_def by fastforce

lemma cleanse_culled_window:
  assumes wf: "rb_wf r" and a: "alloc r \<noteq> 0" and en: "unat (ctail_offset r) < unat en" "unat en < 2 ^ 62"
    and cs: "rb_start r = Some cs"
  shows "\<exists>cs'. cleanse_culled r en = Inr (Some cs') \<and> length cs' = unat (alloc r) \<and>
    (\<forall>k. unat (ctail_offset r) \<le> k \<and> k < unat (ctail_offset r) + unat (alloc r) \<longrightarrow>
       cs' ! (k mod unat (alloc r)) =
         (if k < min (unat en + 1) (unat (head_offset r)) then 0 else cs ! (k mod unat (alloc r))))"
proof -
  let ?n = "unat (alloc r)" and ?c = "unat (ctail_offset r)"
  note off = rb_wf_offsets [OF wf]
  have len: "length cs = ?n" "0 < ?n" using wf cs a by (simp_all add: rb_wf_def unat_gt_0)
  define idx where "idx = size_t (ctail_offset r mod u64 (alloc r))"
  define ce where "ce = (if en + 1 > head_offset r then head_offset r else en + 1)"
  define l where "l = size_t (ce - ctail_offset r)"
  have en1: "unat (en + 1) = unat en + 1" using en(2) by (subst unat_plus_small) simp_all
  have ce: "unat ce = min (unat en + 1) (unat (head_offset r))" using en1 by (auto simp: ce_def word_less_nat_alt)
  have idx: "unat idx = ?c mod ?n" "?c mod ?n < ?n" using a len by (simp_all add: idx_def unat_ring_index)
  have rest: "unat (alloc r - idx) = ?n - ?c mod ?n" using idx by (subst unat_minus_small) simp_all
  have lce: "unat (ce - ctail_offset r) = unat ce - ?c" using ce en(1) off(1) by (intro unat_minus_small) simp
  have "unat ce - ?c \<le> ?n" using ce off(3) by linarith
  then have l: "unat l = unat ce - ?c" "unat l \<le> ?n"
    using unat_size_t [of "ce - ctail_offset r"] lce unat_word32_less [of "alloc r"] by (simp_all add: l_def)
  have run: "cleanse_culled r en = bind_res
           (if l > alloc r - idx
            then bind_res (OPENSSL_cleanse (rb_start r) (unat idx) (unat (alloc r - idx)))
                   (\<lambda>st. Inr (st, l - (alloc r - idx), 0))
            else Inr (rb_start r, l, idx))
           (\<lambda>(st, l, idx). if l > 0 then OPENSSL_cleanse st (unat idx) (unat l) else Inr st)"
    by (simp add: cleanse_culled_def Let_def idx_def ce_def l_def)
  show ?thesis
  proof (cases "l > alloc r - idx")
    case True
    define q where "q = ?n - ?c mod ?n"
    have lt: "q < unat l" using True rest by (simp add: word_less_nat_alt q_def)
    have q: "(?c + q) mod ?n = 0" unfolding q_def by (rule mod_fill [OF len(2)])
    obtain cs1 where cs1: "OPENSSL_cleanse (Some cs) (?c mod ?n) q = Inr (Some cs1)" "length cs1 = ?n"
      "\<forall>k. ?c \<le> k \<and> k < ?c + ?n \<longrightarrow> cs1 ! (k mod ?n) = (if ?c \<le> k \<and> k < ?c + q then 0 else cs ! (k mod ?n))"
      using cleanse_window [OF len le_refl, of ?c q] by (auto simp: q_def)
    have u2: "unat (l - (alloc r - idx)) = unat l - q" using lt rest by (subst unat_minus_small) (simp_all add: q_def)
    have "unat l - q \<le> ?n - (?c + q) mod ?n" "?c + q + (unat l - q) \<le> ?c + ?n" using q l(2) lt by simp_all
    with cleanse_window [OF cs1(2) len(2), of ?c "?c + q" "unat l - q"]
    obtain cs2 where cs2: "OPENSSL_cleanse (Some cs1) 0 (unat l - q) = Inr (Some cs2)" "length cs2 = ?n"
      "\<forall>k. ?c \<le> k \<and> k < ?c + ?n \<longrightarrow> cs2 ! (k mod ?n) =
         (if ?c + q \<le> k \<and> k < ?c + q + (unat l - q) then 0 else cs1 ! (k mod ?n))"
      using q by auto
    have "cs2 ! (k mod ?n) = (if k < unat ce then 0 else cs ! (k mod ?n))" if "?c \<le> k \<and> k < ?c + ?n" for k
      using that cs1(3) cs2(3) lt l(1) by auto
    moreover have "cleanse_culled r en = Inr (Some cs2)"
      using True cs1(1) cs2(1) lt cs idx(1) rest u2 by (simp add: run word_less_nat_alt q_def [symmetric])
    ultimately show ?thesis using cs2(2) ce by simp
  next
    case False
    then have le: "unat l \<le> ?n - ?c mod ?n" using rest by (simp add: word_less_nat_alt)
    obtain cs1 where cs1: "OPENSSL_cleanse (Some cs) (?c mod ?n) (unat l) = Inr (Some cs1)" "length cs1 = ?n"
      "\<forall>k. ?c \<le> k \<and> k < ?c + ?n \<longrightarrow> cs1 ! (k mod ?n) = (if ?c \<le> k \<and> k < ?c + unat l then 0 else cs ! (k mod ?n))"
      using cleanse_window [OF len le_refl _ le] l(2) by auto
    have "cs1 ! (k mod ?n) = (if k < unat ce then 0 else cs ! (k mod ?n))" if "?c \<le> k \<and> k < ?c + ?n" for k
      using that cs1(3) l(1) by auto
    moreover have "unat ce = ?c" if "unat l = 0" using that l(1) ce en(1) off(1) by linarith
    ultimately show ?thesis using False cs1(1,2) ce cs len l(1) idx(1) by (auto simp: run word_less_nat_alt)
  qed
qed

lemma cpop_range_stream:
  assumes r: "rb_stream r hist" and st: "st \<le> en" "unat st \<le> unat (ctail_offset r)"
    and en: "unat (ctail_offset r) \<le> unat en + 1" "unat en < 2 ^ 62"
  shows "\<exists>r'. ring_buf_cpop_range r st en cleanse = Inr r' \<and>
    rb_stream r' (hist @ replicate (unat en + 1 - length hist) 0) \<and> unat (ctail_offset r') = unat en + 1 \<and>
    unat (head_offset r') = max (length hist) (unat en + 1) \<and> alloc r' = alloc r \<and>
    (cleanse \<and> ctail_offset r < en \<longrightarrow>
       (\<forall>k. unat (ctail_offset r) \<le> k \<and> k < min (unat en + 1) (length hist) \<longrightarrow> cell r' k = 0)) \<and>
    (\<not> (cleanse \<and> ctail_offset r < en) \<longrightarrow> rb_start r' = rb_start r)"
proof -
  let ?c = "unat (ctail_offset r)" and ?h = "unat (head_offset r)" and ?a = "unat (alloc r)"
  have wf: "rb_wf r" and len: "length hist = ?h" using r by (simp_all add: rb_stream_def)
  note off = rb_wf_offsets [OF wf]
  have en1: "unat (en + 1) = unat en + 1" using en(2) by (subst unat_plus_small) simp_all
  define clr where "clr \<longleftrightarrow> cleanse \<and> alloc r > 0 \<and> en > ctail_offset r"
  obtain cs' where cs': "(if clr then cleanse_culled r en else Inr (rb_start r)) = Inr cs'"
    "case cs' of None \<Rightarrow> alloc r = 0 | Some cs \<Rightarrow> length cs = ?a"
    "\<forall>k. ?c \<le> k \<and> k < ?c + ?a \<longrightarrow> the cs' ! (k mod ?a) =
       (if clr \<and> k < min (unat en + 1) ?h then 0 else cell r k)"
    "\<not> clr \<longrightarrow> cs' = rb_start r"
  proof (cases clr)
    case True
    then have a: "alloc r \<noteq> 0" "?c < unat en" by (auto simp: clr_def word_less_nat_alt)
    then obtain cs where cs: "rb_start r = Some cs" using wf by (auto simp: rb_wf_def split: option.splits)
    show ?thesis using cleanse_culled_window [OF wf a en(2) cs] True that cs by (auto simp: cell_def)
  next
    case False
    then show ?thesis using that [of "rb_start r"] wf by (simp add: rb_wf_def cell_def)
  qed
  define r1 where "r1 = r\<lparr>rb_start := cs', ctail_offset := en + 1\<rparr>"
  define r' where "r' = (if head_offset r1 < ctail_offset r1 then r1\<lparr>head_offset := ctail_offset r1\<rparr> else r1)"
  have run: "ring_buf_cpop_range r st en cleanse = Inr r'"
  proof -
    have "\<not> (st > ctail_offset r \<or> en \<ge> MAX_OFFSET)" using st(2) en(2) by (simp add: word_less_nat_alt word_le_nat_alt)
    then show ?thesis using st(1) cs'(1)
      by (simp add: ring_buf_cpop_range_def clr_def [symmetric] Let_def r1_def [symmetric]) (simp add: r'_def r1_def)
  qed
  have fields: "ctail_offset r' = en + 1" "alloc r' = alloc r" "rb_start r' = cs'"
    "unat (head_offset r') = max ?h (unat en + 1)"
    using en1 by (auto simp: r'_def r1_def word_less_nat_alt)
  have "rb_wf r'" using cs'(2) en off unfolding rb_wf_def fields en1 by auto
  moreover have "cell r' k = hist ! k" if k: "unat en + 1 \<le> k" "k < ?h" for k
  proof -
    have "cell r' k = cell r k" using cs'(3) k en(1) off(3) off(1) by (simp add: cell_def fields)
    then show ?thesis using r k en(1) by (simp add: rb_stream_def)
  qed
  ultimately have stream: "rb_stream r' (hist @ replicate (unat en + 1 - length hist) 0)"
    using len by (auto simp: rb_stream_def fields en1 nth_append)
  have "cell r' k = 0" if "cleanse" "ctail_offset r < en" "?c \<le> k" "k < min (unat en + 1) ?h" for k
  proof -
    have "0 < alloc r" using that off by (auto simp: word_gt_0)
    moreover have "k < ?c + ?a" using that(4) off by linarith
    ultimately show ?thesis using cs'(3) that off by (simp add: cell_def fields clr_def)
  qed
  then show ?thesis using run stream fields len cs'(4) en1 by (auto simp: clr_def)
qed

section \<open>Resizing keeps the stream\<close>

lemma resize_loop_stream:
  assumes r: "rb_stream r hist" and rn: "rb_stream rnew (take (unat (ctail_offset r) + unat copied) hist)"
    and ct: "ctail_offset rnew = ctail_offset r" and fit: "length hist \<le> unat (ctail_offset r) + unat (alloc rnew)"
    and le: "unat (ctail_offset r) + unat copied \<le> length hist"
  shows "\<exists>r'. resize_loop r rnew copied = Some (Inr (True, r')) \<and> rb_stream r' hist \<and>
    ctail_offset r' = ctail_offset r \<and> alloc r' = alloc rnew"
  using rn ct fit le
proof (induction "length hist - (unat (ctail_offset r) + unat copied)" arbitrary: rnew copied rule: less_induct)
  case less
  let ?c = "unat (ctail_offset r)"
  define lo where "lo = ctail_offset r + u64 copied"
  have wf: "rb_wf r" and len: "length hist = unat (head_offset r)" using r by (simp_all add: rb_stream_def)
  have max: "length hist \<le> 2 ^ 62" using rb_wf_offsets(2) [OF wf] len by simp
  have lo: "unat lo = ?c + unat copied"
    unfolding lo_def using max less.prems(4) by (subst unat_plus_small) simp_all
  obtain src l where g: "ring_buf_get_buf_at r lo = Some (src, l)"
    "buf_bytes r (src, l) = take (unat l) (drop (unat lo) hist)" "l = 0 \<longleftrightarrow> unat lo = length hist"
    "unat lo + unat l \<le> length hist"
    using get_buf_at_stream [OF r, of lo] lo less.prems(4) len by auto
  show ?case
  proof (cases "l = 0")
    case True
    then show ?thesis using less.prems(1,2) g(1,3) lo by (subst resize_loop.simps) (simp add: lo_def [symmetric])
  next
    case False
    have lpos: "0 < unat l" using False by (simp add: unat_gt_0)
    have hn: "unat (head_offset rnew) = unat lo" using less.prems(1,4) lo by (simp add: rb_stream_def)
    have "unat l \<le> room rnew"
      using g(4) less.prems(2,3) max lo unfolding room_def hn less.prems(2) by linarith
    then have m: "min (unat l) (room rnew) = unat l" by simp
    have "unat l \<le> length (buf_bytes r (src, l))" using g(2,4) by simp
    from push_stream [OF less.prems(1) this] obtain r1 where
      p: "ring_buf_push rnew (buf_bytes r (src, l)) l = Inr (l, r1)"
      "rb_stream r1 (take (unat lo) hist @ take (unat l) (buf_bytes r (src, l)))"
      "ctail_offset r1 = ctail_offset rnew" "alloc r1 = alloc rnew"
      unfolding m lo by auto
    have cl: "unat (copied + l) = unat copied + unat l"
    proof -
      have "unat copied + unat l \<le> unat (alloc rnew)" using g(4) lo less.prems(3) by linarith
      then show ?thesis using unat_word32_less [of "alloc rnew"] by (intro unat_plus_small) simp
    qed
    have "rb_stream r1 (take (?c + unat (copied + l)) hist)"
      using p(2) g(2) lo by (simp add: cl take_add add.assoc [symmetric])
    moreover have "length hist - (?c + unat (copied + l)) < length hist - (?c + unat copied)"
      "?c + unat (copied + l) \<le> length hist" using g(4) lo lpos cl by linarith+
    ultimately obtain r' where
      "resize_loop r r1 (copied + l) = Some (Inr (True, r'))" "rb_stream r' hist"
      "ctail_offset r' = ctail_offset r" "alloc r' = alloc rnew"
      using less.hyps [of "copied + l" r1] p(3,4) less.prems(2,3) by auto
    moreover have "resize_loop r rnew copied = resize_loop r r1 (copied + l)"
      using g(1) False p(1) by (subst resize_loop.simps) (simp add: lo_def [symmetric])
    ultimately show ?thesis by simp
  qed
qed

lemma resize_stream:
  assumes r: "rb_stream r hist" and mal: "alloc_ok mal" "mal (unat n) = Some cs" and n: "n \<noteq> alloc r" "n \<noteq> 0"
    "\<not> n < ring_buf_used r"
  shows "\<exists>r'. ring_buf_resize mal r n cleanse = Some (Inr (True, r')) \<and> rb_stream r' hist \<and>
    ctail_offset r' = ctail_offset r \<and> alloc r' = n"
proof -
  have wf: "rb_wf r" and len: "length hist = unat (head_offset r)" using r by (simp_all add: rb_stream_def)
  note off = rb_wf_offsets [OF wf]
  have "u64 (ring_buf_used r) = head_offset r - ctail_offset r"
    using unat_used [OF wf] off(1) by (simp add: word_unat_eq_iff unat_minus_small)
  then have h: "head_offset r - u64 (ring_buf_used r) = ctail_offset r" by simp
  let ?rn = "\<lparr>rb_start = Some cs, alloc = n, head_offset = ctail_offset r, ctail_offset = ctail_offset r\<rparr>"
  have "length cs = unat n" using mal by (auto simp: alloc_ok_def)
  then have "rb_stream ?rn (take (unat (ctail_offset r)) hist)" using off len by (auto simp: rb_stream_def rb_wf_def)
  moreover have "length hist \<le> unat (ctail_offset r) + unat n"
    using n(3) unat_used [OF wf] len by (simp add: word_less_nat_alt)
  ultimately obtain r' where r': "resize_loop r ?rn 0 = Some (Inr (True, r'))" "rb_stream r' hist"
    "ctail_offset r' = ctail_offset r" "alloc r' = n"
    using resize_loop_stream [OF r, of ?rn 0] off len by auto
  then have "head_offset r' = head_offset r" using len by (simp add: rb_stream_def word_unat_eq_iff)
  then have "ring_buf_resize mal r n cleanse = Some (Inr (True, r'\<lparr>ctail_offset := ctail_offset r\<rparr>))"
    using n mal(2) r'(1) by (simp add: ring_buf_resize_def h Let_def)
  moreover have "r'\<lparr>ctail_offset := ctail_offset r\<rparr> = r'" using r'(3) by (intro ring_buf.equality) simp_all
  ultimately show ?thesis using r' by metis
qed

section \<open>Writing at an offset\<close>

text \<open>A round of the loop writes up to the end of the storage.\<close>

lemma write_round:
  assumes wf: "rb_wf r" and lo: "unat (ctail_offset r) \<le> unat lo" "unat lo + unat n \<le> unat (ctail_offset r) + unat (alloc r)"
    "unat lo + unat n \<le> 2 ^ 62" and n: "n \<noteq> 0" "unat n \<le> length buf"
    and l: "l = min (unat n) (unat (alloc r) - unat lo mod unat (alloc r))"
  shows "\<exists>r'. write_rounds (Suc i) r lo buf n = write_rounds i r' (lo + of_nat l) (drop l buf) (n - of_nat l) \<and>
    rb_wf r' \<and> ctail_offset r' = ctail_offset r \<and> alloc r' = alloc r \<and>
    unat (head_offset r') = max (unat (head_offset r)) (unat lo + l) \<and>
    (\<forall>k. unat (ctail_offset r) \<le> k \<and> k < unat (ctail_offset r) + unat (alloc r) \<longrightarrow>
       cell r' k = (if unat lo \<le> k \<and> k < unat lo + l then buf ! (k - unat lo) else cell r k))"
proof -
  let ?a = "unat (alloc r)" and ?c = "unat (ctail_offset r)"
  note off = rb_wf_offsets [OF wf]
  have "unat n \<noteq> 0" using n(1) by (simp add: unat_gt_0)
  then have "0 < ?a" using lo by linarith
  then have a: "0 < ?a" "alloc r \<noteq> 0" by (auto simp: unat_gt_0)
  obtain cs where cs: "rb_start r = Some cs" "length cs = ?a" using wf a(2) by (auto simp: rb_wf_def split: option.splits)
  define idx where "idx = size_t (lo mod u64 (alloc r))"
  define lw where "lw = (if n < alloc r - idx then n else alloc r - idx)"
  have idx: "unat idx = unat lo mod ?a" using a(2) by (simp add: idx_def unat_ring_index)
  have "unat (alloc r - idx) = ?a - unat lo mod ?a" using idx a by (subst unat_minus_small) (simp_all add: less_imp_le)
  then have lw: "unat lw = l" using l by (auto simp: lw_def word_less_nat_alt)
  have lwn: "lw = of_nat l" "u64 lw = of_nat l" using lw by (simp_all add: word_unat_eq_iff flip: lw)
  have le: "l \<le> unat n" "l \<le> ?a - unat lo mod ?a" using l by simp_all
  then obtain cs' where cs': "memcpy_to (Some cs) (unat lo mod ?a) buf l = Inr (Some cs')" "length cs' = ?a"
    "\<forall>k. ?c \<le> k \<and> k < ?c + ?a \<longrightarrow> cs' ! (k mod ?a) = (if unat lo \<le> k \<and> k < unat lo + l then buf ! (k - unat lo) else cs ! (k mod ?a))"
    using copy_window [OF cs(2) a(1) lo(1) _ le(2), of buf] lo(2) n(2) by auto
  have hl: "unat (lo + u64 lw) = unat lo + l" using lw le(1) lo(3) by (subst unat_plus_small) simp_all
  define r1 where "r1 = r\<lparr>rb_start := Some cs'\<rparr>"
  define r' where "r' = (if head_offset r1 < lo + u64 lw then r1\<lparr>head_offset := lo + u64 lw\<rparr> else r1)"
  have "write_rounds (Suc i) r lo buf n = write_rounds i r' (lo + u64 lw) (drop l buf) (n - lw)"
    using n(1) a(2) cs'(1) cs(1) idx lw
    by (simp add: write_rounds.simps(2) Let_def idx_def [symmetric] lw_def [symmetric]) (simp add: r1_def r'_def)
  note run = this [unfolded lwn(2), unfolded lwn(1)]
  have f: "ctail_offset r' = ctail_offset r" "alloc r' = alloc r" "rb_start r' = Some cs'"
    "unat (head_offset r') = max (unat (head_offset r)) (unat lo + l)"
    using hl by (auto simp: r'_def r1_def word_less_nat_alt)
  have "rb_wf r'" unfolding rb_wf_def f using cs'(2) off lo le(1) by auto
  moreover have "\<forall>k. ?c \<le> k \<and> k < ?c + ?a \<longrightarrow>
      cell r' k = (if unat lo \<le> k \<and> k < unat lo + l then buf ! (k - unat lo) else cell r k)"
    using cs'(3) cs(1) f(2,3) by (simp add: cell_def)
  ultimately show ?thesis using run f by blast
qed

lemma safe_add_u64: "safe_add_u a b err = (a + b, err \<or> 2 ^ 64 \<le> unat a + unat b)" for a b :: "64 word"
proof -
  have "(int (2 ^ 64) \<le> int (unat a + unat b)) = (2 ^ 64 \<le> unat a + unat b)" by (rule of_nat_le_iff)
  then have "(2 ^ 64 \<le> uint a + uint b) = (2 ^ 64 \<le> unat a + unat b)"
    by (simp only: of_nat_add uint_nat of_nat_power of_nat_numeral)
  then show ?thesis using add_u_overflow [of a b] by (simp add: safe_add_u_def)
qed

lemma write_at_guard:
  assumes wf: "rb_wf r"
  shows "ring_buf_write_at r lo buf n =
    (if unat lo < unat (ctail_offset r) \<or> unat (ctail_offset r) + unat (alloc r) < unat lo + unat n \<or>
        2 ^ 62 < unat (head_offset r) + unat n then Inr (False, r)
     else bind_res (write_rounds 2 r lo buf n) (\<lambda>(r, n). if n \<noteq> 0 then Inl Assert_Failed else Inr (True, r)))"
proof -
  let ?a = "unat (alloc r)" and ?c = "unat (ctail_offset r)" and ?h = "unat (head_offset r)"
  note off = rb_wf_offsets [OF wf]
  have e2: "?h + unat (ring_buf_avail r) = ?c + ?a" using unat_avail [OF wf] off by linarith
  have small: "?h + unat (ring_buf_avail r) < 2 ^ 64" "?h + unat n < 2 ^ 64"
    using off(1,2) e2 unat_word32_less [of "alloc r"] unat_word32_less [of n] by auto
  have u2: "unat (head_offset r + u64 (ring_buf_avail r)) = ?c + ?a" using small(1) e2 by (subst unat_plus_small) simp_all
  have u3: "unat (head_offset r + u64 n) = ?h + unat n" using small(2) by (subst unat_plus_small) simp_all
  show ?thesis
  proof (cases "unat lo + unat n < 2 ^ 64")
    case True
    then have u1: "unat (lo + u64 n) = unat lo + unat n" by (subst unat_plus_small) simp_all
    show ?thesis using True small
      by (simp add: ring_buf_write_at_def Let_def safe_add_u64 word_less_nat_alt u1 u2 u3)
  next
    case False
    then have "ring_buf_write_at r lo buf n = Inr (False, r)"
      by (simp add: ring_buf_write_at_def Let_def safe_add_u64)
    moreover have "?c + ?a < unat lo + unat n" using False small(1) e2 by linarith
    ultimately show ?thesis by simp
  qed
qed

lemma write_rounds_zero: "write_rounds i r lo buf 0 = Inr (r, 0)"
  by (cases i) (simp_all add: write_rounds.simps(2))

lemma write_at_stored:
  assumes wf: "rb_wf r" and lo: "unat (ctail_offset r) \<le> unat lo" "unat lo + unat n \<le> unat (ctail_offset r) + unat (alloc r)"
    "unat lo + unat n \<le> 2 ^ 62" "unat (head_offset r) + unat n \<le> 2 ^ 62" and n: "unat n \<le> length buf" "n \<noteq> 0"
  shows "\<exists>r'. ring_buf_write_at r lo buf n = Inr (True, r') \<and>
    rb_wf r' \<and> ctail_offset r' = ctail_offset r \<and> alloc r' = alloc r \<and>
    unat (head_offset r') = max (unat (head_offset r)) (unat lo + unat n) \<and>
    (\<forall>k. unat (ctail_offset r) \<le> k \<and> k < unat (ctail_offset r) + unat (alloc r) \<longrightarrow>
       cell r' k = (if unat lo \<le> k \<and> k < unat lo + unat n then buf ! (k - unat lo) else cell r k))"
proof -
  let ?a = "unat (alloc r)" and ?c = "unat (ctail_offset r)" and ?h = "unat (head_offset r)"
  have np: "0 < unat n" using n(2) by (simp add: unat_gt_0)
  then have a: "0 < ?a" using lo by linarith
  have at: "ring_buf_write_at r lo buf n = Inr (True, r')" if "write_rounds 2 r lo buf n = Inr (r', 0)" for r'
    using lo that by (simp add: write_at_guard [OF wf])
  define l where "l = min (unat n) (?a - unat lo mod ?a)"
  obtain r1 where r1: "write_rounds (Suc 1) r lo buf n = write_rounds 1 r1 (lo + of_nat l) (drop l buf) (n - of_nat l)"
    "rb_wf r1" "ctail_offset r1 = ctail_offset r" "alloc r1 = alloc r" "unat (head_offset r1) = max ?h (unat lo + l)"
    "\<forall>k. ?c \<le> k \<and> k < ?c + ?a \<longrightarrow> cell r1 k = (if unat lo \<le> k \<and> k < unat lo + l then buf ! (k - unat lo) else cell r k)"
    using write_round [OF wf lo(1-3) n(2,1) l_def, of 1] by metis
  have ln: "l \<le> unat n" by (simp add: l_def)
  have lw: "unat (of_nat l :: 32 word) = l" "unat (of_nat l :: 64 word) = l"
    using ln unat_word32_less [of n] by (auto intro!: unat_of_nat_small)
  show ?thesis
  proof (cases "l = unat n")
    case True
    then have "write_rounds 2 r lo buf n = Inr (r1, 0)" using r1(1) by (simp add: write_rounds_zero numeral_2_eq_2)
    then show ?thesis using r1 True at by auto
  next
    case False
    define lo1 where "lo1 = lo + of_nat l"
    define n1 where "n1 = n - of_nat l"
    have lo1: "unat lo1 = unat lo + l" unfolding lo1_def using lw ln lo(3) by (subst unat_plus_small) simp_all
    have n1: "unat n1 = unat n - l" unfolding n1_def using lw ln by (subst unat_minus_small) simp_all
    have l: "l = ?a - unat lo mod ?a" using False ln by (simp add: l_def)
    then have m0: "unat lo1 mod ?a = 0" using lo1 mod_fill [OF a, of "unat lo"] by simp
    have n1p: "n1 \<noteq> 0" "unat n1 \<le> length (drop l buf)" using False ln n1 n(1) by auto
    have "unat n1 = min (unat n1) (unat (alloc r1) - unat lo1 mod unat (alloc r1))"
      using m0 n1 lo r1(4) by simp
    moreover have "unat (ctail_offset r1) \<le> unat lo1" "unat lo1 + unat n1 \<le> unat (ctail_offset r1) + unat (alloc r1)"
      "unat lo1 + unat n1 \<le> 2 ^ 62" using r1(3,4) lo lo1 n1 ln by simp_all
    ultimately obtain r2 where
      r2: "write_rounds (Suc 0) r1 lo1 (drop l buf) n1 = Inr (r2, 0)"
      "rb_wf r2" "ctail_offset r2 = ctail_offset r" "alloc r2 = alloc r"
      "unat (head_offset r2) = max (max ?h (unat lo + l)) (unat lo1 + unat n1)"
      "\<forall>k. ?c \<le> k \<and> k < ?c + ?a \<longrightarrow> cell r2 k = (if unat lo1 \<le> k \<and> k < unat lo1 + unat n1 then drop l buf ! (k - unat lo1) else cell r1 k)"
      using write_round [OF r1(2) _ _ _ n1p, of lo1 "unat n1" 0]
      unfolding of_nat_unat_id r1(3-5) write_rounds.simps(1) diff_self by blast
    have "cell r2 k = (if unat lo \<le> k \<and> k < unat lo + unat n then buf ! (k - unat lo) else cell r k)"
      if k: "?c \<le> k \<and> k < ?c + ?a" for k
      using r1(6) r2(6) k lo1 n1 ln n(1) by (auto simp: nth_drop)
    moreover have "write_rounds 2 r lo buf n = Inr (r2, 0)"
      using r1(1) r2(1) by (simp add: numeral_2_eq_2 lo1_def n1_def)
    ultimately show ?thesis using r2 at lo1 n1 ln by auto
  qed
qed

section \<open>The interface of a window on a stream\<close>

text \<open>
  What the owner of a stream relies on: of the bytes it offers a prefix is accepted, culled bytes are given up, and the retained
  ones can be read back piece by piece, whatever was resized in between. \<open>holds s xs c\<close> says that the stream so far is \<open>xs\<close> and that
  its first \<open>c\<close> bytes have been culled; \<open>None\<close> is a call that does not return normally.
\<close>

datatype window_op = Push "8 word list" | Cull nat | Resize nat

fun run_window :: "('s \<Rightarrow> 8 word list \<Rightarrow> (nat \<times> 's) option) \<Rightarrow> ('s \<Rightarrow> nat \<Rightarrow> 's option) \<Rightarrow> ('s \<Rightarrow> nat \<Rightarrow> 's option) \<Rightarrow>
    's \<Rightarrow> 8 word list \<Rightarrow> nat \<Rightarrow> window_op list \<Rightarrow> ('s \<times> 8 word list \<times> nat) option" where
  \<comment> \<open>with the accepted bytes and the number of culled ones; only retained bytes are culled\<close>
  "run_window push cull resize s xs c [] = Some (s, xs, c)"
| "run_window push cull resize s xs c (Push ys # ops) =
     (case push s ys of None \<Rightarrow> None | Some (n, s) \<Rightarrow> run_window push cull resize s (xs @ take n ys) c ops)"
| "run_window push cull resize s xs c (Cull e # ops) =
     (if c \<le> e \<and> e < length xs
      then case cull s e of None \<Rightarrow> None | Some s \<Rightarrow> run_window push cull resize s xs (Suc e) ops
      else run_window push cull resize s xs c ops)"
| "run_window push cull resize s xs c (Resize n # ops) =
     (case resize s n of None \<Rightarrow> None | Some s \<Rightarrow> run_window push cull resize s xs c ops)"

function read_from :: "('s \<Rightarrow> nat \<Rightarrow> 8 word list option) \<Rightarrow> 's \<Rightarrow> nat \<Rightarrow> nat \<Rightarrow> 8 word list" where
  "read_from peek s k n =
     (if n = 0 then []
      else case peek s k of
             None \<Rightarrow> []
           | Some ys \<Rightarrow> if ys = [] then [] else take n ys @ read_from peek s (k + length ys) (n - length ys))"
  by pat_completeness auto
termination
  by (relation "measure (\<lambda>(peek, s, k, n). n)") auto

declare read_from.simps [simp del]

fun window_op_ok :: "window_op \<Rightarrow> bool" where
  "window_op_ok (Push ys) \<longleftrightarrow> length ys < 2 ^ 32"
| "window_op_ok (Resize n) \<longleftrightarrow> n < 2 ^ 32"
| "window_op_ok (Cull e) \<longleftrightarrow> True"

locale stream_window =
  fixes push :: "'s \<Rightarrow> 8 word list \<Rightarrow> (nat \<times> 's) option"
    and cull :: "'s \<Rightarrow> nat \<Rightarrow> 's option"
    and resize :: "'s \<Rightarrow> nat \<Rightarrow> 's option"
    and peek :: "'s \<Rightarrow> nat \<Rightarrow> 8 word list option"
    and holds :: "'s \<Rightarrow> 8 word list \<Rightarrow> nat \<Rightarrow> bool"
  assumes push_holds: "holds s xs c \<Longrightarrow> length ys < 2 ^ 32 \<Longrightarrow>
      \<exists>n s'. push s ys = Some (n, s') \<and> n \<le> length ys \<and> holds s' (xs @ take n ys) c"
    and cull_holds: "holds s xs c \<Longrightarrow> c \<le> e \<Longrightarrow> e < length xs \<Longrightarrow> \<exists>s'. cull s e = Some s' \<and> holds s' xs (Suc e)"
    and resize_holds: "holds s xs c \<Longrightarrow> n < 2 ^ 32 \<Longrightarrow> \<exists>s'. resize s n = Some s' \<and> holds s' xs c"
    and peek_holds: "holds s xs c \<Longrightarrow> c \<le> k \<Longrightarrow> k < length xs \<Longrightarrow>
      \<exists>ys. peek s k = Some ys \<and> ys \<noteq> [] \<and> k + length ys \<le> length xs \<and> ys = take (length ys) (drop k xs)"
begin

lemma run_window_holds:
  "holds s xs c \<Longrightarrow> \<forall>p \<in> set ops. window_op_ok p \<Longrightarrow>
   \<exists>s' xs' c'. run_window push cull resize s xs c ops = Some (s', xs', c') \<and> holds s' xs' c'"
proof (induction ops arbitrary: s xs c)
  case (Cons p ops)
  show ?case
  proof (cases p)
    case (Push ys)
    then obtain n s1 where "push s ys = Some (n, s1)" "holds s1 (xs @ take n ys) c"
      using push_holds [OF Cons.prems(1), of ys] Cons.prems(2) by auto
    then show ?thesis using Cons.IH [of s1] Cons.prems(2) Push by auto
  next
    case (Cull e)
    show ?thesis
    proof (cases "c \<le> e \<and> e < length xs")
      case True
      then obtain s1 where "cull s e = Some s1" "holds s1 xs (Suc e)" using cull_holds [OF Cons.prems(1)] by auto
      then show ?thesis using Cons.IH [of s1] Cons.prems(2) Cull True by auto
    qed (use Cons Cull in auto)
  next
    case (Resize n)
    then obtain s1 where "resize s n = Some s1" "holds s1 xs c"
      using resize_holds [OF Cons.prems(1), of n] Cons.prems(2) by auto
    then show ?thesis using Cons.IH [of s1] Cons.prems(2) Resize by auto
  qed
qed simp

lemma read_from_holds:
  "holds s xs c \<Longrightarrow> c \<le> k \<Longrightarrow> k + n \<le> length xs \<Longrightarrow> read_from peek s k n = take n (drop k xs)"
proof (induction n arbitrary: k rule: less_induct)
  case (less n)
  show ?case
  proof (cases "n = 0")
    case False
    then obtain ys where ys: "peek s k = Some ys" "ys \<noteq> []" "k + length ys \<le> length xs" "ys = take (length ys) (drop k xs)"
      using peek_holds [OF less.prems(1,2)] less.prems(3) by auto
    have "read_from peek s (k + length ys) (n - length ys) = take (n - length ys) (drop (k + length ys) xs)"
    proof (cases "length ys \<le> n")
      case True
      then show ?thesis using less.IH [of "n - length ys" "k + length ys"] less.prems False ys(2) by simp
    qed (simp add: read_from.simps)
    moreover have "take n ys @ take (n - length ys) (drop (k + length ys) xs) = take n (drop k xs)"
      using take_in_two [of n "length ys" "drop k xs"] ys(4) by (simp add: add.commute)
    ultimately show ?thesis using False ys(1,2) by (simp add: read_from.simps [of peek s k n])
  qed (simp add: read_from.simps)
qed

end

definition rb_push :: "ring_buf \<Rightarrow> 8 word list \<Rightarrow> (nat \<times> ring_buf) option" where
  "rb_push r ys = (case ring_buf_push r ys (of_nat (length ys)) of Inr (n, r) \<Rightarrow> Some (unat n, r) | Inl e \<Rightarrow> None)"

definition rb_cull :: "ring_buf \<Rightarrow> nat \<Rightarrow> ring_buf option" where
  "rb_cull r e = (case ring_buf_cpop_range r (ctail_offset r) (of_nat e) True of Inr r \<Rightarrow> Some r | Inl e \<Rightarrow> None)"

definition rb_resize :: "8 word allocator \<Rightarrow> ring_buf \<Rightarrow> nat \<Rightarrow> ring_buf option" where
  "rb_resize mal r n = (case ring_buf_resize mal r (of_nat n) True of Some (Inr (ok, r)) \<Rightarrow> Some r | _ \<Rightarrow> None)"

definition rb_peek :: "ring_buf \<Rightarrow> nat \<Rightarrow> 8 word list option" where
  "rb_peek r k = map_option (buf_bytes r) (ring_buf_get_buf_at r (of_nat k))"

definition rb_holds :: "8 word allocator \<Rightarrow> ring_buf \<Rightarrow> 8 word list \<Rightarrow> nat \<Rightarrow> bool" where
  "rb_holds mal r xs c \<longleftrightarrow> alloc_ok mal \<and> rb_stream r xs \<and> unat (ctail_offset r) = c"

lemma rb_stream_length: "rb_stream r hist \<Longrightarrow> length hist \<le> 2 ^ 62"
  by (simp add: rb_stream_def rb_wf_def)

lemma resize_keeps:
  assumes r: "rb_stream r hist" and mal: "alloc_ok mal"
  shows "\<exists>ok r'. ring_buf_resize mal r n cleanse = Some (Inr (ok, r')) \<and> rb_stream r' hist \<and>
    ctail_offset r' = ctail_offset r \<and> (if ok then alloc r' = n else r' = r)"
proof -
  consider (same) "n = alloc r" | (small) "n \<noteq> alloc r" "n < ring_buf_used r"
    | (fails) "n \<noteq> alloc r" "\<not> n < ring_buf_used r" "(if n = 0 then None else mal (unat n)) = None"
    | (moves) cs where "n \<noteq> alloc r" "\<not> n < ring_buf_used r" "n \<noteq> 0" "mal (unat n) = Some cs"
    by (metis not_Some_eq)
  then show ?thesis
  proof cases
    case moves
    then show ?thesis using resize_stream [OF r mal moves(4,1,3,2), of cleanse] by auto
  next
    case fails
    then have "ring_buf_resize mal r n cleanse = Some (Inr (False, r))" by (simp add: ring_buf_resize_def del: if_split)
    then show ?thesis using r by auto
  qed (use r in \<open>auto simp: ring_buf_resize_def\<close>)
qed

lemma unat_offset: "k \<le> 2 ^ 62 \<Longrightarrow> unat (of_nat k :: 64 word) = k"
  by (rule unat_of_nat_small) simp

interpretation rb: stream_window rb_push rb_cull "rb_resize mal" rb_peek "rb_holds mal"
proof
  fix r xs c and ys :: "8 word list" assume h: "rb_holds mal r xs c" and ys: "length ys < 2 ^ 32"
  let ?m = "min (length ys) (room r)"
  have n: "unat (of_nat (length ys) :: 32 word) = length ys" using ys by (intro unat_of_nat_small) simp
  have m: "unat (of_nat ?m :: 32 word) = ?m" using ys by (intro unat_of_nat_small) simp
  show "\<exists>n s'. rb_push r ys = Some (n, s') \<and> n \<le> length ys \<and> rb_holds mal s' (xs @ take n ys) c"
    using push_stream [of r xs "of_nat (length ys)" ys] h n m by (auto simp: rb_holds_def rb_push_def)
next
  fix r xs c and e :: nat assume h: "rb_holds mal r xs c" and e: "c \<le> e" "e < length xs"
  then have st: "rb_stream r xs" "unat (ctail_offset r) = c" by (simp_all add: rb_holds_def)
  have e62: "e < 2 ^ 62" using rb_stream_length [OF st(1)] e(2) by simp
  then have u: "unat (of_nat e :: 64 word) = e" by (intro unat_offset) simp
  show "\<exists>s'. rb_cull r e = Some s' \<and> rb_holds mal s' xs (Suc e)"
    using cpop_range_stream [OF st(1), of "ctail_offset r" "of_nat e" True] u e e62 h st(2)
    by (auto simp: rb_holds_def rb_cull_def word_le_nat_alt)
next
  fix r xs c and n :: nat assume "rb_holds mal r xs c" "n < 2 ^ 32"
  then show "\<exists>s'. rb_resize mal r n = Some s' \<and> rb_holds mal s' xs c"
    using resize_keeps [of r xs mal "of_nat n" True] by (auto simp: rb_holds_def rb_resize_def)
next
  fix r xs c and k :: nat assume h: "rb_holds mal r xs c" and k: "c \<le> k" "k < length xs"
  then have st: "rb_stream r xs" by (simp add: rb_holds_def)
  then have u: "unat (of_nat k :: 64 word) = k" using rb_stream_length [OF st] k(2) by (intro unat_offset) simp
  have len: "length xs = unat (head_offset r)" using st by (simp add: rb_stream_def)
  obtain src l where g: "ring_buf_get_buf_at r (of_nat k) = Some (src, l)"
    "buf_bytes r (src, l) = take (unat l) (drop k xs)" "l = 0 \<longleftrightarrow> k = length xs" "k + unat l \<le> length xs"
    using get_buf_at_stream [OF st, of "of_nat k"] u k h len by (auto simp: rb_holds_def)
  have "0 < unat l" using g(3) k(2) by (simp add: unat_gt_0)
  then show "\<exists>ys. rb_peek r k = Some ys \<and> ys \<noteq> [] \<and> k + length ys \<le> length xs \<and> ys = take (length ys) (drop k xs)"
    using g k(2) by (auto simp: rb_peek_def)
qed

lemma init_holds_nothing: "alloc_ok mal \<Longrightarrow> rb_holds mal ring_buf_init [] 0"
  by (simp add: rb_holds_def rb_stream_def rb_wf_def ring_buf_init_def)

text \<open>
  C13: a ring buffer keeps its stream. Start with an empty ring buffer, push blocks, cull bytes from the front and change
  the size, in any order and with an allocator that may fail. Then every operation returns, and any range of the bytes accepted so
  far that has not been culled, read piece by piece with \<open>ring_buf_get_buf_at\<close>, is what was pushed at these offsets.
\<close>
theorem ring_buf_keeps_stream:
  assumes "alloc_ok mal" and "\<forall>p \<in> set ops. window_op_ok p"
  shows "\<exists>r xs c. run_window rb_push rb_cull (rb_resize mal) ring_buf_init [] 0 ops = Some (r, xs, c) \<and>
    (\<forall>k n. c \<le> k \<and> k + n \<le> length xs \<longrightarrow> read_from rb_peek r k n = take n (drop k xs))"
  using rb.run_window_holds [OF init_holds_nothing assms(2), OF assms(1)] rb.read_from_holds by blast

lemma sample_alloc_ok: "alloc_ok (\<lambda>n. Some (replicate n 0))"
  by (simp add: alloc_ok_def)

theorem ring_buf_keeps_stream_witness:
  "\<exists>r. run_window rb_push rb_cull (rb_resize (\<lambda>n. Some (replicate n 0))) ring_buf_init [] 0
      [Resize 4, Push [1, 2, 3], Cull 1, Push [4, 5, 6, 7], Resize 5, Push [8]] = Some (r, [1, 2, 3, 4, 5, 6, 8], 2) \<and>
    read_from rb_peek r 2 5 = [3, 4, 5, 6, 8]"
proof -
  let ?ops = "[Resize 4, Push [1, 2, 3], Cull 1, Push [4, 5, 6, 7], Resize 5, Push [8]]"
  let ?run = "run_window rb_push rb_cull (rb_resize (\<lambda>n. Some (replicate n 0))) ring_buf_init [] 0 ?ops"
  obtain r where r: "?run = Some (r, [1, 2, 3, 4, 5, 6, 8], 2)"
  proof -
    have "?run = Some (\<lparr>rb_start = Some [6, 8, 3, 4, 5], alloc = 5, head_offset = 7, ctail_offset = 2\<rparr>,
      [1, 2, 3, 4, 5, 6, 8], 2)" by code_simp
    then show ?thesis using that by blast
  qed
  have "\<forall>p \<in> set ?ops. window_op_ok p" by simp
  from ring_buf_keeps_stream [OF sample_alloc_ok this] r show ?thesis by auto
qed

lemma wf_stream: "rb_wf r \<Longrightarrow> rb_stream r (map (cell r) [0..<unat (head_offset r)])"
  by (simp add: rb_stream_def)

lemma stream_wf: "rb_stream r hist \<Longrightarrow> rb_wf r"
  by (simp add: rb_stream_def)

lemma cpop_range_wf:
  assumes "rb_wf r" and "st \<le> en" and "unat (ctail_offset r) \<le> unat en + 1"
  shows "\<exists>r'. ring_buf_cpop_range r st en cleanse = Inr r' \<and> rb_wf r'"
proof (cases "st > ctail_offset r \<or> en \<ge> MAX_OFFSET")
  case True
  then show ?thesis using assms by (auto simp: ring_buf_cpop_range_def)
next
  case False
  then have "unat st \<le> unat (ctail_offset r)" "unat en < 2 ^ 62" by (simp_all add: word_less_nat_alt word_le_nat_alt)
  from cpop_range_stream [OF wf_stream [OF assms(1)] assms(2) this(1) assms(3) this(2), of cleanse]
  show ?thesis using stream_wf by fast
qed

lemma write_at_wf:
  assumes "rb_wf r" and "unat n \<le> length buf" and "unat lo + unat n \<le> 2 ^ 62"
  shows "\<exists>ok r'. ring_buf_write_at r lo buf n = Inr (ok, r') \<and> rb_wf r'"
proof (cases "n = 0")
  case True
  then show ?thesis using write_at_guard [OF assms(1)] assms(1) by (auto simp: write_rounds_zero)
next
  case n: False
  show ?thesis
  proof (cases "unat lo < unat (ctail_offset r) \<or> unat (ctail_offset r) + unat (alloc r) < unat lo + unat n \<or>
        2 ^ 62 < unat (head_offset r) + unat n")
    case True
    then have "ring_buf_write_at r lo buf n = Inr (False, r)" using write_at_guard [OF assms(1), of lo buf n] by presburger
    then show ?thesis using assms(1) by blast
  next
    case False
    then show ?thesis using write_at_stored [OF assms(1) _ _ assms(3) _ assms(2) n] by (metis not_less)
  qed
qed



text \<open>
  Writing at an offset. A call of \<open>ring_buf_write_at\<close> on a well-formed buffer is refused, and changes nothing, when the
  range begins before the culled part, ends behind the storage, or the head moved by its length would pass the limit of the protocol.
  Otherwise it succeeds in its two rounds, and when the range itself ends within the limit, every byte of it has its new value, no other
  byte of the storage changes, and the head is at the end of the range if it was before it.
\<close>
lemma ring_buf_write_at_window:
  assumes "rb_wf r" and "unat n \<le> length buf" and "n \<noteq> 0" and "unat lo + unat n \<le> 2 ^ 62"
  shows "if unat lo < unat (ctail_offset r) \<or> unat (ctail_offset r) + unat (alloc r) < unat lo + unat n \<or>
            2 ^ 62 < unat (head_offset r) + unat n
    then ring_buf_write_at r lo buf n = Inr (False, r)
    else \<exists>r'. ring_buf_write_at r lo buf n = Inr (True, r') \<and>
      rb_wf r' \<and> ctail_offset r' = ctail_offset r \<and> alloc r' = alloc r \<and>
      unat (head_offset r') = max (unat (head_offset r)) (unat lo + unat n) \<and>
      (\<forall>k. unat (ctail_offset r) \<le> k \<and> k < unat (ctail_offset r) + unat (alloc r) \<longrightarrow>
         cell r' k = (if unat lo \<le> k \<and> k < unat lo + unat n then buf ! (k - unat lo) else cell r k))"
  using write_at_guard [OF assms(1), of lo buf n] write_at_stored [OF assms(1) _ _ assms(4) _ assms(2,3)] by auto

text \<open>
  The limit is checked for the head, not for the range: a range behind the head is accepted although it ends
  after the largest offset, while one that lies inside the retained bytes is refused when the head is close to the limit.
\<close>

lemma write_at_limit_on_head:
  "ring_buf_write_at \<lparr>rb_start = Some [0, 0, 0, 0], alloc = 4, head_offset = 2 ^ 62 - 1, ctail_offset = 2 ^ 62 - 1\<rparr> (2 ^ 62 + 1) [7] 1 =
     Inr (True, \<lparr>rb_start = Some [0, 7, 0, 0], alloc = 4, head_offset = 2 ^ 62 + 2, ctail_offset = 2 ^ 62 - 1\<rparr>)"
  "ring_buf_write_at \<lparr>rb_start = Some [0, 0, 0, 0], alloc = 4, head_offset = 2 ^ 62, ctail_offset = 2 ^ 62 - 2\<rparr> (2 ^ 62 - 1) [7] 1 =
     Inr (False, \<lparr>rb_start = Some [0, 0, 0, 0], alloc = 4, head_offset = 2 ^ 62, ctail_offset = 2 ^ 62 - 2\<rparr>)"
  by code_simp+

text \<open>A cull of exactly one byte does not clear it.\<close>

lemma cpop_single_byte_kept:
  assumes "rb_stream r hist" and "unat (ctail_offset r) < unat (head_offset r)"
  shows "\<exists>r'. ring_buf_cpop_range r (ctail_offset r) (ctail_offset r) True = Inr r' \<and>
    unat (ctail_offset r') = unat (ctail_offset r) + 1 \<and> rb_start r' = rb_start r"
proof -
  have "unat (ctail_offset r) < 2 ^ 62" using assms rb_wf_offsets(2) [of r] by (simp add: rb_stream_def)
  then show ?thesis using cpop_range_stream [OF assms(1), of "ctail_offset r" "ctail_offset r" True] by auto
qed

text \<open>A range that ends before the culled part moves the tail back, over bytes that may have been overwritten.\<close>

lemma cpop_moves_back:
  "ring_buf_cpop_range \<lparr>rb_start = Some [1, 2], alloc = 2, head_offset = 5, ctail_offset = 4\<rparr> 0 1 False =
     Inr \<lparr>rb_start = Some [1, 2], alloc = 2, head_offset = 5, ctail_offset = 2\<rparr>"
  by code_simp

end
