(* ===== verification/Quic_Sstream.thy ===== *)
theory Quic_Sstream
  imports Ring_Buf Uint_Set
begin

text \<open>
  The sending side of a QUIC stream, \<open>ssl/quic/quic_sstream.c\<close>: a ring buffer with the bytes that are not yet acknowledged, the set of
  bytes that are to be sent and the set of acknowledged ones. An operation that allocates takes whether the allocation of a set item
  succeeds. The entries of an \<open>OSSL_QTX_IOVEC\<close> array are pairs of a pointer into the ring buffer and a length.
\<close>

record quic_sstream =
  sbuf :: ring_buf
  new_set :: uint_set
  acked_set :: uint_set
  have_final_size :: bool
  sent_final_size :: bool
  acked_final_size :: bool
  cleanse_bufs :: bool

text \<open>Of a frame, the members that are set here.\<close>

record stream_frame =
  hdr_offset :: "64 word"
  hdr_len :: "64 word"
  is_fin :: bool

type_synonym iovec = "nat option \<times> 32 word"

definition ossl_quic_sstream_new :: "8 word allocator \<Rightarrow> bool \<Rightarrow> 32 word \<Rightarrow> quic_sstream option comp" where
  \<comment> \<open>\<open>zalloc\<close>: the structure could be allocated; its flags are zero\<close>
  "ossl_quic_sstream_new mal zalloc init_buf_size =
     (if \<not> zalloc then Some (Inr None)
      else bind_comp (ring_buf_resize mal ring_buf_init init_buf_size False) (\<lambda>(ok, rb).
             Some (Inr (if ok
               then Some \<lparr>sbuf = rb, new_set = ossl_uint_set_init, acked_set = ossl_uint_set_init, have_final_size = False,
                          sent_final_size = False, acked_final_size = False, cleanse_bufs = False\<rparr>
               else None))))"

definition ossl_quic_sstream_free :: "quic_sstream option \<Rightarrow> (uint_set \<times> uint_set \<times> 8 word list option) option" where
  \<comment> \<open>what is left of the sets, and the storage of the ring buffer at the moment it is released\<close>
  "ossl_quic_sstream_free q = map_option (\<lambda>q.
     (ossl_uint_set_destroy (new_set q), ossl_uint_set_destroy (acked_set q),
      fst (ring_buf_destroy (sbuf q) (cleanse_bufs q)))) q"

section \<open>Frames\<close>

fun skip_ranges :: "nat \<Rightarrow> nat \<Rightarrow> uint_range list \<Rightarrow> nat \<times> uint_range list" where
  \<comment> \<open>the loop over \<open>skip\<close> items: its counter, and the items from the current one on\<close>
  "skip_ranges i skip [] = (i, [])"
| "skip_ranges i skip (x # xs) = (if i < skip then skip_ranges (i + 1) skip xs else (i, x # xs))"

function frame_loop ::
    "ring_buf \<Rightarrow> 64 word \<Rightarrow> 64 word \<Rightarrow> nat \<Rightarrow> 32 word \<Rightarrow> iovec list \<Rightarrow> (32 word \<times> iovec list) option res" where
  \<comment> \<open>\<open>None\<close>: the function returns 0\<close>
  "frame_loop rb a max_len i total_len iov =
     (if u64 total_len \<ge> max_len then Inr (Some (total_len, iov))
      else case ring_buf_get_buf_at rb (a + u64 total_len) of
             None \<Rightarrow> Inr None
           | Some (src, src_len) \<Rightarrow>
               if src_len = 0 then Inr (Some (total_len, iov))
               else if \<not> i < 2 then Inl Assert_Failed
               else let src_len = (if u64 (total_len + src_len) > max_len then size_t (max_len - u64 total_len) else src_len)
                    in frame_loop rb a max_len (i + 1) (total_len + src_len) (iov @ [(src, src_len)]))"
  by pat_completeness auto
termination
  by (relation "measure (\<lambda>(rb, a, max_len, i, total_len, iov). 2 - i)") auto

declare frame_loop.simps [simp del]

definition ossl_quic_sstream_get_stream_frame ::
    "quic_sstream \<Rightarrow> nat \<Rightarrow> nat \<Rightarrow> (stream_frame \<times> iovec list) option res" where
  \<comment> \<open>\<open>num_iov\<close>: the number of entries that the array of the caller has\<close>
  "ossl_quic_sstream_get_stream_frame q skip num_iov =
     (if num_iov < 2 then Inr None
      else case skip_ranges 0 skip (ranges (new_set q)) of
             (i, []) \<Rightarrow>
               if i < skip then Inr None
               else if \<not> have_final_size q \<or> sent_final_size q then Inr None
               else Inr (Some (\<lparr>hdr_offset = head_offset (sbuf q), hdr_len = 0, is_fin = True\<rparr>, []))
           | (i, rg # _) \<Rightarrow>
               bind_res (frame_loop (sbuf q) (start rg) (end rg - start rg + 1) 0 0 []) (\<lambda>f.
                 case f of
                   None \<Rightarrow> Inr None
                 | Some (total_len, iov) \<Rightarrow>
                     Inr (Some (\<lparr>hdr_offset = start rg, hdr_len = u64 total_len,
                       is_fin = (have_final_size q \<and> start rg + u64 total_len = head_offset (sbuf q))\<rparr>, iov))))"

definition ossl_quic_sstream_has_pending :: "quic_sstream \<Rightarrow> bool res" where
  "ossl_quic_sstream_has_pending q = bind_res (ossl_quic_sstream_get_stream_frame q 0 2) (\<lambda>f. Inr (f \<noteq> None))"

fun adjust_walk :: "32 word \<Rightarrow> 32 word \<Rightarrow> iovec list \<Rightarrow> iovec list" where
  "adjust_walk len running [] = []"
| "adjust_walk len running ((buf, iovlen) # iov) =
     (buf, if running \<ge> len then 0 else if running + iovlen > len then len - running else iovlen)
     # adjust_walk len (running + iovlen) iov"

definition ossl_quic_sstream_adjust_iov :: "32 word \<Rightarrow> iovec list \<Rightarrow> iovec list" where
  "ossl_quic_sstream_adjust_iov len iov = adjust_walk len 0 iov"

section \<open>Progress of the peer\<close>

definition ossl_quic_sstream_get_cur_size :: "quic_sstream \<Rightarrow> 64 word" where
  "ossl_quic_sstream_get_cur_size q = head_offset (sbuf q)"

definition ossl_quic_sstream_mark_transmitted :: "bool \<Rightarrow> quic_sstream \<Rightarrow> 64 word \<Rightarrow> 64 word \<Rightarrow> (bool \<times> quic_sstream) res" where
  "ossl_quic_sstream_mark_transmitted mem q a b =
     bind_res (ossl_uint_set_remove mem (new_set q) (rng a b)) (\<lambda>(ok, s). Inr (ok, q\<lparr>new_set := s\<rparr>))"

definition ossl_quic_sstream_mark_transmitted_fin :: "quic_sstream \<Rightarrow> 64 word \<Rightarrow> bool \<times> quic_sstream" where
  "ossl_quic_sstream_mark_transmitted_fin q final_size =
     (if \<not> have_final_size q \<or> final_size \<noteq> head_offset (sbuf q) then (False, q)
      else (True, q\<lparr>sent_final_size := True\<rparr>))"

definition ossl_quic_sstream_mark_lost :: "bool \<Rightarrow> quic_sstream \<Rightarrow> 64 word \<Rightarrow> 64 word \<Rightarrow> bool \<times> quic_sstream" where
  "ossl_quic_sstream_mark_lost mem q a b =
     (case ossl_uint_set_insert mem (new_set q) (rng a b) of (ok, s) \<Rightarrow> (ok, q\<lparr>new_set := s\<rparr>))"

definition ossl_quic_sstream_mark_lost_fin :: "quic_sstream \<Rightarrow> bool \<times> quic_sstream" where
  "ossl_quic_sstream_mark_lost_fin q =
     (if acked_final_size q then (False, q) else (True, q\<lparr>sent_final_size := False\<rparr>))"

definition qss_cull :: "quic_sstream \<Rightarrow> quic_sstream res" where
  "qss_cull q =
     (case ranges (acked_set q) of
        [] \<Rightarrow> Inr q
      | h # _ \<Rightarrow> bind_res (ring_buf_cpop_range (sbuf q) (start h) (end h) (cleanse_bufs q)) (\<lambda>rb. Inr (q\<lparr>sbuf := rb\<rparr>)))"

definition ossl_quic_sstream_mark_acked :: "bool \<Rightarrow> quic_sstream \<Rightarrow> 64 word \<Rightarrow> 64 word \<Rightarrow> (bool \<times> quic_sstream) res" where
  "ossl_quic_sstream_mark_acked mem q a b =
     (case ossl_uint_set_insert mem (acked_set q) (rng a b) of
        (ok, s) \<Rightarrow> if \<not> ok then Inr (False, q\<lparr>acked_set := s\<rparr>)
                   else bind_res (qss_cull (q\<lparr>acked_set := s\<rparr>)) (\<lambda>q. Inr (True, q)))"

definition ossl_quic_sstream_mark_acked_fin :: "quic_sstream \<Rightarrow> bool \<times> quic_sstream" where
  "ossl_quic_sstream_mark_acked_fin q =
     (if \<not> have_final_size q then (False, q) else (True, q\<lparr>acked_final_size := True\<rparr>))"

definition ossl_quic_sstream_fin :: "quic_sstream \<Rightarrow> quic_sstream" where
  "ossl_quic_sstream_fin q = (if have_final_size q then q else q\<lparr>have_final_size := True\<rparr>)"

definition ossl_quic_sstream_get_final_size :: "quic_sstream \<Rightarrow> 64 word option" where
  "ossl_quic_sstream_get_final_size q = (if \<not> have_final_size q then None else Some (head_offset (sbuf q)))"

definition ossl_quic_sstream_is_totally_acked :: "quic_sstream \<Rightarrow> bool res" where
  "ossl_quic_sstream_is_totally_acked q =
     (if have_final_size q \<and> \<not> acked_final_size q then Inr False
      else if ossl_quic_sstream_get_cur_size q = 0 then Inr True
      else case ranges (acked_set q) of
             [r] \<Rightarrow> let cur_size = head_offset (sbuf q)
                    in if \<not> end r + 1 \<le> cur_size then Inl Assert_Failed
                       else Inr (start r = 0 \<and> end r + 1 = cur_size)
           | _ \<Rightarrow> Inr False)"

section \<open>Appending\<close>

partial_function (option) append_loop :: "ring_buf \<Rightarrow> 8 word list \<Rightarrow> 32 word \<Rightarrow> 32 word \<Rightarrow> (32 word \<times> ring_buf) comp" where
  "append_loop rb buf buf_len consumed =
     (if buf_len = 0 then Some (Inr (consumed, rb))
      else case ring_buf_push rb buf buf_len of
             Inl e \<Rightarrow> Some (Inl e)
           | Inr (l, rb) \<Rightarrow> if l = 0 then Some (Inr (consumed, rb))
                            else append_loop rb (drop (unat l) buf) (buf_len - l) (consumed + l))"

declare append_loop.simps [code]

definition ossl_quic_sstream_append ::
    "bool \<Rightarrow> quic_sstream \<Rightarrow> 8 word list \<Rightarrow> 32 word \<Rightarrow> (bool \<times> 32 word \<times> quic_sstream) comp" where
  \<comment> \<open>the copy \<open>old_ring_buf\<close> of the structure shares its storage with the ring buffer\<close>
  "ossl_quic_sstream_append mem q buf buf_len =
     (if have_final_size q then Some (Inr (False, 0, q))
      else bind_comp (append_loop (sbuf q) buf buf_len 0) (\<lambda>(consumed, rb).
             if consumed > 0
             then let a = head_offset (sbuf q); b = a + u64 consumed - 1
                  in if b + 1 \<noteq> head_offset rb then Some (Inl Assert_Failed)
                     else (case ossl_uint_set_insert mem (new_set q) (rng a b) of
                             (ok, s) \<Rightarrow>
                               if ok then Some (Inr (True, consumed, q\<lparr>sbuf := rb, new_set := s\<rparr>))
                               else Some (Inr (False, 0, q\<lparr>sbuf := (sbuf q)\<lparr>rb_start := rb_start rb\<rparr>, new_set := s\<rparr>)))
             else Some (Inr (True, 0, q\<lparr>sbuf := rb\<rparr>))))"

section \<open>Buffer\<close>

definition ossl_quic_sstream_set_buffer_size :: "8 word allocator \<Rightarrow> quic_sstream \<Rightarrow> 32 word \<Rightarrow> (bool \<times> quic_sstream) comp" where
  "ossl_quic_sstream_set_buffer_size mal q num_bytes =
     bind_comp (ring_buf_resize mal (sbuf q) num_bytes (cleanse_bufs q)) (\<lambda>(ok, rb). Some (Inr (ok, q\<lparr>sbuf := rb\<rparr>)))"

definition ossl_quic_sstream_get_buffer_size :: "quic_sstream \<Rightarrow> 32 word" where
  "ossl_quic_sstream_get_buffer_size q = alloc (sbuf q)"

definition ossl_quic_sstream_get_buffer_used :: "quic_sstream \<Rightarrow> 32 word" where
  "ossl_quic_sstream_get_buffer_used q = ring_buf_used (sbuf q)"

definition ossl_quic_sstream_get_buffer_avail :: "quic_sstream \<Rightarrow> 32 word" where
  "ossl_quic_sstream_get_buffer_avail q = ring_buf_avail (sbuf q)"

definition ossl_quic_sstream_set_cleanse :: "quic_sstream \<Rightarrow> bool \<Rightarrow> quic_sstream" where
  "ossl_quic_sstream_set_cleanse q c = q\<lparr>cleanse_bufs := c\<rparr>"

section \<open>The states of a byte\<close>

text \<open>
  A byte of the stream is new, in flight or acknowledged. The users of a stream may mark any range as transmitted; they report as
  lost only bytes of the stream that have not been acknowledged, and as acknowledged only bytes in flight, as the packetiser does, which
  settles every packet once. The code does not check this contract, and needs it: \<open>lost_after_acked_sticks\<close> and
  \<open>overlapping_acks_stay_open\<close> below show what happens outside it. A step of the stream keeps, beside the structure, the bytes
  appended so far.
\<close>

definition new_bytes :: "quic_sstream \<Rightarrow> 64 word set" where "new_bytes q = elems (ranges (new_set q))"

definition acked_bytes :: "quic_sstream \<Rightarrow> 64 word set" where "acked_bytes q = elems (ranges (acked_set q))"

definition in_flight :: "quic_sstream \<Rightarrow> 64 word set" where
  "in_flight q = {v. v < head_offset (sbuf q)} - new_bytes q - acked_bytes q"

definition lossable :: "quic_sstream \<Rightarrow> 64 word set" where
  "lossable q = {v. v < head_offset (sbuf q)} - acked_bytes q"

inductive sstream_step :: "8 word allocator \<Rightarrow> quic_sstream \<times> 8 word list \<Rightarrow> quic_sstream \<times> 8 word list \<Rightarrow> bool"
  for mal where
  append: "ossl_quic_sstream_append mem q buf n = Some (Inr (ok, k, q')) \<Longrightarrow> unat n \<le> length buf \<Longrightarrow>
     sstream_step mal (q, xs) (q', xs @ take (unat k) buf)"
| transmitted: "a \<le> b \<Longrightarrow>
     ossl_quic_sstream_mark_transmitted mem q a b = Inr (ok, q') \<Longrightarrow> sstream_step mal (q, xs) (q', xs)"
| lost: "a \<le> b \<Longrightarrow> {a..b} \<subseteq> lossable q \<Longrightarrow> ossl_quic_sstream_mark_lost mem q a b = (ok, q') \<Longrightarrow>
     sstream_step mal (q, xs) (q', xs)"
| acked: "a \<le> b \<Longrightarrow> {a..b} \<subseteq> in_flight q \<Longrightarrow> ossl_quic_sstream_mark_acked mem q a b = Inr (ok, q') \<Longrightarrow>
     sstream_step mal (q, xs) (q', xs)"
| fin: "sstream_step mal (q, xs) (ossl_quic_sstream_fin q, xs)"
| transmitted_fin: "ossl_quic_sstream_mark_transmitted_fin q n = (ok, q') \<Longrightarrow> sstream_step mal (q, xs) (q', xs)"
| lost_fin: "ossl_quic_sstream_mark_lost_fin q = (ok, q') \<Longrightarrow> sstream_step mal (q, xs) (q', xs)"
| acked_fin: "ossl_quic_sstream_mark_acked_fin q = (ok, q') \<Longrightarrow> sstream_step mal (q, xs) (q', xs)"
| set_buffer_size: "ossl_quic_sstream_set_buffer_size mal q m = Some (Inr (ok, q')) \<Longrightarrow> sstream_step mal (q, xs) (q', xs)"
| set_cleanse: "sstream_step mal (q, xs) (ossl_quic_sstream_set_cleanse q c, xs)"

inductive_cases sstream_stepE: "sstream_step mal (q, xs) s'"

definition sstream_inv :: "quic_sstream \<times> 8 word list \<Rightarrow> bool" where
  "sstream_inv s \<longleftrightarrow> (case s of (q, xs) \<Rightarrow>
     rb_stream (sbuf q) xs \<and> set_holds (new_set q) (new_bytes q) \<and> set_holds (acked_set q) (acked_bytes q) \<and>
     separated (ranges (acked_set q)) \<and> new_bytes q \<inter> acked_bytes q = {} \<and>
     (\<forall>v \<in> new_bytes q \<union> acked_bytes q. v < head_offset (sbuf q)) \<and>
     (\<forall>v. v < ctail_offset (sbuf q) \<longrightarrow> v \<in> acked_bytes q))"

lemma room_after:
  "unat (head_offset rb') = unat (head_offset rb) + m \<Longrightarrow> ctail_offset rb' = ctail_offset rb \<Longrightarrow> alloc rb' = alloc rb \<Longrightarrow>
   unat (ctail_offset rb) \<le> unat (head_offset rb) \<Longrightarrow> room rb' = room rb - m"
  unfolding room_def by simp

lemma append_loop_stream:
  assumes "rb_stream rb xs" and "unat n \<le> length buf"
  shows "\<exists>rb'. append_loop rb buf n 0 = Some (Inr (of_nat (min (unat n) (room rb)), rb')) \<and>
    rb_stream rb' (xs @ take (min (unat n) (room rb)) buf) \<and> ctail_offset rb' = ctail_offset rb \<and> alloc rb' = alloc rb"
proof -
  let ?m = "min (unat n) (room rb)"
  have um: "unat (of_nat ?m :: 32 word) = ?m" using unat_word32_less [of n] by (intro unat_of_nat_small) simp
  obtain rb1 where p: "ring_buf_push rb buf n = Inr (of_nat ?m, rb1)" "rb_stream rb1 (xs @ take ?m buf)"
    "ctail_offset rb1 = ctail_offset rb" "alloc rb1 = alloc rb" using push_stream [OF assms] by auto
  show ?thesis
  proof (cases "n = 0 \<or> ?m = 0")
    case True
    then have "append_loop rb buf n 0 = Some (Inr (0, if n = 0 then rb else rb1))" and "?m = 0"
      using p(1) by (auto simp: append_loop.simps [of rb])
    then show ?thesis using assms(1) p(2-4) by auto
  next
    case False
    let ?n = "n - of_nat ?m"
    have n: "unat ?n = unat n - ?m" using um by (subst unat_minus_small) simp_all
    have room: "room rb1 = room rb - ?m"
    proof -
      have "unat (head_offset rb1) = length xs + ?m" "unat (head_offset rb) = length xs"
        using p(2) assms by (simp_all add: rb_stream_def)
      moreover have "unat (ctail_offset rb) \<le> unat (head_offset rb)" using assms(1) by (simp add: rb_stream_def rb_wf_def)
      ultimately show ?thesis using room_after [of rb1 rb ?m] p(3,4) by simp
    qed
    then have stop: "unat ?n = 0 \<or> room rb1 = 0" using n by linarith
    have "of_nat ?m \<noteq> (0 :: 32 word)" using False um by (metis unat_0)
    then have run: "append_loop rb buf n 0 = append_loop rb1 (drop ?m buf) ?n (of_nat ?m)"
      using False p(1) um by (subst append_loop.simps) simp
    show ?thesis
    proof (cases "?n = 0")
      case True
      then have "append_loop rb buf n 0 = Some (Inr (of_nat ?m, rb1))" unfolding run by (subst append_loop.simps) simp
      then show ?thesis using p by simp
    next
      case nz: False
      then have "unat ?n \<noteq> 0" by (simp add: unat_gt_0)
      then have r0: "room rb1 = 0" using stop by simp
      have "unat ?n \<le> length (drop ?m buf)" using n assms(2) by simp
      from push_stream [OF p(2) this] obtain rb2 where q: "ring_buf_push rb1 (drop ?m buf) ?n = Inr (0, rb2)"
        "rb_stream rb2 (xs @ take ?m buf)" "ctail_offset rb2 = ctail_offset rb" "alloc rb2 = alloc rb"
        using p(3,4) by (auto simp: r0)
      then have "append_loop rb buf n 0 = Some (Inr (of_nat ?m, rb2))" unfolding run using nz by (subst append_loop.simps) simp
      then show ?thesis using q by simp
    qed
  qed
qed

lemma inv_parts:
  assumes "sstream_inv (q, xs)"
  shows "rb_stream (sbuf q) xs" and "length xs = unat (head_offset (sbuf q))"
    and "ordered (ranges (new_set q))" and "length (ranges (new_set q)) \<le> allocated (new_set q)"
    and "separated (ranges (acked_set q))" and "length (ranges (acked_set q)) \<le> allocated (acked_set q)"
    and "new_bytes q \<inter> acked_bytes q = {}"
    and "v \<in> new_bytes q \<Longrightarrow> v < head_offset (sbuf q)" and "v \<in> acked_bytes q \<Longrightarrow> v < head_offset (sbuf q)"
    and "v < ctail_offset (sbuf q) \<Longrightarrow> v \<in> acked_bytes q"
  using assms by (auto simp: sstream_inv_def set_holds_def rb_stream_def)

lemma invI:
  assumes "rb_stream (sbuf q) xs" and "ordered (ranges (new_set q))" and "length (ranges (new_set q)) \<le> allocated (new_set q)"
    and "separated (ranges (acked_set q))" and "length (ranges (acked_set q)) \<le> allocated (acked_set q)"
    and "new_bytes q \<inter> acked_bytes q = {}"
    and "\<And>v. v \<in> new_bytes q \<union> acked_bytes q \<Longrightarrow> v < head_offset (sbuf q)"
    and "\<And>v. v < ctail_offset (sbuf q) \<Longrightarrow> v \<in> acked_bytes q"
  shows "sstream_inv (q, xs)"
  using assms separated_ordered by (auto simp: sstream_inv_def set_holds_def new_bytes_def acked_bytes_def)

lemma inv_new:
  assumes "alloc_ok mal" and "ossl_quic_sstream_new mal z n = Some (Inr (Some q))"
  shows "sstream_inv (q, [])"
proof -
  have i: "rb_stream ring_buf_init []" by (simp add: rb_stream_def rb_wf_def ring_buf_init_def)
  obtain ok rb where "ring_buf_resize mal ring_buf_init n False = Some (Inr (ok, rb))" "rb_stream rb []"
    "ctail_offset rb = ctail_offset ring_buf_init" using resize_keeps [OF i assms(1)] by blast
  then have "rb_stream (sbuf q) []" "ctail_offset (sbuf q) = 0" "new_set q = ossl_uint_set_init" "acked_set q = ossl_uint_set_init"
    using assms(2) by (auto simp: ossl_quic_sstream_new_def ring_buf_init_def split: if_splits)
  then show ?thesis by (intro invI) (auto simp: ossl_uint_set_init_def new_bytes_def acked_bytes_def)
qed

lemma rollback_stream:
  assumes "rb_stream rb xs" and "rb_stream rb' (xs @ ys)" and "ctail_offset rb' = ctail_offset rb" and "alloc rb' = alloc rb"
  shows "rb_stream (rb\<lparr>rb_start := rb_start rb'\<rparr>) xs"
proof -
  have "cell (rb\<lparr>rb_start := rb_start rb'\<rparr>) k = cell rb' k" for k by (simp add: cell_def assms(4))
  moreover have "cell rb' k = xs ! k" if "unat (ctail_offset rb) \<le> k" "k < unat (head_offset rb)" for k
    using assms that by (auto simp: rb_stream_def nth_append)
  moreover have "rb_wf (rb\<lparr>rb_start := rb_start rb'\<rparr>)" using assms by (simp add: rb_stream_def rb_wf_def split: option.splits)
  ultimately show ?thesis using assms(1) by (simp add: rb_stream_def)
qed

lemma append_outcome:
  assumes inv: "sstream_inv (q, xs)" and n: "unat n \<le> length buf" and open': "\<not> have_final_size q"
  shows "\<exists>ok q'. ossl_quic_sstream_append mem q buf n = Some (Inr (ok, if ok then of_nat (min (unat n) (room (sbuf q))) else 0, q')) \<and>
    sstream_inv (q', if ok then xs @ take (min (unat n) (room (sbuf q))) buf else xs) \<and> (mem \<longrightarrow> ok) \<and>
    acked_set q' = acked_set q \<and> ctail_offset (sbuf q') = ctail_offset (sbuf q)"
proof -
  let ?m = "min (unat n) (room (sbuf q))" and ?h = "head_offset (sbuf q)"
  note p = inv_parts [OF inv]
  obtain rb where rb: "append_loop (sbuf q) buf n 0 = Some (Inr (of_nat ?m, rb))" "rb_stream rb (xs @ take ?m buf)"
    "ctail_offset rb = ctail_offset (sbuf q)" "alloc rb = alloc (sbuf q)" using append_loop_stream [OF p(1) n] by auto
  have um: "unat (of_nat ?m :: 32 word) = ?m" using unat_word32_less [of n] by (intro unat_of_nat_small) simp
  have head: "unat (head_offset rb) = unat ?h + ?m" using rb(2) p(2) n by (simp add: rb_stream_def)
  show ?thesis
  proof (cases "?m = 0")
    case True
    have h: "head_offset rb = ?h" using head True by (simp add: word_unat_eq_iff)
    have "ossl_quic_sstream_append mem q buf n = Some (Inr (True, 0, q\<lparr>sbuf := rb\<rparr>))"
      using rb(1) open' True by (simp add: ossl_quic_sstream_append_def)
    moreover have "sstream_inv (q\<lparr>sbuf := rb\<rparr>, xs)" using p rb True h
      by (intro invI) (auto simp: new_bytes_def acked_bytes_def)
    ultimately show ?thesis using True by (intro exI [of _ True]) (simp add: rb(3))
  next
    case False
    have le: "unat ?h + ?m \<le> 2 ^ 62" using rb(2) head rb_wf_offsets(2) [of rb] by (simp add: rb_stream_def)
    have "unat (?h + u64 (of_nat ?m)) = unat ?h + ?m" using um le by (subst unat_plus_small) simp_all
    then have step: "?h + u64 (of_nat ?m) = head_offset rb" using head by (simp add: word_unat_eq_iff)
    have lt: "?h < head_offset rb" using head False by (simp add: word_less_nat_alt)
    define b where "b = head_offset rb - 1"
    have b: "v \<le> b \<longleftrightarrow> v < head_offset rb" for v unfolding b_def by (rule word_le_pred_iff_less [OF lt])
    have pos: "(0 :: 32 word) < of_nat ?m" using False um by (simp add: word_less_nat_alt)
    obtain ok s where i: "ossl_uint_set_insert mem (new_set q) (rng ?h b) = (ok, s)" by force
    have run: "ossl_quic_sstream_append mem q buf n =
      (if ok then Some (Inr (True, of_nat ?m, q\<lparr>sbuf := rb, new_set := s\<rparr>))
       else Some (Inr (False, 0, q\<lparr>sbuf := (sbuf q)\<lparr>rb_start := rb_start rb\<rparr>, new_set := s\<rparr>)))"
      using rb(1) open' pos i by (simp add: ossl_quic_sstream_append_def Let_def step b_def)
    have c: "if ok then ordered (ranges s) \<and> length (ranges s) \<le> allocated s \<and> elems (ranges s) = new_bytes q \<union> {?h..b}
      else \<not> mem \<and> s = new_set q"
      using insert_contract [OF p(3,4), of "rng ?h b" mem] lt i b by (simp add: span_def new_bytes_def)
    show ?thesis
    proof (cases ok)
      case True
      have up: "v < head_offset rb" if "v < ?h" for v using that lt by simp
      have "{?h..b} \<inter> acked_bytes q = {}" using p(9) by (metis Int_emptyI atLeastAtMost_iff leD)
      then have "sstream_inv (q\<lparr>sbuf := rb, new_set := s\<rparr>, xs @ take ?m buf)"
        using p rb True c b up
        by (intro invI) (auto simp: new_bytes_def acked_bytes_def)
      then show ?thesis using run True by (intro exI [of _ True]) (simp add: rb(3))
    next
      case False
      have "sstream_inv (q\<lparr>sbuf := (sbuf q)\<lparr>rb_start := rb_start rb\<rparr>, new_set := s\<rparr>, xs)"
        using p rollback_stream [OF p(1) rb(2-4)] False c
        by (intro invI) (auto simp: new_bytes_def acked_bytes_def)
      then show ?thesis using run False c by (intro exI [of _ False]) simp
    qed
  qed
qed

lemma inv_transmitted:
  assumes inv: "sstream_inv (q, xs)" and ab: "a \<le> b" and run: "ossl_quic_sstream_mark_transmitted mem q a b = Inr (ok, q')"
  shows "sstream_inv (q', xs)"
proof -
  note p = inv_parts [OF inv]
  obtain s where s: "ossl_uint_set_remove mem (new_set q) (rng a b) = Inr (ok, s)" "q' = q\<lparr>new_set := s\<rparr>"
    using run by (auto simp: ossl_quic_sstream_mark_transmitted_def)
  then have "ordered (ranges s)" "length (ranges s) \<le> allocated s" "elems (ranges s) = new_bytes q - {a..b}"
    using remove_contract [OF p(3,4), of "rng a b" mem] ab by (simp_all add: span_def new_bytes_def)
  then show ?thesis using p s(2) by (intro invI) (auto simp: new_bytes_def acked_bytes_def)
qed

lemma inv_lost:
  assumes inv: "sstream_inv (q, xs)" and ab: "a \<le> b" "{a..b} \<subseteq> lossable q"
    and run: "ossl_quic_sstream_mark_lost mem q a b = (ok, q')"
  shows "sstream_inv (q', xs)"
proof -
  note p = inv_parts [OF inv]
  obtain s where s: "ossl_uint_set_insert mem (new_set q) (rng a b) = (ok, s)" "q' = q\<lparr>new_set := s\<rparr>"
    using run by (auto simp: ossl_quic_sstream_mark_lost_def split: prod.splits)
  then have "if ok then ordered (ranges s) \<and> length (ranges s) \<le> allocated s \<and> elems (ranges s) = new_bytes q \<union> {a..b}
      else s = new_set q"
    using insert_contract [OF p(3,4), of "rng a b" mem] ab(1) by (simp add: span_def new_bytes_def split: if_splits)
  moreover have "v < head_offset (sbuf q) \<and> v \<notin> acked_bytes q" if "v \<in> {a..b}" for v
    using ab(2) that by (auto simp: lossable_def)
  ultimately show ?thesis using p s(2) by (intro invI) (auto simp: new_bytes_def acked_bytes_def split: if_splits)
qed

text \<open>The acknowledged bytes are separate ranges, so the first of them reaches at least to the culled part.\<close>

lemma first_range_reaches:
  assumes sep: "separated (h # t)" and c: "\<And>v. v < c \<Longrightarrow> v \<in> elems (h # t)" and st: "start h \<le> c"
  shows "unat c \<le> unat (end h) + 1"
proof (rule ccontr)
  assume "\<not> ?thesis"
  then have lt: "unat (end h) + 1 < unat c" by simp
  then have e: "unat (end h + 1) = unat (end h) + 1"
    using unsigned_less [of c, where 'a = nat] by (subst unat_plus_small) auto
  have "end h + 1 < c" "end h < end h + 1" using lt e by (simp_all add: word_less_nat_alt)
  then have "end h + 1 \<in> elems t" using c [of "end h + 1"] by (auto simp: mem_span)
  then obtain p where p: "p \<in> set t" "start p \<le> end h + 1" by (auto simp: elems_def mem_span)
  then have "end h < start p" "end h + 1 \<noteq> start p" using sep by (auto simp: separated_Cons apart_def)
  moreover from this have "end h + 1 \<le> start p" using word_succ_le_iff_less by blast
  ultimately show False using p(2) by simp
qed

lemma inv_cull:
  assumes inv: "sstream_inv (q, xs)"
  shows "\<exists>rb. qss_cull q = Inr (q\<lparr>sbuf := rb\<rparr>) \<and> sstream_inv (q\<lparr>sbuf := rb\<rparr>, xs) \<and> head_offset rb = head_offset (sbuf q) \<and>
    (\<forall>h t. ranges (acked_set q) = h # t \<and> start h \<le> ctail_offset (sbuf q) \<longrightarrow> unat (ctail_offset rb) = unat (end h) + 1)"
proof (cases "ranges (acked_set q)")
  case Nil
  then show ?thesis using inv by (intro exI [of _ "sbuf q"]) (simp add: qss_cull_def)
next
  case (Cons h t)
  note p = inv_parts [OF inv]
  let ?c = "ctail_offset (sbuf q)"
  have acked: "acked_bytes q = elems (h # t)" using Cons by (simp add: acked_bytes_def)
  have h: "start h \<le> end h" "separated (h # t)" using p(5) Cons by (simp_all add: separated_Cons)
  have eh: "end h \<in> acked_bytes q" using h(1) by (simp add: acked mem_span)
  then have eh': "unat (end h) < length xs" using p(9) p(2) by (simp add: word_less_nat_alt)
  show ?thesis
  proof (cases "start h > ?c")
    case True
    then have "qss_cull q = Inr q" using Cons h(1) by (simp add: qss_cull_def ring_buf_cpop_range_def)
    then show ?thesis using inv True Cons by (intro exI [of _ "sbuf q"]) auto
  next
    case False
    have reach: "unat ?c \<le> unat (end h) + 1" using first_range_reaches [OF h(2)] p(10) acked False by auto
    have max: "unat (end h) < 2 ^ 62" using eh' rb_stream_length [OF p(1)] by simp
    have len: "max (length xs) (unat (end h) + 1) = length xs" "unat (end h) + 1 - length xs = 0" using eh' by simp_all
    have st: "unat (start h) \<le> unat ?c" using False by (simp add: word_less_nat_alt)
    obtain rb where rb: "ring_buf_cpop_range (sbuf q) (start h) (end h) (cleanse_bufs q) = Inr rb"
      "rb_stream rb xs" "unat (ctail_offset rb) = unat (end h) + 1" "unat (head_offset rb) = length xs"
      using cpop_range_stream [OF p(1) h(1) st reach max, of "cleanse_bufs q"] unfolding len by auto
    have hd: "head_offset rb = head_offset (sbuf q)" using rb(4) p(2) by (simp add: word_unat_eq_iff)
    have "v \<in> acked_bytes q" if "v < ctail_offset rb" for v
    proof (cases "v < ?c")
      case f: False
      have "unat v \<le> unat (end h)" using that rb(3) by (simp add: word_less_nat_alt)
      then have "v \<in> span h" using f False by (auto simp: mem_span word_le_nat_alt word_less_nat_alt)
      then show ?thesis by (simp add: acked)
    qed (use p(10) in blast)
    then have "sstream_inv (q\<lparr>sbuf := rb\<rparr>, xs)" using p rb(2) hd separated_ordered
      by (intro invI) (auto simp: new_bytes_def acked_bytes_def)
    then show ?thesis using rb hd Cons by (intro exI [of _ rb]) (auto simp: qss_cull_def)
  qed
qed

lemma mark_acked_cases:
  assumes inv: "sstream_inv (q, xs)" and ab: "a \<le> b" "{a..b} \<subseteq> in_flight q"
    and run: "ossl_quic_sstream_mark_acked mem q a b = Inr (ok, q')"
  shows "q' = q \<or> (\<exists>q1. sstream_inv (q1, xs) \<and> qss_cull q1 = Inr q')"
proof -
  note p = inv_parts [OF inv]
  obtain ok' s where s: "ossl_uint_set_insert mem (acked_set q) (rng a b) = (ok', s)" by force
  have dis: "elems (ranges (acked_set q)) \<inter> span (rng a b) = {}" using ab(2) by (auto simp: in_flight_def acked_bytes_def span_def)
  have c: "if ok' then length (ranges s) \<le> allocated s \<and> elems (ranges s) = acked_bytes q \<union> {a..b} else s = acked_set q"
    using insert_contract [OF separated_ordered [OF p(5)] p(6), of "rng a b" mem] s ab(1)
    by (simp add: span_def acked_bytes_def split: if_splits)
  show ?thesis
  proof (cases ok')
    case False
    then show ?thesis using run s c by (auto simp: ossl_quic_sstream_mark_acked_def)
  next
    case True
    have sep: "separated (ranges s)" using insert_separated [OF p(5) _ dis] s True ab(1) by simp
    have "v < head_offset (sbuf q) \<and> v \<notin> new_bytes q" if "v \<in> {a..b}" for v
      using ab(2) that by (auto simp: in_flight_def)
    then have "sstream_inv (q\<lparr>acked_set := s\<rparr>, xs)" using p sep c True
      by (intro invI) (auto simp: new_bytes_def acked_bytes_def)
    then show ?thesis using run s True by (auto simp: ossl_quic_sstream_mark_acked_def)
  qed
qed

lemma inv_acked:
  assumes "sstream_inv (q, xs)" and "a \<le> b" "{a..b} \<subseteq> in_flight q"
    and "ossl_quic_sstream_mark_acked mem q a b = Inr (ok, q')"
  shows "sstream_inv (q', xs)"
  using mark_acked_cases [OF assms] assms(1) inv_cull by fastforce

lemma step_inv:
  assumes mal: "alloc_ok mal" and "sstream_step mal s s'" and "sstream_inv s"
  shows "sstream_inv s'"
  using assms(2,3)
proof (cases rule: sstream_step.cases)
  case (append mem q buf n ok k q' xs)
  show ?thesis
  proof (cases "have_final_size q")
    case True
    then show ?thesis using append assms(3) by (auto simp: ossl_quic_sstream_append_def)
  next
    case False
    have um: "unat (of_nat (min (unat n) (room (sbuf q))) :: 32 word) = min (unat n) (room (sbuf q))"
      using unat_word32_less [of n] by (intro unat_of_nat_small) simp
    show ?thesis using append_outcome [of q xs n buf mem] append assms(3) False um by (auto split: if_splits)
  qed
next
  case (transmitted a b mem q ok q' xs)
  then show ?thesis using inv_transmitted assms(3) by blast
next
  case (lost a b q mem ok q' xs)
  then show ?thesis using inv_lost assms(3) by blast
next
  case (acked a b q mem ok q' xs)
  then show ?thesis using inv_acked assms(3) by blast
next
  case (set_buffer_size q m ok q' xs)
  then have "rb_stream (sbuf q) xs" using assms(3) inv_parts(1) by blast
  from resize_keeps [OF this mal, of m "cleanse_bufs q"] obtain rb where
    rb: "q' = q\<lparr>sbuf := rb\<rparr>" "rb_stream rb xs" "ctail_offset rb = ctail_offset (sbuf q)"
    using set_buffer_size(3) by (auto simp: ossl_quic_sstream_set_buffer_size_def)
  note p = inv_parts [OF assms(3) [unfolded set_buffer_size(1)]]
  have "head_offset rb = head_offset (sbuf q)" using rb(2) p(2) by (simp add: rb_stream_def word_unat_eq_iff)
  then show ?thesis using p rb set_buffer_size(2)
    by (auto intro!: invI simp: new_bytes_def acked_bytes_def)
qed (auto simp: sstream_inv_def new_bytes_def acked_bytes_def ossl_quic_sstream_fin_def ossl_quic_sstream_mark_transmitted_fin_def
    ossl_quic_sstream_mark_lost_fin_def ossl_quic_sstream_mark_acked_fin_def ossl_quic_sstream_set_cleanse_def split: if_splits)

lemma reachable_inv:
  assumes "alloc_ok mal" and "ossl_quic_sstream_new mal z n = Some (Inr (Some q0))" and "(sstream_step mal)\<^sup>*\<^sup>* (q0, []) s"
  shows "sstream_inv s"
  using assms(3) by (induction rule: rtranclp_induct) (use inv_new [OF assms(1,2)] step_inv [OF assms(1)] in blast)+

text \<open>Nothing that could be culled is kept: the culled part ends with the first range of acknowledged bytes.\<close>

definition sstream_culled :: "quic_sstream \<Rightarrow> bool" where
  "sstream_culled q \<longleftrightarrow> (\<forall>h t. ranges (acked_set q) = h # t \<and> start h \<le> ctail_offset (sbuf q) \<longrightarrow>
     unat (ctail_offset (sbuf q)) = unat (end h) + 1)"

lemma culled_cong:
  "acked_set q' = acked_set q \<Longrightarrow> ctail_offset (sbuf q') = ctail_offset (sbuf q) \<Longrightarrow> sstream_culled q \<Longrightarrow> sstream_culled q'"
  by (simp add: sstream_culled_def)

lemma cull_culled:
  assumes "sstream_inv (q, xs)" and "qss_cull q = Inr q'"
  shows "sstream_culled q'"
proof -
  obtain rb where rb: "q' = q\<lparr>sbuf := rb\<rparr>"
    "\<forall>h t. ranges (acked_set q) = h # t \<and> start h \<le> ctail_offset (sbuf q) \<longrightarrow> unat (ctail_offset rb) = unat (end h) + 1"
    using inv_cull [OF assms(1)] assms(2) by auto
  moreover have "rb = sbuf q" if "ranges (acked_set q) = h # t" "\<not> start h \<le> ctail_offset (sbuf q)" for h t
  proof -
    have "start h \<le> end h" using inv_parts(5) [OF assms(1)] that(1) by (simp add: separated_Cons)
    then have "q' = q" using assms(2) that by (auto simp: qss_cull_def ring_buf_cpop_range_def not_le)
    then show ?thesis using rb(1) by (metis quic_sstream.select_convs(1) quic_sstream.surjective quic_sstream.update_convs(1))
  qed
  ultimately show ?thesis by (auto simp: sstream_culled_def)
qed

lemma step_culled:
  assumes mal: "alloc_ok mal" and "sstream_step mal s s'" and "sstream_inv s" and "sstream_culled (fst s)"
  shows "sstream_culled (fst s')"
  using assms(2,3,4)
proof (cases rule: sstream_step.cases)
  case (append mem q buf n ok k q' xs)
  show ?thesis
  proof (cases "have_final_size q")
    case True
    then show ?thesis using append assms(4) by (auto simp: ossl_quic_sstream_append_def)
  next
    case False
    then show ?thesis using append_outcome [of q xs n buf mem] append assms(3,4) culled_cong [of q' q] by (auto split: if_splits)
  qed
next
  case (transmitted a b mem q ok q' xs)
  then show ?thesis using assms(4) culled_cong [of q' q] by (auto simp: ossl_quic_sstream_mark_transmitted_def)
next
  case (lost a b q mem ok q' xs)
  then show ?thesis using assms(4) culled_cong [of q' q] by (auto simp: ossl_quic_sstream_mark_lost_def split: prod.splits)
next
  case (acked a b q mem ok q' xs)
  have "sstream_inv (q, xs)" using acked(1) assms(3) by simp
  from mark_acked_cases [OF this acked(3-5)] show ?thesis using acked(1,2) assms(4) cull_culled by auto
next
  case (set_buffer_size q m ok q' xs)
  then have "rb_stream (sbuf q) xs" using assms(3) inv_parts(1) by blast
  from resize_keeps [OF this mal, of m "cleanse_bufs q"] show ?thesis
    using set_buffer_size assms(4) culled_cong [of q' q] by (auto simp: ossl_quic_sstream_set_buffer_size_def)
qed (auto simp: sstream_culled_def ossl_quic_sstream_fin_def ossl_quic_sstream_mark_transmitted_fin_def
    ossl_quic_sstream_mark_lost_fin_def ossl_quic_sstream_mark_acked_fin_def ossl_quic_sstream_set_cleanse_def split: if_splits)

section \<open>What a frame carries\<close>

lemma skip_ranges_drop: "skip_ranges i skip xs = (i + min (skip - i) (length xs), drop (skip - i) xs)"
  by (induction i skip xs rule: skip_ranges.induct) (auto simp: min_def Suc_diff_Suc [symmetric])

lemma second_piece_reaches:
  assumes "(k :: nat) mod a = 0" and "h \<le> c + a" and "c \<le> k" and "0 < l" and "k + l \<le> h" and "k + l = h \<or> (k + l) mod a = 0"
  shows "k + l = h"
proof -
  have "a dvd l" if "(k + l) mod a = 0" using that assms(1) by (metis dvd_add_right_iff mod_eq_0_iff_dvd)
  then have "a \<le> l" if "(k + l) mod a = 0" using that assms(4) dvd_imp_le by blast
  then show ?thesis using assms by linarith
qed

lemma buf_bytes_prefix: "unat l \<le> unat n \<Longrightarrow> buf_bytes rb (src, l) = take (unat l) (buf_bytes rb (src, n))"
  by (auto simp: buf_bytes_def min_def split: option.splits)

lemma frame_end: "unat m \<le> unat tot \<Longrightarrow> frame_loop rb a m i tot iov = Inr (Some (tot, iov))"
  by (subst frame_loop.simps) (simp add: word_le_nat_alt)

lemma frame_round:
  assumes r: "rb_stream rb xs" and a: "unat (ctail_offset rb) \<le> unat a" "unat a + unat m \<le> length xs"
    and t: "unat tot < unat m" and i: "i < 2"
  shows "\<exists>src l. frame_loop rb a m i tot iov = frame_loop rb a m (i + 1) (tot + l) (iov @ [(src, l)]) \<and>
    buf_bytes rb (src, l) = take (unat l) (drop (unat a + unat tot) xs) \<and> unat (tot + l) = unat tot + unat l \<and>
    unat tot + unat l \<le> unat m \<and>
    (unat tot + unat l = unat m \<or> (unat a + unat tot) mod unat (alloc rb) \<noteq> 0 \<and>
       (unat a + (unat tot + unat l)) mod unat (alloc rb) = 0)"
proof -
  let ?k = "unat a + unat tot"
  have wf: "rb_wf rb" and len: "length xs = unat (head_offset rb)" using r by (simp_all add: rb_stream_def)
  note off = rb_wf_offsets [OF wf]
  have k: "unat (a + u64 tot) = ?k" using a(2) t off(2) len by (subst unat_plus_small) simp_all
  obtain src n where g: "ring_buf_get_buf_at rb (a + u64 tot) = Some (src, n)"
    "buf_bytes rb (src, n) = take (unat n) (drop ?k xs)" "n = 0 \<longleftrightarrow> ?k = length xs" "?k + unat n \<le> length xs"
    "?k + unat n = length xs \<or> (?k + unat n) mod unat (alloc rb) = 0"
    using get_buf_at_stream [OF r, of "a + u64 tot"] k a t len by auto
  have n0: "n \<noteq> 0" using g(3) a(2) t by linarith
  have np: "0 < unat n" using n0 by (simp add: unat_gt_0)
  have "unat tot + unat n \<le> unat (alloc rb)" using g(4) off(3) len a(1) by linarith
  then have tn: "unat (tot + n) = unat tot + unat n"
    using unat_word32_less [of "alloc rb"] by (intro unat_plus_small) simp
  define l where "l = (if u64 (tot + n) > m then size_t (m - u64 tot) else n)"
  have "unat (m - u64 tot) = unat m - unat tot" using t by (subst unat_minus_small) simp_all
  then have cut: "unat (size_t (m - u64 tot)) = unat m - unat tot" if "unat m < unat tot + unat n"
    using that unat_size_t [of "m - u64 tot"] unat_word32_less [of n] by simp
  have l: "unat l = min (unat n) (unat m - unat tot)" using cut tn by (auto simp: l_def word_less_nat_alt)
  have tl: "unat (tot + l) = unat tot + unat l" using l tn unat_word32_less [of "tot + n"] by (intro unat_plus_small) simp
  have bytes: "buf_bytes rb (src, l) = take (unat l) (drop ?k xs)"
    using buf_bytes_prefix [of l n rb src] l g(2) by simp
  have "unat tot + unat l = unat m \<or> ?k mod unat (alloc rb) \<noteq> 0 \<and> (unat a + (unat tot + unat l)) mod unat (alloc rb) = 0"
  proof (cases "unat tot + unat l = unat m")
    case False
    then have ln: "unat l = unat n" using l t by linarith
    then have nh: "?k + unat n \<noteq> length xs" using False l t a(2) by linarith
    have fit: "length xs \<le> unat (ctail_offset rb) + unat (alloc rb)" "unat (ctail_offset rb) \<le> ?k" using off len a(1) by linarith+
    have "?k mod unat (alloc rb) \<noteq> 0" using second_piece_reaches [OF _ fit np g(4,5)] nh by blast
    then show ?thesis using nh g(5) ln by (simp add: add.assoc)
  qed simp
  moreover have "frame_loop rb a m i tot iov = frame_loop rb a m (i + 1) (tot + l) (iov @ [(src, l)])"
    using t n0 i g(1) by (subst frame_loop.simps) (simp add: word_le_nat_alt l_def Let_def)
  ultimately show ?thesis using bytes tl l t by (intro exI [of _ src] exI [of _ l]) auto
qed

lemma frame_loop_bytes:
  assumes r: "rb_stream rb xs" and a: "unat (ctail_offset rb) \<le> unat a" "unat a + unat m \<le> length xs" and m: "0 < unat m"
  shows "\<exists>tot iov. frame_loop rb a m 0 0 [] = Inr (Some (tot, iov)) \<and> unat tot = unat m \<and>
    concat (map (buf_bytes rb) iov) = take (unat m) (drop (unat a) xs) \<and> length iov \<le> 2"
proof -
  obtain src l where f: "frame_loop rb a m 0 0 [] = frame_loop rb a m 1 l [(src, l)]"
    "buf_bytes rb (src, l) = take (unat l) (drop (unat a) xs)" "unat l \<le> unat m"
    "unat l = unat m \<or> (unat a + unat l) mod unat (alloc rb) = 0"
    using frame_round [OF r a, of 0 0 "[]"] m by auto
  show ?thesis
  proof (cases "unat l = unat m")
    case True
    then show ?thesis using f frame_end [of m l rb a 1 "[(src, l)]"] by auto
  next
    case False
    then have lm: "unat l < unat m" using f(3) by simp
    obtain src2 l2 where g: "frame_loop rb a m 1 l [(src, l)] = frame_loop rb a m 2 (l + l2) [(src, l), (src2, l2)]"
      "buf_bytes rb (src2, l2) = take (unat l2) (drop (unat a + unat l) xs)" "unat (l + l2) = unat l + unat l2"
      "unat l + unat l2 = unat m"
      using frame_round [OF r a lm, of 1 "[(src, l)]"] f(4) False by (auto simp: numeral_2_eq_2)
    have "take (unat l) (drop (unat a) xs) @ take (unat l2) (drop (unat a + unat l) xs) = take (unat m) (drop (unat a) xs)"
      using g(4) take_add [of "unat l" "unat l2" "drop (unat a) xs"] by (simp add: add.commute)
    then show ?thesis using f(1,2) g frame_end [of m "l + l2" rb a 2] by auto
  qed
qed

lemma frame_of_range:
  assumes inv: "sstream_inv (q, xs)" and skip: "skip < length (ranges (new_set q))" and n: "2 \<le> num_iov"
    and rg: "rg = ranges (new_set q) ! skip"
  shows "\<exists>tot iov. ossl_quic_sstream_get_stream_frame q skip num_iov =
      Inr (Some (\<lparr>hdr_offset = start rg, hdr_len = u64 tot,
        is_fin = (have_final_size q \<and> start rg + u64 tot = head_offset (sbuf q))\<rparr>, iov)) \<and>
    unat tot = unat (end rg) + 1 - unat (start rg) \<and>
    concat (map (buf_bytes (sbuf q)) iov) = take (unat tot) (drop (unat (start rg)) xs) \<and> length iov \<le> 2"
proof -
  note p = inv_parts [OF inv]
  have mem: "rg \<in> set (ranges (new_set q))" using skip rg by simp
  then have le: "start rg \<le> end rg" using p(3) by (auto simp: ordered_def)
  have sub: "v \<in> new_bytes q" if "start rg \<le> v" "v \<le> end rg" for v
    using mem that by (auto simp: new_bytes_def elems_def mem_span)
  have c: "unat (ctail_offset (sbuf q)) \<le> unat (start rg)"
    using sub [of "start rg"] le p(7) p(10) [of "start rg"] by (force simp: word_less_nat_alt)
  have h: "unat (end rg) < length xs" using sub [of "end rg"] le p(8) p(2) by (simp add: word_less_nat_alt)
  have d: "unat (end rg - start rg) = unat (end rg) - unat (start rg)" using le by (simp add: unat_minus_small word_le_nat_alt)
  have m: "unat (end rg - start rg + 1) = unat (end rg) + 1 - unat (start rg)"
    using d h rb_stream_length [OF p(1)] le by (subst unat_plus_small) (simp_all add: word_le_nat_alt)
  have "unat (start rg) + unat (end rg - start rg + 1) \<le> length xs" "0 < unat (end rg - start rg + 1)"
    using m h le by (simp_all add: word_le_nat_alt)
  from frame_loop_bytes [OF p(1) c this] obtain tot iov where
    f: "frame_loop (sbuf q) (start rg) (end rg - start rg + 1) 0 0 [] = Inr (Some (tot, iov))"
    "unat tot = unat (end rg - start rg + 1)"
    "concat (map (buf_bytes (sbuf q)) iov) = take (unat (end rg - start rg + 1)) (drop (unat (start rg)) xs)" "length iov \<le> 2"
    by auto
  obtain rest where "drop skip (ranges (new_set q)) = rg # rest" using skip rg by (metis Cons_nth_drop_Suc)
  then show ?thesis using f n m
    by (intro exI [of _ tot] exI [of _ iov]) (simp add: ossl_quic_sstream_get_stream_frame_def skip_ranges_drop)
qed

section \<open>When everything is acknowledged\<close>

lemma separated_interval:
  assumes sep: "separated rs" and el: "elems rs = {v. v < n}" and n: "0 < n"
  shows "\<exists>r. rs = [r] \<and> start r = 0 \<and> end r = n - 1"
proof -
  have pred: "v \<le> n - 1 \<longleftrightarrow> v < n" for v using word_le_pred_iff_less [OF n] .
  have "0 \<in> elems rs" using el n by simp
  then obtain h t where rs: "rs = h # t" by (cases rs) auto
  have h: "start h \<le> end h" "separated (h # t)" using sep rs by (auto simp: separated_Cons)
  have "start h = 0"
  proof -
    obtain p where p: "p \<in> set rs" "start p \<le> 0" using \<open>0 \<in> elems rs\<close> by (auto simp: elems_def mem_span)
    moreover have "start h \<le> start p" if "p \<in> set t" using that h by (auto simp: separated_Cons apart_def)
    ultimately have "start h \<le> 0" using rs by (auto intro: order_trans)
    then show ?thesis by (simp add: word_le_nat_alt unat_eq_0)
  qed
  have top: "n - 1 \<le> end h"
  proof -
    have "start h \<le> n" using \<open>start h = 0\<close> by simp
    then have "unat n \<le> unat (end h) + 1" using first_range_reaches [OF h(2)] el rs by auto
    moreover have "unat (n - 1) = unat n - 1" using n by (simp add: unat_minus_one word_gt_0)
    ultimately show ?thesis by (simp add: word_le_nat_alt)
  qed
  have all: "v \<in> elems rs \<Longrightarrow> v \<le> n - 1" for v using el pred by blast
  have eh: "end h = n - 1" using all [of "end h"] top h(1) rs by (auto simp: mem_span)
  have "t = []"
  proof (rule ccontr)
    assume "t \<noteq> []"
    then obtain p where p: "p \<in> set t" by (cases t) auto
    then have "start p \<in> elems rs" using h(2) rs by (auto simp: separated_def elems_def mem_span)
    then have "start p \<le> end h" using all eh by simp
    then show False using p h(2) by (auto simp: separated_Cons apart_def)
  qed
  then show ?thesis using rs eh \<open>start h = 0\<close> by simp
qed

lemma totally_acked:
  assumes inv: "sstream_inv (q, xs)"
  shows "ossl_quic_sstream_is_totally_acked q =
    Inr ((have_final_size q \<longrightarrow> acked_final_size q) \<and> acked_bytes q = {v. v < head_offset (sbuf q)})"
proof (cases "head_offset (sbuf q) = 0")
  case True
  have "acked_bytes q = {v. v < head_offset (sbuf q)}" using inv_parts(9) [OF inv] True by auto
  then show ?thesis using True by (simp add: ossl_quic_sstream_is_totally_acked_def ossl_quic_sstream_get_cur_size_def)
next
  case False
  note p = inv_parts [OF inv]
  let ?h = "head_offset (sbuf q)"
  have h: "0 < ?h" using False by (simp add: word_gt_0)
  show ?thesis
  proof (cases "\<exists>r. ranges (acked_set q) = [r]")
    case True
    then obtain r where r: "ranges (acked_set q) = [r]" by blast
    have e: "start r \<le> end r" using p(5) r by (simp add: separated_Cons)
    then have lt: "end r < ?h" using p(9) [of "end r"] r by (simp add: acked_bytes_def mem_span)
    then have ge: "end r + 1 \<le> ?h" using word_succ_le_iff_less [OF lt] by simp
    have ab: "acked_bytes q = {start r..end r}" using r by (simp add: acked_bytes_def span_def)
    have "(start r = 0 \<and> end r + 1 = ?h) \<longleftrightarrow> acked_bytes q = {v. v < ?h}"
    proof
      assume "start r = 0 \<and> end r + 1 = ?h"
      then have "start r = 0" "end r = ?h - 1" by (simp_all add: eq_diff_eq)
      then show "acked_bytes q = {v. v < ?h}" using word_le_pred_iff_less [OF h] by (simp add: ab set_eq_iff)
    next
      assume "acked_bytes q = {v. v < ?h}"
      then show "start r = 0 \<and> end r + 1 = ?h"
        using separated_interval [OF p(5) _ h] r by (simp add: acked_bytes_def)
    qed
    then show ?thesis using False r ge
      by (auto simp: ossl_quic_sstream_is_totally_acked_def ossl_quic_sstream_get_cur_size_def Let_def)
  next
    case n1: False
    then have "acked_bytes q \<noteq> {v. v < ?h}" using separated_interval [OF p(5) _ h] by (auto simp: acked_bytes_def)
    moreover have "(case ranges (acked_set q) of [r] \<Rightarrow> f r | _ \<Rightarrow> Inr False) = Inr False" for f :: "uint_range \<Rightarrow> bool res"
      using n1 by (auto split: list.splits)
    ultimately show ?thesis using False
      by (simp add: ossl_quic_sstream_is_totally_acked_def ossl_quic_sstream_get_cur_size_def Let_def)
  qed
qed

lemma reachable_culled:
  assumes "alloc_ok mal" and "ossl_quic_sstream_new mal z n = Some (Inr (Some q0))" and "(sstream_step mal)\<^sup>*\<^sup>* (q0, []) s"
  shows "sstream_culled (fst s)"
  using assms(3)
proof (induction rule: rtranclp_induct)
  case base
  then show ?case using assms(2)
    by (auto simp: sstream_culled_def ossl_quic_sstream_new_def ossl_uint_set_init_def bind_comp_def split: if_splits option.splits sum.splits)
next
  case (step s s')
  then show ?case using step_culled [OF assms(1) step.hyps(2)] reachable_inv [OF assms(1,2) step.hyps(1)] by blast
qed

text \<open>When all bytes are acknowledged, the whole buffer is free again.\<close>

lemma all_acked_frees:
  assumes inv: "sstream_inv (q, xs)" and cul: "sstream_culled q" and all: "acked_bytes q = {v. v < head_offset (sbuf q)}"
  shows "ring_buf_used (sbuf q) = 0"
proof (cases "head_offset (sbuf q) = 0")
  case True
  have "ctail_offset (sbuf q) \<le> head_offset (sbuf q)"
    using inv_parts(1) [OF inv] by (simp add: rb_stream_def rb_wf_def word_le_nat_alt)
  then show ?thesis using True by (simp add: ring_buf_used_def)
next
  case False
  then have h: "0 < head_offset (sbuf q)" by (simp add: word_gt_0)
  note p = inv_parts [OF inv]
  obtain r where r: "ranges (acked_set q) = [r]" "start r = 0" "end r = head_offset (sbuf q) - 1"
    using separated_interval [OF p(5) _ h] all by (auto simp: acked_bytes_def)
  then have "unat (ctail_offset (sbuf q)) = unat (head_offset (sbuf q) - 1) + 1" using cul by (simp add: sstream_culled_def)
  also have "\<dots> = unat (head_offset (sbuf q))" using False by (simp add: unat_minus_one unat_gt_0)
  finally have "ctail_offset (sbuf q) = head_offset (sbuf q)" by (simp add: word_unat_eq_iff)
  then show ?thesis by (simp add: ring_buf_used_def)
qed

section \<open>Properties of send streams\<close>

text \<open>
  C10: the invariant of a send stream. Let the users of a stream append data, mark any ranges as transmitted, report bytes of the stream that
  are not acknowledged as lost and bytes in flight as acknowledged (the contract that the code relies on without checking it), and end or
  resize the stream, in any order and with failing allocations. Then no byte is both new and
  acknowledged; only bytes of the stream are; every culled byte has been acknowledged; and every
  other byte is still in the ring buffer, with the value it was appended with.
\<close>
theorem sstream_invariant:
  assumes "alloc_ok mal" and "ossl_quic_sstream_new mal z n = Some (Inr (Some q0))"
    and "(sstream_step mal)\<^sup>*\<^sup>* (q0, []) (q, xs)"
  shows "new_bytes q \<inter> acked_bytes q = {} \<and>
    (\<forall>v. v \<in> new_bytes q \<union> acked_bytes q \<longrightarrow> v < head_offset (sbuf q)) \<and>
    (\<forall>v. v < ctail_offset (sbuf q) \<longrightarrow> v \<in> acked_bytes q) \<and>
    length xs = unat (head_offset (sbuf q)) \<and>
    (\<forall>k. unat (ctail_offset (sbuf q)) \<le> k \<and> k < length xs \<longrightarrow> cell (sbuf q) k = xs ! k)"
  using reachable_inv [OF assms] by (auto simp: sstream_inv_def rb_stream_def)


definition sample_mal :: "8 word allocator" where "sample_mal n = Some (replicate n 0)"

lemma sample_mal_ok: "alloc_ok sample_mal"
  by (simp add: alloc_ok_def sample_mal_def)

definition sample_stream :: "8 word list \<Rightarrow> 64 word \<Rightarrow> 64 word \<Rightarrow> uint_range list \<Rightarrow> uint_range list \<Rightarrow> quic_sstream" where
  "sample_stream cs h c n a = \<lparr>sbuf = \<lparr>rb_start = Some cs, alloc = 4, head_offset = h, ctail_offset = c\<rparr>,
     new_set = \<lparr>ranges = n, allocated = length n\<rparr>, acked_set = \<lparr>ranges = a, allocated = length a\<rparr>,
     have_final_size = False, sent_final_size = False, acked_final_size = False, cleanse_bufs = False\<rparr>"

lemma sample_new:
  "ossl_quic_sstream_new sample_mal True 4 = Some (Inr (Some (sample_stream [0, 0, 0, 0] 0 0 [] [])))"
  by code_simp

lemma sample_steps:
  "(sstream_step sample_mal)\<^sup>*\<^sup>* (sample_stream [0, 0, 0, 0] 0 0 [] [], []) (sample_stream [1, 2, 3, 0] 3 2 [rng 2 2] [rng 0 1], [1, 2, 3])"
proof -
  have 1: "sstream_step sample_mal (sample_stream [0, 0, 0, 0] 0 0 [] [], []) (sample_stream [1, 2, 3, 0] 3 0 [rng 0 2] [], [] @ take (unat (3 :: 32 word)) [1, 2, 3])"
  proof (rule sstream_step.append)
    show "ossl_quic_sstream_append True (sample_stream [0, 0, 0, 0] 0 0 [] []) [1, 2, 3] 3 =
      Some (Inr (True, 3, sample_stream [1, 2, 3, 0] 3 0 [rng 0 2] []))" by code_simp
  qed simp
  have 2: "sstream_step sample_mal (sample_stream [1, 2, 3, 0] 3 0 [rng 0 2] [], xs) (sample_stream [1, 2, 3, 0] 3 0 [rng 2 2] [], xs)" for xs
  proof (rule sstream_step.transmitted [of 0 1])
    show "ossl_quic_sstream_mark_transmitted True (sample_stream [1, 2, 3, 0] 3 0 [rng 0 2] []) 0 1 =
      Inr (True, sample_stream [1, 2, 3, 0] 3 0 [rng 2 2] [])" by code_simp
  qed (auto simp: sample_stream_def new_bytes_def mem_span word_le_nat_alt)
  have 3: "sstream_step sample_mal (sample_stream [1, 2, 3, 0] 3 0 [rng 2 2] [], xs) (sample_stream [1, 2, 3, 0] 3 2 [rng 2 2] [rng 0 1], xs)" for xs
  proof (rule sstream_step.acked [of 0 1])
    show "ossl_quic_sstream_mark_acked True (sample_stream [1, 2, 3, 0] 3 0 [rng 2 2] []) 0 1 =
      Inr (True, sample_stream [1, 2, 3, 0] 3 2 [rng 2 2] [rng 0 1])" by code_simp
  qed (auto simp: sample_stream_def new_bytes_def acked_bytes_def in_flight_def mem_span word_le_nat_alt word_less_nat_alt)
  show ?thesis using 1 2 3 by (simp) (meson converse_rtranclp_into_rtranclp r_into_rtranclp)
qed

theorem sstream_invariant_witness:
  "cell (sbuf (sample_stream [1, 2, 3, 0] 3 2 [rng 2 2] [rng 0 1])) 2 = 3 \<and>
   new_bytes (sample_stream [1, 2, 3, 0] 3 2 [rng 2 2] [rng 0 1]) \<inter> acked_bytes (sample_stream [1, 2, 3, 0] 3 2 [rng 2 2] [rng 0 1]) = {}"
  using sstream_invariant [OF sample_mal_ok sample_new sample_steps] by (simp add: sample_stream_def)

text \<open>
  C11: frames carry the stream. In every such state, the frame for a range of new bytes has the offset and length of the range, names at most
  two pieces of the ring buffer, so that no assertion fails and the array of the caller suffices, and these
  hold exactly the bytes appended at these offsets; it is marked as the last one exactly when the stream is ended and the
  range reaches its end. If there are no new bytes, a frame exists only to announce an end that has not been sent.
\<close>
theorem sstream_frames:
  assumes "alloc_ok mal" and "ossl_quic_sstream_new mal z n = Some (Inr (Some q0))"
    and "(sstream_step mal)\<^sup>*\<^sup>* (q0, []) (q, xs)" and "2 \<le> num_iov"
  shows "(\<forall>skip rg. skip < length (ranges (new_set q)) \<and> rg = ranges (new_set q) ! skip \<longrightarrow>
      (\<exists>tot iov. ossl_quic_sstream_get_stream_frame q skip num_iov =
        Inr (Some (\<lparr>hdr_offset = start rg, hdr_len = u64 tot,
          is_fin = (have_final_size q \<and> start rg + u64 tot = head_offset (sbuf q))\<rparr>, iov)) \<and>
        unat tot = unat (end rg) + 1 - unat (start rg) \<and>
        concat (map (buf_bytes (sbuf q)) iov) = take (unat tot) (drop (unat (start rg)) xs) \<and> length iov \<le> 2)) \<and>
    (new_bytes q = {} \<longrightarrow>
      ossl_quic_sstream_has_pending q = Inr (have_final_size q \<and> \<not> sent_final_size q))"
proof -
  note inv = reachable_inv [OF assms(1-3)]
  have "ranges (new_set q) = []" if "new_bytes q = {}"
    using that inv_parts(3) [OF inv] by (cases "ranges (new_set q)") (auto simp: new_bytes_def ordered_Cons mem_span set_eq_iff)
  then show ?thesis using frame_of_range [OF inv _ assms(4)]
    by (auto simp: ossl_quic_sstream_has_pending_def ossl_quic_sstream_get_stream_frame_def)
qed

theorem sstream_frames_witness:
  "\<exists>tot iov. ossl_quic_sstream_get_stream_frame (sample_stream [1, 2, 3, 0] 3 2 [rng 2 2] [rng 0 1]) 0 2 =
     Inr (Some (\<lparr>hdr_offset = 2, hdr_len = u64 tot, is_fin = False\<rparr>, iov)) \<and> unat tot = 1"
  using sstream_frames [OF sample_mal_ok sample_new sample_steps, of 2] by (auto simp: sample_stream_def)

text \<open>
  C12: the end of a stream is recognised. In every such state \<open>ossl_quic_sstream_is_totally_acked\<close> returns, its assertion holds, and
  it answers whether all bytes of the stream, and its end if there is one, have been acknowledged; when all bytes
  have been, no space of the ring buffer is in use.
\<close>
theorem sstream_totally_acked:
  assumes "alloc_ok mal" and "ossl_quic_sstream_new mal z n = Some (Inr (Some q0))"
    and "(sstream_step mal)\<^sup>*\<^sup>* (q0, []) (q, xs)"
  shows "ossl_quic_sstream_is_totally_acked q =
      Inr ((have_final_size q \<longrightarrow> acked_final_size q) \<and> acked_bytes q = {v. v < head_offset (sbuf q)}) \<and>
    (acked_bytes q = {v. v < head_offset (sbuf q)} \<longrightarrow> ossl_quic_sstream_get_buffer_used q = 0)"
  using totally_acked all_acked_frees reachable_inv [OF assms] reachable_culled [OF assms]
  by (auto simp: ossl_quic_sstream_get_buffer_used_def)

theorem sstream_totally_acked_witness:
  "ossl_quic_sstream_is_totally_acked (sample_stream [1, 2, 3, 0] 3 2 [rng 2 2] [rng 0 1]) = Inr False"
proof -
  have "(2 :: 64 word) \<notin> acked_bytes (sample_stream [1, 2, 3, 0] 3 2 [rng 2 2] [rng 0 1])"
    by (simp add: acked_bytes_def sample_stream_def span_def word_le_nat_alt)
  moreover have "(2 :: 64 word) \<in> {v. v < 3}" by simp
  ultimately have "acked_bytes (sample_stream [1, 2, 3, 0] 3 2 [rng 2 2] [rng 0 1]) \<noteq> {v. v < 3}" by blast
  then show ?thesis using sstream_totally_acked [OF sample_mal_ok sample_new sample_steps] by (simp add: sample_stream_def)
qed

text \<open>
  The marking functions do not check their ranges. Acknowledgements that overlap leave ranges that border on each other, and the stream
  never counts as acknowledged; a byte that is reported lost after its acknowledgement is new and acknowledged,
  and once it has been culled no frame can be made for it.
\<close>

lemma overlapping_acks_stay_open:
  "bind_res (ossl_quic_sstream_mark_acked True (sample_stream [1, 2, 3, 0] 3 1 [] [rng 0 0, rng 2 2]) 1 2)
     (\<lambda>(ok, q). bind_res (ossl_quic_sstream_is_totally_acked q) (\<lambda>t. Inr (ranges (acked_set q), t))) =
   Inr ([rng 0 0, rng 1 2], False)"
  by code_simp

lemma lost_after_acked_sticks:
  "case ossl_quic_sstream_mark_lost True (sample_stream [1, 2, 3, 0] 3 2 [] [rng 0 1]) 0 1 of (ok, q) \<Rightarrow>
     ok \<and> ranges (new_set q) = [rng 0 1] \<and> ranges (acked_set q) = [rng 0 1] \<and> ossl_quic_sstream_has_pending q = Inr False"
  by code_simp

text \<open>Shortening the pieces of a frame shortens its contents.\<close>

lemma adjust_iov_take:
  assumes "unat running + sum_list (map (unat \<circ> snd) iov) < 2 ^ 32" and "\<forall>b \<in> set iov. length (buf_bytes rb b) = unat (snd b)"
  shows "concat (map (buf_bytes rb) (adjust_walk len running iov)) =
    take (unat len - unat running) (concat (map (buf_bytes rb) iov))"
  using assms
proof (induction len running iov rule: adjust_walk.induct)
  case (2 len running buf n iov)
  have s: "unat (running + n) = unat running + unat n" using "2.prems"(1) by (subst unat_plus_small) simp_all
  let ?n = "if running \<ge> len then 0 else if running + n > len then len - running else n"
  have n: "unat ?n = min (unat n) (unat len - unat running)"
    using s by (auto simp: word_le_nat_alt word_less_nat_alt unat_minus_small)
  have "buf_bytes rb (buf, ?n) = take (unat len - unat running) (buf_bytes rb (buf, n))"
    using buf_bytes_prefix [of ?n n rb buf] "2.prems"(2) n by (simp add: min_def)
  moreover have "concat (map (buf_bytes rb) (adjust_walk len (running + n) iov)) =
      take (unat len - unat running - unat n) (concat (map (buf_bytes rb) iov))"
    using "2.IH" "2.prems" s by (simp add: add.assoc diff_diff_eq)
  ultimately show ?case using "2.prems"(2) by simp
qed simp

end
