(* ===== verification/Sframe_List.thy ===== *)
theory Sframe_List
  imports Uint_Set
begin

text \<open>
  The lists of received stream frames, \<open>ssl/quic/quic_sf_list.c\<close>. The doubly linked list of frames is the list of its frames from head to tail. The
  range of a frame includes its start and excludes its end. The data of a frame is the list of bytes its pointer points to; \<open>None\<close>
  is the null pointer, for frames whose bytes have been moved to the side storage. Packets are numbers, and the
  list of frames carries how many references to each packet it has taken and not released. Bytes that are cleared right before they are
  released are not represented. An iterator is the part of the list from the frame it points to.
\<close>

record sframe =
  frange :: uint_range
  pkt :: "nat option"
  fdata :: "8 word list option"

record sframe_list =
  frames :: "sframe list"
  fl_fin :: bool
  num_frames :: nat
  fl_offset :: "64 word"
  head_locked :: bool
  fl_cleanse :: bool
  pkt_refs :: "nat \<Rightarrow> nat"

abbreviation fstart :: "sframe \<Rightarrow> 64 word" where "fstart f \<equiv> start (frange f)"
abbreviation fend :: "sframe \<Rightarrow> 64 word" where "fend f \<equiv> end (frange f)"

definition up_ref :: "nat option \<Rightarrow> (nat \<Rightarrow> nat) \<Rightarrow> nat \<Rightarrow> nat" where
  "up_ref p refs = (case p of None \<Rightarrow> refs | Some k \<Rightarrow> refs(k := refs k + 1))"

definition release :: "nat option \<Rightarrow> (nat \<Rightarrow> nat) \<Rightarrow> nat \<Rightarrow> nat" where
  \<comment> \<open>\<open>assert(rxe->refcount > 0)\<close> is not a branch: \<open>release_has_reference\<close> shows that it holds for every frame of a list\<close>
  "release p refs = (case p of None \<Rightarrow> refs | Some k \<Rightarrow> refs(k := refs k - 1))"

definition stream_frame_free :: "sframe_list \<Rightarrow> sframe \<Rightarrow> sframe_list" where
  "stream_frame_free fl sf = fl\<lparr>pkt_refs := release (pkt sf) (pkt_refs fl)\<rparr>"

definition stream_frame_new ::
    "bool \<Rightarrow> sframe_list \<Rightarrow> uint_range \<Rightarrow> nat option \<Rightarrow> 8 word list option \<Rightarrow> (sframe \<times> sframe_list) option" where
  \<comment> \<open>\<open>mem\<close>: the allocation succeeds\<close>
  "stream_frame_new mem fl rg p d =
     (if \<not> mem then None
      else Some (\<lparr>frange = rg, pkt = p, fdata = d\<rparr>, fl\<lparr>pkt_refs := up_ref p (pkt_refs fl)\<rparr>))"

definition ossl_sframe_list_init :: sframe_list where
  "ossl_sframe_list_init = \<lparr>frames = [], fl_fin = False, num_frames = 0, fl_offset = 0, head_locked = False,
     fl_cleanse = False, pkt_refs = (\<lambda>_. 0)\<rparr>"

definition ossl_sframe_list_destroy :: "sframe_list \<Rightarrow> sframe_list" where
  "ossl_sframe_list_destroy fl = foldl stream_frame_free fl (frames fl)"

section \<open>Insertion\<close>

definition append_frame ::
    "bool \<Rightarrow> sframe_list \<Rightarrow> uint_range \<Rightarrow> nat option \<Rightarrow> 8 word list option \<Rightarrow> sframe_list option" where
  "append_frame mem fl rg p d =
     (case stream_frame_new mem fl rg p d of
        None \<Rightarrow> None
      | Some (nf, fl) \<Rightarrow> Some (fl\<lparr>frames := frames fl @ [nf], num_frames := num_frames fl + 1\<rparr>))"

fun drop_covered :: "64 word \<Rightarrow> sframe_list \<Rightarrow> sframe list \<Rightarrow> sframe_list \<times> sframe list" where
  \<comment> \<open>frees the frames from the current one on that end at or before \<open>e\<close>; with the frames that remain\<close>
  "drop_covered e fl [] = (fl, [])"
| "drop_covered e fl (sf # sfs) =
     (if fend sf \<le> e then drop_covered e (stream_frame_free (fl\<lparr>num_frames := num_frames fl - 1\<rparr>) sf) sfs else (fl, sf # sfs))"

definition set_fin :: "bool \<Rightarrow> sframe_list \<Rightarrow> sframe_list" where
  "set_fin f fl = fl\<lparr>fl_fin := f \<or> fl_fin fl\<rparr>"

definition insert_before ::
    "bool \<Rightarrow> sframe_list \<Rightarrow> uint_range \<Rightarrow> nat option \<Rightarrow> 8 word list option \<Rightarrow> bool \<Rightarrow> sframe list \<Rightarrow> sframe list \<Rightarrow> bool \<times> sframe_list" where
  \<comment> \<open>the part of the insertion after the search: the frames before the new one and those from it on\<close>
  "insert_before mem fl rg p d f pre sfs =
     (if pre \<noteq> [] \<and> fend (last pre) \<ge> end rg then (True, set_fin f fl)
      else case stream_frame_new mem fl rg p d of
             None \<Rightarrow> (False, fl)
           | Some (nf, fl) \<Rightarrow>
               (case drop_covered (end rg) fl sfs of
                  (fl, rest) \<Rightarrow>
                    if rest \<noteq> [] \<and> pre \<noteq> [] \<and> fstart (hd rest) \<le> fend (last pre)
                    then (True, set_fin f (stream_frame_free (fl\<lparr>frames := pre @ rest\<rparr>) nf))
                    else (True, set_fin f (fl\<lparr>frames := pre @ nf # rest, num_frames := num_frames fl + 1\<rparr>))))"

definition ossl_sframe_list_insert ::
    "bool \<Rightarrow> sframe_list \<Rightarrow> uint_range \<Rightarrow> nat option \<Rightarrow> 8 word list option \<Rightarrow> bool \<Rightarrow> (bool \<times> sframe_list) res" where
  "ossl_sframe_list_insert mem fl rg p d f =
     (let curr_end = (if frames fl \<noteq> [] then fend (last (frames fl)) else fl_offset fl)
      in if \<not> ((\<not> f \<or> curr_end \<le> end rg) \<and> (\<not> fl_fin fl \<or> curr_end \<ge> end rg)) then Inl Assert_Failed
         else Inr
           (if fl_offset fl \<ge> end rg then (True, set_fin f fl)
            else if frames fl = []
            then case stream_frame_new mem fl rg p d of
                   None \<Rightarrow> (False, fl)
                 | Some (nf, fl) \<Rightarrow> (True, set_fin f (fl\<lparr>frames := [nf], num_frames := num_frames fl + 1\<rparr>))
            else if fstart (last (frames fl)) < start rg
            then if fend (last (frames fl)) \<ge> end rg then (True, set_fin f fl)
                 else case append_frame mem fl rg p d of None \<Rightarrow> (False, fl) | Some fl \<Rightarrow> (True, set_fin f fl)
            else let pre = takeWhile (\<lambda>sf. fstart sf < start rg) (frames fl);
                     sfs = dropWhile (\<lambda>sf. fstart sf < start rg) (frames fl)
                 in if sfs = [] then (False, fl) else insert_before mem fl rg p d f pre sfs))"

section \<open>Reading and dropping\<close>

type_synonym sf_iter = "sframe list option"

definition ossl_sframe_list_peek ::
    "sframe_list \<Rightarrow> sf_iter \<Rightarrow> bool \<times> sf_iter \<times> uint_range \<times> 8 word list option \<times> bool" where
  \<comment> \<open>the result, the iterator, the range, the data and the value of \<open>fin\<close>\<close>
  "ossl_sframe_list_peek fl iter =
     (let (s, sfs) = (case iter of None \<Rightarrow> (fl_offset fl, frames fl) | Some it \<Rightarrow> (fend (hd it), tl it))
      in case sfs of
           [] \<Rightarrow> (False, None, rng s s, None, fl_fin fl)
         | sf # rest \<Rightarrow>
             if fstart sf > s \<or> \<not> s < fend sf then (False, None, rng s s, None, False)
             else (True, Some (sf # rest), rng s (fend sf), map_option (drop (unat (s - fstart sf))) (fdata sf),
                   if rest = [] then fl_fin fl else False))"

fun drop_read :: "64 word \<Rightarrow> sframe_list \<Rightarrow> sframe list \<Rightarrow> sframe_list \<times> sframe list" where
  "drop_read limit fl [] = (fl, [])"
| "drop_read limit fl (sf # sfs) =
     (if fend sf \<le> limit then drop_read limit (stream_frame_free (fl\<lparr>num_frames := num_frames fl - 1\<rparr>) sf) sfs else (fl, sf # sfs))"

definition ossl_sframe_list_drop_frames :: "sframe_list \<Rightarrow> 64 word \<Rightarrow> bool \<times> sframe_list" where
  "ossl_sframe_list_drop_frames fl limit =
     (if \<not> limit \<ge> fl_offset fl \<or> \<not> (frames fl = [] \<or> limit \<le> fend (last (frames fl))) \<or>
         \<not> (frames fl \<noteq> [] \<or> limit = fl_offset fl) then (False, fl)
      else case drop_read limit (fl\<lparr>fl_offset := limit\<rparr>) (frames fl) of
             (fl, sfs) \<Rightarrow> (True, fl\<lparr>frames := sfs, head_locked := False\<rparr>))"

definition ossl_sframe_list_lock_head ::
    "sframe_list \<Rightarrow> (bool \<times> uint_range \<times> 8 word list option \<times> bool) option \<times> sframe_list" where
  \<comment> \<open>\<open>None\<close>: the head is locked and nothing is stored through the pointers\<close>
  "ossl_sframe_list_lock_head fl =
     (if head_locked fl then (None, fl)
      else case ossl_sframe_list_peek fl None of
             (ret, it, rg, d, f) \<Rightarrow> (Some (ret, rg, d, f), if ret then fl\<lparr>head_locked := True\<rparr> else fl))"

definition ossl_sframe_list_is_head_locked :: "sframe_list \<Rightarrow> bool" where
  "ossl_sframe_list_is_head_locked fl = head_locked fl"

section \<open>Moving the data to a side storage\<close>

fun move_walk ::
    "('b \<Rightarrow> 64 word \<Rightarrow> 8 word list \<Rightarrow> 32 word \<Rightarrow> (bool \<times> 'b) res) \<Rightarrow> 64 word \<Rightarrow> sframe_list \<Rightarrow> sframe option \<Rightarrow> sframe list \<Rightarrow>
     sframe list \<Rightarrow> 'b \<Rightarrow> (bool \<times> sframe_list \<times> sframe list \<times> 'b) res" where
  \<comment> \<open>the frame before the current one, if it has been visited, the frames before that one in reverse order, and the frames from the current one on\<close>
  "move_walk cb limit fl prev done' [] b = Inr (True, fl, rev (case prev of None \<Rightarrow> done' | Some q \<Rightarrow> q # done'), b)"
| "move_walk cb limit fl prev done' (sf # sfs) b =
     (let limit = (if limit < fstart sf then fstart sf else limit);
          before = (case prev of None \<Rightarrow> done' | Some q \<Rightarrow> q # done')
      in bind_res
           (case fdata sf of
              None \<Rightarrow> Inr (True, fl, sf, b)
            | Some d \<Rightarrow>
                let d = (if limit > fstart sf then drop (unat (ucast (limit - fstart sf) :: 32 word)) d else d);
                    len = ucast (fend sf - limit)
                in bind_res (cb b limit d len) (\<lambda>(ok, b).
                     if \<not> ok then Inr (False, fl, sf, b)
                     else Inr (True, fl\<lparr>pkt_refs := release (pkt sf) (pkt_refs fl)\<rparr>, sf\<lparr>fdata := None, pkt := None\<rparr>, b)))
           (\<lambda>(ok, fl, sf, b).
              if \<not> ok then Inr (False, fl, rev before @ sf # sfs, b)
              else case prev of
                     Some q \<Rightarrow>
                       if fend q \<ge> fstart sf
                       then move_walk cb (fend sf) (stream_frame_free (fl\<lparr>num_frames := num_frames fl - 1\<rparr>) sf)
                              (Some (q\<lparr>frange := (frange q)\<lparr>end := fend sf\<rparr>\<rparr>)) done' sfs b
                       else move_walk cb (fend sf) fl (Some sf) before sfs b
                   | None \<Rightarrow> move_walk cb (fend sf) fl (Some sf) before sfs b))"

definition ossl_sframe_list_move_data ::
    "('b \<Rightarrow> 64 word \<Rightarrow> 8 word list \<Rightarrow> 32 word \<Rightarrow> (bool \<times> 'b) res) \<Rightarrow> sframe_list \<Rightarrow> 'b \<Rightarrow> (bool \<times> sframe_list \<times> 'b) res" where
  "ossl_sframe_list_move_data cb fl b =
     (if frames fl = [] then Inr (True, fl, b)
      else let (skipped, sfs) = (if head_locked fl then ([hd (frames fl)], tl (frames fl)) else ([], frames fl))
           in bind_res (move_walk cb (fl_offset fl) fl None skipped sfs b) (\<lambda>(ok, fl, sfs, b). Inr (ok, fl\<lparr>frames := sfs\<rparr>, b)))"

section \<open>The invariant of a list of frames\<close>

text \<open>
  Frames are ordered by their starts and strictly by their ends, all of them end after the offset, they are counted, and each of
  them with a packet holds one reference to it.
\<close>

definition sf_sorted :: "sframe list \<Rightarrow> bool" where
  "sf_sorted fs \<longleftrightarrow> sorted_wrt (\<lambda>a b. fstart a \<le> fstart b \<and> fend a < fend b) fs \<and> (\<forall>f \<in> set fs. fstart f \<le> fend f)"

definition refs_of :: "sframe list \<Rightarrow> nat \<Rightarrow> nat" where
  "refs_of fs k = length (filter (\<lambda>f. pkt f = Some k) fs)"

definition sf_inv :: "sframe_list \<Rightarrow> bool" where
  "sf_inv fl \<longleftrightarrow> sf_sorted (frames fl) \<and> (\<forall>f \<in> set (frames fl). fl_offset fl < fend f) \<and>
     num_frames fl = length (frames fl) \<and> pkt_refs fl = refs_of (frames fl)"

definition cov :: "sframe list \<Rightarrow> 64 word set" where
  "cov fs = (\<Union>f \<in> set fs. {fstart f..<fend f})"

lemma sf_sorted_append:
  "sf_sorted (xs @ ys) \<longleftrightarrow> sf_sorted xs \<and> sf_sorted ys \<and> (\<forall>x \<in> set xs. \<forall>y \<in> set ys. fstart x \<le> fstart y \<and> fend x < fend y)"
  by (auto simp: sf_sorted_def sorted_wrt_append)

lemma sf_sorted_Cons:
  "sf_sorted (x # ys) \<longleftrightarrow> fstart x \<le> fend x \<and> sf_sorted ys \<and> (\<forall>y \<in> set ys. fstart x \<le> fstart y \<and> fend x < fend y)"
  by (auto simp: sf_sorted_def)

lemma sf_sorted_Nil [simp]: "sf_sorted []"
  by (simp add: sf_sorted_def)

lemma cov_simps [simp]: "cov [] = {}" "cov (f # fs) = {fstart f..<fend f} \<union> cov fs" "cov (xs @ ys) = cov xs \<union> cov ys"
  by (auto simp: cov_def)

lemma cov_mem: "f \<in> set fs \<Longrightarrow> {fstart f..<fend f} \<subseteq> cov fs"
  by (auto simp: cov_def)

lemma cov_subset: "(\<And>f. f \<in> set fs \<Longrightarrow> a \<le> fstart f \<and> fend f \<le> b) \<Longrightarrow> cov fs \<subseteq> {a..<b}"
  by (force simp: cov_def)

lemma refs_of_simps [simp]:
  "refs_of [] = (\<lambda>_. 0)" "refs_of (xs @ ys) = (\<lambda>k. refs_of xs k + refs_of ys k)"
  "refs_of (f # fs) = up_ref (pkt f) (refs_of fs)"
  by (auto simp: refs_of_def up_ref_def fun_eq_iff split: option.splits)

lemma release_up_ref [simp]: "release p (up_ref p refs) = refs"
  by (auto simp: release_def up_ref_def split: option.splits)

lemma up_ref_None [simp]: "up_ref None refs = refs" and release_None [simp]: "release None refs = refs"
  by (simp_all add: up_ref_def release_def)

lemma up_ref_plus: "up_ref p (\<lambda>k. f k + g k) = (\<lambda>k. up_ref p f k + g k)" "up_ref p (\<lambda>k. f k + g k) = (\<lambda>k. f k + up_ref p g k)"
  by (auto simp: up_ref_def split: option.splits)

lemma up_ref_commute: "up_ref p (up_ref q r) = up_ref q (up_ref p r)"
  by (auto simp: up_ref_def fun_eq_iff split: option.splits)

lemma drop_covered_free: "drop_covered e fl sfs = drop_read e fl sfs"
  by (induction e fl sfs rule: drop_covered.induct) auto

definition release_all :: "sframe list \<Rightarrow> (nat \<Rightarrow> nat) \<Rightarrow> nat \<Rightarrow> nat" where
  "release_all fs refs = foldl (\<lambda>r f. release (pkt f) r) refs fs"

lemma release_all_refs: "release_all fs (\<lambda>k. refs_of fs k + g k) = g"
  unfolding release_all_def by (induction fs) (simp_all flip: up_ref_plus(1))

text \<open>
  The assertion of \<open>ossl_qrx_pkt_release\<close> holds whenever frames of the list are released, one after the other: each of them finds
  a reference left, so that the subtraction is exact.
\<close>

lemma release_has_reference:
  assumes "pkt_refs fl = refs_of (pre @ fs @ rest)" and "fs = before @ sf # after" and "pkt sf = Some k"
  shows "0 < release_all before (pkt_refs fl) k"
proof -
  have "pkt_refs fl = (\<lambda>k. refs_of before k + (refs_of pre k + refs_of (sf # after) k + refs_of rest k))"
    using assms(1,2) by (auto simp: up_ref_plus(1) fun_eq_iff)
  then have "release_all before (pkt_refs fl) = (\<lambda>k. refs_of pre k + refs_of (sf # after) k + refs_of rest k)"
    by (simp only: release_all_refs)
  then show ?thesis using assms(3) by (simp add: up_ref_def)
qed

lemma drop_read_eq:
  "drop_read e fl sfs =
     (fl\<lparr>num_frames := num_frames fl - length (takeWhile (\<lambda>sf. fend sf \<le> e) sfs),
         pkt_refs := release_all (takeWhile (\<lambda>sf. fend sf \<le> e) sfs) (pkt_refs fl)\<rparr>,
      dropWhile (\<lambda>sf. fend sf \<le> e) sfs)"
  by (induction e fl sfs rule: drop_read.induct) (simp_all add: stream_frame_free_def release_all_def)

lemma refs_of_split: "refs_of fs = (\<lambda>k. refs_of (takeWhile P fs) k + refs_of (dropWhile P fs) k)"
  by (metis refs_of_simps(2) takeWhile_dropWhile_id)

lemma dropWhile_ends:
  assumes "sf_sorted fs" and "f \<in> set (dropWhile (\<lambda>sf. fend sf \<le> e) fs)"
  shows "e < fend f"
  using assms by (induction fs) (auto simp: sf_sorted_Cons split: if_splits dest: order.strict_trans1)

lemma takeWhile_ends: "f \<in> set (takeWhile (\<lambda>sf. fend sf \<le> e) fs) \<Longrightarrow> fend f \<le> e"
  by (meson set_takeWhileD)

lemma sf_sorted_takeWhile: "sf_sorted fs \<Longrightarrow> sf_sorted (takeWhile P fs)" and sf_sorted_dropWhile: "sf_sorted fs \<Longrightarrow> sf_sorted (dropWhile P fs)"
  using takeWhile_dropWhile_id [of P fs] sf_sorted_append [of "takeWhile P fs" "dropWhile P fs"] by simp_all

lemma inv_fin [simp]: "sf_inv (set_fin f fl) = sf_inv fl" "frames (set_fin f fl) = frames fl" "fl_offset (set_fin f fl) = fl_offset fl"
  "fl_fin (set_fin f fl) = (f \<or> fl_fin fl)" "head_locked (set_fin f fl) = head_locked fl"
  "num_frames (set_fin f fl) = num_frames fl" "pkt_refs (set_fin f fl) = pkt_refs fl" "fl_cleanse (set_fin f fl) = fl_cleanse fl"
  by (simp_all add: set_fin_def sf_inv_def)

text \<open>What an insertion promises.\<close>

definition tail_end :: "64 word \<Rightarrow> sframe list \<Rightarrow> 64 word" where
  "tail_end off fs = (if fs = [] then off else fend (last fs))"

definition sf_inserted :: "bool \<Rightarrow> sframe_list \<Rightarrow> uint_range \<Rightarrow> nat option \<Rightarrow> 8 word list option \<Rightarrow> bool \<Rightarrow> bool \<times> sframe_list \<Rightarrow> bool" where
  "sf_inserted mem fl rg p d f r \<longleftrightarrow>
     sf_inv (snd r) \<and> fl_offset (snd r) = fl_offset fl \<and> head_locked (snd r) = head_locked fl \<and>
     set (frames (snd r)) \<subseteq> insert \<lparr>frange = rg, pkt = p, fdata = d\<rparr> (set (frames fl)) \<and>
     (if fst r then fl_fin (snd r) = (f \<or> fl_fin fl) \<and>
        tail_end (fl_offset fl) (frames (snd r)) = max (tail_end (fl_offset fl) (frames fl)) (end rg) \<and>
        cov (frames (snd r)) \<union> {..<fl_offset fl} = cov (frames fl) \<union> {start rg..<end rg} \<union> {..<fl_offset fl}
      else \<not> mem \<and> snd r = fl)"

lemma tail_end_ge: "sf_sorted fs \<Longrightarrow> x \<in> set fs \<Longrightarrow> fend x \<le> tail_end off fs"
  by (cases fs rule: rev_cases) (auto simp: tail_end_def sf_sorted_append less_imp_le)

lemma tail_end_offset: "\<forall>x \<in> set fs. off < fend x \<Longrightarrow> off \<le> tail_end off fs"
  by (auto simp: tail_end_def less_imp_le)

lemma insert_before_inserted:
  assumes inv: "sf_inv fl" and fr: "frames fl = pre @ sfs" and pre: "\<forall>x \<in> set pre. fstart x < start rg"
    and sfs: "\<forall>x \<in> set sfs. start rg \<le> fstart x" and rg: "start rg \<le> end rg" and off: "fl_offset fl < end rg"
  shows "sf_inserted mem fl rg p d f (insert_before mem fl rg p d f pre sfs)"
proof (cases "pre \<noteq> [] \<and> fend (last pre) \<ge> end rg")
  case True
  then have "last pre \<in> set pre" by simp
  then have "fstart (last pre) < start rg" using pre by blast
  then have "{start rg..<end rg} \<subseteq> {fstart (last pre)..<fend (last pre)}" using True by auto
  also have "\<dots> \<subseteq> cov (frames fl)" using \<open>last pre \<in> set pre\<close> by (intro cov_mem) (simp add: fr)
  finally have "{start rg..<end rg} \<subseteq> cov (frames fl)" .
  moreover have "end rg \<le> tail_end (fl_offset fl) (frames fl)"
    using tail_end_ge [of "frames fl" "last pre"] True inv \<open>last pre \<in> set pre\<close> by (auto simp: sf_inv_def fr intro: order_trans)
  ultimately show ?thesis using True inv by (auto simp: insert_before_def sf_inserted_def max_def)
next
  case False
  note gap = False
  show ?thesis
  proof (cases mem)
    case False
    then show ?thesis using gap inv by (auto simp: insert_before_def sf_inserted_def stream_frame_new_def)
  next
    case True
    let ?P = "\<lambda>sf. fend sf \<le> end rg"
    let ?nf = "\<lparr>frange = rg, pkt = p, fdata = d\<rparr>"
    define cut where "cut = takeWhile ?P sfs"
    define rest where "rest = dropWhile ?P sfs"
    have sp: "sfs = cut @ rest" by (simp add: cut_def rest_def)
    have srt: "sf_sorted pre" "sf_sorted cut" "sf_sorted rest"
      and ord: "\<forall>x \<in> set pre. \<forall>y \<in> set rest. fstart x \<le> fstart y \<and> fend x < fend y"
      using inv by (auto simp: sf_inv_def fr sp sf_sorted_append)
    have pe: "fend x < end rg" if x: "x \<in> set pre" for x
    proof -
      have "x = last pre \<or> fend x < fend (last pre)"
        using srt(1) x by (cases pre rule: rev_cases) (auto simp: sf_sorted_append sf_sorted_Cons)
      then show ?thesis using gap x by (cases pre) (auto simp: not_le)
    qed
    have re: "end rg < fend x" if "x \<in> set rest" for x
      using dropWhile_ends [of sfs x "end rg"] that inv by (simp add: rest_def sf_inv_def fr sf_sorted_append)
    have cutc: "cov cut \<subseteq> {start rg..<end rg}"
    proof (rule cov_subset)
      fix x assume x: "x \<in> set cut"
      then have "x \<in> set sfs" by (simp add: sp)
      then show "start rg \<le> fstart x \<and> fend x \<le> end rg" using x sfs takeWhile_ends [of x "end rg" sfs] by (simp add: cut_def)
    qed
    have mx: "max (tail_end (fl_offset fl) (pre @ cut @ rest)) (end rg) = (if rest = [] then end rg else fend (last rest))"
    proof (cases "rest = []")
      case True
      have "fend (last cut) \<le> end rg" if "cut \<noteq> []" using that takeWhile_ends [of "last cut" "end rg" sfs] by (simp add: cut_def)
      then show ?thesis using True pe [of "last pre"] off by (cases "cut = []") (auto simp: tail_end_def max_def less_imp_le)
    next
      case False
      then show ?thesis using re [of "last rest"] by (auto simp: tail_end_def max_def)
    qed
    have offs: "\<forall>x \<in> set pre \<union> set rest. fl_offset fl < fend x" using inv by (auto simp: sf_inv_def fr sp)
    have num: "num_frames fl = length pre + length cut + length rest" using inv by (simp add: sf_inv_def fr sp)
    have refs: "release_all cut (up_ref p (pkt_refs fl)) = up_ref p (\<lambda>k. refs_of pre k + refs_of rest k)"
    proof -
      have "pkt_refs fl = (\<lambda>k. refs_of cut k + (refs_of pre k + refs_of rest k))"
        using inv by (simp add: sf_inv_def fr sp fun_eq_iff)
      then show ?thesis by (simp only: up_ref_plus(2) [of p "refs_of cut"] release_all_refs)
    qed
    show ?thesis
    proof (cases "rest \<noteq> [] \<and> pre \<noteq> [] \<and> fstart (hd rest) \<le> fend (last pre)")
      case red: True
      let ?fl = "fl\<lparr>frames := pre @ rest, num_frames := num_frames fl - length cut, pkt_refs := (\<lambda>k. refs_of pre k + refs_of rest k)\<rparr>"
      have run: "insert_before mem fl rg p d f pre sfs = (True, set_fin f ?fl)"
        using gap red True refs
        by (simp add: insert_before_def stream_frame_new_def drop_covered_free drop_read_eq stream_frame_free_def
            cut_def [symmetric] rest_def [symmetric])
      have "{start rg..<end rg} \<subseteq> cov pre \<union> cov rest"
      proof
        fix v assume v: "v \<in> {start rg..<end rg}"
        have "v \<in> {fstart (last pre)..<fend (last pre)} \<or> v \<in> {fstart (hd rest)..<fend (hd rest)}"
          using v red pre [rule_format, of "last pre"] re [of "hd rest"] by (auto simp: not_less)
        then show "v \<in> cov pre \<union> cov rest" using red by (auto simp: cov_def)
      qed
      moreover have "sf_inv ?fl" using srt ord offs num by (auto simp: sf_inv_def sf_sorted_append)
      moreover have "tail_end (fl_offset fl) (pre @ rest) = max (tail_end (fl_offset fl) (pre @ cut @ rest)) (end rg)"
        using red mx by (simp add: tail_end_def)
      ultimately show ?thesis using cutc unfolding run unfolding sf_inserted_def fr sp by auto
    next
      case red: False
      let ?fl = "fl\<lparr>frames := pre @ ?nf # rest, num_frames := num_frames fl - length cut + 1,
        pkt_refs := up_ref p (\<lambda>k. refs_of pre k + refs_of rest k)\<rparr>"
      have run: "insert_before mem fl rg p d f pre sfs = (True, set_fin f ?fl)"
        using gap red True refs
        by (auto simp: insert_before_def stream_frame_new_def drop_covered_free drop_read_eq
            cut_def [symmetric] rest_def [symmetric])
      have "sf_sorted (pre @ ?nf # rest)"
        using srt ord pre sfs pe re rg by (auto simp: sf_sorted_append sf_sorted_Cons sp less_imp_le)
      then have "sf_inv ?fl" using offs num off by (auto simp: sf_inv_def up_ref_plus(2))
      moreover have "tail_end (fl_offset fl) (pre @ ?nf # rest) = max (tail_end (fl_offset fl) (pre @ cut @ rest)) (end rg)"
        unfolding mx by (simp add: tail_end_def)
      ultimately show ?thesis using cutc unfolding run unfolding sf_inserted_def fr sp by auto
    qed
  qed
qed

lemma insert_inserted_frames:
  assumes inv: "sf_inv fl" and rg: "start rg \<le> end rg" and run: "ossl_sframe_list_insert mem fl rg p d f = Inr r"
  shows "sf_inserted mem fl rg p d f r"
proof -
  let ?nf = "\<lparr>frange = rg, pkt = p, fdata = d\<rparr>"
  consider (old) "fl_offset fl \<ge> end rg" | (first) "fl_offset fl < end rg" "frames fl = []"
    | (tail) fs z where "fl_offset fl < end rg" "frames fl = fs @ [z]" "fstart z < start rg"
    | (walk) fs z where "fl_offset fl < end rg" "frames fl = fs @ [z]" "start rg \<le> fstart z"
    by (metis not_le rev_exhaust)
  then show ?thesis
  proof cases
    case old
    then have "r = (True, set_fin f fl)" using run by (auto simp: ossl_sframe_list_insert_def Let_def split: if_splits)
    moreover have "end rg \<le> tail_end (fl_offset fl) (frames fl)"
      using tail_end_offset [of "frames fl" "fl_offset fl"] old inv by (auto simp: sf_inv_def intro: order_trans)
    ultimately show ?thesis using inv old by (auto simp: sf_inserted_def max_def dest: order.strict_trans2)
  next
    case first
    then show ?thesis using run inv rg
      by (auto simp: ossl_sframe_list_insert_def Let_def stream_frame_new_def sf_inserted_def sf_inv_def sf_sorted_Cons tail_end_def max_def split: if_splits)
  next
    case tail
    have z: "z \<in> set (frames fl)" using tail by simp
    have srt: "sf_sorted (fs @ [z])" using inv tail by (simp add: sf_inv_def)
    show ?thesis
    proof (cases "fend z \<ge> end rg")
      case True
      then have "r = (True, set_fin f fl)" using run tail by (auto simp: ossl_sframe_list_insert_def Let_def split: if_splits)
      moreover have "{start rg..<end rg} \<subseteq> cov (frames fl)" using True tail by auto
      ultimately show ?thesis using inv True tail(2) by (auto simp: sf_inserted_def tail_end_def max_def)
    next
      case False
      have r: "r = (if mem then (True, set_fin f (fl\<lparr>frames := frames fl @ [?nf], num_frames := num_frames fl + 1,
          pkt_refs := up_ref p (pkt_refs fl)\<rparr>)) else (False, fl))"
        using run tail False
        by (auto simp: ossl_sframe_list_insert_def Let_def append_frame_def stream_frame_new_def split: if_splits)
      have "sf_sorted (fs @ [z, ?nf])" using srt tail False rg
        by (auto simp: sf_sorted_append sf_sorted_Cons not_le dest: order.strict_trans1 intro: less_imp_le less_trans order_trans)
      moreover have "tail_end (fl_offset fl) (fs @ [z, ?nf]) = max (tail_end (fl_offset fl) (fs @ [z])) (end rg)"
        using False by (auto simp: tail_end_def max_def not_le)
      ultimately show ?thesis using inv tail r by (auto simp: sf_inserted_def sf_inv_def up_ref_plus(2) up_ref_commute)
    qed
  next
    case walk
    let ?P = "\<lambda>sf. fstart sf < start rg"
    let ?pre = "takeWhile ?P (frames fl)" and ?sfs = "dropWhile ?P (frames fl)"
    have nz: "\<not> fstart (last (frames fl)) < start rg" "frames fl \<noteq> []" using walk by auto
    have ne: "?sfs \<noteq> []" using nz by (metis dropWhile_eq_Nil_conv last_in_set)
    have r: "r = insert_before mem fl rg p d f ?pre ?sfs"
      using run walk(1) nz ne by (auto simp: ossl_sframe_list_insert_def Let_def not_le split: if_splits)
    have "\<forall>x \<in> set ?sfs. start rg \<le> fstart x"
    proof -
      have hd: "\<not> ?P (hd ?sfs)" by (rule hd_dropWhile [OF ne])
      have "sf_sorted ?sfs" using inv by (simp add: sf_inv_def sf_sorted_dropWhile)
      then have "fstart (hd ?sfs) \<le> fstart x" if "x \<in> set ?sfs" for x
        using that ne by (cases ?sfs) (auto simp: sf_sorted_Cons)
      then show ?thesis using hd by (auto simp: not_less intro: order_trans)
    qed
    moreover have "\<forall>x \<in> set ?pre. fstart x < start rg" by (meson set_takeWhileD)
    ultimately show ?thesis unfolding r
      by (intro insert_before_inserted [OF inv _ _ _ rg walk(1)]) (simp_all only: takeWhile_dropWhile_id)
  qed
qed

text \<open>An insertion succeeds unless an allocation fails, or a final size is contradicted.\<close>

definition fin_consistent :: "sframe_list \<Rightarrow> uint_range \<Rightarrow> bool \<Rightarrow> bool" where
  "fin_consistent fl rg f \<longleftrightarrow> (let curr_end = (if frames fl \<noteq> [] then fend (last (frames fl)) else fl_offset fl)
     in (f \<longrightarrow> curr_end \<le> end rg) \<and> (fl_fin fl \<longrightarrow> curr_end \<ge> end rg))"

lemma insert_runs: "fin_consistent fl rg f \<Longrightarrow> \<exists>r. ossl_sframe_list_insert mem fl rg p d f = Inr r"
  by (auto simp: fin_consistent_def ossl_sframe_list_insert_def Let_def split: if_splits)

section \<open>What can be read\<close>

fun reach :: "nat \<Rightarrow> sframe list \<Rightarrow> nat" where
  \<comment> \<open>the end of the bytes that are there without a gap from a position on\<close>
  "reach n [] = n"
| "reach n (f # fs) = (if unat (fstart f) \<le> n \<and> n < unat (fend f) then reach (unat (fend f)) fs else n)"

lemma reach_covered:
  "sf_sorted fs \<Longrightarrow> \<forall>f \<in> set fs. n < unat (fend f) \<Longrightarrow>
   n \<le> reach n fs \<and> (\<forall>v. n \<le> unat v \<and> unat v < reach n fs \<longrightarrow> v \<in> cov fs) \<and> (\<forall>v \<in> cov fs. unat v \<noteq> reach n fs)"
proof (induction fs arbitrary: n)
  case (Cons f fs)
  show ?case
  proof (cases "unat (fstart f) \<le> n")
    case True
    have "\<forall>g \<in> set fs. unat (fend f) < unat (fend g)" using Cons.prems(1) by (auto simp: sf_sorted_Cons word_less_nat_alt)
    then have IH: "unat (fend f) \<le> reach (unat (fend f)) fs"
      "\<forall>v. unat (fend f) \<le> unat v \<and> unat v < reach (unat (fend f)) fs \<longrightarrow> v \<in> cov fs"
      "\<forall>v \<in> cov fs. unat v \<noteq> reach (unat (fend f)) fs"
      using Cons.IH [of "unat (fend f)"] Cons.prems(1) by (simp_all add: sf_sorted_Cons)
    have r: "reach n (f # fs) = reach (unat (fend f)) fs" using True Cons.prems(2) by simp
    show ?thesis unfolding r using IH Cons.prems(2) True
      by (auto simp: word_less_nat_alt word_le_nat_alt not_less)
  next
    case False
    then have "v \<notin> cov (f # fs)" if "unat v = n" for v
      using Cons.prems(1) that by (force simp: cov_def sf_sorted_Cons word_le_nat_alt)
    then show ?thesis using False by auto
  qed
qed simp

section \<open>Dropping\<close>

lemma drop_frames_spec:
  assumes inv: "sf_inv fl" and lim: "fl_offset fl \<le> limit" "frames fl = [] \<Longrightarrow> limit = fl_offset fl"
    "\<And>z. frames fl \<noteq> [] \<Longrightarrow> limit \<le> fend (last (frames fl))"
  shows "\<exists>fl'. ossl_sframe_list_drop_frames fl limit = (True, fl') \<and> sf_inv fl' \<and> fl_offset fl' = limit \<and>
    frames fl' = dropWhile (\<lambda>sf. fend sf \<le> limit) (frames fl) \<and> fl_fin fl' = fl_fin fl \<and> fl_cleanse fl' = fl_cleanse fl \<and> \<not> head_locked fl'"
proof -
  let ?P = "\<lambda>sf. fend sf \<le> limit"
  let ?cut = "takeWhile ?P (frames fl)" and ?rest = "dropWhile ?P (frames fl)"
  let ?fl = "fl\<lparr>fl_offset := limit, num_frames := num_frames fl - length ?cut, pkt_refs := refs_of ?rest, frames := ?rest, head_locked := False\<rparr>"
  have "release_all ?cut (pkt_refs fl) = refs_of ?rest"
    using inv release_all_refs [of ?cut "refs_of ?rest"] refs_of_split [of "frames fl" ?P] by (simp add: sf_inv_def)
  then have run: "ossl_sframe_list_drop_frames fl limit = (True, ?fl)"
    using lim by (auto simp: ossl_sframe_list_drop_frames_def drop_read_eq)
  have "length (frames fl) = length ?cut + length ?rest" by (metis length_append takeWhile_dropWhile_id)
  then have "sf_inv ?fl" using inv dropWhile_ends by (auto simp: sf_inv_def sf_sorted_dropWhile)
  then show ?thesis using run by simp
qed

section \<open>The interface of a side storage\<close>

text \<open>
  What the list relies on when it moves its data: a callback that stores bytes at an offset or refuses to, and keeps the others.
  \<open>byte_at\<close> gives the byte stored at an offset, if there is one, and \<open>base\<close> the first offset that can be written.
\<close>

definition frame_ok :: "(nat \<Rightarrow> 8 word option) \<Rightarrow> 8 word list \<Rightarrow> nat \<Rightarrow> sframe \<Rightarrow> bool" where
  \<comment> \<open>the frame carries its part of the stream \<open>xs\<close>, in the packet or, from the offset on, in the storage\<close>
  "frame_ok st xs off f \<longleftrightarrow> unat (fend f) \<le> length xs \<and>
     (case fdata f of
        Some d \<Rightarrow> d = take (unat (fend f) - unat (fstart f)) (drop (unat (fstart f)) xs) \<and> unat (fend f) - unat (fstart f) < 2 ^ 32
      | None \<Rightarrow> \<forall>k. unat (fstart f) \<le> k \<and> off \<le> k \<and> k < unat (fend f) \<longrightarrow> st k = Some (xs ! k))"

lemma frame_ok_mono:
  "frame_ok st xs off f \<Longrightarrow> (\<And>k. st k = Some (xs ! k) \<Longrightarrow> off \<le> k \<Longrightarrow> k < length xs \<Longrightarrow> st' k = Some (xs ! k)) \<Longrightarrow> frame_ok st' xs off f"
  by (auto simp: frame_ok_def split: option.splits)

definition walk_inv :: "(nat \<Rightarrow> 8 word option) \<Rightarrow> 8 word list \<Rightarrow> nat \<Rightarrow> sframe_list \<Rightarrow> sframe list \<Rightarrow> bool" where
  "walk_inv st xs off fl fs \<longleftrightarrow> sf_sorted fs \<and> (\<forall>f \<in> set fs. off < unat (fend f) \<and> frame_ok st xs off f) \<and>
     num_frames fl = length fs \<and> pkt_refs fl = refs_of fs"

definition same_list :: "sframe_list \<Rightarrow> sframe_list \<Rightarrow> bool" where
  "same_list fl fl' \<longleftrightarrow> fl_offset fl' = fl_offset fl \<and> fl_fin fl' = fl_fin fl \<and> head_locked fl' = head_locked fl \<and> fl_cleanse fl' = fl_cleanse fl"

lemma same_list_refl [simp]: "same_list fl fl" and same_list_trans: "same_list a b \<Longrightarrow> same_list b c \<Longrightarrow> same_list a c"
  by (auto simp: same_list_def)

locale side_storage =
  fixes cb :: "'b \<Rightarrow> 64 word \<Rightarrow> 8 word list \<Rightarrow> 32 word \<Rightarrow> (bool \<times> 'b) res"
    and good :: "'b \<Rightarrow> bool" and base :: "'b \<Rightarrow> nat" and byte_at :: "'b \<Rightarrow> nat \<Rightarrow> 8 word option"
  assumes cb_stores: "good b \<Longrightarrow> base b \<le> unat lo \<Longrightarrow> unat n \<le> length d \<Longrightarrow> unat lo + unat n \<le> 2 ^ 62 \<Longrightarrow>
    \<exists>ok b'. cb b lo d n = Inr (ok, b') \<and> good b' \<and> base b' = base b \<and>
      (if ok then (\<forall>k. unat lo \<le> k \<and> k < unat lo + unat n \<longrightarrow> byte_at b' k = Some (d ! (k - unat lo))) \<and>
         (\<forall>k. (k < unat lo \<or> unat lo + unat n \<le> k) \<and> byte_at b k \<noteq> None \<longrightarrow> byte_at b' k = byte_at b k)
       else b' = b)"
begin

text \<open>Moving the data of one frame.\<close>

lemma move_one:
  assumes g: "good b" "base b \<le> off" and xs: "length xs \<le> 2 ^ 62" and inv: "walk_inv (byte_at b) xs off fl (pre @ sf # sfs)"
    and prev: "case prev of None \<Rightarrow> unat limit = off | Some q \<Rightarrow> limit = fend q \<and> q \<in> set pre \<and> fdata q = None"
    and lim: "lim = (if limit < fstart sf then fstart sf else limit)"
    and run: "r = (case fdata sf of
              None \<Rightarrow> Inr (True, fl, sf, b)
            | Some d \<Rightarrow>
                let d = (if lim > fstart sf then drop (unat (ucast (lim - fstart sf) :: 32 word)) d else d);
                    len = ucast (fend sf - lim)
                in bind_res (cb b lim d len) (\<lambda>(ok, b).
                     if \<not> ok then Inr (False, fl, sf, b)
                     else Inr (True, fl\<lparr>pkt_refs := release (pkt sf) (pkt_refs fl)\<rparr>, sf\<lparr>fdata := None, pkt := None\<rparr>, b)))"
  shows "\<exists>ok fl' sf' b'. r = Inr (ok, fl', sf', b') \<and> good b' \<and> base b' = base b \<and> same_list fl fl' \<and> frange sf' = frange sf \<and>
    walk_inv (byte_at b') xs off fl' (pre @ sf' # sfs) \<and> (ok \<longrightarrow> fdata sf' = None) \<and> num_frames fl' = num_frames fl"
proof (cases "fdata sf")
  case None
  then show ?thesis using assms by auto
next
  case (Some d)
  have srt: "sf_sorted (pre @ sf # sfs)" and ok: "frame_ok (byte_at b) xs off sf" and off: "off < unat (fend sf)"
    using inv by (auto simp: walk_inv_def)
  have d: "d = take (unat (fend sf) - unat (fstart sf)) (drop (unat (fstart sf)) xs)" "unat (fend sf) - unat (fstart sf) < 2 ^ 32"
    "unat (fend sf) \<le> length xs" using ok Some by (simp_all add: frame_ok_def)
  have sle: "unat (fstart sf) \<le> unat (fend sf)" using srt by (auto simp: sf_sorted_append sf_sorted_Cons word_le_nat_alt)
  have lime: "unat limit \<le> unat (fend sf)" "off \<le> unat limit"
    using prev off srt inv by (auto simp: sf_sorted_append word_less_nat_alt walk_inv_def less_imp_le split: option.splits)
  have l: "unat lim = max (unat limit) (unat (fstart sf))" by (auto simp: lim word_less_nat_alt)
  have bnd: "unat (fstart sf) \<le> unat lim" "unat lim \<le> unat (fend sf)" "off \<le> unat lim" using l lime sle by auto
  define n :: "32 word" where "n = ucast (fend sf - lim)"
  have "unat (fend sf - lim) = unat (fend sf) - unat lim" using bnd(2) by (rule unat_minus_small)
  then have n: "unat n = unat (fend sf) - unat lim" using d(2) bnd by (simp add: n_def unsigned_ucast_eq take_bit_nat_eq_self)
  define d' where "d' = (if lim > fstart sf then drop (unat (ucast (lim - fstart sf) :: 32 word)) d else d)"
  have "unat (lim - fstart sf) = unat lim - unat (fstart sf)" using bnd(1) by (rule unat_minus_small)
  then have "unat (ucast (lim - fstart sf) :: 32 word) = unat lim - unat (fstart sf)"
    using d(2) bnd by (simp add: unsigned_ucast_eq take_bit_nat_eq_self)
  then have "d' = drop (unat lim - unat (fstart sf)) d" using bnd(1) by (auto simp: d'_def word_less_nat_alt)
  then have d': "d' = take (unat n) (drop (unat lim) xs)" using d(1) n bnd by (simp add: drop_take)
  have dn: "length d' = unat n" "unat lim + unat n = unat (fend sf)" using d' d(3) n bnd by simp_all
  obtain ok b' where c: "cb b lim d' n = Inr (ok, b')" "good b'" "base b' = base b"
    "if ok then (\<forall>k. unat lim \<le> k \<and> k < unat lim + unat n \<longrightarrow> byte_at b' k = Some (d' ! (k - unat lim))) \<and>
       (\<forall>k. (k < unat lim \<or> unat lim + unat n \<le> k) \<and> byte_at b k \<noteq> None \<longrightarrow> byte_at b' k = byte_at b k) else b' = b"
    using cb_stores [OF g(1), of lim n d'] g(2) bnd(3) dn d(3) xs by force
  show ?thesis
  proof (cases ok)
    case False
    then show ?thesis using c run Some inv by (auto simp: d'_def [symmetric] n_def [symmetric] Let_def)
  next
    case True
    let ?sf = "sf\<lparr>fdata := None, pkt := None\<rparr>" and ?fl = "fl\<lparr>pkt_refs := release (pkt sf) (pkt_refs fl)\<rparr>"
    have new: "byte_at b' k = Some (xs ! k)" if "unat lim \<le> k" "k < unat (fend sf)" for k
      using c(4) True that dn d' d(3) by simp
    have keep: "byte_at b' k = Some (xs ! k)" if "byte_at b k = Some (xs ! k)" for k
      using c(4) True that new [of k] dn(2) by (cases "k < unat lim \<or> unat (fend sf) \<le> k") (auto simp: not_less)
    have "byte_at b' k = Some (xs ! k)" if k: "unat (fstart sf) \<le> k" "off \<le> k" "k < unat (fend sf)" for k
    proof (cases "unat lim \<le> k")
      case False
      then have lt: "k < unat limit" using k(1) l by auto
      then obtain q where q: "prev = Some q" "k < unat (fend q)" "q \<in> set pre" "fdata q = None" using prev k(2) by (auto split: option.splits)
      then have "unat (fstart q) \<le> k" using srt k(1) by (auto simp: sf_sorted_append word_le_nat_alt)
      moreover have "frame_ok (byte_at b) xs off q" using inv q(3) by (auto simp: walk_inv_def)
      ultimately have "byte_at b k = Some (xs ! k)" using q k(2) by (simp add: frame_ok_def)
      then show ?thesis by (rule keep)
    qed (use new k in blast)
    then have okf: "frame_ok (byte_at b') xs off ?sf" using d(3) by (simp add: frame_ok_def)
    have refs: "release (pkt sf) (pkt_refs fl) = refs_of (pre @ ?sf # sfs)"
    proof -
      have "pkt_refs fl = up_ref (pkt sf) (\<lambda>k. refs_of pre k + refs_of sfs k)" using inv by (simp add: walk_inv_def up_ref_plus(2))
      then show ?thesis by simp
    qed
    have "sf_sorted (pre @ ?sf # sfs)" using srt by (auto simp: sf_sorted_append sf_sorted_Cons)
    then have "walk_inv (byte_at b') xs off ?fl (pre @ ?sf # sfs)"
      using inv okf refs off frame_ok_mono [of "byte_at b" xs off _ "byte_at b'"] keep by (auto simp: walk_inv_def)
    then show ?thesis using c run Some True by (auto simp: d'_def [symmetric] n_def [symmetric] Let_def same_list_def)
  qed
qed

text \<open>Merging a frame into the one before it.\<close>

lemma merge_one:
  assumes inv: "walk_inv st xs off fl (pre @ q # sf # sfs)" and d: "fdata q = None" "fdata sf = None" and adj: "fstart sf \<le> fend q"
  shows "walk_inv st xs off (stream_frame_free (fl\<lparr>num_frames := num_frames fl - 1\<rparr>) sf)
     (pre @ q\<lparr>frange := (frange q)\<lparr>end := fend sf\<rparr>\<rparr> # sfs)"
    and "cov (pre @ q\<lparr>frange := (frange q)\<lparr>end := fend sf\<rparr>\<rparr> # sfs) = cov (pre @ q # sf # sfs)"
proof -
  let ?q = "q\<lparr>frange := (frange q)\<lparr>end := fend sf\<rparr>\<rparr>"
  have srt: "sf_sorted (pre @ q # sf # sfs)" using inv by (simp add: walk_inv_def)
  then have le: "fstart q \<le> fstart sf" "fend q < fend sf" "fstart q \<le> fend q" "fstart sf \<le> fend sf"
    by (auto simp: sf_sorted_append sf_sorted_Cons)
  have "sf_sorted (pre @ ?q # sfs)" using srt by (fastforce simp: sf_sorted_append sf_sorted_Cons)
  moreover have "frame_ok st xs off ?q"
  proof -
    have "frame_ok st xs off q" "frame_ok st xs off sf" using inv by (auto simp: walk_inv_def)
    then have q: "\<forall>k. unat (fstart q) \<le> k \<and> off \<le> k \<and> k < unat (fend q) \<longrightarrow> st k = Some (xs ! k)"
      and s: "unat (fend sf) \<le> length xs" "\<forall>k. unat (fstart sf) \<le> k \<and> off \<le> k \<and> k < unat (fend sf) \<longrightarrow> st k = Some (xs ! k)"
      using d by (simp_all add: frame_ok_def)
    have "unat (fstart sf) \<le> unat (fend q)" using adj by (simp add: word_le_nat_alt)
    then have "st k = Some (xs ! k)" if "unat (fstart q) \<le> k" "off \<le> k" "k < unat (fend sf)" for k
      using q s(2) that by (cases "k < unat (fend q)") simp_all
    then show ?thesis using d s(1) by (simp add: frame_ok_def)
  qed
  moreover have "release (pkt sf) (pkt_refs fl) = refs_of (pre @ ?q # sfs)"
  proof -
    have "pkt_refs fl = up_ref (pkt sf) (\<lambda>k. refs_of pre k + up_ref (pkt q) (refs_of sfs) k)"
      using inv by (simp add: walk_inv_def up_ref_plus(2) up_ref_commute [of "pkt q"])
    then show ?thesis by simp
  qed
  ultimately show "walk_inv st xs off (stream_frame_free (fl\<lparr>num_frames := num_frames fl - 1\<rparr>) sf) (pre @ ?q # sfs)"
    using inv by (auto simp: walk_inv_def stream_frame_free_def)
  show "cov (pre @ ?q # sfs) = cov (pre @ q # sf # sfs)" using le adj by auto
qed

lemma move_walk_ok:
  assumes "good b" and "base b \<le> off" and "length xs \<le> 2 ^ 62"
    and "fs = rev (case prev of None \<Rightarrow> dn | Some q \<Rightarrow> q # dn) @ sfs" and "walk_inv (byte_at b) xs off fl fs"
    and "case prev of None \<Rightarrow> unat limit = off | Some q \<Rightarrow> limit = fend q \<and> fdata q = None"
  shows "\<exists>ok fl' fs' b'. move_walk cb limit fl prev dn sfs b = Inr (ok, fl', fs', b') \<and> good b' \<and> base b' = base b \<and>
    same_list fl fl' \<and> walk_inv (byte_at b') xs off fl' fs' \<and> cov fs' = cov fs \<and> (fs' = [] \<longleftrightarrow> fs = []) \<and>
    (fs \<noteq> [] \<longrightarrow> fend (last fs') = fend (last fs))"
  using assms
proof (induction sfs arbitrary: limit fl prev dn b fs)
  case Nil
  then show ?case by auto
next
  case (Cons sf sfs)
  define lim where "lim = (if limit < fstart sf then fstart sf else limit)"
  define before where "before = (case prev of None \<Rightarrow> dn | Some q \<Rightarrow> q # dn)"
  define r where "r = (case fdata sf of
              None \<Rightarrow> Inr (True, fl, sf, b)
            | Some d \<Rightarrow>
                let d = (if lim > fstart sf then drop (unat (ucast (lim - fstart sf) :: 32 word)) d else d);
                    len = ucast (fend sf - lim)
                in bind_res (cb b lim d len) (\<lambda>(ok, b).
                     if \<not> ok then Inr (False, fl, sf, b)
                     else Inr (True, fl\<lparr>pkt_refs := release (pkt sf) (pkt_refs fl)\<rparr>, sf\<lparr>fdata := None, pkt := None\<rparr>, b)))"
  have fs: "fs = rev before @ sf # sfs" using Cons.prems(4) by (simp add: before_def)
  have pv: "case prev of None \<Rightarrow> unat limit = off | Some q \<Rightarrow> limit = fend q \<and> q \<in> set (rev before) \<and> fdata q = None"
    using Cons.prems(6) by (auto simp: before_def split: option.splits)
  obtain ok fl' sf' b' where m: "r = Inr (ok, fl', sf', b')" "good b'" "base b' = base b" "same_list fl fl'" "frange sf' = frange sf"
    "walk_inv (byte_at b') xs off fl' (rev before @ sf' # sfs)" "ok \<longrightarrow> fdata sf' = None" "num_frames fl' = num_frames fl"
    using move_one [OF Cons.prems(1-3) _ pv lim_def r_def, of sfs] Cons.prems(5) by (auto simp: fs)
  have covm: "cov (rev before @ sf' # sfs) = cov fs" using m(5) by (simp add: fs)
  have lastm: "fend (last (rev before @ sf' # sfs)) = fend (last fs)" using m(5) by (simp add: fs)
  have step: "move_walk cb limit fl prev dn (sf # sfs) b = bind_res r (\<lambda>(ok, fl, sf, b).
              if \<not> ok then Inr (False, fl, rev before @ sf # sfs, b)
              else case prev of
                     Some q \<Rightarrow>
                       if fend q \<ge> fstart sf
                       then move_walk cb (fend sf) (stream_frame_free (fl\<lparr>num_frames := num_frames fl - 1\<rparr>) sf)
                              (Some (q\<lparr>frange := (frange q)\<lparr>end := fend sf\<rparr>\<rparr>)) dn sfs b
                       else move_walk cb (fend sf) fl (Some sf) before sfs b
                   | None \<Rightarrow> move_walk cb (fend sf) fl (Some sf) before sfs b)"
    unfolding r_def lim_def before_def by (simp only: move_walk.simps Let_def)
  consider (fail) "\<not> ok" | (merge) q where "ok" "prev = Some q" "fstart sf' \<le> fend q"
    | (keep) "ok" "\<And>q. prev = Some q \<Longrightarrow> \<not> fstart sf' \<le> fend q" by blast
  then show ?case
  proof cases
    case fail
    then show ?thesis using step m covm lastm fs by auto
  next
    case merge
    let ?q = "q\<lparr>frange := (frange q)\<lparr>end := fend sf'\<rparr>\<rparr>"
    let ?fl = "stream_frame_free (fl'\<lparr>num_frames := num_frames fl' - 1\<rparr>) sf'"
    have bq: "rev before = rev dn @ [q]" "fdata q = None" using merge Cons.prems(6) by (auto simp: before_def)
    have w: "walk_inv (byte_at b') xs off ?fl (rev dn @ ?q # sfs)" "cov (rev dn @ ?q # sfs) = cov fs"
      using merge_one [of "byte_at b'" xs off fl' "rev dn" q sf' sfs] m(6,7) merge bq covm by simp_all
    have l: "fend (last (rev dn @ ?q # sfs)) = fend (last fs)" using lastm by auto
    have eq: "move_walk cb limit fl prev dn (sf # sfs) b = move_walk cb (fend sf') ?fl (Some ?q) dn sfs b'"
      unfolding step m(1) using merge by simp
    have sl: "same_list fl ?fl" using m(4) by (auto simp: same_list_def stream_frame_free_def)
    show ?thesis unfolding eq
      using Cons.IH [where b = b' and fs = "rev dn @ ?q # sfs" and prev = "Some ?q" and dn = dn and fl = ?fl and limit = "fend sf'"] m(2,3) Cons.prems(2,3) w l sl bq(2) fs
      by (auto intro: same_list_trans)
  next
    case keep
    have eq: "move_walk cb limit fl prev dn (sf # sfs) b = move_walk cb (fend sf') fl' (Some sf') before sfs b'"
      unfolding step m(1) using keep by (auto split: option.splits)
    show ?thesis unfolding eq
      using Cons.IH [where b = b' and fs = "rev before @ sf' # sfs" and prev = "Some sf'" and dn = before and fl = fl' and limit = "fend sf'"] m Cons.prems(2,3) keep covm lastm fs
      by (auto intro: same_list_trans)
  qed
qed

text \<open>Moving the data keeps the invariant, what is covered and every byte of it, whether it finishes or not.\<close>

lemma move_data_ok:
  assumes "good b" and "base b \<le> unat (fl_offset fl)" and "length xs \<le> 2 ^ 62" and "sf_inv fl"
    and "\<forall>f \<in> set (frames fl). frame_ok (byte_at b) xs (unat (fl_offset fl)) f"
  shows "\<exists>ok fl' b'. ossl_sframe_list_move_data cb fl b = Inr (ok, fl', b') \<and> good b' \<and> base b' = base b \<and> same_list fl fl' \<and>
    sf_inv fl' \<and> (\<forall>f \<in> set (frames fl'). frame_ok (byte_at b') xs (unat (fl_offset fl)) f) \<and> cov (frames fl') = cov (frames fl) \<and>
    (frames fl = [] \<longleftrightarrow> frames fl' = []) \<and> (frames fl \<noteq> [] \<longrightarrow> fend (last (frames fl')) = fend (last (frames fl)))"
proof (cases "frames fl")
  case Nil
  then show ?thesis using assms by (auto simp: ossl_sframe_list_move_data_def)
next
  case (Cons f fs)
  define skipped where "skipped = (if head_locked fl then [hd (frames fl)] else [])"
  define sfs where "sfs = (if head_locked fl then tl (frames fl) else frames fl)"
  have fr: "frames fl = rev (case None of None \<Rightarrow> skipped | Some q \<Rightarrow> q # skipped) @ sfs" by (simp add: skipped_def sfs_def Cons)
  have w: "walk_inv (byte_at b) xs (unat (fl_offset fl)) fl (frames fl)"
    using assms(4,5) by (auto simp: walk_inv_def sf_inv_def word_less_nat_alt)
  obtain ok fl' fs' b' where r: "move_walk cb (fl_offset fl) fl None skipped sfs b = Inr (ok, fl', fs', b')" "good b'" "base b' = base b"
    "same_list fl fl'" "walk_inv (byte_at b') xs (unat (fl_offset fl)) fl' fs'" "cov fs' = cov (frames fl)" "(fs' = []) = (frames fl = [])"
    "frames fl \<noteq> [] \<longrightarrow> fend (last fs') = fend (last (frames fl))"
    using move_walk_ok [OF assms(1-3) fr w, of "fl_offset fl"] by auto
  have "ossl_sframe_list_move_data cb fl b = Inr (ok, fl'\<lparr>frames := fs'\<rparr>, b')"
    using r(1) Cons by (auto simp: ossl_sframe_list_move_data_def skipped_def sfs_def)
  then show ?thesis using r Cons by (auto simp: same_list_def walk_inv_def sf_inv_def word_less_nat_alt)
qed

end

end
