(* ===== verification/Ossl_Time.thy ===== *)
theory Ossl_Time
  imports Safe_Math
begin

text \<open>
  The times of the vendored OpenSSL, \<open>include/internal/time.h\<close>: a 64 bit number of nanoseconds since 1970, with
  arithmetic on the checked operations. \<open>OSSL_TIME\<close> is a structure with this number as its only member and is the
  number here. \<open>struct timeval\<close> is that of Windows, two values of type \<open>long\<close>, which has 32 bits; the width of \<open>time_t\<close> is left
  open.
\<close>

section \<open>Operations\<close>

type_synonym ossl_time = "64 word"

abbreviation OSSL_TIME_SECOND :: ossl_time where "OSSL_TIME_SECOND \<equiv> 1000000000"
abbreviation OSSL_TIME_US :: ossl_time where "OSSL_TIME_US \<equiv> 1000"

record timeval =
  tv_sec :: "32 word"
  tv_usec :: "32 word"

definition ossl_time_zero :: ossl_time where "ossl_time_zero = 0"
definition ossl_time_infinite :: ossl_time where "ossl_time_infinite = MAXU"

definition ossl_time_to_timeval :: "ossl_time \<Rightarrow> timeval" where
  "ossl_time_to_timeval t =
     (let (s, err) = safe_add_u t (OSSL_TIME_US - 1) False;
          t = (if err then ossl_time_infinite else s)
      in \<lparr>tv_sec = ucast (t div OSSL_TIME_SECOND), tv_usec = ucast (t mod OSSL_TIME_SECOND div OSSL_TIME_US)\<rparr>)"

definition ossl_time_from_timeval :: "timeval \<Rightarrow> ossl_time" where
  "ossl_time_from_timeval tv =
     (if sint (tv_sec tv) < 0 then ossl_time_zero
      else scast (tv_sec tv) * OSSL_TIME_SECOND + scast (tv_usec tv) * OSSL_TIME_US)"

definition ossl_time_to_time_t :: "ossl_time \<Rightarrow> 't::len word" where
  "ossl_time_to_time_t t = ucast (t div OSSL_TIME_SECOND)"

definition ossl_time_from_time_t :: "'t::len word \<Rightarrow> ossl_time" where
  "ossl_time_from_time_t t = scast t * OSSL_TIME_SECOND"

definition ossl_time_compare :: "ossl_time \<Rightarrow> ossl_time \<Rightarrow> int" where
  "ossl_time_compare a b = (if a > b then 1 else if a < b then - 1 else 0)"

definition ossl_time_is_zero :: "ossl_time \<Rightarrow> bool" where
  "ossl_time_is_zero t \<longleftrightarrow> ossl_time_compare t ossl_time_zero = 0"

definition ossl_time_is_infinite :: "ossl_time \<Rightarrow> bool" where
  "ossl_time_is_infinite t \<longleftrightarrow> ossl_time_compare t ossl_time_infinite = 0"

definition ossl_time_add :: "ossl_time \<Rightarrow> ossl_time \<Rightarrow> ossl_time" where
  "ossl_time_add a b = (let (r, err) = safe_add_u a b False in if err then ossl_time_infinite else r)"

definition ossl_time_subtract :: "ossl_time \<Rightarrow> ossl_time \<Rightarrow> ossl_time" where
  "ossl_time_subtract a b = (let (r, err) = safe_sub_u a b False in if err then ossl_time_zero else r)"

definition ossl_time_abs_difference :: "ossl_time \<Rightarrow> ossl_time \<Rightarrow> ossl_time" where
  "ossl_time_abs_difference a b = (if a > b then ossl_time_subtract a b else ossl_time_subtract b a)"

definition ossl_time_multiply :: "ossl_time \<Rightarrow> 64 word \<Rightarrow> ossl_time" where
  "ossl_time_multiply a b = (let (r, err) = safe_mul_u a b False in if err then ossl_time_infinite else r)"

definition ossl_time_divide :: "ossl_time \<Rightarrow> 64 word \<Rightarrow> ossl_time" where
  "ossl_time_divide a b = (let (r, err) = safe_div_u a b False in if err then ossl_time_zero else r)"

definition ossl_time_muldiv :: "ossl_time \<Rightarrow> 64 word \<Rightarrow> 64 word \<Rightarrow> ossl_time" where
  "ossl_time_muldiv a b c = (let (r, err) = safe_muldiv_u a b c False in if err then ossl_time_zero else r)"

definition ossl_time_max :: "ossl_time \<Rightarrow> ossl_time \<Rightarrow> ossl_time" where
  "ossl_time_max a b = (if a > b then a else b)"

definition ossl_time_min :: "ossl_time \<Rightarrow> ossl_time \<Rightarrow> ossl_time" where
  "ossl_time_min a b = (if a < b then a else b)"

section \<open>Facts\<close>

abbreviation max_time :: int where "max_time \<equiv> 2 ^ 64 - 1"

lemma uint_infinite: "uint ossl_time_infinite = max_time"
  by (simp only: ossl_time_infinite_def uint_MAXU) simp

lemma time_compare_iff:
  "ossl_time_compare a b < 0 \<longleftrightarrow> a < b" "0 < ossl_time_compare a b \<longleftrightarrow> b < a" "ossl_time_compare a b = 0 \<longleftrightarrow> a = b"
  "ossl_time_compare a b \<le> 0 \<longleftrightarrow> a \<le> b"
  by (auto simp: ossl_time_compare_def)

lemma uint_time_add: "uint (ossl_time_add a b) = min (uint a + uint b) max_time"
proof -
  obtain r err where s: "safe_add_u a b False = (r, err)" by force
  have e: "err \<longleftrightarrow> \<not> uint a + uint b < 2 ^ 64" using add_u.op_err [OF fits_uint fits_uint, of a b False] s by (simp add: fits_u_def)
  show ?thesis
  proof (cases err)
    case True
    then show ?thesis using s e uint_infinite by (simp add: ossl_time_add_def min_def)
  next
    case False
    then show ?thesis using add_u.no_error [OF s] s e by (simp add: ossl_time_add_def min_def)
  qed
qed

lemma uint_time_subtract: "uint (ossl_time_subtract a b) = max (uint a - uint b) 0"
proof -
  obtain r err where s: "safe_sub_u a b False = (r, err)" by force
  have e: "err \<longleftrightarrow> uint a < uint b" using s by (auto simp: safe_sub_u_def word_less_def)
  then show ?thesis using s sub_u.no_error [OF s]
    by (cases err) (auto simp: ossl_time_subtract_def ossl_time_zero_def max_def)
qed

lemma uint_time_multiply: "uint (ossl_time_multiply a b) = min (uint a * uint b) max_time"
proof -
  obtain r err where s: "safe_mul_u a b False = (r, err)" by force
  have e: "err \<longleftrightarrow> \<not> uint a * uint b < 2 ^ 64" using mul_u.op_err [OF fits_uint fits_uint, of a b False] s by (simp add: fits_u_def)
  show ?thesis
  proof (cases err)
    case True
    then show ?thesis using s e uint_infinite by (simp add: ossl_time_multiply_def min_def)
  next
    case False
    then show ?thesis using mul_u.no_error [OF s] s e by (simp add: ossl_time_multiply_def min_def)
  qed
qed

lemma uint_time_divide: "uint (ossl_time_divide a b) = uint a div uint b"
proof (cases "b = 0")
  case False
  then have "ossl_time_divide a b = a div b" by (simp add: ossl_time_divide_def safe_div_u_def)
  then show ?thesis by (simp only: uint_div)
qed (simp add: ossl_time_divide_def safe_div_u_def ossl_time_zero_def)

lemma split_thousands: "v div 1000000000 * 1000000000 + v mod 1000000000 div 1000 * 1000 = v div 1000 * 1000" for v :: int
proof -
  have "v mod 1000000000 = 1000 * (v div 1000 mod 1000000) + v mod 1000" using zmod_zmult2_eq [of 1000000 v 1000] by simp
  then have "v mod 1000000000 div 1000 = v div 1000 mod 1000000" by simp
  moreover have "v div 1000000000 = v div 1000 div 1000000" using zdiv_zmult2_eq [of 1000000 v 1000] by simp
  ultimately show ?thesis using div_mult_mod_eq [of "v div 1000" 1000000] by linarith
qed
lemma sint_small: "uint w < 2 ^ 31 \<Longrightarrow> sint (ucast w :: 32 word) = uint w" for w :: "64 word"
proof -
  assume w: "uint w < 2 ^ 31"
  then have "signed_take_bit 31 (uint w) = uint w" by (intro signed_take_bit_int_eq_self) (simp_all add: order_trans [of _ 0])
  then show ?thesis using w by (simp add: sint_uint unsigned_ucast_eq take_bit_int_eq_self)
qed

lemma scast_small: "uint w < 2 ^ 31 \<Longrightarrow> (scast (ucast w :: 32 word) :: 64 word) = w" for w :: "64 word"
  using sint_small [of w] by (metis scast_eq word_of_int_uint)

section \<open>Properties\<close>

text \<open>
  Addition, subtraction and multiplication of times saturate: the result is the exact one, or the end of the range
  it lies beyond. Division is exact, and by zero gives zero. Scaling by \<open>ossl_time_muldiv\<close> does not saturate: twice the largest time is
  the smallest one.
\<close>

lemma time_arithmetic_saturates:
  "uint (ossl_time_add a b) = min (uint a + uint b) max_time \<and>
   uint (ossl_time_subtract a b) = max (uint a - uint b) 0 \<and>
   uint (ossl_time_abs_difference a b) = \<bar>uint a - uint b\<bar> \<and>
   uint (ossl_time_multiply a b) = min (uint a * uint b) max_time \<and>
   uint (ossl_time_divide a b) = uint a div uint b \<and>
   ossl_time_muldiv ossl_time_infinite 2 1 = ossl_time_zero"
proof -
  have "uint (ossl_time_abs_difference a b) = \<bar>uint a - uint b\<bar>"
    by (auto simp: ossl_time_abs_difference_def uint_time_subtract word_less_def max_def abs_if)
  moreover have "ossl_time_muldiv ossl_time_infinite 2 1 = ossl_time_zero" by code_simp
  ultimately show ?thesis using uint_time_add uint_time_subtract uint_time_multiply uint_time_divide by simp
qed

text \<open>
  A time before 2038, converted to a \<open>struct timeval\<close> and back, is rounded up to a microsecond; in particular a time that
  is not zero does not become zero.
\<close>

lemma timeval_roundtrip:
  assumes "uint t + 999 < 2 ^ 31 * 1000000000"
  shows "uint (ossl_time_from_timeval (ossl_time_to_timeval t)) = (uint t + 999) div 1000 * 1000 \<and>
    (t \<noteq> 0 \<longrightarrow> ossl_time_to_timeval t \<noteq> \<lparr>tv_sec = 0, tv_usec = 0\<rparr>)"
proof -
  obtain v err where v: "safe_add_u t 999 False = (v, err)" by force
  have "\<not> err" "uint v = uint t + 999"
    using add_u.no_overflow [OF v] assms by (simp_all add: fits_u_def)
  let ?s = "v div OSSL_TIME_SECOND" and ?u = "v mod OSSL_TIME_SECOND div OSSL_TIME_US"
  have u: "uint ?s = uint v div 1000000000" "uint ?u = uint v mod 1000000000 div 1000"
    by (simp_all only: uint_div uint_mod uint_numeral) simp_all
  have to: "ossl_time_to_timeval t = \<lparr>tv_sec = ucast ?s, tv_usec = ucast ?u\<rparr>"
    using v \<open>\<not> err\<close> by (simp add: ossl_time_to_timeval_def)
  have "uint v div 1000000000 < 2 ^ 31" using \<open>uint v = uint t + 999\<close> assms by (simp add: div_less_iff_less_mult)
  moreover have "uint v mod 1000000000 < 2 ^ 31 * 1000" by (rule less_trans [OF pos_mod_bound]) simp_all
  then have "uint v mod 1000000000 div 1000 < 2 ^ 31" by (simp add: div_less_iff_less_mult)
  ultimately have s: "uint ?s < 2 ^ 31" "uint ?u < 2 ^ 31" unfolding u by blast+
  have "ossl_time_from_timeval (ossl_time_to_timeval t) = ?s * OSSL_TIME_SECOND + ?u * OSSL_TIME_US"
    unfolding to ossl_time_from_timeval_def timeval.simps scast_small [OF s(1)] scast_small [OF s(2)] sint_small [OF s(1)]
    by simp
  also have "uint \<dots> = (uint ?s * 1000000000 + uint ?u * 1000) mod 2 ^ 64"
    by (simp add: uint_word_ariths mod_simps)
  also have "\<dots> = (uint v div 1000 * 1000) mod 2 ^ 64" unfolding u split_thousands ..
  also have "\<dots> = uint v div 1000 * 1000"
  proof (rule mod_pos_pos_trivial)
    have "uint v div 1000 * 1000 \<le> uint v" using div_mult_mod_eq [of "uint v" 1000] pos_mod_sign [of 1000 "uint v"] by linarith
    then show "uint v div 1000 * 1000 < 2 ^ 64" using uint_lt2p [of v] by simp
  qed (simp add: pos_imp_zdiv_nonneg_iff)
  finally have again: "uint (ossl_time_from_timeval (ossl_time_to_timeval t)) = (uint t + 999) div 1000 * 1000"
    using \<open>uint v = uint t + 999\<close> by simp
  have "t = 0" if "ossl_time_to_timeval t = \<lparr>tv_sec = 0, tv_usec = 0\<rparr>"
  proof -
    have "(uint t + 999) div 1000 = 0" using again that by (simp add: ossl_time_from_timeval_def)
    then have "uint t = 0" using uint_ge_0 [of t] by linarith
    then show ?thesis by (simp add: uint_0_iff)
  qed
  then show ?thesis using again by blast
qed

end
