(* ===== verification/Quic_Fc.thy ===== *)
theory Quic_Fc
  imports Ossl_Time Ossl_Common
begin

text \<open>
  The flow controllers of QUIC, \<open>ssl/quic/quic_fc.c\<close>. A controller of a stream points to the one of its connection, which
  several streams share: controllers live in a store, and a pointer to one is a number. The state of the receiving controllers
  counts the calls of the clock \<open>now\<close>, a parameter that gives the time each call returns; all
  controllers have the same clock. An \<open>assert\<close> that fails is \<open>Assert_Failed\<close>.
\<close>

section \<open>Sending\<close>

record txfc =
  tx_parent :: "nat option"
  tx_swm :: "64 word"
  tx_cwm :: "64 word"
  tx_blocked :: bool

type_synonym txfcs = "nat \<Rightarrow> txfc"

definition ossl_quic_txfc_init :: "txfcs \<Rightarrow> nat \<Rightarrow> nat option \<Rightarrow> bool \<times> txfcs" where
  "ossl_quic_txfc_init h t conn =
     (if conn \<noteq> None \<and> tx_parent (h (the conn)) \<noteq> None then (False, h)
      else (True, h(t := \<lparr>tx_parent = conn, tx_swm = 0, tx_cwm = 0, tx_blocked = False\<rparr>)))"

definition ossl_quic_txfc_get_parent :: "txfcs \<Rightarrow> nat \<Rightarrow> nat option" where
  "ossl_quic_txfc_get_parent h t = tx_parent (h t)"

definition ossl_quic_txfc_bump_cwm :: "txfcs \<Rightarrow> nat \<Rightarrow> 64 word \<Rightarrow> bool \<times> txfcs" where
  "ossl_quic_txfc_bump_cwm h t cwm =
     (if cwm \<le> tx_cwm (h t) then (False, h) else (True, h(t := (h t)\<lparr>tx_cwm := cwm\<rparr>)))"

definition ossl_quic_txfc_get_credit_local :: "txfcs \<Rightarrow> nat \<Rightarrow> 64 word \<Rightarrow> 64 word res" where
  "ossl_quic_txfc_get_credit_local h t consumed =
     (if \<not> tx_swm (h t) + consumed \<le> tx_cwm (h t) then Inl Assert_Failed
      else Inr (tx_cwm (h t) - (consumed + tx_swm (h t))))"

definition ossl_quic_txfc_get_credit :: "txfcs \<Rightarrow> nat \<Rightarrow> 64 word \<Rightarrow> 64 word res" where
  "ossl_quic_txfc_get_credit h t consumed =
     bind_res (ossl_quic_txfc_get_credit_local h t 0) (\<lambda>r.
       case tx_parent (h t) of
         None \<Rightarrow> Inr r
       | Some p \<Rightarrow>
           if tx_parent (h p) \<noteq> None then Inl Assert_Failed
           else bind_res (ossl_quic_txfc_get_credit_local h p consumed) (\<lambda>conn_r. Inr (if conn_r < r then conn_r else r)))"

definition ossl_quic_txfc_consume_credit_local :: "txfcs \<Rightarrow> nat \<Rightarrow> 64 word \<Rightarrow> (bool \<times> txfcs) res" where
  "ossl_quic_txfc_consume_credit_local h t num_bytes =
     bind_res (ossl_quic_txfc_get_credit_local h t 0) (\<lambda>credit.
       let (ok, num_bytes) = (if num_bytes > credit then (False, credit) else (True, num_bytes));
           h = (if num_bytes > 0 \<and> num_bytes = credit then h(t := (h t)\<lparr>tx_blocked := True\<rparr>) else h)
       in Inr (ok, h(t := (h t)\<lparr>tx_swm := tx_swm (h t) + num_bytes\<rparr>)))"

definition ossl_quic_txfc_consume_credit :: "txfcs \<Rightarrow> nat \<Rightarrow> 64 word \<Rightarrow> (bool \<times> txfcs) res" where
  "ossl_quic_txfc_consume_credit h t num_bytes =
     bind_res (ossl_quic_txfc_consume_credit_local h t num_bytes) (\<lambda>(ok, h).
       case tx_parent (h t) of
         None \<Rightarrow> Inr (ok, h)
       | Some p \<Rightarrow>
           if tx_parent (h p) \<noteq> None then Inl Assert_Failed
           else bind_res (ossl_quic_txfc_consume_credit_local h p num_bytes) (\<lambda>(conn_ok, h).
                  if \<not> conn_ok then Inr (False, h) else Inr (ok, h)))"

definition ossl_quic_txfc_has_become_blocked :: "txfcs \<Rightarrow> nat \<Rightarrow> bool \<Rightarrow> bool \<times> txfcs" where
  "ossl_quic_txfc_has_become_blocked h t clear =
     (tx_blocked (h t), if clear then h(t := (h t)\<lparr>tx_blocked := False\<rparr>) else h)"

definition ossl_quic_txfc_get_cwm :: "txfcs \<Rightarrow> nat \<Rightarrow> 64 word" where
  "ossl_quic_txfc_get_cwm h t = tx_cwm (h t)"

definition ossl_quic_txfc_get_swm :: "txfcs \<Rightarrow> nat \<Rightarrow> 64 word" where
  "ossl_quic_txfc_get_swm h t = tx_swm (h t)"

section \<open>Receiving\<close>

abbreviation (input) OSSL_QUIC_ERR_NO_ERROR :: "8 word" where "OSSL_QUIC_ERR_NO_ERROR \<equiv> 0"
abbreviation (input) OSSL_QUIC_ERR_FLOW_CONTROL_ERROR :: "8 word" where "OSSL_QUIC_ERR_FLOW_CONTROL_ERROR \<equiv> 3"
abbreviation (input) OSSL_QUIC_ERR_FINAL_SIZE_ERROR :: "8 word" where "OSSL_QUIC_ERR_FINAL_SIZE_ERROR \<equiv> 6"

record rxfc =
  cwm :: "64 word"
  swm :: "64 word"
  rwm :: "64 word"
  esrwm :: "64 word"
  hwm :: "64 word"
  cur_window_size :: "64 word"
  max_window_size :: "64 word"
  epoch_start :: ossl_time
  rx_parent :: "nat option"
  error_code :: "8 word"
  has_cwm_changed :: bool
  rx_fin :: bool
  standalone :: bool

record rx_state =
  rx :: "nat \<Rightarrow> rxfc"
  calls :: nat

abbreviation rx_upd :: "nat \<Rightarrow> (rxfc \<Rightarrow> rxfc) \<Rightarrow> rx_state \<Rightarrow> rx_state" where
  "rx_upd r f w \<equiv> w\<lparr>rx := (rx w)(r := f (rx w r))\<rparr>"

definition ossl_quic_rxfc_init :: "rx_state \<Rightarrow> nat \<Rightarrow> nat option \<Rightarrow> 64 word \<Rightarrow> 64 word \<Rightarrow> bool \<times> rx_state" where
  "ossl_quic_rxfc_init w r conn initial_window_size max_window =
     (if conn \<noteq> None \<and> rx_parent (rx w (the conn)) \<noteq> None then (False, w)
      else (True, rx_upd r (\<lambda>_. \<lparr>cwm = initial_window_size, swm = 0, rwm = 0, esrwm = 0, hwm = 0,
              cur_window_size = initial_window_size, max_window_size = max_window, epoch_start = ossl_time_zero,
              rx_parent = conn, error_code = 0, has_cwm_changed = False, rx_fin = False, standalone = False\<rparr>) w))"

definition ossl_quic_rxfc_init_standalone :: "rx_state \<Rightarrow> nat \<Rightarrow> 64 word \<Rightarrow> bool \<times> rx_state" where
  "ossl_quic_rxfc_init_standalone w r initial_window_size =
     (case ossl_quic_rxfc_init w r None initial_window_size initial_window_size of
        (ok, w) \<Rightarrow> if \<not> ok then (False, w) else (True, rx_upd r (\<lambda>c. c\<lparr>standalone := True\<rparr>) w))"

definition ossl_quic_rxfc_get_parent :: "rx_state \<Rightarrow> nat \<Rightarrow> nat option" where
  "ossl_quic_rxfc_get_parent w r = rx_parent (rx w r)"

definition ossl_quic_rxfc_set_max_window_size :: "rx_state \<Rightarrow> nat \<Rightarrow> 32 word \<Rightarrow> rx_state" where
  "ossl_quic_rxfc_set_max_window_size w r n = rx_upd r (\<lambda>c. c\<lparr>max_window_size := ucast n\<rparr>) w"

definition rxfc_start_epoch :: "(nat \<Rightarrow> ossl_time) \<Rightarrow> rx_state \<Rightarrow> nat \<Rightarrow> rx_state" where
  "rxfc_start_epoch now w r =
     (rx_upd r (\<lambda>c. c\<lparr>epoch_start := now (calls w), esrwm := rwm c\<rparr>) w)\<lparr>calls := calls w + 1\<rparr>"

definition on_rx_controlled_bytes :: "rx_state \<Rightarrow> nat \<Rightarrow> 64 word \<Rightarrow> bool \<times> rx_state" where
  "on_rx_controlled_bytes w r num_bytes =
     (let credit = cwm (rx w r) - swm (rx w r);
          (ok, num_bytes, w) =
            (if num_bytes > credit
             then (False, credit, rx_upd r (\<lambda>c. c\<lparr>error_code := OSSL_QUIC_ERR_FLOW_CONTROL_ERROR\<rparr>) w)
             else (True, num_bytes, w))
      in (ok, rx_upd r (\<lambda>c. c\<lparr>swm := swm c + num_bytes\<rparr>) w))"

definition ossl_quic_rxfc_on_rx_stream_frame :: "rx_state \<Rightarrow> nat \<Rightarrow> 64 word \<Rightarrow> bool \<Rightarrow> bool \<times> rx_state" where
  "ossl_quic_rxfc_on_rx_stream_frame w r en is_fin =
     (let c = rx w r
      in if \<not> standalone c \<and> rx_parent c = None then (False, w)
         else if rx_fin c \<and> (is_fin \<and> hwm c \<noteq> en \<or> en > hwm c)
         then (True, rx_upd r (\<lambda>c. c\<lparr>error_code := OSSL_QUIC_ERR_FINAL_SIZE_ERROR\<rparr>) w)
         else let w = (if is_fin then rx_upd r (\<lambda>c. c\<lparr>rx_fin := True\<rparr>) w else w)
              in if en > hwm c
                 then let delta = en - hwm c;
                          w = rx_upd r (\<lambda>c. c\<lparr>hwm := en\<rparr>) w;
                          (_, w) = on_rx_controlled_bytes w r delta
                      in (case rx_parent c of
                            None \<Rightarrow> (True, w)
                          | Some p \<Rightarrow> (True, snd (on_rx_controlled_bytes w p delta)))
                 else if en < hwm c \<and> is_fin
                 then (True, rx_upd r (\<lambda>c. c\<lparr>error_code := OSSL_QUIC_ERR_FINAL_SIZE_ERROR\<rparr>) w)
                 else (True, w))"

definition rxfc_cwm_bump_desired :: "rxfc \<Rightarrow> bool" where
  "rxfc_cwm_bump_desired c =
     (let window_rem = cwm c - rwm c;
          (threshold, err) = safe_muldiv_u (cur_window_size c) 3 4 False;
          threshold = (if err then cur_window_size c div 2 else threshold)
      in \<not> rx_fin c \<and> window_rem \<le> threshold)"

definition rxfc_should_bump_window_size :: "(nat \<Rightarrow> ossl_time) \<Rightarrow> rx_state \<Rightarrow> nat \<Rightarrow> ossl_time \<Rightarrow> bool \<times> rx_state" where
  "rxfc_should_bump_window_size now w r rtt =
     (let c = rx w r; b = rwm c - esrwm c
      in if b = 0 then (False, w)
         else let dt = ossl_time_subtract (now (calls w)) (epoch_start c);
                  t_window = ossl_time_muldiv dt (cur_window_size c) b
              in (ossl_time_compare t_window (ossl_time_multiply rtt 4) < 0, w\<lparr>calls := calls w + 1\<rparr>))"

definition rxfc_adjust_window_size :: "(nat \<Rightarrow> ossl_time) \<Rightarrow> rx_state \<Rightarrow> nat \<Rightarrow> 64 word \<Rightarrow> ossl_time \<Rightarrow> rx_state" where
  "rxfc_adjust_window_size now w r min_window_size rtt =
     (let new_window_size = cur_window_size (rx w r);
          (bump, w) = rxfc_should_bump_window_size now w r rtt;
          new_window_size = (if bump then new_window_size * 2 else new_window_size);
          new_window_size = (if new_window_size < min_window_size then min_window_size else new_window_size);
          new_window_size = (if new_window_size > max_window_size (rx w r) then max_window_size (rx w r) else new_window_size)
      in rxfc_start_epoch now (rx_upd r (\<lambda>c. c\<lparr>cur_window_size := new_window_size\<rparr>) w) r)"

definition rxfc_update_cwm :: "(nat \<Rightarrow> ossl_time) \<Rightarrow> rx_state \<Rightarrow> nat \<Rightarrow> 64 word \<Rightarrow> ossl_time \<Rightarrow> rx_state" where
  "rxfc_update_cwm now w r min_window_size rtt =
     (if \<not> rxfc_cwm_bump_desired (rx w r) then w
      else let w = rxfc_adjust_window_size now w r min_window_size rtt;
               new_cwm = rwm (rx w r) + cur_window_size (rx w r)
           in if new_cwm > cwm (rx w r) then rx_upd r (\<lambda>c. c\<lparr>cwm := new_cwm, has_cwm_changed := True\<rparr>) w else w)"

definition rxfc_on_retire :: "(nat \<Rightarrow> ossl_time) \<Rightarrow> rx_state \<Rightarrow> nat \<Rightarrow> 64 word \<Rightarrow> 64 word \<Rightarrow> ossl_time \<Rightarrow> rx_state" where
  "rxfc_on_retire now w r num_bytes min_window_size rtt =
     (let w = (if ossl_time_is_zero (epoch_start (rx w r)) then rxfc_start_epoch now w r else w)
      in rxfc_update_cwm now (rx_upd r (\<lambda>c. c\<lparr>rwm := rwm c + num_bytes\<rparr>) w) r min_window_size rtt)"

definition ossl_quic_rxfc_on_retire :: "(nat \<Rightarrow> ossl_time) \<Rightarrow> rx_state \<Rightarrow> nat \<Rightarrow> 64 word \<Rightarrow> ossl_time \<Rightarrow> (bool \<times> rx_state) res" where
  "ossl_quic_rxfc_on_retire now w r num_bytes rtt =
     (let c = rx w r
      in if rx_parent c = None \<and> \<not> standalone c then Inr (False, w)
         else if num_bytes = 0 then Inr (True, w)
         else if rwm c + num_bytes > swm c then Inr (False, w)
         else let w = rxfc_on_retire now w r num_bytes 0 rtt
              in if standalone (rx w r) then Inr (True, w)
                 else case rx_parent (rx w r) of
                        None \<Rightarrow> Inl Null_Deref
                      | Some p \<Rightarrow> Inr (True, rxfc_on_retire now w p num_bytes (cur_window_size (rx w r)) rtt))"

definition ossl_quic_rxfc_get_cwm :: "rx_state \<Rightarrow> nat \<Rightarrow> 64 word" where
  "ossl_quic_rxfc_get_cwm w r = cwm (rx w r)"

definition ossl_quic_rxfc_get_swm :: "rx_state \<Rightarrow> nat \<Rightarrow> 64 word" where
  "ossl_quic_rxfc_get_swm w r = swm (rx w r)"

definition ossl_quic_rxfc_get_rwm :: "rx_state \<Rightarrow> nat \<Rightarrow> 64 word" where
  "ossl_quic_rxfc_get_rwm w r = rwm (rx w r)"

definition ossl_quic_rxfc_get_credit :: "rx_state \<Rightarrow> nat \<Rightarrow> 64 word" where
  "ossl_quic_rxfc_get_credit w r = ossl_quic_rxfc_get_cwm w r - ossl_quic_rxfc_get_swm w r"

definition ossl_quic_rxfc_has_cwm_changed :: "rx_state \<Rightarrow> nat \<Rightarrow> bool \<Rightarrow> bool \<times> rx_state" where
  "ossl_quic_rxfc_has_cwm_changed w r clear =
     (has_cwm_changed (rx w r), if clear then rx_upd r (\<lambda>c. c\<lparr>has_cwm_changed := False\<rparr>) w else w)"

definition ossl_quic_rxfc_get_error :: "rx_state \<Rightarrow> nat \<Rightarrow> bool \<Rightarrow> 8 word \<times> rx_state" where
  "ossl_quic_rxfc_get_error w r clear =
     (error_code (rx w r), if clear then rx_upd r (\<lambda>c. c\<lparr>error_code := 0\<rparr>) w else w)"

definition ossl_quic_rxfc_get_final_size :: "rx_state \<Rightarrow> nat \<Rightarrow> 64 word option" where
  "ossl_quic_rxfc_get_final_size w r = (if \<not> rx_fin (rx w r) then None else Some (hwm (rx w r)))"

section \<open>The limits of the sender\<close>

text \<open>
  A run of the sending controllers: a controller is set up once, for a connection or for a stream of one; limits are announced; and
  any number of bytes is consumed on a stream. Beside the controllers, a state has the set of those that have been set up, and whether every
  consumption so far has been reported as successful.
\<close>

inductive txfc_step :: "txfcs \<times> nat set \<times> bool \<Rightarrow> txfcs \<times> nat set \<times> bool \<Rightarrow> bool" where
  init: "t \<notin> live \<Longrightarrow> (\<And>c. conn = Some c \<Longrightarrow> c \<in> live) \<Longrightarrow> ossl_quic_txfc_init h t conn = (True, h') \<Longrightarrow>
     txfc_step (h, live, fine) (h', insert t live, fine)"
| bump: "t \<in> live \<Longrightarrow> ossl_quic_txfc_bump_cwm h t n = (ok, h') \<Longrightarrow> txfc_step (h, live, fine) (h', live, fine)"
| consume: "t \<in> live \<Longrightarrow> tx_parent (h t) \<noteq> None \<Longrightarrow> ossl_quic_txfc_consume_credit h t n = Inr (ok, h') \<Longrightarrow>
     txfc_step (h, live, fine) (h', live, fine \<and> ok)"
| blocked: "t \<in> live \<Longrightarrow> ossl_quic_txfc_has_become_blocked h t clear = (b, h') \<Longrightarrow> txfc_step (h, live, fine) (h', live, fine)"

definition streams_of :: "txfcs \<Rightarrow> nat set \<Rightarrow> nat \<Rightarrow> nat set" where
  "streams_of h live c = {t \<in> live. tx_parent (h t) = Some c}"

definition parents_ok :: "txfcs \<Rightarrow> nat set \<Rightarrow> bool" where
  "parents_ok h live \<longleftrightarrow> (\<forall>t \<in> live. \<forall>p. tx_parent (h t) = Some p \<longrightarrow> p \<in> live \<and> tx_parent (h p) = None)"

definition txfc_inv :: "txfcs \<times> nat set \<times> bool \<Rightarrow> bool" where
  "txfc_inv s \<longleftrightarrow> (case s of (h, live, fine) \<Rightarrow> finite live \<and>
     (\<forall>t \<in> live. tx_swm (h t) \<le> tx_cwm (h t)) \<and>
     parents_ok h live \<and>
     (fine \<longrightarrow> (\<forall>c \<in> live. tx_parent (h c) = None \<longrightarrow> unat (tx_swm (h c)) = (\<Sum>t \<in> streams_of h live c. unat (tx_swm (h t))))))"

lemma txfc_invD:
  assumes "txfc_inv (h, live, fine)"
  shows "finite live" and "t \<in> live \<Longrightarrow> tx_swm (h t) \<le> tx_cwm (h t)"
    and "t \<in> live \<Longrightarrow> tx_parent (h t) = Some p \<Longrightarrow> p \<in> live \<and> tx_parent (h p) = None"
    and "fine \<Longrightarrow> t \<in> live \<Longrightarrow> tx_parent (h t) = None \<Longrightarrow> unat (tx_swm (h t)) = (\<Sum>u \<in> streams_of h live t. unat (tx_swm (h u)))"
  using assms unfolding txfc_inv_def parents_ok_def prod.case by blast+

lemma txfc_inv_cong:
  assumes "txfc_inv (h, live, fine)" and "\<forall>u. tx_parent (h' u) = tx_parent (h u) \<and> tx_swm (h' u) = tx_swm (h u) \<and> tx_cwm (h u) \<le> tx_cwm (h' u)"
  shows "txfc_inv (h', live, fine)"
proof -
  have eq: "tx_parent (h' u) = tx_parent (h u)" "tx_swm (h' u) = tx_swm (h u)" for u using assms(2) by simp_all
  then have par: "parents_ok h' live = parents_ok h live" by (simp only: parents_ok_def)
  from eq have "streams_of h' live = streams_of h live" by (simp add: streams_of_def fun_eq_iff)
  then have "(\<Sum>t \<in> streams_of h' live c. unat (tx_swm (h' t))) = (\<Sum>t \<in> streams_of h live c. unat (tx_swm (h t)))" for c
    by (simp add: eq(2))
  moreover have "tx_swm (h u) \<le> tx_cwm (h' u)" if "u \<in> live" for u
    using txfc_invD(2) [OF assms(1) that] assms(2) order_trans by blast
  ultimately show ?thesis using assms(1) by (simp add: txfc_inv_def eq par)
qed

lemma unat_word64_less: "unat (n :: 64 word) < 2 ^ 64"
  using unsigned_less [of n] by simp

lemma credit_local: "tx_swm (h t) \<le> tx_cwm (h t) \<Longrightarrow> ossl_quic_txfc_get_credit_local h t 0 = Inr (tx_cwm (h t) - tx_swm (h t))"
  by (simp add: ossl_quic_txfc_get_credit_local_def)

lemma consume_local:
  assumes "tx_swm (h t) \<le> tx_cwm (h t)" and "credit = tx_cwm (h t) - tx_swm (h t)"
  shows "ossl_quic_txfc_consume_credit_local h t n = Inr (n \<le> credit, h(t := (h t)\<lparr>tx_swm := tx_swm (h t) + min n credit,
    tx_blocked := (tx_blocked (h t) \<or> min n credit > 0 \<and> credit \<le> n)\<rparr>))"
proof -
  obtain p w c b where t: "h t = \<lparr>tx_parent = p, tx_swm = w, tx_cwm = c, tx_blocked = b\<rparr>" by (cases "h t")
  have cr: "ossl_quic_txfc_get_credit_local h t 0 = Inr (c - w)" "credit = c - w" using assms t by (simp_all add: credit_local)
  show ?thesis
  proof (cases "c - w < n")
    case True
    then show ?thesis using cr
      by (cases "0 < c - w") (simp_all add: ossl_quic_txfc_consume_credit_local_def t min_def not_le [symmetric] less_imp_le)
  next
    case False
    then show ?thesis using cr
      by (cases "0 < n"; cases "n = c - w") (auto simp: ossl_quic_txfc_consume_credit_local_def t min_def not_less)
  qed
qed

text \<open>
  What consuming any number of bytes on a stream does: each of the two counts grows by this number, but not beyond its limit, and the
  result tells whether the number is within the credit that is reported.
\<close>

lemma consume_stream:
  assumes inv: "txfc_inv (h, live, fine)" and t: "t \<in> live" "tx_parent (h t) = Some p"
  shows "\<exists>credit. ossl_quic_txfc_get_credit h t 0 = Inr credit \<and>
    unat credit = min (unat (tx_cwm (h t)) - unat (tx_swm (h t))) (unat (tx_cwm (h p)) - unat (tx_swm (h p))) \<and>
    (\<exists>h'. ossl_quic_txfc_consume_credit h t n = Inr (n \<le> credit, h') \<and>
       (\<forall>u. tx_parent (h' u) = tx_parent (h u) \<and> tx_cwm (h' u) = tx_cwm (h u) \<and>
          unat (tx_swm (h' u)) = (if u = t \<or> u = p then min (unat (tx_swm (h u)) + unat n) (unat (tx_cwm (h u))) else unat (tx_swm (h u)))))"
proof -
  have le: "tx_swm (h t) \<le> tx_cwm (h t)" "tx_swm (h p) \<le> tx_cwm (h p)" and p: "tx_parent (h p) = None" "p \<noteq> t"
    using txfc_invD(2) [OF inv] txfc_invD(3) [OF inv t] t by auto
  let ?ct = "tx_cwm (h t) - tx_swm (h t)" and ?cp = "tx_cwm (h p) - tx_swm (h p)"
  have u: "unat ?ct = unat (tx_cwm (h t)) - unat (tx_swm (h t))" "unat ?cp = unat (tx_cwm (h p)) - unat (tx_swm (h p))"
    using le by (auto intro!: unat_minus_small simp: word_le_nat_alt)
  have cr: "ossl_quic_txfc_get_credit h t 0 = Inr (min ?cp ?ct)"
    using le t p by (auto simp: ossl_quic_txfc_get_credit_def credit_local min_def)
  have room: "unat (tx_swm (h v) + min n (tx_cwm (h v) - tx_swm (h v))) = min (unat (tx_swm (h v)) + unat n) (unat (tx_cwm (h v)))"
    if "tx_swm (h v) \<le> tx_cwm (h v)" for v
  proof -
    have d: "unat (tx_cwm (h v) - tx_swm (h v)) = unat (tx_cwm (h v)) - unat (tx_swm (h v))" "unat (tx_swm (h v)) \<le> unat (tx_cwm (h v))"
      using that by (auto intro!: unat_minus_small simp: word_le_nat_alt)
    have m: "unat (min n (tx_cwm (h v) - tx_swm (h v))) = min (unat n) (unat (tx_cwm (h v)) - unat (tx_swm (h v)))"
      using d(1) by (auto simp: min_def word_le_nat_alt)
    show ?thesis
      using unat_word64_less [of "tx_cwm (h v)"] d(2) by (subst unat_plus_small) (auto simp: m)
  qed
  define h1 where "h1 = h(t := (h t)\<lparr>tx_swm := tx_swm (h t) + min n ?ct, tx_blocked := (tx_blocked (h t) \<or> min n ?ct > 0 \<and> ?ct \<le> n)\<rparr>)"
  define h2 where "h2 = h1(p := (h p)\<lparr>tx_swm := tx_swm (h p) + min n ?cp, tx_blocked := (tx_blocked (h p) \<or> min n ?cp > 0 \<and> ?cp \<le> n)\<rparr>)"
  have h1: "h1 p = h p" "tx_parent (h1 t) = Some p" using p(2) t(2) by (simp_all add: h1_def)
  have "ossl_quic_txfc_consume_credit_local h t n = Inr (n \<le> ?ct, h1)" unfolding h1_def by (rule consume_local) (use le(1) in simp_all)
  moreover have "ossl_quic_txfc_consume_credit_local h1 p n = Inr (n \<le> ?cp, h2)"
    using consume_local [of h1 p ?cp n] le(2) h1(1) by (simp add: h2_def)
  ultimately have run: "ossl_quic_txfc_consume_credit h t n = Inr (n \<le> min ?cp ?ct, h2)"
    by (simp add: ossl_quic_txfc_consume_credit_def h1 p(1) t(2))
  have "\<forall>v. tx_parent (h2 v) = tx_parent (h v) \<and> tx_cwm (h2 v) = tx_cwm (h v) \<and>
      unat (tx_swm (h2 v)) = (if v = t \<or> v = p then min (unat (tx_swm (h v)) + unat n) (unat (tx_cwm (h v))) else unat (tx_swm (h v)))"
    using room [OF le(1)] room [OF le(2)] p(2) by (simp add: h2_def h1_def)
  then show ?thesis using cr run u by (intro exI [of _ "min ?cp ?ct"] conjI exI [of _ h2]) (auto simp: min_def word_le_nat_alt)
qed

lemma txfc_step_inv: "txfc_step s s' \<Longrightarrow> txfc_inv s \<Longrightarrow> txfc_inv s'"
proof (induction rule: txfc_step.induct)
  case (init t live conn h h' fine)
  then have h': "h' = h(t := \<lparr>tx_parent = conn, tx_swm = 0, tx_cwm = 0, tx_blocked = False\<rparr>)"
    and conn: "\<And>c. conn = Some c \<Longrightarrow> c \<in> live \<and> tx_parent (h c) = None"
    by (auto simp: ossl_quic_txfc_init_def split: if_splits)
  have no: "tx_parent (h u) \<noteq> Some t" if "u \<in> live" for u using txfc_invD(3) [OF init.prems that, of t] init.hyps(1) by blast
  have "streams_of h' (insert t live) c - {t} = streams_of h live c" if "c \<in> live" for c
    using init.hyps(1) by (auto simp: streams_of_def h')
  moreover have "streams_of h' (insert t live) t = {}" using no conn init.hyps(1) by (auto simp: streams_of_def h')
  moreover have "(\<Sum>u \<in> streams_of h' (insert t live) c. unat (tx_swm (h' u))) =
      (\<Sum>u \<in> streams_of h' (insert t live) c - {t}. unat (tx_swm (h u)))" for c
    by (rule sum.mono_neutral_cong_right) (use txfc_invD(1) [OF init.prems] in \<open>auto simp: h' streams_of_def\<close>)
  ultimately have sums: "unat (tx_swm (h' c)) = (\<Sum>u \<in> streams_of h' (insert t live) c. unat (tx_swm (h' u)))"
    if "fine" "c \<in> insert t live" "tx_parent (h' c) = None" for c
    using txfc_invD(4) [OF init.prems, of c] that by (cases "c = t") (simp_all add: h')
  have "p \<in> insert t live \<and> tx_parent (h' p) = None" if "u \<in> insert t live" "tx_parent (h' u) = Some p" for u p
    using txfc_invD(3) [OF init.prems, of u p] conn [of p] init.hyps(1) that by (cases "u = t"; cases "p = t") (auto simp: h')
  moreover have "tx_swm (h' u) \<le> tx_cwm (h' u)" if "u \<in> insert t live" for u
    using txfc_invD(2) [OF init.prems, of u] that by (cases "u = t") (auto simp: h')
  ultimately show ?case unfolding txfc_inv_def parents_ok_def prod.case using sums txfc_invD(1) [OF init.prems] by blast
next
  case (bump t live h n ok h' fine)
  then show ?case by (intro txfc_inv_cong [of h live fine h']) (auto simp: ossl_quic_txfc_bump_cwm_def split: if_splits)
next
  case (consume t live h n ok h' fine)
  then obtain p where p: "tx_parent (h t) = Some p" by auto
  then have pl: "p \<in> live" "tx_parent (h p) = None" "p \<noteq> t" using txfc_invD(3) [OF consume.prems consume.hyps(1) p] p by auto
  obtain credit where cr: "unat credit = min (unat (tx_cwm (h t)) - unat (tx_swm (h t))) (unat (tx_cwm (h p)) - unat (tx_swm (h p)))" "ok = (n \<le> credit)"
    and eff: "\<And>u. tx_parent (h' u) = tx_parent (h u)" "\<And>u. tx_cwm (h' u) = tx_cwm (h u)"
    "\<And>u. unat (tx_swm (h' u)) = (if u = t \<or> u = p then min (unat (tx_swm (h u)) + unat n) (unat (tx_cwm (h u))) else unat (tx_swm (h u)))"
    using consume_stream [OF consume.prems consume.hyps(1) p, of n] consume.hyps by auto
  have str: "streams_of h' live c = streams_of h live c" for c by (simp add: streams_of_def eff(1))
  have fin: "finite (streams_of h live c)" for c using consume.prems by (simp add: txfc_inv_def streams_of_def)
  have lim: "tx_swm (h u) \<le> tx_cwm (h u)" if "u \<in> live" for u using txfc_invD(2) [OF consume.prems that] .
  have all: "unat (tx_swm (h' u)) = unat (tx_swm (h u)) + (if u = t \<or> u = p then unat n else 0)" if ok for u
  proof -
    have "unat n \<le> unat (tx_cwm (h t)) - unat (tx_swm (h t))" "unat n \<le> unat (tx_cwm (h p)) - unat (tx_swm (h p))"
      using cr that by (simp_all add: word_le_nat_alt)
    then show ?thesis using lim [OF consume.hyps(1)] lim [OF pl(1)] by (auto simp: eff(3) word_le_nat_alt)
  qed
  have "unat (tx_swm (h' c)) = (\<Sum>u \<in> streams_of h live c. unat (tx_swm (h' u)))" if c: "fine" ok "c \<in> live" "tx_parent (h c) = None" for c
  proof -
    have "(\<Sum>u \<in> streams_of h live c. unat (tx_swm (h' u))) =
        (\<Sum>u \<in> streams_of h live c. unat (tx_swm (h u)) + (if u = t then unat n else 0))"
      by (rule sum.cong) (use all [OF c(2)] pl(2) in \<open>auto simp: streams_of_def\<close>)
    also have "\<dots> = (\<Sum>u \<in> streams_of h live c. unat (tx_swm (h u))) + (if t \<in> streams_of h live c then unat n else 0)"
      by (simp add: sum.distrib sum.delta' fin)
    finally show ?thesis using txfc_invD(4) [OF consume.prems c(1,3,4)] all [OF c(2), of c] p c(4) consume.hyps(1) by (auto simp: streams_of_def)
  qed
  moreover have "tx_swm (h' u) \<le> tx_cwm (h' u)" if "u \<in> live" for u
    using lim [OF that] eff(2) [of u] eff(3) [of u] by (auto simp: word_le_nat_alt split: if_splits)
  moreover have "parents_ok h' live = parents_ok h live" by (simp only: parents_ok_def eff(1))
  then have "parents_ok h' live" using consume.prems by (simp add: txfc_inv_def)
  ultimately show ?case using txfc_invD(1) [OF consume.prems] by (simp add: txfc_inv_def str eff(1))
next
  case (blocked t live h clear b h' fine)
  then show ?case by (intro txfc_inv_cong [of h live fine h']) (auto simp: ossl_quic_txfc_has_become_blocked_def split: if_splits)
qed

lemma txfc_reachable: "txfc_step\<^sup>*\<^sup>* (h0, {}, True) s \<Longrightarrow> txfc_inv s"
proof (induction rule: rtranclp_induct)
  case base
  show ?case by (simp add: txfc_inv_def parents_ok_def)
qed (rule txfc_step_inv)

section \<open>What the receiver accepts\<close>

lemma controlled_other: "q \<noteq> r \<Longrightarrow> rx (snd (on_rx_controlled_bytes w r n)) q = rx w q"
  by (auto simp: on_rx_controlled_bytes_def Let_def)

lemma controlled_same:
  "swm (rx w r) \<le> cwm (rx w r) \<Longrightarrow>
   rx (snd (on_rx_controlled_bytes w r n)) r =
     (if n \<le> cwm (rx w r) - swm (rx w r) then (rx w r)\<lparr>swm := swm (rx w r) + n\<rparr>
      else (rx w r)\<lparr>swm := cwm (rx w r), error_code := OSSL_QUIC_ERR_FLOW_CONTROL_ERROR\<rparr>)"
  by (auto simp: on_rx_controlled_bytes_def Let_def)

text \<open>A controller of a stream, which is not the one of its connection.\<close>

definition rx_stream :: "rx_state \<Rightarrow> nat \<Rightarrow> bool" where
  "rx_stream w r \<longleftrightarrow> (standalone (rx w r) \<or> rx_parent (rx w r) \<noteq> None) \<and> rx_parent (rx w r) \<noteq> Some r"

definition frame_step :: "rxfc \<Rightarrow> 64 word \<Rightarrow> bool \<Rightarrow> rxfc" where
  \<comment> \<open>the effect of a frame on the controller of its stream\<close>
  "frame_step c en is_fin =
     (if rx_fin c \<and> (is_fin \<and> hwm c \<noteq> en \<or> en > hwm c) then c\<lparr>error_code := OSSL_QUIC_ERR_FINAL_SIZE_ERROR\<rparr>
      else if en > hwm c
      then if en - hwm c \<le> cwm c - swm c then c\<lparr>rx_fin := (is_fin \<or> rx_fin c), hwm := en, swm := swm c + (en - hwm c)\<rparr>
           else c\<lparr>rx_fin := (is_fin \<or> rx_fin c), hwm := en, swm := cwm c, error_code := OSSL_QUIC_ERR_FLOW_CONTROL_ERROR\<rparr>
      else if en < hwm c \<and> is_fin then c\<lparr>rx_fin := True, error_code := OSSL_QUIC_ERR_FINAL_SIZE_ERROR\<rparr>
      else c\<lparr>rx_fin := (is_fin \<or> rx_fin c)\<rparr>)"

lemma rx_frame_stream:
  assumes r: "rx_stream w r" and le: "swm (rx w r) \<le> cwm (rx w r)"
  shows "fst (ossl_quic_rxfc_on_rx_stream_frame w r en is_fin)"
    and "rx (snd (ossl_quic_rxfc_on_rx_stream_frame w r en is_fin)) r = frame_step (rx w r) en is_fin"
proof -
  obtain cw sw rw es hw cur mx ep p er ch fi sa where c: "rx w r = \<lparr>cwm = cw, swm = sw, rwm = rw, esrwm = es, hwm = hw, cur_window_size = cur,
    max_window_size = mx, epoch_start = ep, rx_parent = p, error_code = er, has_cwm_changed = ch, rx_fin = fi, standalone = sa\<rparr>"
    by (cases "rx w r")
  have p: "sa \<or> p \<noteq> None" "p \<noteq> Some r" and l: "sw \<le> cw" using r le c by (simp_all add: rx_stream_def)
  show "fst (ossl_quic_rxfc_on_rx_stream_frame w r en is_fin)"
    using p by (auto simp: ossl_quic_rxfc_on_rx_stream_frame_def Let_def c split: option.splits prod.splits)
  show "rx (snd (ossl_quic_rxfc_on_rx_stream_frame w r en is_fin)) r = frame_step (rx w r) en is_fin"
    using p l by (cases p; cases is_fin)
      (auto simp: ossl_quic_rxfc_on_rx_stream_frame_def Let_def c frame_step_def split_beta controlled_other controlled_same)
qed

lemma frame_step_simps [simp]:
  "cwm (frame_step c en f) = cwm c" "rwm (frame_step c en f) = rwm c" "rx_parent (frame_step c en f) = rx_parent c"
  "standalone (frame_step c en f) = standalone c"
  by (simp_all add: frame_step_def)

lemma frame_step_swm: "swm c \<le> cwm c \<Longrightarrow> swm c \<le> swm (frame_step c en f) \<and> swm (frame_step c en f) \<le> cwm c"
proof -
  assume le: "swm c \<le> cwm c"
  have "swm c \<le> swm c + d \<and> swm c + d \<le> cwm c" if "d \<le> cwm c - swm c" for d
  proof -
    have d: "unat d \<le> unat (cwm c) - unat (swm c)" using that le by (simp add: word_le_nat_alt unat_minus_small)
    then have "unat (swm c + d) = unat (swm c) + unat d"
      using le unat_word64_less [of "cwm c"] by (intro unat_plus_small) (simp add: word_le_nat_alt)
    then show ?thesis using d le by (simp add: word_le_nat_alt)
  qed
  then show ?thesis using le by (simp add: frame_step_def)
qed

text \<open>What a set of frames may be: within the limit, and no end beyond that of a final frame.\<close>

definition frames_within :: "64 word \<Rightarrow> (64 word \<times> bool) list \<Rightarrow> bool" where
  "frames_within lim fs \<longleftrightarrow> (\<forall>(e, f) \<in> set fs. e \<le> lim) \<and> (\<forall>(e, f) \<in> set fs. f \<longrightarrow> (\<forall>(e', f') \<in> set fs. e' \<le> e))"

definition rx_frames :: "rx_state \<Rightarrow> nat \<Rightarrow> (64 word \<times> bool) list \<Rightarrow> rx_state" where
  "rx_frames w r fs = foldl (\<lambda>w (e, f). snd (ossl_quic_rxfc_on_rx_stream_frame w r e f)) w fs"

definition tracks :: "rxfc \<Rightarrow> (64 word \<times> bool) list \<Rightarrow> bool" where
  "tracks c fs \<longleftrightarrow> swm c \<le> cwm c \<and>
     (if frames_within (cwm c) fs
      then error_code c = 0 \<and> swm c = hwm c \<and> (\<forall>(e, f) \<in> set fs. e \<le> hwm c) \<and> (hwm c = 0 \<or> hwm c \<in> fst ` set fs) \<and>
        (rx_fin c \<longleftrightarrow> (\<exists>(e, f) \<in> set fs. f))
      else error_code c \<noteq> 0)"

lemma frames_within_snoc:
  "frames_within lim (fs @ [(e, f)]) \<longleftrightarrow> frames_within lim fs \<and> e \<le> lim \<and> (f \<longrightarrow> (\<forall>(e', f') \<in> set fs. e' \<le> e)) \<and>
     (\<forall>(e', f') \<in> set fs. f' \<longrightarrow> e \<le> e')"
  by (fastforce simp: frames_within_def)

lemma tracks_next:
  assumes t: "tracks c fs" and w: "frames_within (cwm c) fs"
  shows "frames_within (cwm c) (fs @ [(e, f)]) \<longleftrightarrow> e \<le> cwm c \<and> (f \<longrightarrow> hwm c \<le> e) \<and> (rx_fin c \<longrightarrow> e \<le> hwm c)"
proof -
  have h: "\<forall>(e, f) \<in> set fs. e \<le> hwm c" "hwm c = 0 \<or> hwm c \<in> fst ` set fs" "rx_fin c \<longleftrightarrow> (\<exists>(e, f) \<in> set fs. f)"
    using t w by (simp_all add: tracks_def)
  have "(\<forall>(e', f') \<in> set fs. e' \<le> e) \<longleftrightarrow> hwm c \<le> e"
  proof
    assume "\<forall>(e', f') \<in> set fs. e' \<le> e"
    then show "hwm c \<le> e" using h(2) by fastforce
  next
    assume "hwm c \<le> e"
    then show "\<forall>(e', f') \<in> set fs. e' \<le> e" using h(1) order_trans by fast
  qed
  moreover have "e' = hwm c" if "(e', True) \<in> set fs" for e'
  proof -
    have "hwm c \<le> e'" using h(2) w that by (fastforce simp: frames_within_def)
    then show ?thesis using h(1) that by (simp add: order.antisym) fastforce
  qed
  then have "(\<forall>(e', f') \<in> set fs. f' \<longrightarrow> e \<le> e') \<longleftrightarrow> (rx_fin c \<longrightarrow> e \<le> hwm c)" using h(3) by fastforce
  ultimately show ?thesis using w by (simp add: frames_within_snoc)
qed

lemma tracks_step:
  assumes t: "tracks c fs"
  shows "tracks (frame_step c e f) (fs @ [(e, f)])"
proof (cases "frames_within (cwm c) fs")
  case False
  then have "\<not> frames_within (cwm c) (fs @ [(e, f)])" and "error_code (frame_step c e f) \<noteq> 0"
    using t by (simp_all add: frames_within_snoc tracks_def frame_step_def)
  then show ?thesis using t frame_step_swm [of c e f] by (simp add: tracks_def)
next
  case w: True
  have h: "swm c \<le> cwm c" "error_code c = 0" "swm c = hwm c" "\<forall>(e, f) \<in> set fs. e \<le> hwm c" "hwm c = 0 \<or> hwm c \<in> fst ` set fs"
    "rx_fin c \<longleftrightarrow> (\<exists>(e, f) \<in> set fs. f)" using t w unfolding tracks_def by argo+
  have delta: "e - hwm c \<le> cwm c - swm c \<longleftrightarrow> e \<le> cwm c" if "hwm c < e"
    using that h(1) by (auto simp: h(3) word_le_nat_alt word_less_nat_alt unat_minus_small)
  note n = tracks_next [OF t w, of e f]
  show ?thesis
  proof (cases "frames_within (cwm c) (fs @ [(e, f)])")
    case True
    then have a: "e \<le> cwm c" "f \<longrightarrow> hwm c \<le> e" "rx_fin c \<longrightarrow> e \<le> hwm c" using n by simp_all
    show ?thesis
    proof (cases "hwm c < e")
      case less: True
      then have nf: "\<not> rx_fin c" using a(3) by auto
      have "frame_step c e f = c\<lparr>rx_fin := f, hwm := e, swm := e\<rparr>"
        using delta [OF less] a(1) by (simp add: frame_step_def less nf h(3))
      moreover have "\<forall>(e', f') \<in> set fs. e' \<le> e" using h(4) less by fastforce
      ultimately show ?thesis using h(2,6) nf a(1) True by (auto simp: tracks_def)
    next
      case le: False
      then have "f \<longrightarrow> e = hwm c" using a(2) by auto
      then have "frame_step c e f = c\<lparr>rx_fin := (f \<or> rx_fin c)\<rparr>" using le by (auto simp: frame_step_def)
      then show ?thesis using h a True le by (auto simp: tracks_def not_less)
    qed
  next
    case False
    then have "error_code (frame_step c e f) \<noteq> 0" using n delta h by (auto simp: frame_step_def not_less)
    then show ?thesis using False h frame_step_swm [of c e f] by (simp add: tracks_def)
  qed
qed

lemma rx_frames_tracks:
  assumes "rx_stream w r" and "tracks (rx w r) []"
  shows "rx_stream (rx_frames w r fs) r \<and> tracks (rx (rx_frames w r fs) r) fs \<and> cwm (rx (rx_frames w r fs) r) = cwm (rx w r)"
proof (induction fs rule: rev_induct)
  case Nil
  then show ?case using assms by (simp add: rx_frames_def)
next
  case (snoc x fs)
  obtain e f where x: "x = (e, f)" by force
  let ?w = "rx_frames w r fs"
  have "swm (rx ?w r) \<le> cwm (rx ?w r)" using snoc unfolding tracks_def by blast
  then have "rx (rx_frames w r (fs @ [x])) r = frame_step (rx ?w r) e f"
    using rx_frame_stream(2) [of ?w r e f] snoc by (simp add: rx_frames_def x)
  then show ?case using snoc tracks_step [of "rx ?w r" fs e f] by (simp add: x rx_stream_def)
qed

text \<open>
  C9: the receiver detects exactly the violations of its limits, in whatever order frames arrive. After any frames of a stream
  whose controller has just been set up, the controller of the stream reports no error if and only if every frame ends within the limit it
  announced and none ends after a frame that was marked as the last one.
\<close>
theorem rxfc_error_iff:
  assumes "ossl_quic_rxfc_init w0 r (Some p) win mx = (True, w)" and "p \<noteq> r"
  shows "fst (ossl_quic_rxfc_get_error (rx_frames w r fs) r False) = OSSL_QUIC_ERR_NO_ERROR \<longleftrightarrow>
    (\<forall>(e, f) \<in> set fs. e \<le> win) \<and> (\<forall>(e, f) \<in> set fs. f \<longrightarrow> (\<forall>(e', f') \<in> set fs. e' \<le> e))"
proof -
  have w: "rx_stream w r" "tracks (rx w r) []" "cwm (rx w r) = win"
    using assms by (auto simp: ossl_quic_rxfc_init_def rx_stream_def tracks_def frames_within_def split: if_splits)
  then have "error_code (rx (rx_frames w r fs) r) = 0 \<longleftrightarrow> frames_within win fs"
    using rx_frames_tracks [OF w(1,2), of fs] by (simp add: tracks_def split: if_splits)
  then show ?thesis by (simp only: ossl_quic_rxfc_get_error_def fst_conv frames_within_def)
qed

section \<open>The window of the receiver\<close>

lemma epoch_simps [simp]:
  "rx (rxfc_start_epoch now w r) = (rx w)(r := (rx w r)\<lparr>epoch_start := now (calls w), esrwm := rwm (rx w r)\<rparr>)"
  by (simp add: rxfc_start_epoch_def)

lemma should_bump_rx [simp]: "rx (snd (rxfc_should_bump_window_size now w r rtt)) = rx w"
  by (simp add: rxfc_should_bump_window_size_def Let_def)

definition same_rx :: "rxfc \<Rightarrow> rxfc \<Rightarrow> bool" where
  \<comment> \<open>all but the window, the epoch and the bytes that are retired\<close>
  "same_rx c d \<longleftrightarrow> swm d = swm c \<and> hwm d = hwm c \<and> rx_fin d = rx_fin c \<and> error_code d = error_code c \<and>
     standalone d = standalone c \<and> rx_parent d = rx_parent c"

lemma adjust_rx:
  fixes w :: rx_state and m :: "64 word" and rtt :: ossl_time and now :: "nat \<Rightarrow> ossl_time" and r :: nat
  defines "w' \<equiv> rxfc_adjust_window_size now w r m rtt"
  shows "rx w' = (rx w)(r := rx w' r)" "rwm (rx w' r) = rwm (rx w r)" "cwm (rx w' r) = cwm (rx w r)" "same_rx (rx w r) (rx w' r)"
  by (simp_all add: w'_def rxfc_adjust_window_size_def Let_def split_beta same_rx_def)

lemma bump_threshold: "rxfc_cwm_bump_desired c \<longleftrightarrow> \<not> rx_fin c \<and> uint (cwm c - rwm c) \<le> uint (cur_window_size c) * 3 div 4"
proof -
  obtain t e where m: "safe_muldiv_u (cur_window_size c) 3 4 False = (t, e)" by force
  have "\<not> e"
  proof (cases "uint (cur_window_size c) * 3 < 2 ^ 64")
    case True
    then show ?thesis using muldiv_u(2) [OF _ m] by simp
  next
    case False
    let ?a = "cur_window_size c"
    obtain x e1 where x: "safe_mul_u (?a mod 4) 3 False = (x, e1)" by force
    obtain y e2 where y: "safe_mul_u (?a div 4) 3 e1 = (y, e2)" by force
    have "uint (?a mod 4) * 3 \<le> 9" "uint (?a div 4) * 3 < 2 ^ 64 - 9" using uint_bounded [of ?a] by (simp_all add: uint_mod uint_div)
    moreover from this have e: "\<not> e1" "\<not> e2"
      using x y mul_u_overflow [of 3 "?a mod 4"] mul_u_overflow [of 3 "?a div 4"] by (auto simp: safe_mul_u_def)
    ultimately have xy: "uint x \<le> 9" "uint y < 2 ^ 64 - 9" using mul_u.no_error [OF x] mul_u.no_error [OF y] by (simp_all add: fits_u_def)
    have "\<not> 2 ^ 64 \<le> uint y + uint (x div 4)" using xy by (simp add: uint_div)
    moreover have "safe_mul_u ?a 3 False = (?a * 3, True)" using False mul_u_overflow [of 3 ?a] by (simp add: safe_mul_u_def)
    moreover have "\<not> 3 > ?a" using False by (auto simp: word_less_def)
    ultimately show ?thesis using m x y e(1,2) add_u_overflow [of y "x div 4"] by (simp add: safe_muldiv_u_def safe_add_u_def)
  qed
  then have "uint t = uint (cur_window_size c) * 3 div 4" using muldiv_u(1) [OF _ m] by simp
  then show ?thesis using m \<open>\<not> e\<close> by (simp add: rxfc_cwm_bump_desired_def word_le_def)
qed

lemma retire_rx:
  fixes w :: rx_state and n m :: "64 word" and rtt :: ossl_time and now :: "nat \<Rightarrow> ossl_time" and r :: nat
  defines "w' \<equiv> rxfc_on_retire now w r n m rtt"
  shows "rx w' = (rx w)(r := rx w' r)" "rwm (rx w' r) = rwm (rx w r) + n" "cwm (rx w r) \<le> cwm (rx w' r)" "same_rx (rx w r) (rx w' r)"
    "rx_fin (rx w' r) \<or> uint (cur_window_size (rx w' r)) * 3 div 4 < uint (cwm (rx w' r) - rwm (rx w' r)) \<or>
     rwm (rx w' r) + cur_window_size (rx w' r) \<le> cwm (rx w' r)"
proof -
  define w1 where "w1 = (if ossl_time_is_zero (epoch_start (rx w r)) then rxfc_start_epoch now w r else w)"
  define w2 where "w2 = rx_upd r (\<lambda>c. c\<lparr>rwm := rwm c + n\<rparr>) w1"
  define w3 where "w3 = rxfc_adjust_window_size now w2 r m rtt"
  have w2: "rx w2 = (rx w)(r := rx w2 r)" "rwm (rx w2 r) = rwm (rx w r) + n" "cwm (rx w2 r) = cwm (rx w r)" "same_rx (rx w r) (rx w2 r)"
    by (cases "ossl_time_is_zero (epoch_start (rx w r))"; simp add: w2_def w1_def same_rx_def)+
  have w3: "rx w3 = (rx w)(r := rx w3 r)" "rwm (rx w3 r) = rwm (rx w r) + n" "cwm (rx w3 r) = cwm (rx w r)" "same_rx (rx w r) (rx w3 r)"
  proof -
    note a = adjust_rx [where now = now and w = w2 and r = r and m = m and rtt = rtt, folded w3_def]
    show "rx w3 = (rx w)(r := rx w3 r)" using a(1) w2(1) by (metis fun_upd_upd)
    show "rwm (rx w3 r) = rwm (rx w r) + n" "cwm (rx w3 r) = cwm (rx w r)" using a(2,3) w2(2,3) by simp_all
    show "same_rx (rx w r) (rx w3 r)" using a(4) w2(4) by (simp add: same_rx_def)
  qed
  have run: "w' = (if \<not> rxfc_cwm_bump_desired (rx w2 r) then w2
      else if rwm (rx w3 r) + cur_window_size (rx w3 r) > cwm (rx w3 r)
      then rx_upd r (\<lambda>c. c\<lparr>cwm := rwm c + cur_window_size c, has_cwm_changed := True\<rparr>) w3 else w3)"
    by (simp add: w'_def rxfc_on_retire_def rxfc_update_cwm_def w1_def w2_def w3_def Let_def)
  consider (none) "\<not> rxfc_cwm_bump_desired (rx w2 r)" "w' = w2"
    | (bump) "w' = rx_upd r (\<lambda>c. c\<lparr>cwm := rwm c + cur_window_size c, has_cwm_changed := True\<rparr>) w3"
        "cwm (rx w3 r) < rwm (rx w3 r) + cur_window_size (rx w3 r)"
    | (enough) "w' = w3" "rwm (rx w3 r) + cur_window_size (rx w3 r) \<le> cwm (rx w3 r)"
    using run by (auto split: if_splits simp: not_less)
  then have "rx w' = (rx w)(r := rx w' r) \<and> rwm (rx w' r) = rwm (rx w r) + n \<and> cwm (rx w r) \<le> cwm (rx w' r) \<and> same_rx (rx w r) (rx w' r) \<and>
    (rx_fin (rx w' r) \<or> uint (cur_window_size (rx w' r)) * 3 div 4 < uint (cwm (rx w' r) - rwm (rx w' r)) \<or>
     rwm (rx w' r) + cur_window_size (rx w' r) \<le> cwm (rx w' r))"
  proof cases
    case none
    then show ?thesis using w2 by (auto simp: bump_threshold same_rx_def)
  next
    case bump
    have "rx w' = (rx w)(r := rx w' r)" unfolding bump(1) by simp (metis fun_upd_upd w3(1))
    then show ?thesis using bump w3 by (simp add: same_rx_def less_imp_le)
  next
    case enough
    then show ?thesis using w3 by simp
  qed
  then show "rx w' = (rx w)(r := rx w' r)" "rwm (rx w' r) = rwm (rx w r) + n" "cwm (rx w r) \<le> cwm (rx w' r)" "same_rx (rx w r) (rx w' r)"
    "rx_fin (rx w' r) \<or> uint (cur_window_size (rx w' r)) * 3 div 4 < uint (cwm (rx w' r) - rwm (rx w' r)) \<or>
     rwm (rx w' r) + cur_window_size (rx w' r) \<le> cwm (rx w' r)" by blast+
qed

lemma on_retire_stream:
  assumes r: "rx_stream w r"
  shows "\<exists>ok w'. ossl_quic_rxfc_on_retire now w r n rtt = Inr (ok, w') \<and> same_rx (rx w r) (rx w' r) \<and> cwm (rx w r) \<le> cwm (rx w' r) \<and>
    (ok \<longleftrightarrow> n = 0 \<or> rwm (rx w r) + n \<le> swm (rx w r)) \<and> rwm (rx w' r) = (if ok then rwm (rx w r) + n else rwm (rx w r)) \<and>
    (ok \<and> n \<noteq> 0 \<longrightarrow> rx_fin (rx w' r) \<or> uint (cur_window_size (rx w' r)) * 3 div 4 < uint (cwm (rx w' r) - rwm (rx w' r)) \<or>
       rwm (rx w' r) + cur_window_size (rx w' r) \<le> cwm (rx w' r))"
proof (cases "n = 0 \<or> rwm (rx w r) + n > swm (rx w r)")
  case True
  then show ?thesis using r by (auto simp: ossl_quic_rxfc_on_retire_def Let_def rx_stream_def same_rx_def not_less)
next
  case False
  define w1 where "w1 = rxfc_on_retire now w r n 0 rtt"
  note w1 = retire_rx [where now = now and w = w and r = r and n = n and m = 0 and rtt = rtt, folded w1_def]
  have st: "standalone (rx w1 r) = standalone (rx w r)" "rx_parent (rx w1 r) = rx_parent (rx w r)" using w1(4) by (simp_all add: same_rx_def)
  show ?thesis
  proof (cases "standalone (rx w r)")
    case True
    then show ?thesis using False w1 st by (auto simp: ossl_quic_rxfc_on_retire_def Let_def w1_def [symmetric])
  next
    case nst: False
    then obtain p where p: "rx_parent (rx w r) = Some p" "p \<noteq> r" using r by (auto simp: rx_stream_def)
    define w2 where "w2 = rxfc_on_retire now w1 p n (cur_window_size (rx w1 r)) rtt"
    have "rx w2 = (rx w1)(p := rx w2 p)" unfolding w2_def by (rule retire_rx(1))
    then have "rx w2 r = rx w1 r" using p(2) by (metis fun_upd_other)
    moreover have "ossl_quic_rxfc_on_retire now w r n rtt = Inr (True, w2)"
      using False nst p st by (simp add: ossl_quic_rxfc_on_retire_def Let_def w1_def [symmetric] w2_def)
    ultimately show ?thesis using False w1 by (auto simp: not_less)
  qed
qed

text \<open>Calls on the controller of a stream.\<close>

datatype rx_op = Rx_Frame "64 word" bool | Rx_Retire "64 word" ossl_time | Rx_Max "32 word" | Rx_Changed bool | Rx_Error bool

fun rx_exec :: "(nat \<Rightarrow> ossl_time) \<Rightarrow> nat \<Rightarrow> rx_state \<Rightarrow> rx_op \<Rightarrow> rx_state res" where
  "rx_exec now r w (Rx_Frame e f) = Inr (snd (ossl_quic_rxfc_on_rx_stream_frame w r e f))"
| "rx_exec now r w (Rx_Retire n rtt) = bind_res (ossl_quic_rxfc_on_retire now w r n rtt) (\<lambda>(ok, w). Inr w)"
| "rx_exec now r w (Rx_Max n) = Inr (ossl_quic_rxfc_set_max_window_size w r n)"
| "rx_exec now r w (Rx_Changed c) = Inr (snd (ossl_quic_rxfc_has_cwm_changed w r c))"
| "rx_exec now r w (Rx_Error c) = Inr (snd (ossl_quic_rxfc_get_error w r c))"

fun rx_run :: "(nat \<Rightarrow> ossl_time) \<Rightarrow> nat \<Rightarrow> rx_state \<Rightarrow> rx_op list \<Rightarrow> rx_state res" where
  "rx_run now r w [] = Inr w"
| "rx_run now r w (x # xs) = bind_res (rx_exec now r w x) (\<lambda>w. rx_run now r w xs)"

fun rx_op_ok :: "rx_op \<Rightarrow> bool" where
  \<comment> \<open>offsets and lengths of a stream have 62 bits\<close>
  "rx_op_ok (Rx_Frame e f) = (unat e \<le> 2 ^ 62)"
| "rx_op_ok (Rx_Retire n rtt) = (unat n \<le> 2 ^ 62)"
| "rx_op_ok _ = True"

definition watermarks :: "rxfc \<Rightarrow> bool" where
  "watermarks c \<longleftrightarrow> rwm c \<le> swm c \<and> swm c \<le> cwm c \<and> swm c \<le> hwm c \<and> unat (hwm c) \<le> 2 ^ 62"

lemma watermarks_frame:
  assumes c: "watermarks c" and e: "unat e \<le> 2 ^ 62"
  shows "watermarks (frame_step c e f)"
proof -
  have le: "swm c \<le> cwm c" "rwm c \<le> swm c" "swm c \<le> hwm c" using c by (simp_all add: watermarks_def)
  note s = frame_step_swm [OF le(1), of e f]
  have "swm (frame_step c e f) \<le> hwm (frame_step c e f) \<and> unat (hwm (frame_step c e f)) \<le> 2 ^ 62"
  proof (cases "\<not> (rx_fin c \<and> (f \<and> hwm c \<noteq> e \<or> e > hwm c)) \<and> e > hwm c")
    case False
    then have "swm (frame_step c e f) = swm c" "hwm (frame_step c e f) = hwm c" by (auto simp: frame_step_def)
    then show ?thesis using c by (simp add: watermarks_def)
  next
    case True
    then have d: "unat (e - hwm c) = unat e - unat (hwm c)" by (intro unat_minus_small) (simp add: word_less_nat_alt)
    have lt: "unat (swm c) \<le> unat (hwm c)" "unat (hwm c) < unat e" using le True by (simp_all add: word_le_nat_alt word_less_nat_alt)
    then have "unat (swm c + (e - hwm c)) = unat (swm c) + (unat e - unat (hwm c))"
      using d unat_word64_less [of e] by (subst unat_plus_small) simp_all
    then have sum: "swm c + (e - hwm c) \<le> e" using lt by (simp add: word_le_nat_alt)
    have "cwm c \<le> e" if "\<not> e - hwm c \<le> cwm c - swm c"
      using that d lt le(1) by (simp add: word_le_nat_alt unat_minus_small)
    then show ?thesis using True sum e by (auto simp: frame_step_def)
  qed
  then show ?thesis using s le order_trans [OF le(2)] by (auto simp: watermarks_def)
qed

lemma watermarks_exec:
  assumes "rx_stream w r" and "watermarks (rx w r)" and "rx_op_ok x"
  shows "\<exists>w'. rx_exec now r w x = Inr w' \<and> rx_stream w' r \<and> watermarks (rx w' r) \<and> cwm (rx w r) \<le> cwm (rx w' r) \<and> rwm (rx w r) \<le> rwm (rx w' r)"
proof (cases x)
  case (Rx_Frame e f)
  have le: "swm (rx w r) \<le> cwm (rx w r)" using assms(2) by (simp add: watermarks_def)
  show ?thesis using rx_frame_stream(2) [OF assms(1) le, of e f] watermarks_frame [OF assms(2), of e f] assms Rx_Frame
    by (simp add: rx_stream_def)
next
  case (Rx_Retire n rtt)
  obtain ok w' where r: "ossl_quic_rxfc_on_retire now w r n rtt = Inr (ok, w')" "same_rx (rx w r) (rx w' r)" "cwm (rx w r) \<le> cwm (rx w' r)"
    "ok \<longleftrightarrow> n = 0 \<or> rwm (rx w r) + n \<le> swm (rx w r)" "rwm (rx w' r) = (if ok then rwm (rx w r) + n else rwm (rx w r))"
    using on_retire_stream [OF assms(1), of now n rtt] by blast
  have "rwm (rx w' r) \<le> swm (rx w' r)" using r assms(2) by (auto simp: same_rx_def watermarks_def)
  then have "watermarks (rx w' r)" using r assms(2) by (auto simp: same_rx_def watermarks_def)
  moreover have "rwm (rx w r) \<le> rwm (rx w' r)"
  proof -
    have "unat (rwm (rx w r)) \<le> 2 ^ 62" using assms(2) by (simp add: watermarks_def word_le_nat_alt)
    then have "unat (rwm (rx w r) + n) = unat (rwm (rx w r)) + unat n"
      using assms(3) Rx_Retire by (intro unat_plus_small) simp
    then show ?thesis using r(5) by (simp add: word_le_nat_alt)
  qed
  ultimately show ?thesis using r assms(1) Rx_Retire by (auto simp: rx_stream_def same_rx_def)
qed (use assms in \<open>auto simp: ossl_quic_rxfc_set_max_window_size_def ossl_quic_rxfc_has_cwm_changed_def ossl_quic_rxfc_get_error_def
  rx_stream_def watermarks_def\<close>)

lemma watermarks_run:
  "rx_stream w r \<Longrightarrow> watermarks (rx w r) \<Longrightarrow> \<forall>x \<in> set xs. rx_op_ok x \<Longrightarrow>
   \<exists>w'. rx_run now r w xs = Inr w' \<and> rx_stream w' r \<and> watermarks (rx w' r) \<and> cwm (rx w r) \<le> cwm (rx w' r) \<and> rwm (rx w r) \<le> rwm (rx w' r)"
proof (induction xs arbitrary: w)
  case (Cons x xs)
  obtain w1 where "rx_exec now r w x = Inr w1" "rx_stream w1 r" "watermarks (rx w1 r)" "cwm (rx w r) \<le> cwm (rx w1 r)"
    "rwm (rx w r) \<le> rwm (rx w1 r)"
    using watermarks_exec [of w r x now] Cons.prems by auto
  then show ?case using Cons.IH [of w1] Cons.prems(3) order_trans by fastforce
qed simp

lemma rxfc_init_stream:
  assumes "ossl_quic_rxfc_init w0 r (Some p) win mx = (True, w)" and "p \<noteq> r"
  shows "rx_stream w r" and "watermarks (rx w r)"
  using assms by (auto simp: ossl_quic_rxfc_init_def rx_stream_def watermarks_def split: if_splits)

text \<open>
  C8: the sender keeps to the limits it was given. Let controllers be set up once, for connections and for streams of them, let limits be announced, and
  let any numbers of bytes be consumed on the streams, within the credit or not. Then no assertion fails; neither a stream nor a connection exceeds its limit; the credit of a
  stream is the lesser of what is left of its limit and of that of its connection; consuming any number of bytes reports whether it is within this credit, and counts as many of
  them as the limit of the stream and that of the connection allow; and as long as every consumption has been reported as successful, the counts of the
  streams of a connection add up to the count of the connection.
\<close>
theorem txfc_within_limits:
  assumes "txfc_step\<^sup>*\<^sup>* (h0, {}, True) (h, live, fine)"
  shows "(\<forall>t \<in> live. tx_swm (h t) \<le> tx_cwm (h t)) \<and>
    (\<forall>t p. t \<in> live \<and> tx_parent (h t) = Some p \<longrightarrow>
      (\<exists>credit. ossl_quic_txfc_get_credit h t 0 = Inr credit \<and>
        unat credit = min (unat (tx_cwm (h t)) - unat (tx_swm (h t))) (unat (tx_cwm (h p)) - unat (tx_swm (h p))) \<and>
        (\<forall>n. \<exists>h'. ossl_quic_txfc_consume_credit h t n = Inr (n \<le> credit, h') \<and>
          unat (tx_swm (h' t)) = min (unat (tx_swm (h t)) + unat n) (unat (tx_cwm (h t))) \<and>
          unat (tx_swm (h' p)) = min (unat (tx_swm (h p)) + unat n) (unat (tx_cwm (h p)))))) \<and>
    (fine \<longrightarrow> (\<forall>c. c \<in> live \<and> tx_parent (h c) = None \<longrightarrow>
      (\<Sum>t \<in> {t \<in> live. tx_parent (h t) = Some c}. unat (tx_swm (h t))) = unat (tx_swm (h c))))"
proof -
  note inv = txfc_reachable [OF assms]
  have "\<exists>credit. ossl_quic_txfc_get_credit h t 0 = Inr credit \<and>
      unat credit = min (unat (tx_cwm (h t)) - unat (tx_swm (h t))) (unat (tx_cwm (h p)) - unat (tx_swm (h p))) \<and>
      (\<forall>n. \<exists>h'. ossl_quic_txfc_consume_credit h t n = Inr (n \<le> credit, h') \<and>
        unat (tx_swm (h' t)) = min (unat (tx_swm (h t)) + unat n) (unat (tx_cwm (h t))) \<and>
        unat (tx_swm (h' p)) = min (unat (tx_swm (h p)) + unat n) (unat (tx_cwm (h p))))"
    if t: "t \<in> live" "tx_parent (h t) = Some p" for t p
  proof -
    obtain credit where c: "ossl_quic_txfc_get_credit h t 0 = Inr credit"
      "unat credit = min (unat (tx_cwm (h t)) - unat (tx_swm (h t))) (unat (tx_cwm (h p)) - unat (tx_swm (h p)))"
      using consume_stream [OF inv t] by blast
    moreover have "\<exists>h'. ossl_quic_txfc_consume_credit h t n = Inr (n \<le> credit, h') \<and>
        unat (tx_swm (h' t)) = min (unat (tx_swm (h t)) + unat n) (unat (tx_cwm (h t))) \<and>
        unat (tx_swm (h' p)) = min (unat (tx_swm (h p)) + unat n) (unat (tx_cwm (h p)))" for n
      using consume_stream [OF inv t, of n] c(1) by auto
    ultimately show ?thesis by blast
  qed
  moreover have "(\<Sum>t \<in> {t \<in> live. tx_parent (h t) = Some c}. unat (tx_swm (h t))) = unat (tx_swm (h c))"
    if "fine" "c \<in> live" "tx_parent (h c) = None" for c
    using txfc_invD(4) [OF inv that] by (simp only: streams_of_def)
  ultimately show ?thesis using txfc_invD(2) [OF inv] by blast
qed

text \<open>
  A connection with a limit of five bytes and a stream of it with a limit of ten. Consuming eight bytes on the stream is reported as a
  failure and leaves the connection at its limit.
\<close>

definition sample_tx :: "nat \<Rightarrow> 64 word \<Rightarrow> 64 word \<Rightarrow> txfcs" where
  "sample_tx k conn_limit limit t =
     (if t = 0 then \<lparr>tx_parent = None, tx_swm = 0, tx_cwm = conn_limit, tx_blocked = False\<rparr>
      else if t = 1 \<and> k = 2 then \<lparr>tx_parent = Some 0, tx_swm = 0, tx_cwm = limit, tx_blocked = False\<rparr>
      else \<lparr>tx_parent = None, tx_swm = 0, tx_cwm = 0, tx_blocked = False\<rparr>)"

lemma sample_tx_steps:
  "txfc_step\<^sup>*\<^sup>* (\<lambda>_. \<lparr>tx_parent = None, tx_swm = 0, tx_cwm = 0, tx_blocked = False\<rparr>, {}, True) (sample_tx 2 5 10, {1, 0}, True)"
proof -
  let ?h0 = "\<lambda>_ :: nat. \<lparr>tx_parent = None, tx_swm = 0 :: 64 word, tx_cwm = 0 :: 64 word, tx_blocked = False\<rparr>"
  have 1: "txfc_step (?h0, {}, True) (sample_tx 1 0 0, {0}, True)"
    by (rule txfc_step.init [of 0 _ None]) (auto simp: ossl_quic_txfc_init_def sample_tx_def fun_eq_iff)
  have 2: "txfc_step (sample_tx 1 0 0, {0}, True) (sample_tx 2 0 0, {1, 0}, True)"
    by (rule txfc_step.init [of 1 _ "Some 0"]) (auto simp: ossl_quic_txfc_init_def sample_tx_def fun_eq_iff)
  have 3: "txfc_step (sample_tx 2 0 0, {1, 0}, True) (sample_tx 2 5 0, {1, 0}, True)"
    by (rule txfc_step.bump [of 0 _ _ 5 True]) (auto simp: ossl_quic_txfc_bump_cwm_def sample_tx_def fun_eq_iff)
  have 4: "txfc_step (sample_tx 2 5 0, {1, 0}, True) (sample_tx 2 5 10, {1, 0}, True)"
    by (rule txfc_step.bump [of 1 _ _ 10 True]) (auto simp: ossl_quic_txfc_bump_cwm_def sample_tx_def fun_eq_iff)
  show ?thesis by (rule rtranclp.rtrancl_into_rtrancl [OF rtranclp.rtrancl_into_rtrancl [OF rtranclp.rtrancl_into_rtrancl [OF r_into_rtranclp [of txfc_step, OF 1] 2] 3] 4])
qed

theorem txfc_within_limits_witness:
  "\<exists>h'. ossl_quic_txfc_consume_credit (sample_tx 2 5 10) 1 8 = Inr (False, h') \<and> unat (tx_swm (h' 1)) = 8 \<and> unat (tx_swm (h' 0)) = 5"
proof -
  have streams: "\<forall>t p. t \<in> {1, 0} \<and> tx_parent (sample_tx 2 5 10 t) = Some p \<longrightarrow>
      (\<exists>credit. ossl_quic_txfc_get_credit (sample_tx 2 5 10) t 0 = Inr credit \<and>
        unat credit = min (unat (tx_cwm (sample_tx 2 5 10 t)) - unat (tx_swm (sample_tx 2 5 10 t)))
          (unat (tx_cwm (sample_tx 2 5 10 p)) - unat (tx_swm (sample_tx 2 5 10 p))) \<and>
        (\<forall>n. \<exists>h'. ossl_quic_txfc_consume_credit (sample_tx 2 5 10) t n = Inr (n \<le> credit, h') \<and>
          unat (tx_swm (h' t)) = min (unat (tx_swm (sample_tx 2 5 10 t)) + unat n) (unat (tx_cwm (sample_tx 2 5 10 t))) \<and>
          unat (tx_swm (h' p)) = min (unat (tx_swm (sample_tx 2 5 10 p)) + unat n) (unat (tx_cwm (sample_tx 2 5 10 p)))))"
    using txfc_within_limits [OF sample_tx_steps, THEN conjunct2, THEN conjunct1] .
  have "1 \<in> {1, 0 :: nat} \<and> tx_parent (sample_tx 2 5 10 1) = Some 0" by (simp add: sample_tx_def)
  from streams [THEN spec, THEN spec, THEN mp, OF this] obtain credit where c1: "unat credit = min (unat (tx_cwm (sample_tx 2 5 10 1)) - unat (tx_swm (sample_tx 2 5 10 1)))
      (unat (tx_cwm (sample_tx 2 5 10 0)) - unat (tx_swm (sample_tx 2 5 10 0)))"
    and all: "\<forall>n. \<exists>h'. ossl_quic_txfc_consume_credit (sample_tx 2 5 10) 1 n = Inr (n \<le> credit, h') \<and>
      unat (tx_swm (h' 1)) = min (unat (tx_swm (sample_tx 2 5 10 1)) + unat n) (unat (tx_cwm (sample_tx 2 5 10 1))) \<and>
      unat (tx_swm (h' 0)) = min (unat (tx_swm (sample_tx 2 5 10 0)) + unat n) (unat (tx_cwm (sample_tx 2 5 10 0)))" by (elim exE conjE)
  from all [THEN spec, of 8] obtain h' where c: "ossl_quic_txfc_consume_credit (sample_tx 2 5 10) 1 8 = Inr (8 \<le> credit, h')"
    "unat (tx_swm (h' 1)) = min (unat (tx_swm (sample_tx 2 5 10 1)) + unat (8 :: 64 word)) (unat (tx_cwm (sample_tx 2 5 10 1)))"
    "unat (tx_swm (h' 0)) = min (unat (tx_swm (sample_tx 2 5 10 0)) + unat (8 :: 64 word)) (unat (tx_cwm (sample_tx 2 5 10 0)))" by (elim exE conjE)
  have "unat credit = 5" using c1 by (simp add: sample_tx_def)
  then have "\<not> 8 \<le> credit" by (simp add: word_le_nat_alt)
  then show ?thesis using c by (simp add: sample_tx_def)
qed

text \<open>
  C31: the receiver reopens the window of a stream as the application reads. When bytes of a stream that has no final size are retired, the limit is not lowered, and
  the credit of the peer together with the bytes that have been received and not yet read amounts to at least three quarters of the window afterwards. So
  the peer has credit again, at least three quarters of the window and not zero if the window is not empty, as soon as everything received has been read. (It may have none before.)
\<close>
theorem rxfc_window_open:
  assumes "rx_stream w r" and "watermarks (rx w r)" and "\<not> rx_fin (rx w r)" and "n \<noteq> 0"
    and "ossl_quic_rxfc_on_retire now w r n rtt = Inr (True, w')"
    and "uint (rwm (rx w' r)) + uint (cur_window_size (rx w' r)) < 2 ^ 64"
  shows "rwm (rx w' r) = rwm (rx w r) + n \<and> cwm (rx w r) \<le> cwm (rx w' r) \<and>
    uint (cur_window_size (rx w' r)) * 3 div 4 \<le>
      uint (ossl_quic_rxfc_get_credit w' r) + (uint (ossl_quic_rxfc_get_swm w' r) - uint (ossl_quic_rxfc_get_rwm w' r)) \<and>
    (ossl_quic_rxfc_get_rwm w' r = ossl_quic_rxfc_get_swm w' r \<longrightarrow>
      uint (cur_window_size (rx w' r)) * 3 div 4 \<le> uint (ossl_quic_rxfc_get_credit w' r) \<and>
      (cur_window_size (rx w' r) \<noteq> 0 \<longrightarrow> 0 < ossl_quic_rxfc_get_credit w' r))"
proof -
  let ?c = "rx w' r"
  have r: "same_rx (rx w r) ?c" "cwm (rx w r) \<le> cwm ?c" "rwm (rx w r) + n \<le> swm (rx w r)" "rwm ?c = rwm (rx w r) + n"
    and win: "uint (cur_window_size ?c) * 3 div 4 < uint (cwm ?c - rwm ?c) \<or> rwm ?c + cur_window_size ?c \<le> cwm ?c"
    using on_retire_stream [OF assms(1), of now n rtt] assms(3-5) by (auto simp: same_rx_def)
  have "rwm ?c \<le> cwm ?c" using r assms(2) by (auto simp: watermarks_def intro: order_trans)
  then have diff: "uint (cwm ?c - rwm ?c) = uint (cwm ?c) - uint (rwm ?c)" using uint_sub_lem [of "rwm ?c" "cwm ?c"] by (simp add: word_le_def)
  have add: "uint (rwm ?c + cur_window_size ?c) = uint (rwm ?c) + uint (cur_window_size ?c)"
    using assms(6) uint_add_lem [of "rwm ?c" "cur_window_size ?c"] by simp
  have nz: "cur_window_size ?c \<noteq> 0 \<longrightarrow> 0 < uint (cur_window_size ?c)" using uint_0_iff [of "cur_window_size ?c"] uint_ge_0 [of "cur_window_size ?c"] by linarith
  have open3: "uint (cur_window_size ?c) * 3 div 4 \<le> uint (cwm ?c) - uint (rwm ?c) \<and> (cur_window_size ?c \<noteq> 0 \<longrightarrow> rwm ?c < cwm ?c)"
    using win
  proof
    assume "rwm ?c + cur_window_size ?c \<le> cwm ?c"
    then have "uint (rwm ?c) + uint (cur_window_size ?c) \<le> uint (cwm ?c)" using add by (simp add: word_le_def)
    then show ?thesis using r nz by (auto simp: word_less_def)
  next
    assume "uint (cur_window_size ?c) * 3 div 4 < uint (cwm ?c - rwm ?c)"
    moreover have "0 \<le> uint (cur_window_size ?c) * 3 div 4" by (intro pos_imp_zdiv_nonneg_iff [THEN iffD2]) simp_all
    ultimately have "uint (cur_window_size ?c) * 3 div 4 \<le> uint (cwm ?c) - uint (rwm ?c)" "uint (rwm ?c) < uint (cwm ?c)"
      unfolding diff by linarith+
    then show ?thesis using r by (simp add: word_less_def)
  qed
  have "swm ?c \<le> cwm ?c" using r(1,2) assms(2) by (auto simp: same_rx_def watermarks_def intro: order_trans)
  then have "uint (ossl_quic_rxfc_get_credit w' r) = uint (cwm ?c) - uint (swm ?c)"
    using uint_sub_lem [of "swm ?c" "cwm ?c"]
    by (simp add: word_le_def ossl_quic_rxfc_get_credit_def ossl_quic_rxfc_get_cwm_def ossl_quic_rxfc_get_swm_def)
  then show ?thesis using r(2,4) open3
    by (auto simp: ossl_quic_rxfc_get_swm_def ossl_quic_rxfc_get_rwm_def word_less_def)
qed


text \<open>A connection whose controller is 0 and a stream of it with the controller 1 and a window of eight bytes.\<close>

definition sample_rx :: rx_state where
  "sample_rx = (let w = snd (ossl_quic_rxfc_init \<lparr>rx = (\<lambda>_. undefined), calls = 0\<rparr> 0 None 100 100)
     in snd (ossl_quic_rxfc_init w 1 (Some 0) 8 16))"

lemma sample_rx_init: "\<exists>w0. ossl_quic_rxfc_init w0 1 (Some 0) 8 16 = (True, sample_rx)"
proof -
  let ?w = "snd (ossl_quic_rxfc_init \<lparr>rx = (\<lambda>_. undefined), calls = 0\<rparr> 0 None 100 100)"
  have "ossl_quic_rxfc_init ?w 1 (Some 0) 8 16 = (True, sample_rx)" by (simp add: sample_rx_def ossl_quic_rxfc_init_def)
  then show ?thesis by blast
qed

theorem rxfc_window_open_witness:
  "\<exists>w'. ossl_quic_rxfc_on_retire (\<lambda>_. 1000) (rx_frames sample_rx 1 [(8, False)]) 1 8 10 = Inr (True, w') \<and>
     12 \<le> uint (ossl_quic_rxfc_get_credit w' 1)"
proof -
  let ?w = "rx_frames sample_rx 1 [(8, False)]"
  have w: "rx_stream ?w 1" "watermarks (rx ?w 1)" "\<not> rx_fin (rx ?w 1)"
    by (simp_all add: rx_frames_def sample_rx_def ossl_quic_rxfc_init_def ossl_quic_rxfc_on_rx_stream_frame_def on_rx_controlled_bytes_def
        rx_stream_def watermarks_def)
  have "case ossl_quic_rxfc_on_retire (\<lambda>_. 1000) ?w 1 8 10 of
      Inr (ok, w') \<Rightarrow> ok \<and> cur_window_size (rx w' 1) = 16 \<and> rwm (rx w' 1) = 8 \<and> swm (rx w' 1) = 8 | Inl e \<Rightarrow> False"
    by code_simp
  then obtain w' where w': "ossl_quic_rxfc_on_retire (\<lambda>_. 1000) ?w 1 8 10 = Inr (True, w')" "cur_window_size (rx w' 1) = 16"
    "rwm (rx w' 1) = 8" "swm (rx w' 1) = 8" by (auto split: sum.splits prod.splits)
  show ?thesis using rxfc_window_open [OF w _ w'(1)] w' by (auto simp: ossl_quic_rxfc_get_swm_def ossl_quic_rxfc_get_rwm_def)
qed


theorem rxfc_error_iff_witness:
  "fst (ossl_quic_rxfc_get_error (rx_frames sample_rx 1 [(7, True), (3, False), (8, False)]) 1 False) \<noteq> OSSL_QUIC_ERR_NO_ERROR"
proof -
  obtain w0 where "ossl_quic_rxfc_init w0 1 (Some 0) 8 16 = (True, sample_rx)" using sample_rx_init by blast
  from rxfc_error_iff [OF this, of "[(7, True), (3, False), (8, False)]"] show ?thesis by simp
qed

text \<open>
  Only the stream is looked at: two streams of a connection that each keep to their own limit can exceed that of the connection, and
  the controller of neither stream reports an error.
\<close>

definition two_streams :: rx_state where
  "two_streams = snd (ossl_quic_rxfc_init (snd (ossl_quic_rxfc_init (snd (ossl_quic_rxfc_init \<lparr>rx = (\<lambda>_. undefined), calls = 0\<rparr> 0 None 10 10))
     1 (Some 0) 8 8)) 2 (Some 0) 8 8)"

lemma connection_limit_exceeded:
  "let w = rx_frames (rx_frames two_streams 1 [(8, False)]) 2 [(8, False)]
   in error_code (rx w 1) = OSSL_QUIC_ERR_NO_ERROR \<and> error_code (rx w 2) = OSSL_QUIC_ERR_NO_ERROR \<and>
      error_code (rx w 0) = OSSL_QUIC_ERR_FLOW_CONTROL_ERROR"
  by (simp add: two_streams_def rx_frames_def ossl_quic_rxfc_init_def ossl_quic_rxfc_on_rx_stream_frame_def on_rx_controlled_bytes_def Let_def)

end
