(* ===== verification/Quic_Statm.thy ===== *)
theory Quic_Statm
  imports Ossl_Time
begin

text \<open>
  The round trip time statistics of a QUIC connection, \<open>ssl/quic/quic_statm.c\<close>: the smoothed round trip time and its variance of
  RFC 9002, kept in saturating times. The destructor does nothing.
\<close>

record ossl_statm =
  smoothed_rtt :: ossl_time
  latest_rtt :: ossl_time
  min_rtt :: ossl_time
  rtt_variance :: ossl_time
  have_first_sample :: bool

record ossl_rtt_info =
  info_smoothed_rtt :: ossl_time
  info_latest_rtt :: ossl_time
  info_rtt_variance :: ossl_time
  info_min_rtt :: ossl_time

definition K_INITIAL_RTT :: ossl_time where "K_INITIAL_RTT = 333 * 1000000"

definition ossl_statm_update_rtt :: "ossl_statm \<Rightarrow> ossl_time \<Rightarrow> ossl_time \<Rightarrow> ossl_statm" where
  "ossl_statm_update_rtt st ack_delay override_latest_rtt =
     (let (latest, st) = (if ossl_time_is_zero override_latest_rtt then (latest_rtt st, st)
                          else (override_latest_rtt, st\<lparr>latest_rtt := override_latest_rtt\<rparr>))
      in if \<not> have_first_sample st
         then st\<lparr>min_rtt := latest, smoothed_rtt := latest, rtt_variance := ossl_time_divide latest 2, have_first_sample := True\<rparr>
         else let st = (if ossl_time_compare latest (min_rtt st) < 0 then st\<lparr>min_rtt := latest\<rparr> else st);
                  adjusted = (if ossl_time_compare latest (ossl_time_add (min_rtt st) ack_delay) \<ge> 0
                              then ossl_time_subtract latest ack_delay else latest);
                  st = st\<lparr>rtt_variance := ossl_time_divide (ossl_time_add (ossl_time_multiply (rtt_variance st) 3)
                                            (ossl_time_abs_difference (smoothed_rtt st) adjusted)) 4\<rparr>
              in st\<lparr>smoothed_rtt := ossl_time_divide (ossl_time_add (ossl_time_multiply (smoothed_rtt st) 7) adjusted) 8\<rparr>)"

definition ossl_statm_init :: ossl_statm where
  "ossl_statm_init = \<lparr>smoothed_rtt = K_INITIAL_RTT, latest_rtt = ossl_time_zero, min_rtt = ossl_time_infinite,
     rtt_variance = ossl_time_divide K_INITIAL_RTT 2, have_first_sample = False\<rparr>"

definition ossl_statm_get_rtt_info :: "ossl_statm \<Rightarrow> ossl_rtt_info" where
  "ossl_statm_get_rtt_info st = \<lparr>info_smoothed_rtt = smoothed_rtt st, info_latest_rtt = latest_rtt st,
     info_rtt_variance = rtt_variance st, info_min_rtt = min_rtt st\<rparr>"

section \<open>Bounds of the estimate\<close>

text \<open>A sample: the acknowledgement delay and the round trip time, zero for the last one.\<close>

abbreviation run_samples :: "(ossl_time \<times> ossl_time) list \<Rightarrow> ossl_statm \<Rightarrow> ossl_statm" where
  "run_samples \<equiv> fold (\<lambda>(delay, rtt) st. ossl_statm_update_rtt st delay rtt)"

text \<open>The weighted mean of the old estimate and a sample, rounded down, lies between them.\<close>

lemma mean_between:
  fixes s a lo hi :: int
  assumes "lo \<le> s" "s \<le> hi" "lo \<le> a" "a \<le> hi"
  shows "lo \<le> (s * 7 + a) div 8" "(s * 7 + a) div 8 \<le> hi"
  using assms by linarith+

definition statm_ok :: "int \<Rightarrow> int \<Rightarrow> ossl_statm \<Rightarrow> bool" where
  "statm_ok lo hi st \<longleftrightarrow> have_first_sample st \<and> lo \<le> uint (min_rtt st) \<and> uint (min_rtt st) \<le> uint (smoothed_rtt st) \<and>
     uint (smoothed_rtt st) \<le> hi \<and> lo \<le> uint (latest_rtt st) \<and> uint (latest_rtt st) \<le> hi"

lemma adjusted_bounds:
  fixes m l d :: ossl_time
  assumes "uint m \<le> uint l" and "uint l < max_time"
  defines "a \<equiv> (if ossl_time_compare l (ossl_time_add m d) \<ge> 0 then ossl_time_subtract l d else l)"
  shows "uint m \<le> uint a" "uint a \<le> uint l"
proof -
  have "ossl_time_compare l (ossl_time_add m d) \<ge> 0 \<longleftrightarrow> min (uint m + uint d) max_time \<le> uint l"
    by (auto simp: ossl_time_compare_def word_less_def uint_time_add not_less)
  moreover have "0 \<le> uint d" by simp
  ultimately show "uint m \<le> uint a" "uint a \<le> uint l"
    using assms(1,2) by (auto simp: a_def uint_time_subtract min_def split: if_splits)
qed

lemma update_ok:
  assumes ok: "statm_ok lo hi st" and hi: "8 * hi \<le> max_time" and r: "r = 0 \<or> lo \<le> uint r \<and> uint r \<le> hi"
  shows "statm_ok lo hi (ossl_statm_update_rtt st d r)"
proof -
  define l where "l = (if r = 0 then latest_rtt st else r)"
  define m where "m = (if l < min_rtt st then l else min_rtt st)"
  define a where "a = (if ossl_time_compare l (ossl_time_add m d) \<ge> 0 then ossl_time_subtract l d else l)"
  define s where "s = ossl_time_divide (ossl_time_add (ossl_time_multiply (smoothed_rtt st) 7) a) 8"
  have l: "lo \<le> uint l" "uint l \<le> hi" using ok r by (auto simp: l_def statm_ok_def)
  have m: "lo \<le> uint m" "uint m \<le> uint l" "uint m \<le> uint (smoothed_rtt st)"
    using ok l by (auto simp: m_def statm_ok_def word_less_def)
  have a: "uint m \<le> uint a" "uint a \<le> hi"
    using adjusted_bounds [of m l d] m(2) l(2) hi by (auto simp: a_def)
  have sm: "uint (smoothed_rtt st) \<le> hi" using ok by (simp add: statm_ok_def)
  have "uint (smoothed_rtt st) * 7 + uint a \<le> max_time" using sm a(2) hi by linarith
  moreover from this have "uint (smoothed_rtt st) * 7 \<le> max_time" using uint_ge_0 [of a] by linarith
  ultimately have "uint s = (uint (smoothed_rtt st) * 7 + uint a) div 8"
    by (simp add: s_def uint_time_divide uint_time_add uint_time_multiply min_def)
  then have "uint m \<le> uint s" "uint s \<le> hi" using mean_between [OF m(3) sm a] by simp_all
  moreover have "min_rtt (ossl_statm_update_rtt st d r) = m" "smoothed_rtt (ossl_statm_update_rtt st d r) = s"
    "latest_rtt (ossl_statm_update_rtt st d r) = l" "have_first_sample (ossl_statm_update_rtt st d r)"
    using ok by (auto simp: ossl_statm_update_rtt_def Let_def ossl_time_is_zero_def time_compare_iff ossl_time_zero_def
        l_def m_def a_def s_def statm_ok_def)
  ultimately show ?thesis using m l by (simp add: statm_ok_def)
qed

lemma first_sample_ok:
  assumes "r \<noteq> 0" and "lo \<le> uint r" and "uint r \<le> hi"
  shows "statm_ok lo hi (ossl_statm_update_rtt ossl_statm_init d r)"
  using assms by (simp add: ossl_statm_update_rtt_def ossl_statm_init_def Let_def ossl_time_is_zero_def time_compare_iff
      ossl_time_zero_def statm_ok_def)

lemma run_samples_ok:
  "statm_ok lo hi st \<Longrightarrow> 8 * hi \<le> max_time \<Longrightarrow> \<forall>(d, r) \<in> set ss. r = 0 \<or> lo \<le> uint r \<and> uint r \<le> hi \<Longrightarrow>
   statm_ok lo hi (run_samples ss st)"
proof (induction ss arbitrary: st)
  case (Cons s ss)
  obtain d r where s: "s = (d, r)" by force
  have "statm_ok lo hi (ossl_statm_update_rtt st d r)" using Cons.prems s by (intro update_ok) auto
  then show ?case using Cons by (simp add: s)
qed simp

text \<open>
  C33: the estimate of the round trip time stays within the samples. After a first sample and any number of further ones, each of them new or
  a repetition of the last one, with any acknowledgement delays, the smoothed round trip time that is reported is at least the
  minimum, and both lie between the bounds of the samples, as long as eight times the largest one can be represented.
\<close>
theorem statm_within_samples:
  assumes "r \<noteq> 0" and "lo \<le> uint r" and "uint r \<le> hi" and "8 * hi \<le> max_time"
    and "\<forall>(d', r') \<in> set ss. r' = 0 \<or> lo \<le> uint r' \<and> uint r' \<le> hi"
  shows "let i = ossl_statm_get_rtt_info (run_samples ss (ossl_statm_update_rtt ossl_statm_init d r))
    in lo \<le> uint (info_min_rtt i) \<and> uint (info_min_rtt i) \<le> uint (info_smoothed_rtt i) \<and> uint (info_smoothed_rtt i) \<le> hi"
  using run_samples_ok [OF first_sample_ok [OF assms(1-3)] assms(4,5)] by (simp add: ossl_statm_get_rtt_info_def statm_ok_def)

theorem statm_within_samples_witness:
  "uint (smoothed_rtt (run_samples [(5, 20), (0, 0), (30, 60)] (ossl_statm_update_rtt ossl_statm_init 0 40))) \<le> 60 \<and>
   20 \<le> uint (smoothed_rtt (run_samples [(5, 20), (0, 0), (30, 60)] (ossl_statm_update_rtt ossl_statm_init 0 40)))"
  using statm_within_samples [of 40 20 60 "[(5, 20), (0, 0), (30, 60)]" 0] by (simp add: ossl_statm_get_rtt_info_def Let_def)

end
