(* ===== verification/Quic_Rstream.thy ===== *)
theory Quic_Rstream
  imports Sframe_List Ring_Buf Quic_Fc Quic_Statm
begin

text \<open>
  The receiving side of a QUIC stream, \<open>ssl/quic/quic_rstream.c\<close>: a list of frames whose bytes are still in the packets they
  came in, and a ring buffer to which they are moved when packets have to be released. The flow controller is a pointer into the store of
  \<open>Quic_Fc\<close>; the statistics module is shared and passed to the operations that read it. A pointer to bytes is the list of bytes
  from it to the end of the object it points into. \<open>ossl_assert\<close> is the value of its condition, as in a build with \<open>NDEBUG\<close>.
\<close>

record quic_rstream =
  rs_fl :: sframe_list
  rs_rxfc :: "nat option"
  has_statm :: bool
  head_range :: uint_range
  rbuf :: ring_buf

definition ossl_quic_rstream_new :: "8 word allocator \<Rightarrow> bool \<Rightarrow> nat option \<Rightarrow> bool \<Rightarrow> 32 word \<Rightarrow> quic_rstream option comp" where
  "ossl_quic_rstream_new mal zalloc rxfc statm rbuf_size =
     (if \<not> zalloc then Some (Inr None)
      else bind_comp (ring_buf_resize mal ring_buf_init rbuf_size False) (\<lambda>(ok, rb).
             Some (Inr (if \<not> ok then None
               else Some \<lparr>rs_fl = ossl_sframe_list_init, rs_rxfc = rxfc, has_statm = statm, head_range = rng 0 0, rbuf = rb\<rparr>))))"

definition ossl_quic_rstream_free :: "quic_rstream option \<Rightarrow> (sframe_list \<times> 8 word list option) option" where
  \<comment> \<open>with the references to packets that are left, and the storage of the ring buffer at the moment it is released\<close>
  "ossl_quic_rstream_free q = map_option (\<lambda>q.
     (ossl_sframe_list_destroy (rs_fl q), fst (ring_buf_destroy (rbuf q) (fl_cleanse (rs_fl q))))) q"

definition ossl_quic_rstream_queue_data ::
    "bool \<Rightarrow> quic_rstream \<Rightarrow> nat option \<Rightarrow> 64 word \<Rightarrow> 8 word list option \<Rightarrow> 64 word \<Rightarrow> bool \<Rightarrow> (bool \<times> quic_rstream) res" where
  "ossl_quic_rstream_queue_data mem q p offset d data_len is_final =
     (if d = None \<and> data_len \<noteq> 0 \<or> data_len = 0 \<and> \<not> is_final then Inr (False, q)
      else bind_res (ossl_sframe_list_insert mem (rs_fl q) (rng offset (offset + data_len)) p d is_final)
             (\<lambda>(ok, l). Inr (ok, q\<lparr>rs_fl := l\<rparr>)))"

section \<open>Reading\<close>

definition storage :: "ring_buf \<Rightarrow> 8 word list" where
  "storage rb = (case rb_start rb of None \<Rightarrow> [] | Some cs \<Rightarrow> cs)"

definition copy_from :: "8 word list \<Rightarrow> 32 word \<Rightarrow> 8 word list res" where
  "copy_from src l = (if unat l \<le> length src then Inr (take (unat l) src) else Inl Buffer_Overflow)"

definition read_piece :: "ring_buf \<Rightarrow> 8 word list option \<Rightarrow> 64 word \<Rightarrow> 32 word \<Rightarrow> (8 word list \<times> 32 word) option res" where
  \<comment> \<open>the bytes of one frame that are copied, in one or two parts, and their number; \<open>None\<close>: the function returns 0\<close>
  "read_piece rb d s l =
     (case d of
        Some src \<Rightarrow> bind_res (copy_from src l) (\<lambda>b. Inr (Some (b, l)))
      | None \<Rightarrow>
          bind_res (ring_buf_get_ptr rb s) (\<lambda>ptr.
            case ptr of
              None \<Rightarrow> Inr None
            | Some (i, max_len) \<Rightarrow>
                if max_len < l
                then bind_res (copy_from (drop i (storage rb)) max_len) (\<lambda>b1.
                     bind_res (ring_buf_get_ptr rb (s + u64 max_len)) (\<lambda>ptr.
                       case ptr of
                         None \<Rightarrow> Inr None
                       | Some (j, max_len2) \<Rightarrow>
                           if \<not> max_len2 > l - max_len then Inr None
                           else bind_res (copy_from (drop j (storage rb)) (l - max_len)) (\<lambda>b2.
                                  Inr (Some (b1 @ b2, max_len + (l - max_len))))))
                else bind_res (copy_from (drop i (storage rb)) l) (\<lambda>b. Inr (Some (b, l)))))"

definition iter_left :: "sframe_list \<Rightarrow> sf_iter \<Rightarrow> nat" where
  \<comment> \<open>a bound on the number of frames that an iterator has still to visit\<close>
  "iter_left fl iter = (case iter of None \<Rightarrow> length (frames fl) + 1 | Some it \<Rightarrow> length it)"

lemma peek_left: "ossl_sframe_list_peek fl iter = (True, it, rg, d, f) \<Longrightarrow> iter_left fl it < iter_left fl iter"
proof (cases iter)
  case None
  then show "ossl_sframe_list_peek fl iter = (True, it, rg, d, f) \<Longrightarrow> ?thesis"
    by (auto simp: ossl_sframe_list_peek_def iter_left_def split: list.splits if_splits)
next
  case (Some its)
  then show "ossl_sframe_list_peek fl iter = (True, it, rg, d, f) \<Longrightarrow> ?thesis"
    by (cases its) (auto simp: ossl_sframe_list_peek_def iter_left_def split: list.splits if_splits)
qed

function read_loop ::
    "ring_buf \<Rightarrow> sframe_list \<Rightarrow> sf_iter \<Rightarrow> 32 word \<Rightarrow> 8 word list \<Rightarrow> 32 word \<Rightarrow> 64 word \<Rightarrow>
     (8 word list \<times> 32 word \<times> 64 word \<times> bool) option res" where
  \<comment> \<open>the bytes stored so far, their number, \<open>offset\<close> and \<open>fin'\<close>; \<open>None\<close>: the function returns 0\<close>
  "read_loop rb fl iter sz buf readbytes offset =
     (case ossl_sframe_list_peek fl iter of
        (ret, it, rg, d, fin') \<Rightarrow>
          if \<not> ret then Inr (Some (buf, readbytes, offset, fin'))
          else let l = size_t (end rg - start rg);
                   (l, fin') = (if l > sz then (sz, False) else (l, fin'));
                   offset = start rg + u64 l
               in if l = 0 then Inr (Some (buf, readbytes, offset, fin'))
                  else (case read_piece rb d (start rg) l of
                          Inl e \<Rightarrow> Inl e
                        | Inr None \<Rightarrow> Inr None
                        | Inr (Some (b, n)) \<Rightarrow>
                            if sz - n = 0 then Inr (Some (buf @ b, readbytes + n, offset, fin'))
                            else read_loop rb fl it (sz - n) (buf @ b) (readbytes + n) offset))"
  by pat_completeness auto
termination
  by (relation "measure (\<lambda>(rb, fl, iter, sz, buf, readbytes, offset). iter_left fl iter)") (auto intro: peek_left dest: sym)

declare read_loop.simps [simp del]

definition read_internal :: "quic_rstream \<Rightarrow> 32 word \<Rightarrow> bool \<Rightarrow> ((8 word list \<times> 32 word \<times> bool) option \<times> quic_rstream) res" where
  \<comment> \<open>\<open>None\<close>: returns 0 and stores nothing through \<open>readbytes\<close> and \<open>fin\<close>\<close>
  "read_internal q sz drp =
     bind_res (read_loop (rbuf q) (rs_fl q) None sz [] 0 0) (\<lambda>r.
       case r of
         None \<Rightarrow> Inr (None, q)
       | Some (buf, readbytes, offset, fin') \<Rightarrow>
           if drp \<and> offset \<noteq> 0
           then (case ossl_sframe_list_drop_frames (rs_fl q) offset of
                   (ret, l) \<Rightarrow>
                     bind_res (ring_buf_cpop_range (rbuf q) 0 (offset - 1) (fl_cleanse l)) (\<lambda>rb.
                       Inr (if ret then Some (buf, readbytes, fin') else None, q\<lparr>rs_fl := l, rbuf := rb\<rparr>)))
           else Inr (Some (buf, readbytes, fin'), q))"

definition get_rtt :: "quic_rstream \<Rightarrow> ossl_statm \<Rightarrow> ossl_time" where
  "get_rtt q st = (if has_statm q then info_smoothed_rtt (ossl_statm_get_rtt_info st) else ossl_time_zero)"

definition ossl_quic_rstream_read ::
    "(nat \<Rightarrow> ossl_time) \<Rightarrow> rx_state \<Rightarrow> ossl_statm \<Rightarrow> quic_rstream \<Rightarrow> 32 word \<Rightarrow>
     (bool \<times> (8 word list \<times> 32 word \<times> bool) option \<times> quic_rstream \<times> rx_state) res" where
  "ossl_quic_rstream_read now w st q sz =
     bind_res (read_internal q sz True) (\<lambda>(r, q).
       case r of
         None \<Rightarrow> Inr (False, None, q, w)
       | Some (buf, readbytes, fin') \<Rightarrow>
           (case rs_rxfc q of
              None \<Rightarrow> Inr (True, r, q, w)
            | Some c \<Rightarrow> bind_res (ossl_quic_rxfc_on_retire now w c (u64 readbytes) (get_rtt q st)) (\<lambda>(ok, w). Inr (ok, r, q, w))))"

definition ossl_quic_rstream_peek :: "quic_rstream \<Rightarrow> 32 word \<Rightarrow> ((8 word list \<times> 32 word \<times> bool) option \<times> quic_rstream) res" where
  "ossl_quic_rstream_peek q sz = read_internal q sz False"

function avail_loop :: "sframe_list \<Rightarrow> sf_iter \<Rightarrow> 64 word \<Rightarrow> 64 word \<times> bool" where
  "avail_loop fl iter avail =
     (case ossl_sframe_list_peek fl iter of
        (ret, it, rg, d, f) \<Rightarrow> if ret then avail_loop fl it (avail + (end rg - start rg)) else (avail, f))"
  by pat_completeness auto
termination
  by (relation "measure (\<lambda>(fl, iter, avail). iter_left fl iter)") (auto intro: peek_left dest: sym)

declare avail_loop.simps [simp del]

definition ossl_quic_rstream_available :: "quic_rstream \<Rightarrow> 32 word \<times> bool" where
  \<comment> \<open>\<open>size_t\<close> is narrower than \<open>uint64_t\<close>\<close>
  "ossl_quic_rstream_available q =
     (case avail_loop (rs_fl q) None 0 of (avail, f) \<Rightarrow> (if avail > u64 MAXU then MAXU else size_t avail, f))"

section \<open>Records\<close>

definition ossl_quic_rstream_get_record ::
    "quic_rstream \<Rightarrow> (bool \<times> (8 word list option \<times> 32 word) option \<times> bool option \<times> quic_rstream) res" where
  \<comment> \<open>the result, what is stored through \<open>record\<close> and \<open>rec_len\<close>, what is stored through \<open>fin\<close>\<close>
  "ossl_quic_rstream_get_record q =
     (case ossl_sframe_list_lock_head (rs_fl q) of
        (None, l) \<Rightarrow> Inr (True, Some (None, 0), None, q\<lparr>rs_fl := l\<rparr>)
      | (Some (ret, rg, d, f), l) \<Rightarrow>
          let q = q\<lparr>rs_fl := l, head_range := rg\<rparr>
          in if \<not> ret then Inr (True, Some (None, 0), Some f, q)
             else let (ok, q) =
                        (if end rg = start rg
                         then if \<not> f then (False, q)
                              else case ossl_sframe_list_drop_frames (rs_fl q) (end rg) of (ok, l) \<Rightarrow> (ok, q\<lparr>rs_fl := l\<rparr>)
                         else (True, q));
                      rec_len = size_t (end rg - start rg)
                  in if \<not> ok then Inr (False, None, Some f, q)
                     else if d = None \<and> rec_len \<noteq> 0
                     then bind_res (ring_buf_get_ptr (rbuf q) (start rg)) (\<lambda>ptr.
                            case ptr of
                              None \<Rightarrow> Inr (False, None, Some f, q)
                            | Some (i, max_len) \<Rightarrow>
                                let (rec_len, q) = (if max_len < rec_len then (max_len, q\<lparr>head_range := rg\<lparr>end := start rg + u64 max_len\<rparr>\<rparr>)
                                                    else (rec_len, q))
                                in Inr (True, Some (Some (drop i (storage (rbuf q))), rec_len), Some f, q))
                     else Inr (True, Some (d, rec_len), Some f, q))"

definition ossl_quic_rstream_release_record ::
    "(nat \<Rightarrow> ossl_time) \<Rightarrow> rx_state \<Rightarrow> ossl_statm \<Rightarrow> quic_rstream \<Rightarrow> 32 word \<Rightarrow> (bool \<times> quic_rstream \<times> rx_state) res" where
  "ossl_quic_rstream_release_record now w st q read_len =
     (if \<not> ossl_sframe_list_is_head_locked (rs_fl q) then Inr (False, q, w)
      else let len = end (head_range q) - start (head_range q)
           in if u64 read_len > len \<and> read_len \<noteq> MAXU then Inr (False, q, w)
              else let offset = (if u64 read_len > len then end (head_range q) else start (head_range q) + u64 read_len)
                   in case ossl_sframe_list_drop_frames (rs_fl q) offset of
                        (ok, l) \<Rightarrow>
                          let q = q\<lparr>rs_fl := l\<rparr>
                          in if \<not> ok then Inr (False, q, w)
                             else bind_res (if offset > 0 then ring_buf_cpop_range (rbuf q) 0 (offset - 1) (fl_cleanse l) else Inr (rbuf q)) (\<lambda>rb.
                                    let q = q\<lparr>rbuf := rb\<rparr>
                                    in case rs_rxfc q of
                                         None \<Rightarrow> Inr (True, q, w)
                                       | Some c \<Rightarrow> bind_res (ossl_quic_rxfc_on_retire now w c offset (get_rtt q st)) (\<lambda>(ok, w). Inr (ok, q, w))))"

section \<open>Ring buffer\<close>

definition write_at_ring_buf_cb :: "ring_buf \<Rightarrow> 64 word \<Rightarrow> 8 word list \<Rightarrow> 32 word \<Rightarrow> (bool \<times> ring_buf) res" where
  "write_at_ring_buf_cb rb logical_offset buf buf_len = ring_buf_write_at rb logical_offset buf buf_len"

definition ossl_quic_rstream_move_to_rbuf :: "quic_rstream \<Rightarrow> (bool \<times> quic_rstream) res" where
  "ossl_quic_rstream_move_to_rbuf q =
     (if ring_buf_avail (rbuf q) = 0 then Inr (False, q)
      else bind_res (ossl_sframe_list_move_data write_at_ring_buf_cb (rs_fl q) (rbuf q)) (\<lambda>(ok, l, rb).
             Inr (ok, q\<lparr>rs_fl := l, rbuf := rb\<rparr>)))"

definition ossl_quic_rstream_resize_rbuf :: "8 word allocator \<Rightarrow> quic_rstream \<Rightarrow> 32 word \<Rightarrow> (bool \<times> quic_rstream) comp" where
  "ossl_quic_rstream_resize_rbuf mal q rbuf_size =
     (if ossl_sframe_list_is_head_locked (rs_fl q) then Some (Inr (False, q))
      else bind_comp (ring_buf_resize mal (rbuf q) rbuf_size (fl_cleanse (rs_fl q))) (\<lambda>(ok, rb).
             Some (Inr (ok, q\<lparr>rbuf := rb\<rparr>))))"

definition ossl_quic_rstream_set_cleanse :: "quic_rstream \<Rightarrow> bool \<Rightarrow> quic_rstream" where
  "ossl_quic_rstream_set_cleanse q c = q\<lparr>rs_fl := (rs_fl q)\<lparr>fl_cleanse := c\<rparr>\<rparr>"

section \<open>The ring buffer as a side storage\<close>

definition byte_at :: "ring_buf \<Rightarrow> nat \<Rightarrow> 8 word option" where
  "byte_at rb k = (if unat (ctail_offset rb) \<le> k \<and> k < unat (head_offset rb) then Some (cell rb k) else None)"

interpretation rs: side_storage write_at_ring_buf_cb rb_wf "\<lambda>rb. unat (ctail_offset rb)" byte_at
proof unfold_locales
  fix b :: ring_buf and lo :: "64 word" and n :: "32 word" and d :: "8 word list"
  assume wf: "rb_wf b" and lo: "unat (ctail_offset b) \<le> unat lo" "unat n \<le> length d" "unat lo + unat n \<le> 2 ^ 62"
  let ?post = "\<lambda>ok b'. if ok then (\<forall>k. unat lo \<le> k \<and> k < unat lo + unat n \<longrightarrow> byte_at b' k = Some (d ! (k - unat lo))) \<and>
         (\<forall>k. (k < unat lo \<or> unat lo + unat n \<le> k) \<and> byte_at b k \<noteq> None \<longrightarrow> byte_at b' k = byte_at b k) else b' = b"
  show "\<exists>ok b'. write_at_ring_buf_cb b lo d n = Inr (ok, b') \<and> rb_wf b' \<and> unat (ctail_offset b') = unat (ctail_offset b) \<and> ?post ok b'"
  proof (cases "unat (ctail_offset b) + unat (alloc b) < unat lo + unat n \<or> 2 ^ 62 < unat (head_offset b) + unat n")
    case True
    then have "write_at_ring_buf_cb b lo d n = Inr (False, b)" by (auto simp: write_at_ring_buf_cb_def write_at_guard [OF wf])
    then show ?thesis using wf by (intro exI [of _ False] exI [of _ b]) simp
  next
    case False
    show ?thesis
    proof (cases "n = 0")
      case True
      then have "write_at_ring_buf_cb b lo d n = Inr (True, b)"
        using False lo(1) by (simp add: write_at_ring_buf_cb_def write_at_guard [OF wf] write_rounds_zero)
      then show ?thesis using wf True by (intro exI [of _ True] exI [of _ b]) auto
    next
      case nz: False
    then obtain b' where b': "ring_buf_write_at b lo d n = Inr (True, b')" "rb_wf b'" "ctail_offset b' = ctail_offset b" "alloc b' = alloc b"
      "unat (head_offset b') = max (unat (head_offset b)) (unat lo + unat n)"
      "\<forall>k. unat (ctail_offset b) \<le> k \<and> k < unat (ctail_offset b) + unat (alloc b) \<longrightarrow>
         cell b' k = (if unat lo \<le> k \<and> k < unat lo + unat n then d ! (k - unat lo) else cell b k)"
      using write_at_stored [OF wf lo(1) _ lo(3) _ lo(2) nz] False by (auto simp: not_less)
    have "unat (head_offset b) \<le> unat (ctail_offset b) + unat (alloc b)" using wf by (simp add: rb_wf_def)
    then have "?post True b'" using b' lo False by (auto simp: byte_at_def split: if_splits)
    then show ?thesis using b'(1-3) by (intro exI [of _ True] exI [of _ b']) (simp add: write_at_ring_buf_cb_def)
    qed
  qed
qed

section \<open>What is read\<close>

lemma length_storage: "rb_wf rb \<Longrightarrow> length (storage rb) = unat (alloc rb)"
  by (auto simp: rb_wf_def storage_def split: option.splits)

lemma storage_cells:
  assumes "unat (alloc rb) \<noteq> 0" and "rb_wf rb" and "k mod unat (alloc rb) + m \<le> unat (alloc rb)"
  shows "take m (drop (k mod unat (alloc rb)) (storage rb)) = map (cell rb) [k..<k + m]"
proof (rule nth_equalityI)
  show "length (take m (drop (k mod unat (alloc rb)) (storage rb))) = length (map (cell rb) [k..<k + m])"
    using assms by (simp add: length_storage)
  fix j assume "j < length (take m (drop (k mod unat (alloc rb)) (storage rb)))"
  then have j: "j < m" by simp
  have "(k + j) mod unat (alloc rb) = k mod unat (alloc rb) + j" using assms(3) j by (intro mod_add_small) simp
  moreover have "storage rb = the (rb_start rb)" using assms by (auto simp: rb_wf_def storage_def split: option.splits)
  ultimately show "take m (drop (k mod unat (alloc rb)) (storage rb)) ! j = map (cell rb) [k..<k + m] ! j"
    using assms j length_storage [OF assms(2)] by (simp add: cell_def nth_drop)
qed

lemma cells_are_stream:
  assumes "\<forall>k. a \<le> k \<and> k < a + m \<longrightarrow> byte_at rb k = Some (xs ! k)" and "a + m \<le> length xs"
  shows "map (cell rb) [a..<a + m] = take m (drop a xs)"
proof (rule nth_equalityI)
  fix j assume "j < length (map (cell rb) [a..<a + m])"
  then have "byte_at rb (a + j) = Some (xs ! (a + j))" "j < m" using assms(1) by simp_all
  then show "map (cell rb) [a..<a + m] ! j = take m (drop a xs) ! j" using assms(2) by (simp add: byte_at_def split: if_splits)
qed (use assms(2) in simp)

lemma get_ptr_window:
  assumes "rb_wf rb" and "unat (ctail_offset rb) \<le> unat s" and "unat s < unat (head_offset rb)"
  shows "alloc rb \<noteq> 0 \<and> (\<exists>ml. ring_buf_get_ptr rb s = Inr (Some (unat s mod unat (alloc rb), ml)) \<and>
    unat ml = unat (alloc rb) - unat s mod unat (alloc rb) \<and> ml \<noteq> 0)"
proof -
  have a: "alloc rb \<noteq> 0" using assms by (auto simp: rb_wf_def)
  then have "unat s mod unat (alloc rb) < unat (alloc rb)" by (simp add: unat_gt_0)
  then have "unat (alloc rb - size_t (s mod u64 (alloc rb))) = unat (alloc rb) - unat s mod unat (alloc rb)"
    using a by (subst unat_minus_small) (simp_all add: unat_ring_index)
  moreover from this have "alloc rb - size_t (s mod u64 (alloc rb)) \<noteq> 0"
    using \<open>unat s mod unat (alloc rb) < unat (alloc rb)\<close> by (metis less_irrefl unat_0 zero_less_diff)
  ultimately show ?thesis using a assms
    by (simp add: ring_buf_get_ptr_def word_less_nat_alt word_le_nat_alt Let_def unat_ring_index)
qed

lemma read_piece_ok:
  assumes wf: "rb_wf rb" and l: "l \<noteq> 0" "unat s + unat l \<le> length xs" and xs: "length xs \<le> 2 ^ 62"
    and d: "case d of Some src \<Rightarrow> unat l \<le> length src \<and> take (unat l) src = take (unat l) (drop (unat s) xs)
      | None \<Rightarrow> (\<forall>k. unat s \<le> k \<and> k < unat s + unat l \<longrightarrow> byte_at rb k = Some (xs ! k))"
  shows "read_piece rb d s l = Inr (Some (take (unat l) (drop (unat s) xs), l))"
proof (cases d)
  case (Some src)
  then show ?thesis using d by (simp add: read_piece_def copy_from_def)
next
  case None
  let ?a = "unat (alloc rb)" and ?i = "unat s mod unat (alloc rb)"
  have b: "byte_at rb k = Some (xs ! k)" if "unat s \<le> k" "k < unat s + unat l" for k using d None that by simp
  have l0: "0 < unat l" using l(1) by (simp add: unat_gt_0)
  have win: "unat (ctail_offset rb) \<le> unat s" "unat s + unat l \<le> unat (head_offset rb)"
  proof -
    have "byte_at rb (unat s) \<noteq> None" "byte_at rb (unat s + unat l - 1) \<noteq> None" using b l0 by simp_all
    then show "unat (ctail_offset rb) \<le> unat s" "unat s + unat l \<le> unat (head_offset rb)"
      using l0 by (auto simp: byte_at_def split: if_splits)
  qed
  then have la: "unat l \<le> ?a" using wf by (simp add: rb_wf_def)
  obtain ml where ml: "alloc rb \<noteq> 0" "ring_buf_get_ptr rb s = Inr (Some (?i, ml))" "unat ml = ?a - ?i" "ml \<noteq> 0"
    using get_ptr_window [OF wf win(1)] win(2) l0 by auto
  then have a0: "?a \<noteq> 0" "?i < ?a" by (simp_all add: unat_eq_zero unat_gt_0)
  have cp: "copy_from (drop ?i (storage rb)) m = Inr (take (unat m) (drop (unat s) xs))" if "unat m \<le> ?a - ?i" "unat m \<le> unat l" for m
    using that a0 storage_cells [OF a0(1) wf, of "unat s" "unat m"] cells_are_stream [of "unat s" "unat m" rb xs] b l(2)
    by (simp add: copy_from_def length_storage [OF wf])
  show ?thesis
  proof (cases "ml < l")
    case False
    then have "unat l \<le> ?a - ?i" using ml(3) by (simp add: word_less_nat_alt)
    then show ?thesis using False None ml(2) cp [of l] by (simp add: read_piece_def)
  next
    case True
    define s2 where "s2 = s + u64 ml"
    have ls: "unat ml < unat l" using True by (simp add: word_less_nat_alt)
    have s2: "unat s2 = unat s + unat ml" unfolding s2_def using ls l(2) xs by (subst unat_plus_small) simp_all
    have "unat s2 mod ?a = 0" using mod_fill [of ?a "unat s"] a0 ml(3) s2 by simp
    then obtain ml2 where ml2: "ring_buf_get_ptr rb s2 = Inr (Some (0, ml2))" "unat ml2 = ?a"
      using get_ptr_window [OF wf, of s2] win s2 ls by auto
    have rest: "unat (l - ml) = unat l - unat ml" using ls by (intro unat_minus_small) simp
    have "unat (l - ml) < unat ml2" using rest ml2(2) la l0 unat_gt_0 [of ml] ml(4) by linarith
    then have gt: "l - ml < ml2" by (simp add: word_less_nat_alt)
    have "copy_from (drop 0 (storage rb)) (l - ml) = Inr (take (unat (l - ml)) (drop (unat s2) xs))"
      using storage_cells [OF a0(1) wf, of "unat s2" "unat (l - ml)"] cells_are_stream [of "unat s2" "unat (l - ml)" rb xs] b l(2)
        \<open>unat s2 mod ?a = 0\<close> rest la ls s2 by (simp add: copy_from_def length_storage [OF wf])
    then have "read_piece rb d s l = Inr (Some (take (unat ml) (drop (unat s) xs) @ take (unat (l - ml)) (drop (unat s2) xs), ml + (l - ml)))"
      using None True ml(2) cp [of ml] ml(3) ls ml2(1) gt by (simp add: read_piece_def s2_def)
    moreover have "take (unat ml) (drop (unat s) xs) @ take (unat (l - ml)) (drop (unat s2) xs) = take (unat l) (drop (unat s) xs)"
      using take_add [of "unat ml" "unat l - unat ml" "drop (unat s) xs"] ls by (simp add: rest s2 add.commute)
    ultimately show ?thesis by simp
  qed
qed

text \<open>What an iterator looks at: the position after the frame it points to, and the frames from there on.\<close>

definition iter_at :: "sframe_list \<Rightarrow> sf_iter \<Rightarrow> 64 word \<Rightarrow> sframe list \<Rightarrow> bool" where
  "iter_at fl iter s sfs \<longleftrightarrow> (case iter of None \<Rightarrow> s = fl_offset fl \<and> sfs = frames fl | Some it \<Rightarrow> s = fend (hd it) \<and> sfs = tl it)"

lemma peek_at:
  assumes "iter_at fl iter s sfs"
  shows "ossl_sframe_list_peek fl iter =
    (case sfs of
       [] \<Rightarrow> (False, None, rng s s, None, fl_fin fl)
     | sf # rest \<Rightarrow>
         if fstart sf > s \<or> \<not> s < fend sf then (False, None, rng s s, None, False)
         else (True, Some (sf # rest), rng s (fend sf), map_option (drop (unat (s - fstart sf))) (fdata sf),
               if rest = [] then fl_fin fl else False))"
  using assms by (auto simp: ossl_sframe_list_peek_def iter_at_def split: option.splits)

definition ends_at :: "nat \<Rightarrow> sframe list \<Rightarrow> nat" where
  "ends_at n sfs = (if sfs = [] then n else unat (fend (last sfs)))"

lemma reach_ends: "sf_sorted sfs \<Longrightarrow> \<forall>f \<in> set sfs. n < unat (fend f) \<Longrightarrow> n \<le> reach n sfs \<and> reach n sfs \<le> ends_at n sfs"
proof (induction sfs arbitrary: n)
  case (Cons f sfs)
  have "\<forall>g \<in> set sfs. unat (fend f) < unat (fend g)" using Cons.prems(1) by (auto simp: sf_sorted_Cons word_less_nat_alt)
  then have "unat (fend f) \<le> reach (unat (fend f)) sfs \<and> reach (unat (fend f)) sfs \<le> ends_at (unat (fend f)) sfs"
    using Cons.IH Cons.prems(1) by (simp add: sf_sorted_Cons)
  moreover have "n < unat (fend (last (f # sfs)))" using Cons.prems(2) by (metis last_in_set list.discI)
  ultimately show ?case using Cons.prems(2) by (auto simp: ends_at_def)
qed (simp add: ends_at_def)

text \<open>The part of a frame from a position in it on.\<close>

lemma frame_stored:
  "frame_ok st xs off f \<Longrightarrow> fdata f = None \<Longrightarrow> unat (fstart f) \<le> k \<Longrightarrow> off \<le> k \<Longrightarrow> k < unat (fend f) \<Longrightarrow> st k = Some (xs ! k)"
  by (simp add: frame_ok_def)

lemma frame_piece:
  assumes wf: "rb_wf rb" and ok: "frame_ok (byte_at rb) xs off sf" and s: "unat (fstart sf) \<le> unat s" "off \<le> unat s" "unat s < unat (fend sf)"
    and l: "l \<noteq> 0" "unat l \<le> unat (fend sf) - unat s" and xs: "length xs \<le> 2 ^ 62"
  shows "read_piece rb (map_option (drop (unat (s - fstart sf))) (fdata sf)) s l = Inr (Some (take (unat l) (drop (unat s) xs), l))"
proof (rule read_piece_ok [OF wf l(1) _ xs])
  have e: "unat (fend sf) \<le> length xs" using ok by (simp add: frame_ok_def)
  then show "unat s + unat l \<le> length xs" using l(2) s(3) by simp
  have df: "unat (s - fstart sf) = unat s - unat (fstart sf)" using s(1) by (rule unat_minus_small)
  show "case map_option (drop (unat (s - fstart sf))) (fdata sf) of
      Some src \<Rightarrow> unat l \<le> length src \<and> take (unat l) src = take (unat l) (drop (unat s) xs)
    | None \<Rightarrow> \<forall>k. unat s \<le> k \<and> k < unat s + unat l \<longrightarrow> byte_at rb k = Some (xs ! k)"
  proof (cases "fdata sf")
    case None
    then show ?thesis using frame_stored [OF ok None] s l(2) by auto
  next
    case (Some d)
    then have "d = take (unat (fend sf) - unat (fstart sf)) (drop (unat (fstart sf)) xs)" using ok by (simp add: frame_ok_def)
    then have "drop (unat (s - fstart sf)) d = take (unat (fend sf) - unat s) (drop (unat s) xs)"
      using s by (simp add: df drop_take)
    moreover from this have "length (drop (unat (s - fstart sf)) d) = unat (fend sf) - unat s" using e by simp
    ultimately show ?thesis using Some l(2) by (simp add: min_def)
  qed
qed

lemma frame_length:
  assumes wf: "rb_wf rb" and ok: "frame_ok (byte_at rb) xs off sf" and s: "unat (fstart sf) \<le> unat s" "off \<le> unat s" "unat s < unat (fend sf)"
  shows "unat (size_t (fend sf - s)) = unat (fend sf) - unat s"
proof -
  have df: "unat (fend sf - s) = unat (fend sf) - unat s" using s(3) by (intro unat_minus_small) simp
  have "unat (fend sf) - unat s < 2 ^ 32"
  proof (cases "fdata sf")
    case None
    then have "byte_at rb (unat s) \<noteq> None" "byte_at rb (unat (fend sf) - 1) \<noteq> None" using frame_stored [OF ok None, of "unat s"] frame_stored [OF ok None, of "unat (fend sf) - 1"] s by simp_all
    then have "unat (ctail_offset rb) \<le> unat s" "unat (fend sf) \<le> unat (head_offset rb)" using s(3) by (auto simp: byte_at_def split: if_splits)
    then show ?thesis using rb_wf_offsets(3) [OF wf] unat_word32_less [of "alloc rb"] by linarith
  next
    case (Some d)
    then have "unat (fend sf) - unat (fstart sf) < 2 ^ 32" using ok by (simp add: frame_ok_def)
    then show ?thesis using s(1) by linarith
  qed
  then show ?thesis using df by (simp add: unat_size_t)
qed

lemma read_loop_frame:
  assumes pk: "ossl_sframe_list_peek fl iter = (True, it, rg, d, f0)"
    and lf: "(l, f) = (if size_t (end rg - start rg) > sz then (sz, False) else (size_t (end rg - start rg), f0))"
  shows "l = 0 \<Longrightarrow> read_loop rb fl iter sz buf n off0 = Inr (Some (buf, n, start rg + u64 l, f))"
    and "l \<noteq> 0 \<Longrightarrow> read_piece rb d (start rg) l = Inr (Some (b, k)) \<Longrightarrow> read_loop rb fl iter sz buf n off0 =
      (if sz - k = 0 then Inr (Some (buf @ b, n + k, start rg + u64 l, f)) else read_loop rb fl it (sz - k) (buf @ b) (n + k) (start rg + u64 l))"
  unfolding read_loop.simps [of rb fl iter sz] pk by (simp_all add: Let_def lf [symmetric] del: if_split)

lemma read_loop_spec:
  assumes "rb_wf rb" and "length xs \<le> 2 ^ 62" and "iter_at fl iter s sfs" and "sf_sorted sfs" and "\<forall>f \<in> set sfs. unat s < unat (fend f)"
    and "off \<le> unat s" and "\<forall>f \<in> set sfs. frame_ok (byte_at rb) xs off f"
  shows "let bs = take (unat sz) (take (reach (unat s) sfs - unat s) (drop (unat s) xs))
    in \<exists>o'. read_loop rb fl iter sz buf n off0 = Inr (Some (buf @ bs, n + of_nat (length bs), o',
         fl_fin fl \<and> reach (unat s) sfs = ends_at (unat s) sfs \<and> reach (unat s) sfs - unat s \<le> unat sz)) \<and>
       (if reach (unat s) sfs = unat s then o' = off0 else unat o' = unat s + length bs)"
  using assms
proof (induction sfs arbitrary: iter s sz buf n off0)
  case Nil
  then show ?case by (simp add: read_loop.simps [of rb fl iter] peek_at ends_at_def)
next
  case (Cons sf sfs)
  have srt: "\<forall>g \<in> set sfs. unat (fend sf) < unat (fend g)" "sf_sorted sfs" using Cons.prems(4) by (auto simp: sf_sorted_Cons word_less_nat_alt)
  have lt: "unat s < unat (fend sf)" and ok: "frame_ok (byte_at rb) xs off sf" using Cons.prems(5,7) by simp_all
  note pk = peek_at [OF Cons.prems(3)]
  show ?case
  proof (cases "unat (fstart sf) \<le> unat s")
    case False
    have "unat s < unat (fend (last (sf # sfs)))" using Cons.prems(5) by (metis last_in_set list.discI)
    then have "unat s \<noteq> ends_at (unat s) (sf # sfs)" by (simp add: ends_at_def)
    then show ?thesis using False by (simp add: read_loop.simps [of rb fl iter] pk word_less_nat_alt)
  next
    case True
    let ?L = "unat (fend sf) - unat s" and ?R = "reach (unat (fend sf)) sfs"
    define l where "l = (if size_t (fend sf - s) > sz then sz else size_t (fend sf - s))"
    have len: "unat (size_t (fend sf - s)) = ?L" by (rule frame_length [OF Cons.prems(1) ok True Cons.prems(6) lt])
    then have l: "unat l = min ?L (unat sz)" "sz < size_t (fend sf - s) \<longleftrightarrow> unat sz < ?L" by (auto simp: l_def word_less_nat_alt)
    have R: "reach (unat s) (sf # sfs) = ?R" "unat (fend sf) \<le> ?R" "?R \<le> ends_at (unat (fend sf)) sfs"
      using True lt reach_ends [OF srt(2,1)] by simp_all
    have el: "unat (fend sf) \<le> length xs" using ok by (simp add: frame_ok_def)
    have ea: "ends_at (unat s) (sf # sfs) = ends_at (unat (fend sf)) sfs" by (simp add: ends_at_def)
    define f where "f = (if sz < size_t (fend sf - s) then False else if sfs = [] then fl_fin fl else False)"
    define o1 where "o1 = s + u64 l"
    have o1: "unat o1 = unat s + unat l" unfolding o1_def
      using l(1) el Cons.prems(2) lt by (subst unat_plus_small) simp_all
    have pt: "ossl_sframe_list_peek fl iter = (True, Some (sf # sfs), rng s (fend sf), map_option (drop (unat (s - fstart sf))) (fdata sf),
        if sfs = [] then fl_fin fl else False)"
      using True lt by (simp add: pk word_less_nat_alt)
    have lf: "(l, f) = (if size_t (end (rng s (fend sf)) - start (rng s (fend sf))) > sz then (sz, False)
        else (size_t (end (rng s (fend sf)) - start (rng s (fend sf))), if sfs = [] then fl_fin fl else False))"
      by (simp add: l_def f_def)
    note step0 = read_loop_frame(1) [OF pt lf, unfolded uint_range.simps, folded o1_def]
      and step1 = read_loop_frame(2) [OF pt lf, unfolded uint_range.simps, folded o1_def]
    show ?thesis
    proof (cases "l = 0")
      case zero: True
      then have "unat sz = 0" using l(1) lt by (simp add: min_def split: if_splits)
      then show ?thesis using step0 [OF zero] zero o1 R lt l by (simp add: Let_def f_def)
    next
      case nz: False
      have ll: "unat l \<le> ?L" using l(1) by simp
      define b where "b = take (unat l) (drop (unat s) xs)"
      have lb: "length b = unat l" using el ll lt by (simp add: b_def)
      have run: "read_loop rb fl iter sz buf n off0 =
          (if sz - l = 0 then Inr (Some (buf @ b, n + l, o1, f)) else read_loop rb fl (Some (sf # sfs)) (sz - l) (buf @ b) (n + l) o1)"
        unfolding b_def by (rule step1 [OF nz frame_piece [OF Cons.prems(1) ok True Cons.prems(6) lt nz ll Cons.prems(2)]])
      show ?thesis
      proof (cases "unat sz \<le> ?L")
        case le: True
        then have "l = sz" using l(1) by (simp add: word_unat_eq_iff min_def)
        moreover have "take (unat sz) (take (?R - unat s) (drop (unat s) xs)) = b" using le R(2) \<open>l = sz\<close> by (simp add: b_def min_def)
        moreover have "f \<longleftrightarrow> fl_fin fl \<and> ?R = ends_at (unat (fend sf)) sfs \<and> ?R - unat s \<le> unat sz"
        proof -
          have "sfs \<noteq> [] \<Longrightarrow> unat (fend sf) < ends_at (unat (fend sf)) sfs" using srt(1) by (simp add: ends_at_def)
          moreover have "ends_at (unat (fend sf)) [] = unat (fend sf)" by (simp add: ends_at_def)
          ultimately show ?thesis using l(2) le R(2,3) lt by (cases "sfs = []") (auto simp: f_def)
        qed
        ultimately show ?thesis using run R(1) R(2) lt o1 lb ea by (simp add: Let_def)
      next
        case gt: False
        then have lL: "unat l = ?L" using l(1) by simp
        have sl: "unat (sz - l) = unat sz - ?L" using gt lL by (subst unat_minus_small) simp_all
        then have "sz - l \<noteq> 0" using gt by (metis linorder_not_le unat_0 diff_is_0_eq)
        then have run2: "read_loop rb fl iter sz buf n off0 = read_loop rb fl (Some (sf # sfs)) (sz - l) (buf @ b) (n + l) o1" using run by simp
        have "iter_at fl (Some (sf # sfs)) (fend sf) sfs" by (simp add: iter_at_def)
        note IH = Cons.IH [OF Cons.prems(1,2) this srt(2,1), of "sz - l" "buf @ b" "n + l" o1]
        define bs where "bs = take (unat (sz - l)) (take (?R - unat (fend sf)) (drop (unat (fend sf)) xs))"
        obtain o' where o': "read_loop rb fl iter sz buf n off0 = Inr (Some ((buf @ b) @ bs, (n + l) + of_nat (length bs), o',
            fl_fin fl \<and> ?R = ends_at (unat (fend sf)) sfs \<and> ?R - unat (fend sf) \<le> unat (sz - l)))"
          "if ?R = unat (fend sf) then o' = o1 else unat o' = unat (fend sf) + length bs"
          using IH Cons.prems(6,7) lt unfolding Let_def bs_def [symmetric] run2 by auto
        have bs: "b @ bs = take (unat sz) (take (?R - unat s) (drop (unat s) xs))"
        proof -
          have "take ?L (drop (unat s) xs) @ take (m - ?L) (drop ?L (drop (unat s) xs)) = take m (drop (unat s) xs)" if "?L \<le> m" for m
            using take_add [of ?L "m - ?L" "drop (unat s) xs"] that by simp
          from this [of "min (unat sz) (?R - unat s)"] show ?thesis using gt R(2) lt
            by (simp add: b_def bs_def lL sl min_diff [symmetric] diff_diff_left)
        qed
        have nl: "(n + l) + of_nat (length bs) = n + of_nat (length (b @ bs))" using lb by (simp add: of_nat_unat_id)
        have fi: "?R - unat (fend sf) \<le> unat (sz - l) \<longleftrightarrow> ?R - unat s \<le> unat sz" using sl gt R(2) lt by auto
        have oo: "unat o' = unat s + length (b @ bs)" using o'(2) o1 lL lb lt by (auto simp: bs_def split: if_splits)
        show ?thesis unfolding R(1) ea bs [symmetric] Let_def using o'(1) nl fi oo R(2) lt by auto
      qed
    qed
  qed
qed

section \<open>The stream in the receiver\<close>

text \<open>
  \<open>xs\<close> are the bytes the peer has put into the stream. Every frame carries its part of them, in its packet or, from the read offset on, in the ring
  buffer, whose culled part ends at the read offset. When the end of the stream is known it is the end of the last frame. A record
  that has been handed out starts at the read offset and lies in what can be read.
\<close>

definition rs_inv :: "8 word list \<Rightarrow> quic_rstream \<Rightarrow> bool" where
  "rs_inv xs q \<longleftrightarrow> sf_inv (rs_fl q) \<and> rb_wf (rbuf q) \<and> ctail_offset (rbuf q) = fl_offset (rs_fl q) \<and>
     length xs \<le> 2 ^ 62 \<and> unat (fl_offset (rs_fl q)) \<le> length xs \<and>
     (\<forall>f \<in> set (frames (rs_fl q)). frame_ok (byte_at (rbuf q)) xs (unat (fl_offset (rs_fl q))) f) \<and>
     (fl_fin (rs_fl q) \<longrightarrow> unat (tail_end (fl_offset (rs_fl q)) (frames (rs_fl q))) = length xs) \<and>
     (head_locked (rs_fl q) \<longrightarrow> start (head_range q) = fl_offset (rs_fl q) \<and> start (head_range q) < end (head_range q) \<and>
        unat (end (head_range q)) \<le> reach (unat (fl_offset (rs_fl q))) (frames (rs_fl q)))"

abbreviation read_offset :: "quic_rstream \<Rightarrow> nat" where "read_offset q \<equiv> unat (fl_offset (rs_fl q))"

definition readable :: "quic_rstream \<Rightarrow> nat" where
  \<comment> \<open>the end of the bytes that can be read without a gap\<close>
  "readable q = reach (read_offset q) (frames (rs_fl q))"

definition got :: "quic_rstream \<Rightarrow> nat set" where
  \<comment> \<open>the bytes that have been received\<close>
  "got q = {..<read_offset q} \<union> unat ` cov (frames (rs_fl q))"

lemma ends_tail: "ends_at (unat off) fs = unat (tail_end off fs)"
  by (simp add: ends_at_def tail_end_def)

lemma rs_invD:
  assumes "rs_inv xs q"
  shows "sf_inv (rs_fl q)" "rb_wf (rbuf q)" "ctail_offset (rbuf q) = fl_offset (rs_fl q)" "length xs \<le> 2 ^ 62" "read_offset q \<le> length xs"
    "\<forall>f \<in> set (frames (rs_fl q)). frame_ok (byte_at (rbuf q)) xs (read_offset q) f"
    "fl_fin (rs_fl q) \<longrightarrow> unat (tail_end (fl_offset (rs_fl q)) (frames (rs_fl q))) = length xs"
    "head_locked (rs_fl q) \<longrightarrow> start (head_range q) = fl_offset (rs_fl q) \<and> start (head_range q) < end (head_range q) \<and>
        unat (end (head_range q)) \<le> readable q"
    "sf_sorted (frames (rs_fl q))" "\<forall>f \<in> set (frames (rs_fl q)). read_offset q < unat (fend f)"
  using assms unfolding rs_inv_def sf_inv_def readable_def word_less_nat_alt by blast+

text \<open>What can be read is determined by what has been received: it ends at the first byte that is missing.\<close>

lemma readable_first_gap:
  assumes "rs_inv xs q"
  shows "read_offset q \<le> readable q" "{..<readable q} \<subseteq> got q" "readable q \<notin> got q" "readable q \<le> unat (tail_end (fl_offset (rs_fl q)) (frames (rs_fl q)))"
    "unat (tail_end (fl_offset (rs_fl q)) (frames (rs_fl q))) \<le> length xs"
proof -
  note inv = rs_invD [OF assms]
  have r: "read_offset q \<le> readable q" "\<forall>v. read_offset q \<le> unat v \<and> unat v < readable q \<longrightarrow> v \<in> cov (frames (rs_fl q))"
    "\<forall>v \<in> cov (frames (rs_fl q)). unat v \<noteq> readable q"
    using reach_covered [OF inv(9,10)] by (simp_all add: readable_def)
  show "read_offset q \<le> readable q" by (fact r(1))
  have e: "readable q \<le> unat (tail_end (fl_offset (rs_fl q)) (frames (rs_fl q)))"
    using reach_ends [OF inv(9,10)] by (simp add: readable_def ends_tail)
  then show "readable q \<le> unat (tail_end (fl_offset (rs_fl q)) (frames (rs_fl q)))" .
  show "readable q \<notin> got q" using r(1,3) by (auto simp: got_def)
  show "{..<readable q} \<subseteq> got q"
  proof
    fix k assume "k \<in> {..<readable q}"
    then have k: "k < readable q" by simp
    then have u: "unat (of_nat k :: 64 word) = k" using e unat_word64_less [of "tail_end (fl_offset (rs_fl q)) (frames (rs_fl q))"]
      by (intro unat_of_nat_small) simp
    show "k \<in> got q"
    proof (cases "k < read_offset q")
      case False
      then have "of_nat k \<in> cov (frames (rs_fl q))" using r(2) k u by simp
      then show ?thesis using u by (force simp: got_def)
    qed (simp add: got_def)
  qed
  show "unat (tail_end (fl_offset (rs_fl q)) (frames (rs_fl q))) \<le> length xs"
    using inv(5,6) by (auto simp: tail_end_def frame_ok_def)
qed

lemma first_gap_unique: "{..<a} \<subseteq> A \<Longrightarrow> a \<notin> A \<Longrightarrow> {..<b} \<subseteq> A \<Longrightarrow> b \<notin> A \<Longrightarrow> a = b" for a b :: nat
  by (metis lessThan_iff linorder_neqE_nat subsetD)

lemma first_gap_mono: "{..<a} \<subseteq> A \<Longrightarrow> A \<subseteq> B \<Longrightarrow> b \<notin> B \<Longrightarrow> a \<le> b" for a b :: nat
  by (meson in_mono lessThan_iff linorder_not_le)

section \<open>Every operation keeps the stream\<close>

lemma new_inv:
  assumes "alloc_ok mal" and "ossl_quic_rstream_new mal z c st n = Some (Inr (Some q))" and "length xs \<le> 2 ^ 62"
  shows "rs_inv xs q" "read_offset q = 0" "got q = {}" "\<not> fl_fin (rs_fl q)" "\<not> head_locked (rs_fl q)" "rs_rxfc q = c"
proof -
  have "rb_stream ring_buf_init []" by (simp add: rb_stream_def rb_wf_def ring_buf_init_def)
  then obtain ok rb where rb: "ring_buf_resize mal ring_buf_init n False = Some (Inr (ok, rb))" "rb_stream rb []" "ctail_offset rb = 0"
    using resize_keeps [OF _ assms(1), of ring_buf_init "[]" n False] by (auto simp: ring_buf_init_def)
  have q: "q = \<lparr>rs_fl = ossl_sframe_list_init, rs_rxfc = c, has_statm = st, head_range = rng 0 0, rbuf = rb\<rparr>"
    using assms(2) rb(1) by (auto simp: ossl_quic_rstream_new_def split: if_splits)
  show "rs_inv xs q" using assms(3) rb(2,3)
    by (simp add: q rs_inv_def ossl_sframe_list_init_def sf_inv_def stream_wf)
  show "read_offset q = 0" "got q = {}" "\<not> fl_fin (rs_fl q)" "\<not> head_locked (rs_fl q)" "rs_rxfc q = c"
    by (simp_all add: q ossl_sframe_list_init_def got_def)
qed

text \<open>A frame of the stream: it carries its bytes, and is marked as the last one only if it ends the stream.\<close>

definition carries :: "8 word list \<Rightarrow> bool \<Rightarrow> 64 word \<Rightarrow> 8 word list option \<Rightarrow> 64 word \<Rightarrow> bool \<Rightarrow> bool" where
  "carries xs ended offset d n is_final \<longleftrightarrow> unat offset + unat n \<le> length xs \<and> unat n < 2 ^ 32 \<and>
     (case d of None \<Rightarrow> n = 0 | Some bs \<Rightarrow> bs = take (unat n) (drop (unat offset) xs)) \<and>
     (is_final \<longrightarrow> ended \<and> unat offset + unat n = length xs)"

lemma got_mono_reach:
  assumes "rs_inv xs q" and "rs_inv ys q'" and "got q \<subseteq> got q'"
  shows "readable q \<le> readable q'"
  by (rule first_gap_mono [OF readable_first_gap(2) [OF assms(1)] assms(3) readable_first_gap(3) [OF assms(2)]])

lemma image_cov_interval: "unat ` {a..<b} = {unat a..<unat b}" for a b :: "64 word"
proof -
  have "k \<in> unat ` {a..<b}" if "unat a \<le> k" "k < unat b" for k
    using that unat_word64_less [of b] by (intro image_eqI [of _ _ "of_nat k"]) (auto simp: word_le_nat_alt word_less_nat_alt unat_of_nat_small)
  then show ?thesis by (auto simp: word_le_nat_alt word_less_nat_alt)
qed

text \<open>Without the part about a record that has been handed out, the invariant depends on what can be read only.\<close>

lemma rs_inv_lock:
  assumes "sf_inv (rs_fl q)" "rb_wf (rbuf q)" "ctail_offset (rbuf q) = fl_offset (rs_fl q)" "length xs \<le> 2 ^ 62" "read_offset q \<le> length xs"
    "\<forall>f \<in> set (frames (rs_fl q)). frame_ok (byte_at (rbuf q)) xs (read_offset q) f"
    "fl_fin (rs_fl q) \<longrightarrow> unat (tail_end (fl_offset (rs_fl q)) (frames (rs_fl q))) = length xs"
    and old: "rs_inv ys p" "got p \<subseteq> got q" "head_locked (rs_fl q) \<longrightarrow> head_locked (rs_fl p)" "head_range q = head_range p" "fl_offset (rs_fl q) = fl_offset (rs_fl p)"
  shows "rs_inv xs q"
proof -
  let ?q = "q\<lparr>rs_fl := (rs_fl q)\<lparr>head_locked := False\<rparr>\<rparr>"
  have "rs_inv xs ?q" using assms(1-7) by (simp add: rs_inv_def sf_inv_def)
  moreover have "got ?q = got q" by (simp add: got_def)
  ultimately have "readable p \<le> readable ?q" using got_mono_reach [OF old(1), of xs ?q] old(2) by simp
  then have "readable p \<le> reach (read_offset q) (frames (rs_fl q))" by (simp add: readable_def)
  then show ?thesis unfolding rs_inv_def using assms(1-7) rs_invD(8) [OF old(1)] old(3,4,5) by auto
qed

lemma queue_inv:
  assumes inv: "rs_inv xs q" and c: "carries xs ended offset d n is_final"
  shows "\<exists>ok q'. ossl_quic_rstream_queue_data mem q p offset d n is_final = Inr (ok, q') \<and> rs_inv xs q' \<and>
    ((n \<noteq> 0 \<or> is_final) \<and> mem \<longrightarrow> ok) \<and> rs_rxfc q' = rs_rxfc q \<and> read_offset q' = read_offset q \<and>
    got q' = (if ok then got q \<union> {unat offset..<unat offset + unat n} else got q) \<and>
    fl_fin (rs_fl q') = (fl_fin (rs_fl q) \<or> ok \<and> is_final) \<and>
    head_locked (rs_fl q') = head_locked (rs_fl q) \<and> head_range q' = head_range q"
proof (cases "n = 0 \<and> \<not> is_final")
  case True
  then show ?thesis using inv by (auto simp: ossl_quic_rstream_queue_data_def)
next
  case False
  note i = rs_invD [OF inv]
  let ?rg = "rng offset (offset + n)"
  have e: "unat (offset + n) = unat offset + unat n" using c i(4) by (intro unat_plus_small) (simp add: carries_def)
  have le: "offset \<le> offset + n" using e by (simp add: word_le_nat_alt)
  have "fin_consistent (rs_fl q) ?rg is_final"
    using readable_first_gap(5) [OF inv] i(7) c e
    by (auto simp: fin_consistent_def Let_def word_le_nat_alt tail_end_def carries_def split: if_splits)
  then obtain r where r: "ossl_sframe_list_insert mem (rs_fl q) ?rg p d is_final = Inr r" using insert_runs by blast
  obtain ok fl' where rr: "r = (ok, fl')" by force
  have ins: "sf_inserted mem (rs_fl q) ?rg p d is_final (ok, fl')" using insert_inserted_frames [OF i(1) _ r] le rr by simp
  let ?q = "q\<lparr>rs_fl := fl'\<rparr>"
  have run: "ossl_quic_rstream_queue_data mem q p offset d n is_final = Inr (ok, ?q)"
    using False c r rr by (auto simp: ossl_quic_rstream_queue_data_def carries_def)
  have o: "fl_offset fl' = fl_offset (rs_fl q)" "head_locked fl' = head_locked (rs_fl q)" "sf_inv fl'"
    "set (frames fl') \<subseteq> insert \<lparr>frange = ?rg, pkt = p, fdata = d\<rparr> (set (frames (rs_fl q)))"
    using ins by (simp_all add: sf_inserted_def)
  have nf: "frame_ok (byte_at (rbuf q)) xs off \<lparr>frange = ?rg, pkt = p, fdata = d\<rparr>" for off
    using c e by (auto simp: frame_ok_def carries_def split: option.splits)
  have g: "got ?q = (if ok then got q \<union> {unat offset..<unat offset + unat n} else got q)"
  proof (cases ok)
    case True
    then have "unat ` (cov (frames fl') \<union> {..<fl_offset (rs_fl q)}) = unat ` (cov (frames (rs_fl q)) \<union> {offset..<offset + n} \<union> {..<fl_offset (rs_fl q)})"
      using ins by (simp add: sf_inserted_def)
    moreover have "unat ` {..<fl_offset (rs_fl q)} = {..<read_offset q}"
      using image_cov_interval [of 0 "fl_offset (rs_fl q)"] by (simp add: atLeastLessThan_def lessThan_def atLeast_def word_le_nat_alt)
    ultimately show ?thesis using True o(1) image_cov_interval [of offset "offset + n"] e by (simp add: got_def image_Un Un_ac)
  next
    case False
    then show ?thesis using ins by (simp add: sf_inserted_def got_def)
  qed
  have "rs_inv xs ?q"
  proof (rule rs_inv_lock [OF _ _ _ _ _ _ _ inv])
    show "\<forall>f \<in> set (frames (rs_fl ?q)). frame_ok (byte_at (rbuf ?q)) xs (read_offset ?q) f" using o(4) nf i(6) o(1) by auto
    show "fl_fin (rs_fl ?q) \<longrightarrow> unat (tail_end (fl_offset (rs_fl ?q)) (frames (rs_fl ?q))) = length xs"
    proof (cases ok)
      case True
      then have t: "tail_end (fl_offset (rs_fl q)) (frames fl') = max (tail_end (fl_offset (rs_fl q)) (frames (rs_fl q))) (offset + n)"
        "fl_fin fl' = (is_final \<or> fl_fin (rs_fl q))" using ins by (simp_all add: sf_inserted_def)
      have "unat (tail_end (fl_offset (rs_fl q)) (frames fl')) = max (unat (tail_end (fl_offset (rs_fl q)) (frames (rs_fl q)))) (unat offset + unat n)"
        unfolding t(1) by (simp add: max_def word_le_nat_alt e)
      then show ?thesis using t(2) i(7) readable_first_gap(5) [OF inv] c o(1) by (auto simp: carries_def)
    next
      case False
      then show ?thesis using ins i(7) by (simp add: sf_inserted_def)
    qed
  qed (use i o g in \<open>simp_all\<close>)
  moreover have "ok" if mem using ins that by (auto simp: sf_inserted_def split: if_splits)
  moreover have "fl_fin fl' = (fl_fin (rs_fl q) \<or> ok \<and> is_final)" using ins by (auto simp: sf_inserted_def split: if_splits)
  ultimately show ?thesis using run g o(1,2) by auto
qed

lemma cull_window:
  assumes wf: "rb_wf rb" and m: "unat (ctail_offset rb) \<le> unat m" "0 < unat m" "unat m \<le> 2 ^ 62"
  shows "\<exists>rb'. ring_buf_cpop_range rb 0 (m - 1) cl = Inr rb' \<and> rb_wf rb' \<and> ctail_offset rb' = m \<and>
    (\<forall>k. unat m \<le> k \<and> byte_at rb k \<noteq> None \<longrightarrow> byte_at rb' k = byte_at rb k)"
proof -
  let ?hist = "map (cell rb) [0..<unat (head_offset rb)]"
  have m1: "unat (m - 1) = unat m - 1" using m(2) by (simp add: unat_minus_small)
  have "(0 :: 64 word) \<le> m - 1" "unat (m - 1) < 2 ^ 62" using m1 m by simp_all
  moreover have "unat (ctail_offset rb) \<le> unat (m - 1) + 1" using m1 m by simp
  ultimately obtain rb' where rb': "ring_buf_cpop_range rb 0 (m - 1) cl = Inr rb'"
    "rb_stream rb' (?hist @ replicate (unat (m - 1) + 1 - length ?hist) 0)" "unat (ctail_offset rb') = unat (m - 1) + 1"
    "unat (head_offset rb') = max (length ?hist) (unat (m - 1) + 1)"
    using cpop_range_stream [OF wf_stream [OF wf], of 0 "m - 1" cl] by auto
  have c: "ctail_offset rb' = m" using rb'(3) m1 m(2) by (simp add: word_unat_eq_iff)
  have "byte_at rb' k = byte_at rb k" if k: "unat m \<le> k" "byte_at rb k \<noteq> None" for k
  proof -
    have kh: "k < unat (head_offset rb)" "unat (ctail_offset rb) \<le> k" using k(2) by (auto simp: byte_at_def split: if_splits)
    then have "cell rb' k = (?hist @ replicate (unat (m - 1) + 1 - length ?hist) 0) ! k"
      using rb'(2,4) c k(1) by (simp add: rb_stream_def)
    then show ?thesis using kh k(1) c rb'(4) by (simp add: byte_at_def nth_append)
  qed
  then show ?thesis using rb'(1) c stream_wf [OF rb'(2)] by blast
qed

lemma drop_to:
  assumes inv: "rs_inv xs q" and m: "read_offset q \<le> unat m" "unat m \<le> readable q"
  shows "\<exists>l rb. ossl_sframe_list_drop_frames (rs_fl q) m = (True, l) \<and>
    (if m = 0 then Inr (rbuf q) else ring_buf_cpop_range (rbuf q) 0 (m - 1) (fl_cleanse l)) = Inr rb \<and>
    rs_inv xs (q\<lparr>rs_fl := l, rbuf := rb\<rparr>) \<and> fl_offset l = m \<and> got (q\<lparr>rs_fl := l, rbuf := rb\<rparr>) = got q \<and> fl_fin l = fl_fin (rs_fl q) \<and>
    \<not> head_locked l"
proof -
  note i = rs_invD [OF inv] and gap = readable_first_gap [OF inv]
  let ?fs = "frames (rs_fl q)" and ?P = "\<lambda>sf. fend sf \<le> m"
  have mt: "unat m \<le> unat (tail_end (fl_offset (rs_fl q)) ?fs)" using m(2) gap(4) by linarith
  obtain l where l: "ossl_sframe_list_drop_frames (rs_fl q) m = (True, l)" "sf_inv l" "fl_offset l = m" "frames l = dropWhile ?P ?fs"
    "fl_fin l = fl_fin (rs_fl q)" "\<not> head_locked l"
    using drop_frames_spec [OF i(1), of m] m(1) mt by (auto simp: tail_end_def word_le_nat_alt word_unat_eq_iff split: if_splits)
  have "\<exists>rb. (if m = 0 then Inr (rbuf q) else ring_buf_cpop_range (rbuf q) 0 (m - 1) (fl_cleanse l)) = Inr rb \<and> rb_wf rb \<and> ctail_offset rb = m \<and>
      (\<forall>k. unat m \<le> k \<and> byte_at (rbuf q) k \<noteq> None \<longrightarrow> byte_at rb k = byte_at (rbuf q) k)"
  proof (cases "m = 0")
    case True
    then have "ctail_offset (rbuf q) = m" using m(1) i(3) by (simp add: word_unat_eq_iff)
    then show ?thesis using True i(2) by simp
  next
    case False
    then show ?thesis using cull_window [OF i(2), of m "fl_cleanse l"] m(1) i(3,4) mt gap(5) by (simp add: unat_gt_0)
  qed
  then obtain rb where rb: "(if m = 0 then Inr (rbuf q) else ring_buf_cpop_range (rbuf q) 0 (m - 1) (fl_cleanse l)) = Inr rb" "rb_wf rb" "ctail_offset rb = m"
    "\<forall>k. unat m \<le> k \<and> byte_at (rbuf q) k \<noteq> None \<longrightarrow> byte_at rb k = byte_at (rbuf q) k" by blast
  let ?q = "q\<lparr>rs_fl := l, rbuf := rb\<rparr>"
  have "frame_ok (byte_at rb) xs (unat m) f" if f: "f \<in> set (frames l)" for f
  proof -
    have "frame_ok (byte_at (rbuf q)) xs (read_offset q) f" using f l(4) i(6) set_dropWhileD by metis
    then show ?thesis using m(1) rb(4) by (auto simp: frame_ok_def split: option.splits)
  qed
  moreover have "tail_end m (frames l) = tail_end (fl_offset (rs_fl q)) ?fs"
  proof (cases "dropWhile ?P ?fs = []")
    case True
    then have "tail_end (fl_offset (rs_fl q)) ?fs \<le> m" using m(1) by (auto simp: tail_end_def dropWhile_eq_Nil_conv word_le_nat_alt)
    then show ?thesis using mt True l(4) by (simp add: tail_end_def [of m] word_le_nat_alt word_unat_eq_iff)
  next
    case False
    then have "last (dropWhile ?P ?fs) = last ?fs" by (metis last_appendR takeWhile_dropWhile_id)
    then show ?thesis using False l(4) by (auto simp: tail_end_def)
  qed
  ultimately have rinv: "rs_inv xs ?q" using i l rb mt gap(5) by (simp add: rs_inv_def)
  moreover have "got ?q = got q"
  proof -
    have sp: "cov ?fs = cov (takeWhile ?P ?fs) \<union> cov (frames l)" by (metis cov_simps(3) l(4) takeWhile_dropWhile_id)
    have "unat ` cov (takeWhile ?P ?fs) \<subseteq> {..<unat m}"
      by (auto simp: cov_def word_less_nat_alt word_le_nat_alt dest!: set_takeWhileD intro: order.strict_trans2)
    moreover have "{..<unat m} \<subseteq> got q" using m(2) gap(2) by auto
    ultimately show ?thesis using sp m(1) l(3) by (auto simp: got_def)
  qed
  ultimately show ?thesis using l rb(1) by blast
qed

text \<open>Reading returns the next bytes of the stream, as many as are there without a gap and asked for.\<close>

definition next_bytes :: "8 word list \<Rightarrow> quic_rstream \<Rightarrow> nat \<Rightarrow> 8 word list" where
  "next_bytes xs q k = take k (take (readable q - read_offset q) (drop (read_offset q) xs))"

definition at_end :: "quic_rstream \<Rightarrow> nat \<Rightarrow> bool" where
  \<comment> \<open>the end of the stream is known and everything up to it is among the next \<open>k\<close> bytes\<close>
  "at_end q k \<longleftrightarrow> fl_fin (rs_fl q) \<and> readable q = unat (tail_end (fl_offset (rs_fl q)) (frames (rs_fl q))) \<and> readable q - read_offset q \<le> k"

lemma read_internal_inv:
  assumes inv: "rs_inv xs q"
  shows "\<exists>q'. read_internal q sz drp = Inr (Some (next_bytes xs q (unat sz), of_nat (length (next_bytes xs q (unat sz))), at_end q (unat sz)), q') \<and>
    rs_inv xs q' \<and> got q' = got q \<and> rs_rxfc q' = rs_rxfc q \<and> fl_fin (rs_fl q') = fl_fin (rs_fl q) \<and>
    read_offset q' = read_offset q + (if drp then length (next_bytes xs q (unat sz)) else 0) \<and> (\<not> drp \<longrightarrow> q' = q) \<and> (q' = q \<or> \<not> head_locked (rs_fl q'))"
proof -
  note i = rs_invD [OF inv] and gap = readable_first_gap [OF inv]
  let ?bs = "next_bytes xs q (unat sz)"
  have it: "iter_at (rs_fl q) None (fl_offset (rs_fl q)) (frames (rs_fl q))" by (simp add: iter_at_def)
  obtain m where m: "read_loop (rbuf q) (rs_fl q) None sz [] 0 0 = Inr (Some (?bs, of_nat (length ?bs), m, at_end q (unat sz)))"
    "if readable q = read_offset q then m = 0 else unat m = read_offset q + length ?bs"
    using read_loop_spec [OF i(2,4) it i(9,10) order_refl i(6), of sz "[]" 0 0]
    by (auto simp: next_bytes_def at_end_def readable_def ends_tail Let_def)
  have lb: "length ?bs \<le> readable q - read_offset q" by (simp add: next_bytes_def)
  show ?thesis
  proof (cases "drp \<and> m \<noteq> 0")
    case False
    then have "read_internal q sz drp = Inr (Some (?bs, of_nat (length ?bs), at_end q (unat sz)), q)" using m(1) by (auto simp: read_internal_def)
    moreover have "drp \<Longrightarrow> length ?bs = 0" using False m(2) lb by (auto split: if_splits)
    ultimately show ?thesis using inv by auto
  next
    case True
    then have um: "unat m = read_offset q + length ?bs" using m(2) by (auto split: if_splits)
    then have "read_offset q \<le> unat m" "unat m \<le> readable q" using lb gap(1) by linarith+
    then obtain l rb where d: "ossl_sframe_list_drop_frames (rs_fl q) m = (True, l)" "ring_buf_cpop_range (rbuf q) 0 (m - 1) (fl_cleanse l) = Inr rb"
      "rs_inv xs (q\<lparr>rs_fl := l, rbuf := rb\<rparr>)" "fl_offset l = m" "got (q\<lparr>rs_fl := l, rbuf := rb\<rparr>) = got q" "fl_fin l = fl_fin (rs_fl q)"
      "\<not> head_locked l"
      using drop_to [OF inv, of m] True by auto
    have "read_internal q sz drp = Inr (Some (?bs, of_nat (length ?bs), at_end q (unat sz)), q\<lparr>rs_fl := l, rbuf := rb\<rparr>)"
      using m(1) True d(1,2) by (simp add: read_internal_def)
    then show ?thesis using d um True by auto
  qed
qed

lemma avail_loop_spec:
  assumes "iter_at fl iter s sfs" and "sf_sorted sfs" and "\<forall>f \<in> set sfs. unat s < unat (fend f)"
  shows "avail_loop fl iter a = (a + of_nat (reach (unat s) sfs - unat s), fl_fin fl \<and> reach (unat s) sfs = ends_at (unat s) sfs)"
  using assms
proof (induction sfs arbitrary: iter s a)
  case Nil
  then show ?case by (simp add: avail_loop.simps [of fl iter] peek_at ends_at_def)
next
  case (Cons sf sfs)
  note pk = peek_at [OF Cons.prems(1)]
  have srt: "sf_sorted sfs" "\<forall>g \<in> set sfs. unat (fend sf) < unat (fend g)" using Cons.prems(2) by (auto simp: sf_sorted_Cons word_less_nat_alt)
  have lt: "unat s < unat (fend sf)" using Cons.prems(3) by simp
  have la: "unat s < unat (fend (last (sf # sfs)))" using Cons.prems(3) by (metis last_in_set list.discI)
  show ?case
  proof (cases "unat (fstart sf) \<le> unat s")
    case False
    then show ?thesis using la by (simp add: avail_loop.simps [of fl iter] pk word_less_nat_alt ends_at_def)
  next
    case True
    have "iter_at fl (Some (sf # sfs)) (fend sf) sfs" by (simp add: iter_at_def)
    from Cons.IH [OF this srt, of "a + (fend sf - s)"]
    have "avail_loop fl iter a = (a + (fend sf - s) + of_nat (reach (unat (fend sf)) sfs - unat (fend sf)),
        fl_fin fl \<and> reach (unat (fend sf)) sfs = ends_at (unat (fend sf)) sfs)"
      using True lt by (subst avail_loop.simps) (simp add: pk word_less_nat_alt)
    moreover have "(fend sf - s) + of_nat (reach (unat (fend sf)) sfs - unat (fend sf)) = of_nat (reach (unat (fend sf)) sfs - unat s)"
    proof -
      have "unat (fend sf) \<le> reach (unat (fend sf)) sfs" using reach_ends [OF srt] by simp
      then have "reach (unat (fend sf)) sfs - unat s = (unat (fend sf) - unat s) + (reach (unat (fend sf)) sfs - unat (fend sf))" using lt by simp
      moreover have "of_nat (unat (fend sf) - unat s) = fend sf - s" using lt by (simp add: of_nat_diff)
      ultimately show ?thesis by simp
    qed
    ultimately show ?thesis using True lt by (simp add: ends_at_def add.assoc)
  qed
qed

lemma available_inv:
  assumes inv: "rs_inv xs q"
  shows "ossl_quic_rstream_available q = (of_nat (min (readable q - read_offset q) (2 ^ 32 - 1)), at_end q (readable q))"
proof -
  note i = rs_invD [OF inv] and gap = readable_first_gap [OF inv]
  have "iter_at (rs_fl q) None (fl_offset (rs_fl q)) (frames (rs_fl q))" by (simp add: iter_at_def)
  from avail_loop_spec [OF this i(9,10), of 0]
  have a: "avail_loop (rs_fl q) None 0 = (of_nat (readable q - read_offset q), at_end q (readable q))"
    by (simp add: readable_def at_end_def ends_tail)
  have u: "unat (of_nat (readable q - read_offset q) :: 64 word) = readable q - read_offset q"
    using gap(4,5) i(4) by (intro unat_of_nat_small) simp
  have mx: "unat (MAXU :: 32 word) = 2 ^ 32 - 1" by (simp add: unsigned_minus_1_eq_mask mask_eq_exp_minus_1)
  show ?thesis
  proof (cases "readable q - read_offset q \<le> 2 ^ 32 - 1")
    case True
    then have "(size_t (of_nat (readable q - read_offset q)) :: 32 word) = of_nat (readable q - read_offset q)"
      by (simp add: word_unat_eq_iff unat_size_t u unat_of_nat_small)
    then show ?thesis using True a u mx by (simp add: ossl_quic_rstream_available_def word_less_nat_alt min_def)
  next
    case False
    then have "MAXU = (of_nat (2 ^ 32 - 1) :: 32 word)" using mx by (simp add: word_unat_eq_iff)
    then show ?thesis using False a u mx by (simp add: ossl_quic_rstream_available_def word_less_nat_alt min_def)
  qed
qed

text \<open>A record is the beginning of what can be read.\<close>

lemma record_inv:
  assumes inv: "rs_inv xs q"
  shows "\<exists>r f q'. ossl_quic_rstream_get_record q = Inr (True, Some r, f, q') \<and> rs_inv xs q' \<and> got q' = got q \<and>
    fl_offset (rs_fl q') = fl_offset (rs_fl q) \<and> fl_fin (rs_fl q') = fl_fin (rs_fl q) \<and>
    (if head_locked (rs_fl q) then q' = q \<and> r = (None, 0)
     else if readable q = read_offset q then \<not> head_locked (rs_fl q') \<and> r = (None, 0) \<and> f = Some (at_end q 0)
     else \<exists>src len. r = (Some src, len) \<and> head_locked (rs_fl q') \<and> len \<noteq> 0 \<and> unat (end (head_range q')) = read_offset q + unat len \<and>
       unat len \<le> length src \<and> take (unat len) src = take (unat len) (drop (read_offset q) xs))"
proof -
  note i = rs_invD [OF inv] and gap = readable_first_gap [OF inv]
  let ?o = "fl_offset (rs_fl q)" and ?fs = "frames (rs_fl q)"
  have "iter_at (rs_fl q) None ?o ?fs" by (simp add: iter_at_def)
  note pk = peek_at [OF this]
  consider (locked) "head_locked (rs_fl q)" | (empty) "\<not> head_locked (rs_fl q)" "?fs = []"
    | (gap) sf rest where "\<not> head_locked (rs_fl q)" "?fs = sf # rest" "?o < fstart sf"
    | (head) sf rest where "\<not> head_locked (rs_fl q)" "?fs = sf # rest" "unat (fstart sf) \<le> unat ?o" "unat ?o < unat (fend sf)"
    using i(10) by (metis list.exhaust list.set_intros(1) not_le word_less_nat_alt)
  then show ?thesis
  proof cases
    case locked
    then show ?thesis using inv by (simp add: ossl_quic_rstream_get_record_def ossl_sframe_list_lock_head_def)
  next
    case empty
    then have "ossl_quic_rstream_get_record q = Inr (True, Some (None, 0), Some (fl_fin (rs_fl q)), q\<lparr>head_range := rng ?o ?o\<rparr>)"
      using pk by (simp add: ossl_quic_rstream_get_record_def ossl_sframe_list_lock_head_def Let_def)
    then show ?thesis using inv empty by (auto simp: readable_def at_end_def tail_end_def rs_inv_def got_def)
  next
    case gap
    then have "ossl_quic_rstream_get_record q = Inr (True, Some (None, 0), Some False, q\<lparr>head_range := rng ?o ?o\<rparr>)"
      using pk by (simp add: ossl_quic_rstream_get_record_def ossl_sframe_list_lock_head_def Let_def)
    moreover have "unat ?o < unat (fend (last ?fs))" using i(10) gap(2) by (metis last_in_set list.discI)
    ultimately show ?thesis using inv gap by (auto simp: readable_def at_end_def tail_end_def rs_inv_def got_def word_less_nat_alt)
  next
    case head
    have ok: "frame_ok (byte_at (rbuf q)) xs (read_offset q) sf" using i(6) head(2) by simp
    let ?L = "unat (fend sf) - unat ?o"
    define q1 where "q1 = q\<lparr>rs_fl := (rs_fl q)\<lparr>head_locked := True\<rparr>, head_range := rng ?o (fend sf)\<rparr>"
    have len: "unat (size_t (fend sf - ?o)) = ?L" by (rule frame_length [OF i(2) ok head(3) order_refl head(4)])
    have nz: "size_t (fend sf - ?o) \<noteq> 0" using len head(4) by (metis unat_0 zero_less_diff less_irrefl)
    have ne: "fend sf \<noteq> ?o" using head(4) by auto
    have le: "unat (fend sf) \<le> readable q"
    proof -
      have "sf_sorted rest" "\<forall>g \<in> set rest. unat (fend sf) < unat (fend g)" using i(9) head(2) by (auto simp: sf_sorted_Cons word_less_nat_alt)
      then show ?thesis using reach_ends [of rest "unat (fend sf)"] head by (simp add: readable_def)
    qed
    have lock: "rs_inv xs (q1\<lparr>head_range := rng ?o e\<rparr>)" if "unat ?o < unat e" "unat e \<le> unat (fend sf)" for e
      using inv that le by (simp add: rs_inv_def q1_def sf_inv_def readable_def word_less_nat_alt)
    have pt: "ossl_sframe_list_peek (rs_fl q) None = (True, Some (sf # rest), rng ?o (fend sf), map_option (drop (unat (?o - fstart sf))) (fdata sf),
        if rest = [] then fl_fin (rs_fl q) else False)"
      using head pk by (simp add: word_less_nat_alt)
    have rd: "readable q \<noteq> read_offset q" using le head(4) by simp
    show ?thesis
    proof (cases "fdata sf")
      case (Some d)
      have run: "ossl_quic_rstream_get_record q = Inr (True, Some (Some (drop (unat (?o - fstart sf)) d), size_t (fend sf - ?o)),
          Some (if rest = [] then fl_fin (rs_fl q) else False), q1)"
        using head(1) pt Some ne by (simp add: ossl_quic_rstream_get_record_def ossl_sframe_list_lock_head_def Let_def q1_def)
      have "read_piece (rbuf q) (map_option (drop (unat (?o - fstart sf))) (fdata sf)) ?o (size_t (fend sf - ?o)) =
          Inr (Some (take (unat (size_t (fend sf - ?o))) (drop (unat ?o) xs), size_t (fend sf - ?o)))"
        by (rule frame_piece [OF i(2) ok head(3) order_refl head(4) nz _ i(4)]) (simp add: len)
      then have "unat (size_t (fend sf - ?o)) \<le> length (drop (unat (?o - fstart sf)) d)"
        "take (unat (size_t (fend sf - ?o))) (drop (unat (?o - fstart sf)) d) = take (unat (size_t (fend sf - ?o))) (drop (read_offset q) xs)"
        using Some by (auto simp: read_piece_def copy_from_def split: if_splits)
      moreover have "rs_inv xs q1" using lock [of "fend sf"] head(4) by (simp add: q1_def)
      ultimately show ?thesis using run head(1) rd nz len head(4) by (auto simp: q1_def got_def)
    next
      case None
      have st: "byte_at (rbuf q) k = Some (xs ! k)" if "unat ?o \<le> k" "k < unat (fend sf)" for k
        using frame_stored [OF ok None] head(3) that by simp
      have oh: "unat ?o < unat (head_offset (rbuf q))" using st [of "unat ?o"] head(4) by (auto simp: byte_at_def split: if_splits)
      obtain ml where ml: "alloc (rbuf q) \<noteq> 0" "ring_buf_get_ptr (rbuf q) ?o = Inr (Some (unat ?o mod unat (alloc (rbuf q)), ml))"
        "unat ml = unat (alloc (rbuf q)) - unat ?o mod unat (alloc (rbuf q))" "ml \<noteq> 0"
        using get_ptr_window [OF i(2) _ oh] i(3) by auto
      let ?i = "unat ?o mod unat (alloc (rbuf q))"
      define len where "len = (if ml < size_t (fend sf - ?o) then ml else size_t (fend sf - ?o))"
      define q2 where "q2 = q1\<lparr>head_range := rng ?o (?o + u64 len)\<rparr>"
      have ul: "unat len = min (unat ml) ?L" using \<open>unat (size_t (fend sf - ?o)) = ?L\<close> by (auto simp: len_def word_less_nat_alt)
      have fl: "unat (fend sf) \<le> length xs" using ok by (simp add: frame_ok_def)
      have e: "unat (?o + u64 len) = unat ?o + unat len" using ul fl i(4) head(4) by (subst unat_plus_small) simp_all
      have same: "?o + u64 (size_t (fend sf - ?o)) = fend sf"
        using \<open>unat (size_t (fend sf - ?o)) = ?L\<close> head(4) fl i(4) by (simp add: word_unat_eq_iff) (subst unat_plus_small, simp_all)
      have run: "ossl_quic_rstream_get_record q = Inr (True, Some (Some (drop ?i (storage (rbuf q))), len),
          Some (if rest = [] then fl_fin (rs_fl q) else False), q2)"
        using head(1) pt None ne nz ml(2) same
        by (simp add: ossl_quic_rstream_get_record_def ossl_sframe_list_lock_head_def Let_def q1_def q2_def len_def)
      have a0: "unat (alloc (rbuf q)) \<noteq> 0" using ml(1) by (simp add: unat_eq_zero)
      have ia: "?i < unat (alloc (rbuf q))" using a0 by simp
      have "take (unat len) (drop ?i (storage (rbuf q))) = map (cell (rbuf q)) [unat ?o..<unat ?o + unat len]"
        using ul ml(3) ia by (intro storage_cells [OF a0 i(2)]) simp
      also have "\<dots> = take (unat len) (drop (read_offset q) xs)"
        using ul st fl head(4) by (intro cells_are_stream) auto
      finally have bytes: "take (unat len) (drop ?i (storage (rbuf q))) = take (unat len) (drop (read_offset q) xs)" .
      have "unat len \<le> length (drop ?i (storage (rbuf q)))" using ul ml(3) by (simp add: length_storage [OF i(2)])
      moreover have "0 < unat len" using ul ml(4) head(4) by (simp add: unat_gt_0)
      moreover have "rs_inv xs q2" unfolding q2_def by (rule lock) (use e \<open>0 < unat len\<close> ul head(4) in simp_all)
      ultimately show ?thesis using run head(1) rd bytes e by (auto simp: q2_def q1_def got_def)
    qed
  qed
qed

lemma release_inv:
  assumes inv: "rs_inv xs q" and run: "ossl_quic_rstream_release_record now w st q n = Inr (ok, q', w')"
  shows "rs_inv xs q' \<and> got q' = got q \<and> fl_fin (rs_fl q') = fl_fin (rs_fl q) \<and>
    (\<not> ok \<and> q' = q \<or> head_locked (rs_fl q) \<and> \<not> head_locked (rs_fl q') \<and>
      read_offset q' = read_offset q + min (unat n) (unat (end (head_range q)) - read_offset q))"
proof (cases "head_locked (rs_fl q) \<and> (u64 n > end (head_range q) - start (head_range q) \<longrightarrow> n = MAXU)")
  case False
  then have "q' = q \<and> \<not> ok" using run by (auto simp: ossl_quic_rstream_release_record_def ossl_sframe_list_is_head_locked_def Let_def split: if_splits)
  then show ?thesis using inv by simp
next
  case True
  note i = rs_invD [OF inv]
  let ?h = "head_range q"
  have h: "start ?h = fl_offset (rs_fl q)" "unat (start ?h) < unat (end ?h)" "unat (end ?h) \<le> readable q"
    using i(8) True by (auto simp: word_less_nat_alt)
  define m where "m = (if u64 n > end ?h - start ?h then end ?h else start ?h + u64 n)"
  have len: "unat (end ?h - start ?h) = unat (end ?h) - unat (start ?h)" using h(2) by (intro unat_minus_small) simp
  have um: "unat m = read_offset q + min (unat n) (unat (end ?h) - read_offset q)"
  proof (cases "u64 n > end ?h - start ?h")
    case more: True
    then show ?thesis using h len by (simp add: m_def word_less_nat_alt min_def)
  next
    case False
    then have "unat n \<le> unat (end ?h) - unat (start ?h)" using len by (simp add: word_less_nat_alt)
    moreover from this have "unat (start ?h + u64 n) = unat (start ?h) + unat n"
      using unat_word64_less [of "end ?h"] h(2) by (subst unat_plus_small) simp_all
    ultimately show ?thesis using False h(1) by (simp add: m_def min_def)
  qed
  then have "read_offset q \<le> unat m" "unat m \<le> readable q" using h by auto
  then obtain l rb where d: "ossl_sframe_list_drop_frames (rs_fl q) m = (True, l)"
    "(if m = 0 then Inr (rbuf q) else ring_buf_cpop_range (rbuf q) 0 (m - 1) (fl_cleanse l)) = Inr rb"
    "rs_inv xs (q\<lparr>rs_fl := l, rbuf := rb\<rparr>)" "fl_offset l = m" "got (q\<lparr>rs_fl := l, rbuf := rb\<rparr>) = got q" "fl_fin l = fl_fin (rs_fl q)" "\<not> head_locked l"
    using drop_to [OF inv, of m] by blast
  have c: "(if m > 0 then ring_buf_cpop_range (rbuf (q\<lparr>rs_fl := l\<rparr>)) 0 (m - 1) (fl_cleanse l) else Inr (rbuf (q\<lparr>rs_fl := l\<rparr>))) = Inr rb"
    using d(2) by (auto simp: word_neq_0_conv split: if_splits)
  have g: "\<not> (u64 n > end ?h - start ?h \<and> n \<noteq> MAXU)" using True by blast
  have "q' = q\<lparr>rs_fl := l, rbuf := rb\<rparr>"
    using run True c d(1) unfolding ossl_quic_rstream_release_record_def ossl_sframe_list_is_head_locked_def Let_def m_def [symmetric] if_not_P [OF g]
    by (cases "rs_rxfc q") (auto simp: c)
  then show ?thesis using d um True by auto
qed

lemma move_inv:
  assumes inv: "rs_inv xs q"
  shows "\<exists>ok q'. ossl_quic_rstream_move_to_rbuf q = Inr (ok, q') \<and> rs_inv xs q' \<and> got q' = got q \<and> same_list (rs_fl q) (rs_fl q') \<and>
    head_range q' = head_range q"
proof (cases "ring_buf_avail (rbuf q) = 0")
  case True
  then show ?thesis using inv by (auto simp: ossl_quic_rstream_move_to_rbuf_def same_list_def)
next
  case False
  note i = rs_invD [OF inv]
  obtain ok l rb where m: "ossl_sframe_list_move_data write_at_ring_buf_cb (rs_fl q) (rbuf q) = Inr (ok, l, rb)" "rb_wf rb"
    "unat (ctail_offset rb) = unat (ctail_offset (rbuf q))" "same_list (rs_fl q) l" "sf_inv l"
    "\<forall>f \<in> set (frames l). frame_ok (byte_at rb) xs (read_offset q) f" "cov (frames l) = cov (frames (rs_fl q))"
    "frames (rs_fl q) = [] \<longleftrightarrow> frames l = []" "frames (rs_fl q) \<noteq> [] \<longrightarrow> fend (last (frames l)) = fend (last (frames (rs_fl q)))"
    using rs.move_data_ok [OF i(2) _ i(4,1,6)] i(3) by auto
  let ?q = "q\<lparr>rs_fl := l, rbuf := rb\<rparr>"
  have sl: "fl_offset l = fl_offset (rs_fl q)" "fl_fin l = fl_fin (rs_fl q)" "head_locked l = head_locked (rs_fl q)" using m(4) by (simp_all add: same_list_def)
  have g: "got ?q = got q" using m(7) sl(1) by (simp add: got_def)
  have "tail_end (fl_offset (rs_fl q)) (frames l) = tail_end (fl_offset (rs_fl q)) (frames (rs_fl q))" using m(8,9) by (auto simp: tail_end_def)
  moreover have "ctail_offset rb = fl_offset (rs_fl q)" using m(3) i(3) by (simp add: word_unat_eq_iff)
  ultimately have "rs_inv xs ?q" using m(2,5,6) sl g i(4,5,7) by (intro rs_inv_lock [OF _ _ _ _ _ _ _ inv]) simp_all
  then show ?thesis using False m(1,4) g by (auto simp: ossl_quic_rstream_move_to_rbuf_def)
qed

lemma resize_inv:
  assumes inv: "rs_inv xs q" and mal: "alloc_ok mal"
  shows "\<exists>ok q'. ossl_quic_rstream_resize_rbuf mal q n = Some (Inr (ok, q')) \<and> rs_inv xs q' \<and> rs_fl q' = rs_fl q \<and> head_range q' = head_range q"
proof (cases "head_locked (rs_fl q)")
  case True
  then show ?thesis using inv by (auto simp: ossl_quic_rstream_resize_rbuf_def ossl_sframe_list_is_head_locked_def)
next
  case False
  note i = rs_invD [OF inv]
  let ?hist = "map (cell (rbuf q)) [0..<unat (head_offset (rbuf q))]"
  obtain ok rb where r: "ring_buf_resize mal (rbuf q) n (fl_cleanse (rs_fl q)) = Some (Inr (ok, rb))" "rb_stream rb ?hist" "ctail_offset rb = ctail_offset (rbuf q)"
    using resize_keeps [OF wf_stream [OF i(2)] mal] by blast
  have "byte_at rb = byte_at (rbuf q)" using r(2,3) by (auto simp: byte_at_def rb_stream_def fun_eq_iff)
  then have "rs_inv xs (q\<lparr>rbuf := rb\<rparr>)" using inv r(3) stream_wf [OF r(2)] by (auto simp: rs_inv_def)
  then show ?thesis using False r(1) by (simp add: ossl_quic_rstream_resize_rbuf_def ossl_sframe_list_is_head_locked_def)
qed

lemma cleanse_inv: "rs_inv xs q \<Longrightarrow> rs_inv xs (ossl_quic_rstream_set_cleanse q c)"
  by (auto simp: rs_inv_def ossl_quic_rstream_set_cleanse_def sf_inv_def)

section \<open>Runs of a receiver\<close>

text \<open>
  A state of a run: the receiver, the bytes the application has got, the offsets that were received in frames that were accepted, and the bytes of the last
  record that was handed out. \<open>xs\<close> are the bytes of the stream and \<open>ended\<close> tells whether the peer has ended it there. Frames arrive in any order and any number of
  times, allocations may fail, and data is moved to the ring buffer at any time.
\<close>

type_synonym rs_run = "quic_rstream \<times> 8 word list \<times> nat set \<times> 8 word list"

inductive app_step :: "8 word allocator \<Rightarrow> rs_run \<Rightarrow> rs_run \<Rightarrow> bool" for mal where
  read: "ossl_quic_rstream_read now w st q sz = Inr (ok, Some (buf, n, f), q', w') \<Longrightarrow> app_step mal (q, out, R, rec) (q', out @ buf, R, rec)"
| get_record: "ossl_quic_rstream_get_record q = Inr (True, Some (Some src, len), f, q') \<Longrightarrow>
     app_step mal (q, out, R, rec) (q', out, R, take (unat len) src)"
| no_record: "ossl_quic_rstream_get_record q = Inr (True, Some (None, len), f, q') \<Longrightarrow> app_step mal (q, out, R, rec) (q', out, R, rec)"
| release_record: "ossl_quic_rstream_release_record now w st q n = Inr (ok, q', w') \<Longrightarrow>
     app_step mal (q, out, R, rec)
       (q', out @ (if head_locked (rs_fl q) \<and> \<not> head_locked (rs_fl q') then take (unat n) rec else []), R, rec)"
| move_to_rbuf: "ossl_quic_rstream_move_to_rbuf q = Inr (ok, q') \<Longrightarrow> app_step mal (q, out, R, rec) (q', out, R, rec)"
| resize_rbuf: "ossl_quic_rstream_resize_rbuf mal q n = Some (Inr (ok, q')) \<Longrightarrow> app_step mal (q, out, R, rec) (q', out, R, rec)"
| set_cleanse: "app_step mal (q, out, R, rec) (ossl_quic_rstream_set_cleanse q c, out, R, rec)"

inductive rstream_step :: "8 word allocator \<Rightarrow> 8 word list \<Rightarrow> bool \<Rightarrow> rs_run \<Rightarrow> rs_run \<Rightarrow> bool" for mal xs ended where
  queue: "carries xs ended offset d n is_final \<Longrightarrow> ossl_quic_rstream_queue_data mem q p offset d n is_final = Inr (ok, q') \<Longrightarrow>
     rstream_step mal xs ended (q, out, R, rec) (q', out, if ok then R \<union> {unat offset..<unat offset + unat n} else R, rec)"
| app: "app_step mal s s' \<Longrightarrow> rstream_step mal xs ended s s'"

definition run_inv :: "8 word list \<Rightarrow> bool \<Rightarrow> rs_run \<Rightarrow> bool" where
  "run_inv xs ended s \<longleftrightarrow> (case s of (q, out, R, rec) \<Rightarrow> rs_inv xs q \<and> out = take (read_offset q) xs \<and> got q = R \<and> (fl_fin (rs_fl q) \<longrightarrow> ended) \<and>
     (head_locked (rs_fl q) \<longrightarrow> rec = take (unat (end (head_range q)) - read_offset q) (drop (read_offset q) xs)))"

lemma take_drop_add: "take a xs @ take b (drop a xs) = take (a + b) xs"
  by (simp add: take_add)

lemma next_bytes_take: "out = take (read_offset q) xs \<Longrightarrow> read_offset q \<le> length xs \<Longrightarrow>
    out @ next_bytes xs q k = take (read_offset q + length (next_bytes xs q k)) xs"
  by (simp add: next_bytes_def take_add min_def)

lemma run_queue_inv:
  assumes "carries xs ended offset d n is_final" and "ossl_quic_rstream_queue_data mem q p offset d n is_final = Inr (ok, q')"
    and inv: "run_inv xs ended (q, out, R, rec)"
  shows "run_inv xs ended (q', out, if ok then R \<union> {unat offset..<unat offset + unat n} else R, rec)"
proof -
  have i: "rs_inv xs q" using inv by (simp add: run_inv_def)
  show ?thesis using inv queue_inv [OF i assms(1), of mem p] assms(1,2) by (auto simp: run_inv_def carries_def split: if_splits)
qed

lemma app_step_inv: "app_step mal s s' \<Longrightarrow> alloc_ok mal \<Longrightarrow> run_inv xs ended s \<Longrightarrow> run_inv xs ended s'"
proof (induction rule: app_step.induct)
  case (read now w st q sz ok buf n f q' w' out R rec)
  have i: "rs_inv xs q" "out = take (read_offset q) xs" using read.prems by (simp_all add: run_inv_def)
  obtain q1 where q1: "read_internal q sz True = Inr (Some (next_bytes xs q (unat sz), of_nat (length (next_bytes xs q (unat sz))), at_end q (unat sz)), q1)"
    "rs_inv xs q1" "got q1 = got q" "fl_fin (rs_fl q1) = fl_fin (rs_fl q)" "read_offset q1 = read_offset q + length (next_bytes xs q (unat sz))"
    "q1 = q \<or> \<not> head_locked (rs_fl q1)" using read_internal_inv [OF i(1), of sz True] by auto
  have "buf = next_bytes xs q (unat sz)" "q' = q1"
    using read.hyps q1(1) by (auto simp: ossl_quic_rstream_read_def split: option.splits)
  then show ?case using read.prems q1(2-6) next_bytes_take [OF i(2) rs_invD(5) [OF i(1)], of "unat sz"] by (auto simp: run_inv_def)
next
  case (get_record q src len f q' out R rec)
  then show ?case using record_inv [of xs q] by (auto simp: run_inv_def split: if_splits)
next
  case (no_record q len f q' out R rec)
  then show ?case using record_inv [of xs q] by (auto simp: run_inv_def split: if_splits)
next
  case (release_record now w st q n ok q' w' out R rec)
  have i: "rs_inv xs q" "out = take (read_offset q) xs" using release_record.prems by (simp_all add: run_inv_def)
  have "out @ take (unat n) rec = take (read_offset q') xs" if "head_locked (rs_fl q)" "\<not> head_locked (rs_fl q')"
  proof -
    have "rec = take (unat (end (head_range q)) - read_offset q) (drop (read_offset q) xs)" using release_record.prems that(1) by (simp add: run_inv_def)
    moreover have "read_offset q' = read_offset q + min (unat n) (unat (end (head_range q)) - read_offset q)"
      using release_inv [OF i(1) release_record.hyps] that by auto
    ultimately show ?thesis using i(2) by (simp add: take_add)
  qed
  then show ?case using release_record.prems release_inv [OF i(1) release_record.hyps] by (auto simp: run_inv_def)
next
  case (move_to_rbuf q ok q' out R rec)
  then show ?case using move_inv [of xs q] by (auto simp: run_inv_def same_list_def)
next
  case (resize_rbuf q n ok q' out R rec)
  then show ?case using resize_inv [of xs q mal n] by (auto simp: run_inv_def got_def)
next
  case (set_cleanse q out R rec c)
  then show ?case using cleanse_inv [of xs q c] by (auto simp: run_inv_def got_def ossl_quic_rstream_set_cleanse_def)
qed

lemma run_step_inv: "rstream_step mal xs ended s s' \<Longrightarrow> alloc_ok mal \<Longrightarrow> run_inv xs ended s \<Longrightarrow> run_inv xs ended s'"
  by (induction rule: rstream_step.induct) (blast intro: run_queue_inv app_step_inv)+

lemma run_reachable:
  assumes "alloc_ok mal" and "length xs \<le> 2 ^ 62" and "ossl_quic_rstream_new mal z c st n = Some (Inr (Some q0))"
    and "(rstream_step mal xs ended)\<^sup>*\<^sup>* (q0, [], {}, []) s"
  shows "run_inv xs ended s"
  using assms(4)
proof (induction rule: rtranclp_induct)
  case base
  show ?case using new_inv [OF assms(1,3,2)] by (simp add: run_inv_def)
next
  case (step s s')
  then show ?case using run_step_inv [OF step(2) assms(1)] by blast
qed

text \<open>
  C6: a receiver delivers the stream. Frames of a stream arrive in any order, overlapping and repeated, some are refused for lack of memory, their data is moved to
  the ring buffer, the ring buffer is resized, and the application reads, or takes records and releases them in part. Then the application has got a prefix of the
  stream; reading or peeking never fails and returns the bytes that follow, as many as asked for up to the first offset that has
  not been received; the end is reported exactly when the final frame has arrived and everything up to the end is returned; and the number of available bytes is exact.
\<close>
theorem rstream_delivers_stream:
  assumes "alloc_ok mal" and "length xs \<le> 2 ^ 62" and "ossl_quic_rstream_new mal z c st n = Some (Inr (Some q0))"
    and "(rstream_step mal xs ended)\<^sup>*\<^sup>* (q0, [], {}, []) (q, out, R, rec)"
  shows "out = take (length out) xs \<and> (\<exists>g. {..<g} \<subseteq> R \<and> g \<notin> R \<and> length out \<le> g \<and> g \<le> length xs \<and>
    (\<forall>sz drp. \<exists>q'. read_internal q sz drp =
       Inr (let bs = take (unat sz) (take (g - length out) (drop (length out) xs))
            in Some (bs, of_nat (length bs), fl_fin (rs_fl q) \<and> g = length xs \<and> g - length out \<le> unat sz), q')) \<and>
    ossl_quic_rstream_available q = (of_nat (min (g - length out) (2 ^ 32 - 1)), fl_fin (rs_fl q) \<and> g = length xs))"
proof -
  have r: "rs_inv xs q" "out = take (read_offset q) xs" "got q = R" using run_reachable [OF assms] by (simp_all add: run_inv_def)
  note i = rs_invD [OF r(1)] and gap = readable_first_gap [OF r(1)]
  have lo: "length out = read_offset q" using r(2) i(5) by simp
  have ends: "at_end q k \<longleftrightarrow> fl_fin (rs_fl q) \<and> readable q = length xs \<and> readable q - read_offset q \<le> k" for k
    using i(7) by (auto simp: at_end_def)
  have "\<exists>q'. read_internal q sz drp = Inr (let bs = take (unat sz) (take (readable q - length out) (drop (length out) xs))
      in Some (bs, of_nat (length bs), fl_fin (rs_fl q) \<and> readable q = length xs \<and> readable q - length out \<le> unat sz), q')" for sz drp
    using read_internal_inv [OF r(1), of sz drp] by (auto simp: ends next_bytes_def lo Let_def)
  moreover have "ossl_quic_rstream_available q = (of_nat (min (readable q - length out) (2 ^ 32 - 1)), fl_fin (rs_fl q) \<and> readable q = length xs)"
    using available_inv [OF r(1)] by (simp add: ends lo)
  ultimately show ?thesis using r gap lo by (intro conjI exI [of _ "readable q"]) auto
qed

text \<open>Receiving the bytes 1, 2 and 3: the last one arrives first.\<close>

definition sample_alloc :: "8 word allocator" where "sample_alloc n = Some (replicate n 0)"

lemma sample_alloc_correct: "alloc_ok sample_alloc"
  by (simp add: alloc_ok_def sample_alloc_def)

definition sample_rstream :: quic_rstream where
  "sample_rstream = \<lparr>rs_fl = ossl_sframe_list_init, rs_rxfc = None, has_statm = False, head_range = rng 0 0,
     rbuf = \<lparr>rb_start = Some [0, 0, 0, 0], alloc = 4, head_offset = 0, ctail_offset = 0\<rparr>\<rparr>"

lemma sample_rstream_new: "ossl_quic_rstream_new sample_alloc True None False 4 = Some (Inr (Some sample_rstream))"
proof -
  have "ring_buf_resize sample_alloc ring_buf_init 4 False = Some (Inr (True, \<lparr>rb_start = Some [0, 0, 0, 0], alloc = 4, head_offset = 0, ctail_offset = 0\<rparr>))"
    by code_simp
  then show ?thesis by (simp add: ossl_quic_rstream_new_def sample_rstream_def)
qed

lemma sample_rstream_run:
  "\<exists>q. (rstream_step sample_alloc [1, 2, 3] True)\<^sup>*\<^sup>* (sample_rstream, [], {}, []) (q, [], {0..<3}, []) \<and> fl_fin (rs_fl q)"
proof -
  have i0: "rs_inv [1, 2, 3] sample_rstream" using new_inv(1) [OF sample_alloc_correct sample_rstream_new] by simp
  have c1: "carries [1, 2, 3] True 2 (Some [3]) 1 True" and c2: "carries [1, 2, 3] True 0 (Some [1, 2]) 2 False" by (simp_all add: carries_def)
  obtain q1 where q1: "ossl_quic_rstream_queue_data True sample_rstream None 2 (Some [3]) 1 True = Inr (True, q1)" "rs_inv [1, 2, 3] q1" "fl_fin (rs_fl q1)"
    using queue_inv [OF i0 c1, of True None] by auto
  obtain q2 where q2: "ossl_quic_rstream_queue_data True q1 None 0 (Some [1, 2]) 2 False = Inr (True, q2)" "fl_fin (rs_fl q2)"
    using queue_inv [OF q1(2) c2, of True None] q1(3) by auto
  have "rstream_step sample_alloc [1, 2, 3] True (sample_rstream, [], {}, []) (q1, [], {2..<3}, [])"
    using rstream_step.queue [OF c1 q1(1), of sample_alloc "[]" "{}" "[]"] by simp
  moreover have "{2..<3} \<union> {0..<Suc (Suc 0)} = {0..<3 :: nat}" by auto
  then have "rstream_step sample_alloc [1, 2, 3] True (q1, [], {2..<3}, []) (q2, [], {0..<3}, [])"
    using rstream_step.queue [OF c2 q2(1), of sample_alloc "[]" "{2..<3}" "[]"] by simp
  ultimately show ?thesis using q2(2) by (meson converse_rtranclp_into_rtranclp r_into_rtranclp)
qed

theorem rstream_delivers_stream_witness:
  "\<exists>q. (rstream_step sample_alloc [1, 2, 3] True)\<^sup>*\<^sup>* (sample_rstream, [], {}, []) (q, [], {0..<3}, []) \<and>
     (\<exists>q'. read_internal q 10 True = Inr (Some ([1, 2, 3], 3, True), q'))"
proof -
  obtain q where q: "(rstream_step sample_alloc [1, 2, 3] True)\<^sup>*\<^sup>* (sample_rstream, [], {}, []) (q, [], {0..<3}, [])" "fl_fin (rs_fl q)"
    using sample_rstream_run by blast
  have len: "length [1 :: 8 word, 2, 3] \<le> 2 ^ 62" by simp
  obtain g where g: "g \<notin> {0..<3}" "g \<le> length [1 :: 8 word, 2, 3]" "\<forall>sz drp. \<exists>q'. read_internal q sz drp =
       Inr (let bs = take (unat sz) (take (g - length ([] :: 8 word list)) (drop (length ([] :: 8 word list)) [1, 2, 3]))
            in Some (bs, of_nat (length bs), fl_fin (rs_fl q) \<and> g = length [1 :: 8 word, 2, 3] \<and> g - length ([] :: 8 word list) \<le> unat sz), q')"
    using rstream_delivers_stream [OF sample_alloc_correct len sample_rstream_new q(1)] by blast
  have "g = 3" using g(1,2) by simp
  then show ?thesis using q g(3) [rule_format, of 10 True] by auto
qed

text \<open>
  C7: frames of the stream are always taken, and no packet is leaked. In every such state a frame that carries its part of the stream meets the
  assertion on its final size, and is refused only if memory runs out or it is empty and not final; every packet is referenced once for each frame of the list that
  still has it; and when the receiver is freed, all references have been released.
\<close>
theorem rstream_accepts_and_releases:
  assumes "alloc_ok mal" and "length xs \<le> 2 ^ 62" and "ossl_quic_rstream_new mal z c st n = Some (Inr (Some q0))"
    and "(rstream_step mal xs ended)\<^sup>*\<^sup>* (q0, [], {}, []) (q, out, R, rec)"
  shows "(\<forall>mem p offset d k f. carries xs ended offset d k f \<longrightarrow>
      (\<exists>ok q'. ossl_quic_rstream_queue_data mem q p offset d k f = Inr (ok, q') \<and> (mem \<and> (k \<noteq> 0 \<or> f) \<longrightarrow> ok))) \<and>
    (\<forall>k. pkt_refs (rs_fl q) k = length (filter (\<lambda>f. pkt f = Some k) (frames (rs_fl q)))) \<and>
    (\<exists>l cs. ossl_quic_rstream_free (Some q) = Some (l, cs) \<and> pkt_refs l = (\<lambda>_. 0))"
proof -
  have r: "rs_inv xs q" using run_reachable [OF assms] by (simp add: run_inv_def)
  have refs: "pkt_refs (rs_fl q) = refs_of (frames (rs_fl q))" using rs_invD(1) [OF r] by (simp add: sf_inv_def)
  have "pkt_refs (foldl stream_frame_free l fs) = release_all fs (pkt_refs l)" for l fs
    by (induction fs arbitrary: l) (simp_all add: release_all_def stream_frame_free_def)
  then have "pkt_refs (ossl_sframe_list_destroy (rs_fl q)) = (\<lambda>_. 0)"
    using release_all_refs [of "frames (rs_fl q)" "\<lambda>_. 0"] by (simp add: ossl_sframe_list_destroy_def refs)
  then show ?thesis using queue_inv [OF r] refs by (auto simp: ossl_quic_rstream_free_def refs_of_def) blast
qed

theorem rstream_accepts_and_releases_witness:
  "\<exists>q l cs. (rstream_step sample_alloc [1, 2, 3] True)\<^sup>*\<^sup>* (sample_rstream, [], {}, []) (q, [], {0..<3}, []) \<and>
     ossl_quic_rstream_free (Some q) = Some (l, cs) \<and> pkt_refs l = (\<lambda>_. 0)"
proof -
  obtain q where q: "(rstream_step sample_alloc [1, 2, 3] True)\<^sup>*\<^sup>* (sample_rstream, [], {}, []) (q, [], {0..<3}, [])"
    using sample_rstream_run by blast
  from rstream_accepts_and_releases [OF sample_alloc_correct _ sample_rstream_new q] show ?thesis using q by auto
qed

section \<open>Where the code and its documentation differ\<close>

text \<open>A frame that starts where another one does and ends before it is kept beside it, although the list is documented to have no frame that is encompassed by another.\<close>

lemma encompassed_frame_kept:
  "let l = ossl_sframe_list_init\<lparr>frames := [\<lparr>frange = rng 0 4, pkt = None, fdata = Some [1, 2, 3, 4]\<rparr>], num_frames := 1\<rparr>
   in case ossl_sframe_list_insert True l (rng 0 2) None (Some [1, 2]) False of
        Inr (ok, l) \<Rightarrow> ok \<and> map (\<lambda>f. (fstart f, fend f)) (frames l) = [(0, 2), (0, 4)]
      | Inl e \<Rightarrow> False"
  by (simp add: ossl_sframe_list_insert_def insert_before_def stream_frame_new_def ossl_sframe_list_init_def set_fin_def)

text \<open>Insertion frees a frame that is locked: the packet of a record that was handed out loses its reference.\<close>

lemma locked_head_dropped:
  "let l = ossl_sframe_list_init\<lparr>frames := [\<lparr>frange = rng 0 2, pkt = Some 7, fdata = Some [1, 2]\<rparr>], num_frames := 1, head_locked := True,
         pkt_refs := (\<lambda>_. 0)(7 := 1)\<rparr>
   in case ossl_sframe_list_insert True l (rng 0 4) (Some 8) (Some [1, 2, 3, 4]) False of
        Inr (ok, l) \<Rightarrow> ok \<and> head_locked l \<and> pkt_refs l 7 = 0
      | Inl e \<Rightarrow> False"
  by (simp add: ossl_sframe_list_insert_def insert_before_def stream_frame_new_def stream_frame_free_def ossl_sframe_list_init_def set_fin_def
      up_ref_def release_def)

text \<open>A record is cut off at the end of the storage, but still reported as the last one of the stream.\<close>

lemma cut_record_reported_final:
  "let q = \<lparr>rs_fl = ossl_sframe_list_init\<lparr>frames := [\<lparr>frange = rng 3 6, pkt = None, fdata = None\<rparr>], num_frames := 1, fl_fin := True, fl_offset := 3\<rparr>,
         rs_rxfc = None, has_statm = False, head_range = rng 0 0,
         rbuf = \<lparr>rb_start = Some [5, 6, 0, 4], alloc = 4, head_offset = 6, ctail_offset = 3\<rparr>\<rparr>
   in case ossl_quic_rstream_get_record q of
        Inr (ok, Some (Some src, len), f, q) \<Rightarrow> ok \<and> take (unat len) src = [4] \<and> f = Some True
      | _ \<Rightarrow> False"
  by (simp add: ossl_quic_rstream_get_record_def ossl_sframe_list_lock_head_def ossl_sframe_list_peek_def ossl_sframe_list_init_def
      ring_buf_get_ptr_def storage_def unat_ring_index)

text \<open>Releasing a record reports the offset in the stream that is reached to the flow controller, and not the number of bytes released.\<close>

lemma drop_frames_offset: "ossl_sframe_list_drop_frames fl m = (True, l) \<Longrightarrow> fl_offset l = m"
  by (auto simp: ossl_sframe_list_drop_frames_def drop_read_eq split: if_splits)

lemma release_reports_offset:
  "ossl_quic_rstream_release_record now w st q n = Inr (True, q', w') \<Longrightarrow> rs_rxfc q = Some c \<Longrightarrow>
   ossl_quic_rxfc_on_retire now w c (fl_offset (rs_fl q')) (get_rtt q st) = Inr (True, w')"
  by (auto simp: ossl_quic_rstream_release_record_def Let_def get_rtt_def drop_frames_offset split: if_splits prod.splits)

end
