(* ===== verification/Quic_Transfer.thy ===== *)
theory Quic_Transfer
  imports Quic_Sstream Quic_Rstream
begin

text \<open>
  A QUIC stream from end to end: the frames that a sender (\<open>Quic_Sstream\<close>) builds are put into a network that loses, reorders and
  duplicates them, and arrive at a receiver (\<open>Quic_Rstream\<close>).
\<close>

type_synonym net_frame = "64 word \<times> 8 word list \<times> 64 word \<times> bool"

type_synonym link = "quic_sstream \<times> 8 word list \<times> net_frame set \<times> rs_run"

inductive link_step :: "8 word allocator \<Rightarrow> link \<Rightarrow> link \<Rightarrow> bool" for mal where
  \<comment> \<open>the sender, the bytes its application has appended, the frames that were ever sent, and the receiver\<close>
  sender: "sstream_step mal (sq, xs) (sq', xs') \<Longrightarrow> link_step mal (sq, xs, N, r) (sq', xs', N, r)"
| send: "ossl_quic_sstream_get_stream_frame sq skip num_iov = Inr (Some (h, iov)) \<Longrightarrow>
     link_step mal (sq, xs, N, r)
       (sq, xs, insert (hdr_offset h, concat (map (buf_bytes (sbuf sq)) iov), hdr_len h, is_fin h) N, r)"
| arrive: "(offset, bs, n, f) \<in> N \<Longrightarrow> ossl_quic_rstream_queue_data mem q p offset (Some bs) n f = Inr (ok, q') \<Longrightarrow>
     link_step mal (sq, xs, N, (q, out, R, rec))
       (sq, xs, N, (q', out, if ok then R \<union> {unat offset..<unat offset + unat n} else R, rec))"
| app: "app_step mal r r' \<Longrightarrow> link_step mal (sq, xs, N, r) (sq, xs, N, r')"

definition link_inv :: "link \<Rightarrow> bool" where
  "link_inv s \<longleftrightarrow> (case s of (sq, xs, N, r) \<Rightarrow> sstream_inv (sq, xs) \<and> run_inv xs (have_final_size sq) r \<and>
     (\<forall>(offset, bs, n, f) \<in> N. carries xs (have_final_size sq) offset (Some bs) n f))"

text \<open>When the stream grows, what is in flight and in the receiver is still part of it.\<close>

lemma carries_grows:
  "carries xs ended offset d n f \<Longrightarrow> (ended \<longrightarrow> ended' \<and> ys = []) \<Longrightarrow> carries (xs @ ys) ended' offset d n f"
  by (auto simp: carries_def split: option.splits)

lemma frame_ok_grows: "frame_ok st xs off f \<Longrightarrow> frame_ok st (xs @ ys) off f"
  by (auto simp: frame_ok_def nth_append split: option.splits)

lemma run_inv_grows:
  assumes "run_inv xs ended r" and "ended \<longrightarrow> ended' \<and> ys = []" and "length (xs @ ys) \<le> 2 ^ 62"
  shows "run_inv (xs @ ys) ended' r"
proof -
  obtain q out R rec where r: "r = (q, out, R, rec)" by (cases r)
  have i: "rs_inv xs q" "fl_fin (rs_fl q) \<longrightarrow> ended" using assms(1) by (simp_all add: run_inv_def r)
  have "rs_inv (xs @ ys) q" using i assms(2,3) frame_ok_grows [of "byte_at (rbuf q)" xs "read_offset q" _ ys] by (auto simp: rs_inv_def)
  moreover have "read_offset q \<le> length xs" using rs_invD(5) [OF i(1)] .
  moreover have "unat (end (head_range q)) \<le> length xs" if "head_locked (rs_fl q)"
    using rs_invD(8) [OF i(1)] that readable_first_gap(4,5) [OF i(1)] by auto
  ultimately show ?thesis using assms(1,2) by (auto simp: run_inv_def r)
qed

text \<open>Steps of the sender only append, and never after the end.\<close>

lemma sender_grows:
  assumes "alloc_ok mal" and "sstream_inv (sq, xs)" and "sstream_step mal (sq, xs) (sq', xs')"
  shows "\<exists>ys. xs' = xs @ ys \<and> (have_final_size sq \<longrightarrow> have_final_size sq' \<and> ys = [])"
  using assms(3)
proof (cases rule: sstream_step.cases)
  case (append mem buf n ok k)
  then show ?thesis by (auto simp: ossl_quic_sstream_append_def split: if_splits)
qed (auto simp: ossl_quic_sstream_mark_transmitted_def ossl_quic_sstream_mark_lost_def ossl_quic_sstream_mark_acked_def qss_cull_def
    ossl_quic_sstream_fin_def ossl_quic_sstream_mark_transmitted_fin_def ossl_quic_sstream_mark_lost_fin_def
    ossl_quic_sstream_mark_acked_fin_def ossl_quic_sstream_set_buffer_size_def ossl_quic_sstream_set_cleanse_def bind_comp_eq_Inr
    split: if_splits prod.splits list.splits)

lemma sent_carries:
  assumes inv: "sstream_inv (sq, xs)" and run: "ossl_quic_sstream_get_stream_frame sq skip num_iov = Inr (Some (h, iov))"
  shows "carries xs (have_final_size sq) (hdr_offset h) (Some (concat (map (buf_bytes (sbuf sq)) iov))) (hdr_len h) (is_fin h)"
proof (cases "skip < length (ranges (new_set sq))")
  case False
  then have "h = \<lparr>hdr_offset = head_offset (sbuf sq), hdr_len = 0, is_fin = True\<rparr>" "iov = []" "have_final_size sq"
    using run by (auto simp: ossl_quic_sstream_get_stream_frame_def skip_ranges_drop split: if_splits)
  then show ?thesis using inv_parts(2) [OF inv] by (simp add: carries_def)
next
  case True
  have n: "2 \<le> num_iov" using run by (auto simp: ossl_quic_sstream_get_stream_frame_def split: if_splits)
  let ?rg = "ranges (new_set sq) ! skip"
  note p = inv_parts [OF inv]
  have le: "unat (start ?rg) \<le> unat (end ?rg)" using p(3) True by (auto simp: ordered_def word_le_nat_alt)
  have "end ?rg \<in> new_bytes sq" using True le by (auto simp: new_bytes_def elems_def mem_span word_le_nat_alt intro!: bexI [of _ ?rg])
  then have e: "unat (end ?rg) < length xs" using p(2,8) by (simp add: word_less_nat_alt)
  obtain tot where tot: "h = \<lparr>hdr_offset = start ?rg, hdr_len = u64 tot, is_fin = (have_final_size sq \<and> start ?rg + u64 tot = head_offset (sbuf sq))\<rparr>"
    "unat tot = unat (end ?rg) + 1 - unat (start ?rg)"
    "concat (map (buf_bytes (sbuf sq)) iov) = take (unat tot) (drop (unat (start ?rg)) xs)"
    using frame_of_range [OF inv True n refl] run by auto
  have "unat (start ?rg + u64 tot) = unat (start ?rg) + unat tot"
    using tot(2) le e rb_stream_length [OF p(1)] by (subst unat_plus_small) simp_all
  then show ?thesis using tot le e p(2) unat_word32_less [of tot] by (auto simp: carries_def)
qed

lemma link_step_inv: "link_step mal s s' \<Longrightarrow> alloc_ok mal \<Longrightarrow> link_inv s \<Longrightarrow> link_inv s'"
proof (induction rule: link_step.induct)
  case (sender sq xs sq' xs' N r)
  have i: "sstream_inv (sq, xs)" using sender.prems by (simp add: link_inv_def)
  have i': "sstream_inv (sq', xs')" by (rule step_inv [OF sender.prems(1) sender.hyps i])
  obtain ys where ys: "xs' = xs @ ys" "have_final_size sq \<longrightarrow> have_final_size sq' \<and> ys = []" using sender_grows [OF sender.prems(1) i sender.hyps] by blast
  have "length (xs @ ys) \<le> 2 ^ 62" using rb_stream_length [OF inv_parts(1) [OF i']] ys(1) by simp
  then have "run_inv xs' (have_final_size sq') r" unfolding ys(1) using sender.prems(2) ys(2) by (intro run_inv_grows) (simp_all add: link_inv_def)
  moreover have "carries xs' (have_final_size sq') offset (Some bs) n f" if "(offset, bs, n, f) \<in> N" for offset bs n f
    unfolding ys(1) using sender.prems(2) that ys(2) by (intro carries_grows [of xs "have_final_size sq"]) (auto simp: link_inv_def)
  ultimately show ?case using i' by (auto simp: link_inv_def)
next
  case (send sq skip num_iov h iov xs N r)
  then show ?case using sent_carries [of sq xs skip num_iov h iov] by (auto simp: link_inv_def)
next
  case (arrive offset bs n f N mem q p ok q' sq xs out R rec)
  have "carries xs (have_final_size sq) offset (Some bs) n f" using arrive.prems(2) arrive.hyps(1) by (auto simp: link_inv_def)
  from run_queue_inv [OF this arrive.hyps(2)] show ?case using arrive.prems(2) by (auto simp: link_inv_def)
next
  case (app r r' sq xs N)
  then show ?case using app_step_inv [OF app.hyps app.prems(1), of xs "have_final_size sq"] by (auto simp: link_inv_def)
qed

lemma link_reachable:
  assumes "alloc_ok mal" and "ossl_quic_sstream_new mal z1 n1 = Some (Inr (Some sq0))" and "ossl_quic_rstream_new mal z2 c st n2 = Some (Inr (Some q0))"
    and "(link_step mal)\<^sup>*\<^sup>* (sq0, [], {}, (q0, [], {}, [])) s"
  shows "link_inv s"
  using assms(4)
proof (induction rule: rtranclp_induct)
  case base
  show ?case using inv_new [OF assms(1,2)] new_inv [OF assms(1,3), of "[]"] by (simp add: link_inv_def run_inv_def)
qed (use link_step_inv [OF _ assms(1)] in blast)

text \<open>
  C5: a stream is delivered reliably over an unreliable network. The sender appends, builds frames, learns of losses and acknowledgements, and ends the stream; its
  frames are lost, repeated and reordered; the receiver buffers and the application reads, all interleaved in any way. Then what the application has read is
  a prefix of what was appended; the next read succeeds and continues it; it reports the end only when the stream was ended and all of it has been read; and
  when all bytes have been received once, a read that is large enough returns all the rest.
\<close>
theorem stream_transfer_reliable:
  assumes "alloc_ok mal" and "ossl_quic_sstream_new mal z1 n1 = Some (Inr (Some sq0))" and "ossl_quic_rstream_new mal z2 c st n2 = Some (Inr (Some q0))"
    and "(link_step mal)\<^sup>*\<^sup>* (sq0, [], {}, (q0, [], {}, [])) (sq, xs, N, (q, out, R, rec))"
  shows "out = take (length out) xs \<and>
    (\<forall>sz. \<exists>bs f q'. read_internal q sz True = Inr (Some (bs, of_nat (length bs), f), q') \<and> out @ bs = take (length out + length bs) xs \<and>
      (f \<longrightarrow> have_final_size sq \<and> out @ bs = xs) \<and>
      ({..<length xs} \<subseteq> R \<and> length xs - length out \<le> unat sz \<longrightarrow> out @ bs = xs \<and> f = fl_fin (rs_fl q)))"
proof -
  have r: "rs_inv xs q" "out = take (read_offset q) xs" "got q = R" "fl_fin (rs_fl q) \<longrightarrow> have_final_size sq"
    using link_reachable [OF assms] by (auto simp: link_inv_def run_inv_def)
  note i = rs_invD [OF r(1)] and gap = readable_first_gap [OF r(1)]
  have lo: "length out = read_offset q" using r(2) i(5) by simp
  have rl: "readable q \<le> length xs" using gap(4,5) by linarith
  have nl: "length (next_bytes xs q k) = min k (readable q - read_offset q)" for k using rl by (auto simp: next_bytes_def min_def)
  have all: "readable q = length xs" if "{..<length xs} \<subseteq> R"
    using first_gap_mono [of "length xs" R R "readable q"] that gap(3) r(3) rl by simp
  have body: "out @ next_bytes xs q (unat sz) = take (length out + length (next_bytes xs q (unat sz))) xs \<and>
      (at_end q (unat sz) \<longrightarrow> have_final_size sq \<and> out @ next_bytes xs q (unat sz) = xs) \<and>
      ({..<length xs} \<subseteq> R \<and> length xs - length out \<le> unat sz \<longrightarrow> out @ next_bytes xs q (unat sz) = xs \<and> at_end q (unat sz) = fl_fin (rs_fl q))" for sz :: "32 word"
    using next_bytes_take [OF r(2) i(5), of "unat sz"] nl [of "unat sz"] lo all i(5,7) gap(1) r(4) by (auto simp: at_end_def)
  then show ?thesis using read_internal_inv [OF r(1), of _ True] r(2) lo by (metis)
qed

lemma sample_transfer:
  "\<exists>N q. (link_step sample_mal)\<^sup>*\<^sup>* (sample_stream [0, 0, 0, 0] 0 0 [] [], [], {}, (sample_rstream, [], {}, []))
     (sample_stream [1, 2, 3, 0] 3 0 [rng 0 2] [], [1, 2, 3], N, (q, [], {0..<3}, []))"
proof -
  let ?s0 = "sample_stream [0, 0, 0, 0] 0 0 [] []" and ?s1 = "sample_stream [1, 2, 3, 0] 3 0 [rng 0 2] []"
  let ?N = "{(0, [1, 2, 3], 3, False)}"
  have "sstream_step sample_mal (?s0, []) (?s1, [] @ take (unat (3 :: 32 word)) [1, 2, 3])"
  proof (rule sstream_step.append)
    show "ossl_quic_sstream_append True ?s0 [1, 2, 3] 3 = Some (Inr (True, 3, ?s1))" by code_simp
  qed simp
  then have 1: "link_step sample_mal (?s0, [], {}, r) (?s1, [1, 2, 3], {}, r)" for r using link_step.sender by simp
  have 2: "link_step sample_mal (?s1, [1, 2, 3], {}, r) (?s1, [1, 2, 3], ?N, r)" for r
  proof -
    obtain h iov where f: "ossl_quic_sstream_get_stream_frame ?s1 0 2 = Inr (Some (h, iov))"
      "(hdr_offset h, concat (map (buf_bytes (sbuf ?s1)) iov), hdr_len h, is_fin h) = (0, [1, 2, 3], 3, False)"
      by (rule that [of "\<lparr>hdr_offset = 0, hdr_len = 3, is_fin = False\<rparr>"]) code_simp+
    show ?thesis using link_step.send [OF f(1), of sample_mal "[1, 2, 3]" "{}" r] unfolding f(2) .
  qed
  have i: "rs_inv [1, 2, 3] sample_rstream" using new_inv(1) [OF sample_alloc_correct sample_rstream_new] by simp
  have "carries [1, 2, 3] False 0 (Some [1, 2, 3]) 3 False" by (simp add: carries_def)
  from queue_inv [OF i this, of True None] obtain q where
    "ossl_quic_rstream_queue_data True sample_rstream None 0 (Some [1, 2, 3]) 3 False = Inr (True, q)" by auto
  from link_step.arrive [OF _ this, of ?N sample_mal ?s1 "[1, 2, 3]" "[]" "{}" "[]"]
  have 3: "link_step sample_mal (?s1, [1, 2, 3], ?N, (sample_rstream, [], {}, [])) (?s1, [1, 2, 3], ?N, (q, [], {0..<3}, []))" by simp
  show ?thesis using 1 2 3 by (meson converse_rtranclp_into_rtranclp r_into_rtranclp)
qed

theorem stream_transfer_reliable_witness:
  "\<exists>N q q'. (link_step sample_mal)\<^sup>*\<^sup>* (sample_stream [0, 0, 0, 0] 0 0 [] [], [], {}, (sample_rstream, [], {}, []))
     (sample_stream [1, 2, 3, 0] 3 0 [rng 0 2] [], [1, 2, 3], N, (q, [], {0..<3}, [])) \<and>
     read_internal q 4 True = Inr (Some ([1, 2, 3], 3, False), q')"
proof -
  obtain N q where run: "(link_step sample_mal)\<^sup>*\<^sup>* (sample_stream [0, 0, 0, 0] 0 0 [] [], [], {}, (sample_rstream, [], {}, []))
     (sample_stream [1, 2, 3, 0] 3 0 [rng 0 2] [], [1, 2, 3], N, (q, [], {0..<3}, []))" using sample_transfer by blast
  have "sample_mal = sample_alloc" by (simp add: fun_eq_iff sample_mal_def sample_alloc_def)
  then have new: "ossl_quic_rstream_new sample_mal True None False 4 = Some (Inr (Some sample_rstream))" using sample_rstream_new by simp
  have "{..<length [1 :: 8 word, 2, 3]} \<subseteq> {0..<3}" by auto
  then obtain bs f q' where "read_internal q 4 True = Inr (Some (bs, of_nat (length bs), f), q')" "bs = [1, 2, 3]"
    "f \<Longrightarrow> have_final_size (sample_stream [1, 2, 3, 0] 3 0 [rng 0 2] [])"
    using stream_transfer_reliable [OF sample_mal_ok sample_new new run, THEN conjunct2, rule_format, of 4] by auto
  moreover have "\<not> have_final_size (sample_stream [1, 2, 3, 0] 3 0 [rng 0 2] [])" by (simp add: sample_stream_def)
  ultimately have "read_internal q 4 True = Inr (Some ([1, 2, 3], 3, False), q')" by (cases f) simp_all
  then show ?thesis using run by blast
qed

end
