(* ===== verification/Pqueue.thy ===== *)
theory Pqueue
  imports Safe_Math Ossl_Common "HOL-Library.Multiset" "HOL-Library.Code_Target_Nat"
begin

text \<open>
  The priority queue of the vendored OpenSSL, \<open>ssl/priority_queue.c\<close>: a binary heap whose entries keep a constant
  index into a second array, so that an element can be removed through the handle that \<open>ossl_pqueue_push\<close>
  returned. The arrays are lists; storage comes from an allocator, an argument. The checks of the debug build
  (\<open>ASSERT_USED\<close>) are part of the model: a false one is \<^const>\<open>Assert_Failed\<close>, an access outside an array
  \<^const>\<open>Buffer_Overflow\<close>. Both arrays have cells of 8 bytes.
\<close>

section \<open>State\<close>

record 'a pq_heap =
  hdata :: 'a
  hindex :: nat

record pq_elem =
  posn :: nat
  used :: bool

record 'a pqueue =
  heap :: "'a pq_heap list"
  elements :: "pq_elem list"
  compare :: "'a \<Rightarrow> 'a \<Rightarrow> int"
  htop :: nat
  hmax :: nat
  freelist :: nat

abbreviation min_nodes :: nat where "min_nodes \<equiv> 8"
abbreviation max_nodes :: nat where "max_nodes \<equiv> 536870911"   \<comment> \<open>\<open>SIZE_MAX / 8\<close>\<close>

section \<open>Growth\<close>

partial_function (option) compute_pqueue_growth :: "nat \<Rightarrow> nat \<Rightarrow> nat option" where
  "compute_pqueue_growth target current =
     (if current < target then
        if current \<ge> max_nodes then Some 0
        else case safe_muldiv_u (of_nat current :: 32 word) 8 5 False of (v, err) \<Rightarrow>
          if err then Some 0
          else compute_pqueue_growth target (if unat v \<ge> max_nodes then max_nodes else unat v)
      else Some current)"

declare compute_pqueue_growth.simps [code]

section \<open>Moving elements\<close>

definition assert_used :: "'a pqueue \<Rightarrow> nat \<Rightarrow> unit res" where
  "assert_used pq idx =
     (if idx < length (heap pq) \<and> hindex (heap pq ! idx) < length (elements pq)
      then let e = elements pq ! hindex (heap pq ! idx)
           in if used e \<and> posn e = idx then Inr () else Inl Assert_Failed
      else Inl Buffer_Overflow)"

definition set_posn :: "nat \<Rightarrow> nat \<Rightarrow> pq_elem list \<Rightarrow> pq_elem list" where
  "set_posn e p es = es[e := (es ! e)\<lparr>posn := p\<rparr>]"

definition pqueue_swap_elem :: "'a pqueue \<Rightarrow> nat \<Rightarrow> nat \<Rightarrow> 'a pqueue res" where
  "pqueue_swap_elem pq i j =
     bind_res (assert_used pq i) (\<lambda>_.
     bind_res (assert_used pq j) (\<lambda>_.
     let h = (heap pq)[i := heap pq ! j, j := heap pq ! i]
     in Inr (pq\<lparr>heap := h, elements := set_posn (hindex (h ! j)) j (set_posn (hindex (h ! i)) i (elements pq))\<rparr>)))"

definition pqueue_move_elem :: "'a pqueue \<Rightarrow> nat \<Rightarrow> nat \<Rightarrow> 'a pqueue res" where
  "pqueue_move_elem pq from to =
     bind_res (assert_used pq from) (\<lambda>_.
     if to < length (heap pq)
     then let h = (heap pq)[to := heap pq ! from]
          in Inr (pq\<lparr>heap := h, elements := set_posn (hindex (h ! to)) to (elements pq)\<rparr>)
     else Inl Buffer_Overflow)"

function force_bottom_loop :: "'a pqueue \<Rightarrow> nat \<Rightarrow> 'a pqueue res" where
  "force_bottom_loop pq n =
     (if n > 0
      then let p = (n - 1) div 2
           in bind_res (assert_used pq p) (\<lambda>_. bind_res (pqueue_swap_elem pq n p) (\<lambda>pq. force_bottom_loop pq p))
      else Inr pq)"
  by pat_completeness auto
termination
  by (relation "measure snd") auto

definition pqueue_force_bottom :: "'a pqueue \<Rightarrow> nat \<Rightarrow> 'a pqueue res" where
  "pqueue_force_bottom pq n = bind_res (assert_used pq n) (\<lambda>_. force_bottom_loop pq n)"

function move_down_loop :: "'a pqueue \<Rightarrow> nat \<Rightarrow> 'a pqueue res" where
  "move_down_loop pq n =
     (if n > 0
      then let p = (n - 1) div 2
           in bind_res (assert_used pq p) (\<lambda>_.
              if compare pq (hdata (heap pq ! n)) (hdata (heap pq ! p)) \<ge> 0 then Inr pq
              else bind_res (pqueue_swap_elem pq n p) (\<lambda>pq. move_down_loop pq p))
      else Inr pq)"
  by pat_completeness auto
termination
  by (relation "measure snd") auto

definition pqueue_move_down :: "'a pqueue \<Rightarrow> nat \<Rightarrow> 'a pqueue res" where
  "pqueue_move_down pq n = bind_res (assert_used pq n) (\<lambda>_. move_down_loop pq n)"

definition second_child :: "'a pqueue \<Rightarrow> nat \<Rightarrow> bool res" where
  \<comment> \<open>whether \<open>p++\<close> is executed, to go on with the smaller one of the children \<open>p\<close> and \<open>p + 1\<close>\<close>
  "second_child pq p =
     (if htop pq > p + 1
      then bind_res (assert_used pq (p + 1)) (\<lambda>_.
           Inr (compare pq (hdata (heap pq ! p)) (hdata (heap pq ! (p + 1))) > 0))
      else Inr False)"

text \<open>The arguments of the loop are \<open>pq->htop\<close>, which it does not change, and which child of \<open>n\<close> is \<open>p\<close>.\<close>

function move_up_loop :: "nat \<Rightarrow> 'a pqueue \<Rightarrow> nat \<Rightarrow> bool \<Rightarrow> 'a pqueue res" where
  "move_up_loop t pq n second =
     (let p = n * 2 + 1 + of_bool second
      in if t > p \<and> compare pq (hdata (heap pq ! p)) (hdata (heap pq ! n)) < 0
         then bind_res (assert_used pq p) (\<lambda>_.
              bind_res (pqueue_swap_elem pq n p) (\<lambda>pq.
              bind_res (second_child pq (p * 2 + 1)) (\<lambda>second. move_up_loop t pq p second)))
         else Inr pq)"
  by pat_completeness auto
termination
  by (relation "measure (\<lambda>(t, pq, n, second). t - n)") auto

definition pqueue_move_up :: "'a pqueue \<Rightarrow> nat \<Rightarrow> 'a pqueue res" where
  "pqueue_move_up pq n =
     (let p = n * 2 + 1
      in bind_res (assert_used pq n) (\<lambda>_.
         bind_res (if htop pq > p + 1 then assert_used pq p else Inr ()) (\<lambda>_.
         bind_res (second_child pq p) (\<lambda>second. move_up_loop (htop pq) pq n second))))"

section \<open>Operations\<close>

definition pqueue_add_freelist :: "'a pqueue \<Rightarrow> nat \<Rightarrow> 'a pqueue" where
  "pqueue_add_freelist pq from =
     pq\<lparr>elements := take from (elements pq) @
          map (\<lambda>i. \<lparr>posn = if i = from then freelist pq else i - 1, used = False\<rparr>) [from ..< hmax pq],
        freelist := hmax pq - 1\<rparr>"

text \<open>The sums of sizes are computed modulo \<open>2 ^ 32\<close>.\<close>

definition ossl_pqueue_reserve ::
    "'a pq_heap allocator \<Rightarrow> pq_elem allocator \<Rightarrow> 'a pqueue \<Rightarrow> nat \<Rightarrow> (bool \<times> 'a pqueue) option" where
  "ossl_pqueue_reserve ah ae pq n =
     (let cur_max = hmax pq
      in if (htop pq + n) mod 2 ^ 32 < cur_max then Some (True, pq)
         else map_option (\<lambda>new_max.
           if new_max = 0 then (False, pq)
           else case realloc ah (heap pq) new_max of
                  None \<Rightarrow> (False, pq)
                | Some h \<Rightarrow>
                    let pq = pq\<lparr>heap := h\<rparr>
                    in case realloc ae (elements pq) new_max of
                         None \<Rightarrow> (False, pq)
                       | Some e \<Rightarrow> (True, pqueue_add_freelist (pq\<lparr>elements := e, hmax := new_max\<rparr>) cur_max))
           (compute_pqueue_growth ((n + cur_max) mod 2 ^ 32) cur_max))"

definition ossl_pqueue_push ::
    "'a pq_heap allocator \<Rightarrow> pq_elem allocator \<Rightarrow> 'a pqueue \<Rightarrow> 'a \<Rightarrow> (nat option \<times> 'a pqueue) comp" where
  \<comment> \<open>the handle stored in \<open>*elem\<close>, \<open>None\<close> where the source returns 0\<close>
  "ossl_pqueue_push ah ae pq d =
     (case ossl_pqueue_reserve ah ae pq 1 of
        None \<Rightarrow> None
      | Some (False, pq) \<Rightarrow> Some (Inr (None, pq))
      | Some (True, pq) \<Rightarrow>
          let n = htop pq; m = freelist pq
          in if m < length (elements pq) \<and> n < length (heap pq)
             then let pq = pq\<lparr>htop := n + 1, freelist := posn (elements pq ! m),
                              heap := (heap pq)[n := \<lparr>hdata = d, hindex = m\<rparr>],
                              elements := (elements pq)[m := \<lparr>posn = n, used = True\<rparr>]\<rparr>
                  in Some (bind_res (pqueue_move_down pq n) (\<lambda>pq. Inr (Some m, pq)))
             else Some (Inl Buffer_Overflow))"

definition ossl_pqueue_peek :: "'a pqueue \<Rightarrow> 'a option res" where
  "ossl_pqueue_peek pq =
     (if htop pq > 0 then bind_res (assert_used pq 0) (\<lambda>_. Inr (Some (hdata (heap pq ! 0)))) else Inr None)"

definition free_elem :: "nat \<Rightarrow> 'a pqueue \<Rightarrow> 'a pqueue" where
  "free_elem elem pq = pq\<lparr>elements := (elements pq)[elem := \<lparr>posn = freelist pq, used = False\<rparr>], freelist := elem\<rparr>"

definition ossl_pqueue_pop :: "'a pqueue \<Rightarrow> ('a option \<times> 'a pqueue) res" where
  "ossl_pqueue_pop pq =
     (if htop pq = 0 then Inr (None, pq)
      else bind_res (assert_used pq 0) (\<lambda>_.
           let res = hdata (heap pq ! 0); elem = hindex (heap pq ! 0); pq = pq\<lparr>htop := htop pq - 1\<rparr>
           in bind_res (if htop pq \<noteq> 0
                        then bind_res (pqueue_move_elem pq (htop pq) 0) (\<lambda>pq. pqueue_move_up pq 0)
                        else Inr pq) (\<lambda>pq.
              Inr (Some res, free_elem elem pq))))"

definition ossl_pqueue_remove :: "'a pqueue \<Rightarrow> nat \<Rightarrow> ('a option \<times> 'a pqueue) res" where
  "ossl_pqueue_remove pq elem =
     (if elem \<ge> hmax pq \<or> htop pq = 0 then Inr (None, pq)
      else if elem \<ge> length (elements pq) then Inl Buffer_Overflow
      else if \<not> used (elements pq ! elem) then Inl Assert_Failed
      else let n = posn (elements pq ! elem)
           in bind_res (assert_used pq n) (\<lambda>_.
              if n = htop pq - 1
              then Inr (Some (hdata (heap pq ! (htop pq - 1))), (free_elem elem pq)\<lparr>htop := htop pq - 1\<rparr>)
              else bind_res (if n > 0 then pqueue_force_bottom pq n else Inr pq) ossl_pqueue_pop))"

definition ossl_pqueue_new ::
    "'a pq_heap allocator \<Rightarrow> pq_elem allocator \<Rightarrow> bool \<Rightarrow> ('a \<Rightarrow> 'a \<Rightarrow> int) option \<Rightarrow> 'a pqueue option" where
  "ossl_pqueue_new ah ae alloc_pq cmp =
     (case cmp of
        None \<Rightarrow> None
      | Some c \<Rightarrow>
          if \<not> alloc_pq then None
          else case (ah min_nodes, ae min_nodes) of
                 (Some h, Some e) \<Rightarrow>
                   Some (pqueue_add_freelist
                     \<lparr>heap = h, elements = e, compare = c, htop = 0, hmax = min_nodes, freelist = 0\<rparr> 0)
               | _ \<Rightarrow> None)"

definition ossl_pqueue_pop_free :: "('a \<Rightarrow> 's \<Rightarrow> 's) \<Rightarrow> 'a pqueue \<Rightarrow> 's \<Rightarrow> 's" where
  \<comment> \<open>\<open>freefunc\<close> on every queued item; then the queue's own storage is freed\<close>
  "ossl_pqueue_pop_free freefunc pq st = fold (\<lambda>i. freefunc (hdata (heap pq ! i))) [0 ..< htop pq] st"

definition ossl_pqueue_num :: "'a pqueue \<Rightarrow> nat" where
  "ossl_pqueue_num pq = htop pq"

section \<open>Live cells\<close>

declare force_bottom_loop.simps [simp del] move_down_loop.simps [simp del] move_up_loop.simps [simp del]

definition live :: "'a pqueue \<Rightarrow> 'a pq_heap set" where
  "live pq = set (take (htop pq) (heap pq))"

definition linked :: "'a pqueue \<Rightarrow> bool" where
  \<comment> \<open>every cell below \<open>htop\<close> passes \<open>ASSERT_USED\<close>\<close>
  "linked pq \<longleftrightarrow> htop pq \<le> length (heap pq) \<and> (\<forall>i < htop pq. assert_used pq i = Inr ())"

definition moved :: "'a pqueue \<Rightarrow> 'a pqueue \<Rightarrow> bool" where
  \<comment> \<open>the live cells have been rearranged and nothing else has changed\<close>
  "moved pq pq' \<longleftrightarrow> live pq' = live pq \<and> compare pq' = compare pq \<and> htop pq' = htop pq \<and> hmax pq' = hmax pq \<and>
     freelist pq' = freelist pq \<and> length (heap pq') = length (heap pq) \<and> length (elements pq') = length (elements pq) \<and>
     (\<forall>e. used (elements pq' ! e) = used (elements pq ! e)) \<and>
     (\<forall>e. e \<notin> hindex ` live pq \<longrightarrow> elements pq' ! e = elements pq ! e)"

lemma moved_refl [simp]: "moved pq pq"
  by (simp add: moved_def)

lemma moved_trans: "moved pq pq' \<Longrightarrow> moved pq' pq'' \<Longrightarrow> moved pq pq''"
  by (simp add: moved_def)

lemma assert_used_iff:
  "assert_used pq i = Inr () \<longleftrightarrow> i < length (heap pq) \<and> hindex (heap pq ! i) < length (elements pq) \<and>
     used (elements pq ! hindex (heap pq ! i)) \<and> posn (elements pq ! hindex (heap pq ! i)) = i"
  by (auto simp: assert_used_def Let_def)

lemma linkedD:
  assumes "linked pq" and "i < htop pq"
  shows "assert_used pq i = Inr ()" "i < length (heap pq)" "hindex (heap pq ! i) < length (elements pq)"
    "used (elements pq ! hindex (heap pq ! i))" "posn (elements pq ! hindex (heap pq ! i)) = i"
  using assms by (auto simp: linked_def assert_used_iff)

lemma linked_inj: "linked pq \<Longrightarrow> i < htop pq \<Longrightarrow> j < htop pq \<Longrightarrow> hindex (heap pq ! i) = hindex (heap pq ! j) \<Longrightarrow> i = j"
  using linkedD(5) by metis

lemma live_nth: "linked pq \<Longrightarrow> i < htop pq \<Longrightarrow> heap pq ! i \<in> live pq"
  unfolding live_def linked_def by (metis dual_order.strict_trans2 in_set_conv_nth length_take min_absorb2 nth_take)

lemma live_iff: "linked pq \<Longrightarrow> c \<in> live pq \<longleftrightarrow> (\<exists>i < htop pq. heap pq ! i = c)"
  by (auto simp: live_def linked_def in_set_conv_nth)

lemma set_posn_nth:
  "e < length es \<Longrightarrow> set_posn e p es ! k = (if k = e then (es ! e)\<lparr>posn := p\<rparr> else es ! k)"
  by (simp add: set_posn_def nth_list_update)

lemma length_set_posn [simp]: "length (set_posn e p es) = length es"
  by (simp add: set_posn_def)

lemma set_swap_take:
  assumes "i < t" and "j < t" and "t \<le> length xs"
  shows "set (take t (xs[i := xs ! j, j := xs ! i])) = set (take t xs)"
proof -
  have "take t (xs[i := xs ! j, j := xs ! i]) = (take t xs)[i := take t xs ! j, j := take t xs ! i]"
    using assms by (simp add: take_update_swap)
  then show ?thesis using assms set_swap [of i "take t xs" j] by simp
qed

lemma swap_elem_ok:
  assumes l: "linked pq" and i: "i < htop pq" and j: "j < htop pq"
  obtains pq' where "pqueue_swap_elem pq i j = Inr pq'" and "moved pq pq'" and "linked pq'"
    and "heap pq' = (heap pq)[i := heap pq ! j, j := heap pq ! i]"
proof -
  let ?h = "(heap pq)[i := heap pq ! j, j := heap pq ! i]"
  let ?es = "set_posn (hindex (?h ! j)) j (set_posn (hindex (?h ! i)) i (elements pq))"
  let ?pq = "pq\<lparr>heap := ?h, elements := ?es\<rparr>"
  note li = linkedD [OF l i] and lj = linkedD [OF l j]
  have hi: "?h ! i = heap pq ! j" "?h ! j = heap pq ! i" using li(2) lj(2) by (auto simp: nth_list_update)
  have es: "?es ! e = (if e = hindex (heap pq ! i) then (elements pq ! e)\<lparr>posn := j\<rparr>
      else if e = hindex (heap pq ! j) then (elements pq ! e)\<lparr>posn := i\<rparr> else elements pq ! e)" for e
    unfolding hi using li(3) lj(3) by (auto simp: set_posn_nth)
  have top: "htop pq \<le> length (heap pq)" using l by (simp add: linked_def)
  have eq: "pqueue_swap_elem pq i j = Inr ?pq" using li(1) lj(1) by (simp add: pqueue_swap_elem_def Let_def)
  have "live ?pq = live pq" unfolding live_def using set_swap_take [OF i j top] by simp
  then have m: "moved pq ?pq"
    using live_nth [OF l i] live_nth [OF l j] es by (auto simp: moved_def)
  have "assert_used ?pq k = Inr ()" if "k < htop pq" for k
  proof -
    note lk = linkedD [OF l that]
    consider "k = j" | "k = i" "i \<noteq> j" | "k \<noteq> i" "k \<noteq> j" by blast
    then show ?thesis
    proof cases
      case 1
      then show ?thesis using es [of "hindex (heap pq ! i)"] li lj(2) hi by (simp add: assert_used_iff)
    next
      case 2
      then have "hindex (heap pq ! j) \<noteq> hindex (heap pq ! i)" using linked_inj [OF l j i] by auto
      then show ?thesis using 2 es [of "hindex (heap pq ! j)"] li(2) lj hi by (simp add: assert_used_iff)
    next
      case 3
      then have "hindex (heap pq ! k) \<noteq> hindex (heap pq ! i)" "hindex (heap pq ! k) \<noteq> hindex (heap pq ! j)"
        using linked_inj [OF l that i] linked_inj [OF l that j] by auto
      then show ?thesis using 3 es [of "hindex (heap pq ! k)"] lk by (simp add: assert_used_iff)
    qed
  qed
  then have "linked ?pq" using top by (simp add: linked_def)
  then show ?thesis using that [OF eq m] by simp
qed

section \<open>Heap order\<close>

definition par :: "nat \<Rightarrow> nat" where "par i = (i - 1) div 2"

definition heap_ord :: "(nat \<Rightarrow> 'k::linorder) \<Rightarrow> nat \<Rightarrow> bool" where
  "heap_ord k t \<longleftrightarrow> (\<forall>x < t. 0 < x \<longrightarrow> k (par x) \<le> k x)"

text \<open>The order while the key at \<open>n\<close> is too large (\<open>down\<close>), too small (\<open>up\<close>), or of no account (\<open>hole\<close>).\<close>

definition bridged :: "(nat \<Rightarrow> 'k::linorder) \<Rightarrow> nat \<Rightarrow> nat \<Rightarrow> bool" where
  "bridged k t n \<longleftrightarrow> (\<forall>x < t. 0 < n \<longrightarrow> 0 < x \<longrightarrow> par x = n \<longrightarrow> k (par n) \<le> k x)"

definition ord_down :: "(nat \<Rightarrow> 'k::linorder) \<Rightarrow> nat \<Rightarrow> nat \<Rightarrow> bool" where
  "ord_down k t n \<longleftrightarrow> (\<forall>x < t. 0 < x \<longrightarrow> par x \<noteq> n \<longrightarrow> k (par x) \<le> k x) \<and> bridged k t n"

definition ord_up :: "(nat \<Rightarrow> 'k::linorder) \<Rightarrow> nat \<Rightarrow> nat \<Rightarrow> bool" where
  "ord_up k t n \<longleftrightarrow> (\<forall>x < t. 0 < x \<longrightarrow> x \<noteq> n \<longrightarrow> k (par x) \<le> k x) \<and> bridged k t n"

definition ord_hole :: "(nat \<Rightarrow> 'k::linorder) \<Rightarrow> nat \<Rightarrow> nat \<Rightarrow> bool" where
  "ord_hole k t n \<longleftrightarrow> (\<forall>x < t. 0 < x \<longrightarrow> x \<noteq> n \<longrightarrow> par x \<noteq> n \<longrightarrow> k (par x) \<le> k x) \<and> bridged k t n"

lemma heap_ordD: "heap_ord k t \<Longrightarrow> x < t \<Longrightarrow> 0 < x \<Longrightarrow> k (par x) \<le> k x"
  by (simp add: heap_ord_def)

lemma par_less: "0 < x \<Longrightarrow> par x < x"
  by (auto simp: par_def)

lemma heap_ord_root: "heap_ord k t \<Longrightarrow> i < t \<Longrightarrow> k 0 \<le> k i"
proof (induction i rule: less_induct)
  case (less i)
  show ?case
  proof (cases "i = 0")
    case False
    then have "k (par i) \<le> k i" using less.prems by (simp add: heap_ordD)
    moreover have "k 0 \<le> k (par i)" using less.IH [of "par i"] less.prems par_less [of i] False by simp
    ultimately show ?thesis by (rule order_trans [rotated])
  qed simp
qed

lemma heap_bridged: "heap_ord k t \<Longrightarrow> n < t \<Longrightarrow> bridged k t n"
  unfolding bridged_def by (metis heap_ordD order_trans)

lemma heap_imp_hole: "heap_ord k t \<Longrightarrow> n < t \<Longrightarrow> ord_hole k t n"
  by (simp add: ord_hole_def heap_bridged heap_ordD)

lemma hole_step:
  assumes h: "ord_hole k t n" and n: "0 < n" "n < t"
  shows "ord_hole (k(n := k (par n), par n := k n)) t (par n)"
proof -
  let ?p = "par n" and ?k = "k(n := k (par n), par n := k n)"
  have pn: "?p < n" using n by (simp add: par_less)
  have one: "k (par x) \<le> k x" if "x < t" "0 < x" "x \<noteq> n" "par x \<noteq> n" for x using h that by (simp add: ord_hole_def)
  have br: "k ?p \<le> k x" if "x < t" "0 < x" "par x = n" for x using h that n by (simp add: ord_hole_def bridged_def)
  have "?k (par x) \<le> ?k x" if "x < t" "0 < x" "x \<noteq> ?p" "par x \<noteq> ?p" for x
    using that pn one [of x] br [of x] par_less [of x] by (cases "par x = n"; cases "x = n") auto
  moreover have "?k (par ?p) \<le> ?k x" if "x < t" "0 < ?p" "0 < x" "par x = ?p" for x
  proof -
    have pp: "par ?p < ?p" using that(2) by (rule par_less)
    then have "k (par ?p) \<le> k ?p" using one [of ?p] that(2) pn n by simp
    moreover have "x \<noteq> n \<Longrightarrow> k ?p \<le> k x" using one [of x] that pn by simp
    moreover have "?k (par ?p) = k (par ?p)" "x \<noteq> n \<Longrightarrow> ?k x = k x" "x = n \<Longrightarrow> ?k x = k ?p"
      using pp pn that par_less [of x] by auto
    ultimately show ?thesis by (metis order_trans)
  qed
  ultimately show ?thesis by (simp add: ord_hole_def bridged_def)
qed

lemma hole_root: "ord_hole k t 0 \<Longrightarrow> ord_down (\<lambda>i. if i = 0 then v else k i) t 0"
  by (auto simp: ord_hole_def ord_down_def bridged_def)

lemma up_step:
  assumes h: "ord_up k t n" and n: "0 < n" "n < t" and less: "k n < k (par n)"
  shows "ord_up (k(n := k (par n), par n := k n)) t (par n)"
proof -
  let ?p = "par n" and ?k = "k(n := k (par n), par n := k n)"
  have pn: "?p < n" using n by (simp add: par_less)
  have one: "k (par x) \<le> k x" if "x < t" "0 < x" "x \<noteq> n" for x using h that by (simp add: ord_up_def)
  have br: "k ?p \<le> k x" if "x < t" "0 < x" "par x = n" for x using h that n by (simp add: ord_up_def bridged_def)
  have "?k (par x) \<le> ?k x" if x: "x < t" "0 < x" "x \<noteq> ?p" for x
  proof (cases "x = n")
    case True
    then show ?thesis using less pn by auto
  next
    case False
    consider "par x = n" | "par x = ?p" "par x \<noteq> n" | "par x \<noteq> n" "par x \<noteq> ?p" by blast
    then show ?thesis
    proof cases
      case 2
      then have "k ?p \<le> k x" using one [of x] x False by simp
      then have "k n \<le> k x" using less by simp
      then show ?thesis using 2 x False by simp
    qed (use x False pn one [of x] br [of x] in auto)
  qed
  moreover have "?k (par ?p) \<le> ?k x" if "x < t" "0 < ?p" "0 < x" "par x = ?p" for x
  proof -
    have pp: "par ?p < ?p" using that(2) by (rule par_less)
    then have "k (par ?p) \<le> k ?p" using one [of ?p] that(2) pn n by simp
    moreover have "x \<noteq> n \<Longrightarrow> k ?p \<le> k x" using one [of x] that pn by simp
    moreover have "?k (par ?p) = k (par ?p)" "x \<noteq> n \<Longrightarrow> ?k x = k x" "x = n \<Longrightarrow> ?k x = k ?p"
      using pp pn that par_less [of x] by auto
    ultimately show ?thesis by (metis order_trans)
  qed
  ultimately show ?thesis by (simp add: ord_up_def bridged_def)
qed

lemma up_done: "ord_up k t n \<Longrightarrow> n = 0 \<or> k (par n) \<le> k n \<Longrightarrow> heap_ord k t"
  by (auto simp: ord_up_def heap_ord_def)

lemma down_step:
  assumes h: "ord_down k t n" and p: "par p = n" "0 < p" "p < t" and less: "k p < k n"
    and small: "\<forall>x < t. 0 < x \<longrightarrow> par x = n \<longrightarrow> k p \<le> k x"
  shows "ord_down (k(n := k p, p := k n)) t p"
proof -
  let ?k = "k(n := k p, p := k n)"
  have np: "n < p" using p par_less by blast
  have one: "k (par x) \<le> k x" if "x < t" "0 < x" "par x \<noteq> n" for x using h that by (simp add: ord_down_def)
  have "?k (par x) \<le> ?k x" if x: "x < t" "0 < x" "par x \<noteq> p" for x
  proof -
    consider "x = p" | "x = n" | "x \<noteq> p" "x \<noteq> n" "par x = n" | "x \<noteq> p" "x \<noteq> n" "par x \<noteq> n" by blast
    then show ?thesis
    proof cases
      case 1 then show ?thesis using p np less by auto
    next
      case 2
      then have "k (par n) \<le> k p" using h p x by (auto simp: ord_down_def bridged_def)
      then show ?thesis using 2 x np par_less [of x] by auto
    next
      case 3 then show ?thesis using small x by auto
    next
      case 4 then show ?thesis using one x by auto
    qed
  qed
  moreover have "?k (par p) \<le> ?k x" if "x < t" "0 < x" "par x = p" for x
    using that p np one [of x] par_less [of x] by auto
  ultimately show ?thesis by (simp add: ord_down_def bridged_def)
qed

lemma down_done: "ord_down k t n \<Longrightarrow> \<forall>x < t. 0 < x \<longrightarrow> par x = n \<longrightarrow> k n \<le> k x \<Longrightarrow> heap_ord k t"
  by (auto simp: ord_down_def heap_ord_def)

lemma children: "0 < x \<Longrightarrow> par x = n \<Longrightarrow> x = n * 2 + 1 \<or> x = n * 2 + 2"
  unfolding par_def by presburger

section \<open>Moving elements keeps the order\<close>

abbreviation keys :: "('a \<Rightarrow> 'k) \<Rightarrow> 'a pqueue \<Rightarrow> nat \<Rightarrow> 'k" where
  "keys key pq i \<equiv> key (hdata (heap pq ! i))"

lemma ord_cong:
  assumes "\<forall>x < t. k x = k' x" and "n < t \<or> n = 0"
  shows "ord_hole k t n = ord_hole k' t n" "ord_up k t n = ord_up k' t n" "ord_down k t n = ord_down k' t n"
    "heap_ord k t = heap_ord k' t"
proof -
  have p: "x < t \<Longrightarrow> 0 < x \<Longrightarrow> k (par x) = k' (par x)" "x < t \<Longrightarrow> k x = k' x" for x
    using assms par_less [of x] by (auto dest: less_trans)
  show "ord_hole k t n = ord_hole k' t n" "ord_up k t n = ord_up k' t n" "ord_down k t n = ord_down k' t n"
    "heap_ord k t = heap_ord k' t"
    using p p(1) [of n] assms(2) by (auto simp: ord_hole_def ord_up_def ord_down_def heap_ord_def bridged_def)
qed

context cmp_order
begin

lemma force_bottom_loop_ok:
  assumes "linked pq" and "n < htop pq" and "ord_hole (keys key pq) (htop pq) n"
  shows "\<exists>pq'. force_bottom_loop pq n = Inr pq' \<and> moved pq pq' \<and> linked pq' \<and> heap pq' ! 0 = heap pq ! n \<and>
    ord_hole (keys key pq') (htop pq) 0"
  using assms
proof (induction pq n rule: force_bottom_loop.induct)
  case (1 pq n)
  show ?case
  proof (cases "n = 0")
    case True
    then show ?thesis using "1.prems" by (auto simp: force_bottom_loop.simps)
  next
    case False
    let ?p = "(n - 1) div 2"
    have p: "?p = par n" "?p < n" using False by (auto simp: par_def)
    then have pt: "?p < htop pq" using "1.prems"(2) by simp
    obtain pq' where s: "pqueue_swap_elem pq n ?p = Inr pq'" "moved pq pq'" "linked pq'"
        "heap pq' = (heap pq)[n := heap pq ! ?p, ?p := heap pq ! n]"
      using swap_elem_ok [OF "1.prems"(1,2) pt] .
    have top: "htop pq' = htop pq" using s(2) by (simp add: moved_def)
    have len: "htop pq \<le> length (heap pq)" using "1.prems"(1) by (simp add: linked_def)
    have eq: "\<forall>x < htop pq. keys key pq' x = ((keys key pq)(n := keys key pq (par n), par n := keys key pq n)) x"
      using s(4) len "1.prems"(2) pt p(1) by (auto simp: nth_list_update)
    have side: "par n < htop pq \<or> par n = 0" using pt p(1) by simp
    have gt: "0 < n" using False by simp
    have "ord_hole (keys key pq') (htop pq) (par n)"
      unfolding ord_cong(1) [OF eq side] by (rule hole_step [OF "1.prems"(3) gt "1.prems"(2)])
    then have oh: "ord_hole (keys key pq') (htop pq') ?p" using top p(1) by simp
    have pt': "?p < htop pq'" using top pt by simp
    from "1.IH" [OF gt refl s(3) pt' oh] obtain pq'' where r: "force_bottom_loop pq' ?p = Inr pq''" "moved pq' pq''"
        "linked pq''" "heap pq'' ! 0 = heap pq' ! ?p" "ord_hole (keys key pq'') (htop pq) 0"
      unfolding top by blast
    moreover have "heap pq' ! ?p = heap pq ! n" using s(4) len pt by simp
    moreover have "force_bottom_loop pq n = Inr pq''"
      using False s(1) r(1) linkedD(1) [OF "1.prems"(1) pt] by (subst force_bottom_loop.simps) (simp add: Let_def)
    ultimately show ?thesis using moved_trans [OF s(2)] by metis
  qed
qed

lemma move_down_loop_ok:
  assumes "linked pq" and "n < htop pq" and "ord_up (keys key pq) (htop pq) n" and "compare pq = cmp"
  shows "\<exists>pq'. move_down_loop pq n = Inr pq' \<and> moved pq pq' \<and> linked pq' \<and> heap_ord (keys key pq') (htop pq)"
  using assms
proof (induction pq n rule: move_down_loop.induct)
  case (1 pq n)
  let ?p = "(n - 1) div 2"
  consider "n = 0" | "0 < n" "keys key pq ?p \<le> keys key pq n" | "0 < n" "keys key pq n < keys key pq ?p" by fastforce
  then show ?case
  proof cases
    case 1
    then show ?thesis using "1.prems" up_done [OF "1.prems"(3)] by (auto simp: move_down_loop.simps)
  next
    case 2
    then have "?p < htop pq" using "1.prems"(2) by simp
    then have "assert_used pq ?p = Inr ()" using linkedD(1) [OF "1.prems"(1)] by blast
    moreover have "heap_ord (keys key pq) (htop pq)" using up_done [OF "1.prems"(3)] 2 by (simp add: par_def)
    ultimately show ?thesis using 2 "1.prems"
      by (subst move_down_loop.simps) (simp add: Let_def cmp_nonneg)
  next
    case 3
    then have p: "?p = par n" "?p < n" by (auto simp: par_def)
    then have pt: "?p < htop pq" using "1.prems"(2) by simp
    obtain pq' where s: "pqueue_swap_elem pq n ?p = Inr pq'" "moved pq pq'" "linked pq'"
        "heap pq' = (heap pq)[n := heap pq ! ?p, ?p := heap pq ! n]"
      using swap_elem_ok [OF "1.prems"(1,2) pt] .
    have top: "htop pq' = htop pq" "compare pq' = cmp" using s(2) "1.prems"(4) by (simp_all add: moved_def)
    have len: "htop pq \<le> length (heap pq)" using "1.prems"(1) by (simp add: linked_def)
    have eq: "\<forall>x < htop pq. keys key pq' x = ((keys key pq)(n := keys key pq (par n), par n := keys key pq n)) x"
      using s(4) len "1.prems"(2) pt p(1) by (auto simp: nth_list_update)
    have side: "par n < htop pq \<or> par n = 0" using pt p(1) by simp
    have "ord_up (keys key pq') (htop pq) (par n)"
      unfolding ord_cong(2) [OF eq side] using up_step [OF "1.prems"(3) 3(1) "1.prems"(2)] 3(2) p(1) by simp
    then have oh: "ord_up (keys key pq') (htop pq') ?p" using top p(1) by simp
    have a: "assert_used pq ?p = Inr ()" using linkedD(1) [OF "1.prems"(1) pt] .
    have c: "\<not> 0 \<le> compare pq (hdata (heap pq ! n)) (hdata (heap pq ! ?p))"
      using 3(2) "1.prems"(4) by (simp add: cmp_nonneg)
    have pt': "?p < htop pq'" using top pt by simp
    from "1.IH" [OF 3(1) refl _ s(3) pt' oh top(2)] c obtain pq'' where r: "move_down_loop pq' ?p = Inr pq''"
        "moved pq' pq''" "linked pq''" "heap_ord (keys key pq'') (htop pq)"
      unfolding top by blast
    moreover have "move_down_loop pq n = Inr pq''"
      using 3(1) s(1) r(1) a c by (subst move_down_loop.simps) (simp add: Let_def)
    ultimately show ?thesis using moved_trans [OF s(2)] by metis
  qed
qed

lemma second_child_ok:
  assumes "linked pq" and "compare pq = cmp"
  shows "\<exists>b. second_child pq (n * 2 + 1) = Inr b \<and> (b \<longrightarrow> n * 2 + 2 < htop pq) \<and>
    (\<forall>x < htop pq. 0 < x \<longrightarrow> par x = n \<longrightarrow> keys key pq (n * 2 + 1 + of_bool b) \<le> keys key pq x)"
proof (cases "n * 2 + 2 < htop pq")
  case True
  let ?b = "cmp (hdata (heap pq ! (n * 2 + 1))) (hdata (heap pq ! (n * 2 + 2))) > 0"
  have "assert_used pq (n * 2 + 1 + 1) = Inr ()" using linkedD(1) [OF assms(1) True] by simp
  then have "second_child pq (n * 2 + 1) = Inr ?b" using True assms(2) by (simp add: second_child_def)
  moreover have "keys key pq (n * 2 + 1 + of_bool ?b) \<le> keys key pq x" if "0 < x" "par x = n" for x
  proof (cases ?b)
    case bigger: True
    then show ?thesis using children [OF that] by (auto simp: cmp_greater less_imp_le)
  next
    case smaller: False
    then show ?thesis using children [OF that] by (auto simp: cmp_greater)
  qed
  ultimately show ?thesis using True by blast
next
  case False
  then have "second_child pq (n * 2 + 1) = Inr False" by (simp add: second_child_def)
  moreover have "x = n * 2 + 1" if "x < htop pq" "0 < x" "par x = n" for x using children [OF that(2,3)] that(1) False by auto
  ultimately show ?thesis by (intro exI [of _ False]) auto
qed

lemma move_up_loop_ok:
  assumes "linked pq" and "n < htop pq" and "ord_down (keys key pq) (htop pq) n" and "compare pq = cmp" and "t = htop pq"
    and "\<forall>x < t. 0 < x \<longrightarrow> par x = n \<longrightarrow> keys key pq (n * 2 + 1 + of_bool second) \<le> keys key pq x"
    and "second \<longrightarrow> n * 2 + 2 < t"
  shows "\<exists>pq'. move_up_loop t pq n second = Inr pq' \<and> moved pq pq' \<and> linked pq' \<and> heap_ord (keys key pq') t"
  using assms
proof (induction t pq n second rule: move_up_loop.induct)
  case (1 t pq n second)
  let ?p = "n * 2 + 1 + of_bool second"
  have par: "par ?p = n" "0 < ?p" "n < ?p" by (cases second; simp add: par_def)+
  show ?case
  proof (cases "?p < t \<and> keys key pq ?p < keys key pq n")
    case False
    then have "\<forall>x < t. 0 < x \<longrightarrow> par x = n \<longrightarrow> keys key pq n \<le> keys key pq x"
    proof (intro allI impI)
      fix x assume x: "x < t" "0 < x" "par x = n"
      have le: "keys key pq ?p \<le> keys key pq x" using "1.prems"(6) x by blast
      show "keys key pq n \<le> keys key pq x"
      proof (cases "?p < t")
        case True
        then show ?thesis using False le by (meson not_less order_trans)
      next
        case out: False
        then have second using children [OF x(2,3)] x(1) by (cases second) auto
        then show ?thesis using out "1.prems"(7) by simp
      qed
    qed
    then have "heap_ord (keys key pq) t" using down_done "1.prems"(3,5) by blast
    moreover have "move_up_loop t pq n second = Inr pq"
      using False "1.prems"(4) by (subst move_up_loop.simps) (auto simp: Let_def cmp_less)
    ultimately show ?thesis using "1.prems"(1) by auto
  next
    case True
    then have pt: "?p < htop pq" using "1.prems"(5) by simp
    obtain pq' where s: "pqueue_swap_elem pq n ?p = Inr pq'" "moved pq pq'" "linked pq'"
        "heap pq' = (heap pq)[n := heap pq ! ?p, ?p := heap pq ! n]"
      using swap_elem_ok [OF "1.prems"(1,2) pt] .
    have top: "htop pq' = htop pq" "compare pq' = cmp" using s(2) "1.prems"(4) by (simp_all add: moved_def)
    have len: "htop pq \<le> length (heap pq)" using "1.prems"(1) by (simp add: linked_def)
    have eq: "\<forall>x < htop pq. keys key pq' x = ((keys key pq)(n := keys key pq ?p, ?p := keys key pq n)) x"
      using s(4) len "1.prems"(2) pt by (auto simp: nth_list_update)
    have side: "?p < htop pq \<or> ?p = 0" using pt by simp
    have "ord_down (keys key pq') (htop pq) ?p"
      unfolding ord_cong(3) [OF eq side]
      using down_step [OF "1.prems"(3) par(1,2) pt] True "1.prems"(6) unfolding "1.prems"(5) by blast
    then have od: "ord_down (keys key pq') (htop pq') ?p" using top by simp
    obtain b where b: "second_child pq' (?p * 2 + 1) = Inr b" "b \<longrightarrow> ?p * 2 + 2 < htop pq'"
        "\<forall>x < htop pq'. 0 < x \<longrightarrow> par x = ?p \<longrightarrow> keys key pq' (?p * 2 + 1 + of_bool b) \<le> keys key pq' x"
      using second_child_ok [OF s(3) top(2), of ?p] by blast
    have a: "assert_used pq ?p = Inr ()" using linkedD(1) [OF "1.prems"(1) pt] .
    have c: "?p < t \<and> compare pq (hdata (heap pq ! ?p)) (hdata (heap pq ! n)) < 0"
      using True "1.prems"(4) by (simp add: cmp_less)
    have pt': "?p < htop pq'" and t': "t = htop pq'" using top pt "1.prems"(5) by simp_all
    from "1.IH" [OF refl c s(3) pt' od top(2) t' b(3,2) [folded t']]
    obtain pq'' where r: "move_up_loop t pq' ?p b = Inr pq''" "moved pq' pq''" "linked pq''" "heap_ord (keys key pq'') t"
      by blast
    moreover have "move_up_loop t pq n second = Inr pq''"
      using s(1) r(1) a c b(1) by (subst move_up_loop.simps) (simp add: Let_def)
    ultimately show ?thesis using moved_trans [OF s(2)] by metis
  qed
qed

end

section \<open>Invariant and abstraction\<close>

fun chain :: "pq_elem list \<Rightarrow> nat \<Rightarrow> nat list \<Rightarrow> bool" where
  \<comment> \<open>the free list from \<open>f\<close> on; what its last element holds is of no account\<close>
  "chain es f [] = True"
| "chain es f (e # fs) = (f = e \<and> chain es (posn (es ! e)) fs)"

definition free_set :: "'a pqueue \<Rightarrow> nat set \<Rightarrow> bool" where
  "free_set pq S \<longleftrightarrow> length (elements pq) = hmax pq \<and>
     (\<exists>fs. distinct fs \<and> set fs = S \<and> chain (elements pq) (freelist pq) fs)"

definition free_ok :: "'a pqueue \<Rightarrow> bool" where
  "free_ok pq \<longleftrightarrow> free_set pq {e. e < hmax pq \<and> e \<notin> hindex ` live pq} \<and>
     (\<forall>e < hmax pq. used (elements pq ! e) \<longrightarrow> e \<in> hindex ` live pq)"

definition pq_inv :: "('a \<Rightarrow> 'k::linorder) \<Rightarrow> 'a pqueue \<Rightarrow> bool" where
  "pq_inv key pq \<longleftrightarrow> linked pq \<and> free_ok pq \<and> htop pq < hmax pq \<and> hmax pq \<le> length (heap pq) \<and>
     min_nodes \<le> hmax pq \<and> hmax pq \<le> max_nodes \<and> heap_ord (keys key pq) (htop pq)"

definition pq_holds :: "('a \<Rightarrow> 'k::linorder) \<Rightarrow> 'a pqueue \<Rightarrow> (nat \<rightharpoonup> 'a) \<Rightarrow> bool" where
  \<comment> \<open>the queue holds the items of the map, each under its handle\<close>
  "pq_holds key pq m \<longleftrightarrow> pq_inv key pq \<and> (\<forall>c. c \<in> live pq \<longleftrightarrow> m (hindex c) = Some (hdata c))"

lemma chain_cong: "\<forall>e \<in> set fs. es ! e = es' ! e \<Longrightarrow> chain es f fs = chain es' f fs"
  by (induction fs arbitrary: f) auto

lemma live_index: "linked pq \<Longrightarrow> c \<in> live pq \<Longrightarrow> c' \<in> live pq \<Longrightarrow> hindex c = hindex c' \<Longrightarrow> c = c'"
  using linked_inj by (metis live_iff)

lemma holds_live:
  assumes "pq_holds key pq m"
  shows "c \<in> live pq \<longleftrightarrow> m (hindex c) = Some (hdata c)"
  using assms by (simp add: pq_holds_def)

lemma holds_cell: "pq_holds key pq m \<Longrightarrow> m e = Some d \<Longrightarrow> \<lparr>hdata = d, hindex = e\<rparr> \<in> live pq"
  by (simp add: holds_live)

lemma holds_dom:
  assumes "pq_holds key pq m"
  shows "dom m = hindex ` live pq" and "ran m = hdata ` live pq"
proof -
  have "e \<in> hindex ` live pq \<and> d \<in> hdata ` live pq" if "m e = Some d" for e d
    using holds_cell [OF assms that] by (metis imageI pq_heap.select_convs(1,2))
  then show "dom m = hindex ` live pq" "ran m = hdata ` live pq"
    using holds_live [OF assms] by (auto simp: dom_def ran_def)
qed

lemma card_live: "linked pq \<Longrightarrow> card (hindex ` live pq) = htop pq"
proof -
  assume l: "linked pq"
  have "hindex ` live pq = (\<lambda>i. hindex (heap pq ! i)) ` {..< htop pq}" using live_iff [OF l] by force
  moreover have "inj_on (\<lambda>i. hindex (heap pq ! i)) {..< htop pq}" using linked_inj [OF l] by (auto intro: inj_onI)
  ultimately show ?thesis by (simp add: card_image)
qed

lemma live_index_less: "linked pq \<Longrightarrow> e \<in> hindex ` live pq \<Longrightarrow> e < length (elements pq)"
  by (auto simp: live_iff dest: linkedD)

lemma moved_free:
  assumes m: "moved pq pq'" and l: "linked pq" and f: "free_set pq S" and S: "S \<inter> hindex ` live pq = {}"
  shows "free_set pq' S"
proof -
  obtain fs where fs: "distinct fs" "set fs = S" "chain (elements pq) (freelist pq) fs" using f by (auto simp: free_set_def)
  have same: "e \<notin> hindex ` live pq \<Longrightarrow> elements pq' ! e = elements pq ! e" for e using m by (simp add: moved_def)
  have "\<forall>e \<in> set fs. elements pq ! e = elements pq' ! e" using same [symmetric] fs(2) S by blast
  moreover have "freelist pq' = freelist pq" "hmax pq' = hmax pq" "length (elements pq') = length (elements pq)"
    using m by (simp_all add: moved_def)
  ultimately show ?thesis using f fs chain_cong [of fs "elements pq" "elements pq'" "freelist pq"]
    by (auto simp: free_set_def)
qed

lemma moved_free_ok: "moved pq pq' \<Longrightarrow> linked pq \<Longrightarrow> free_ok pq \<Longrightarrow> free_ok pq'"
  using moved_free [of pq pq' "{e. e < hmax pq \<and> e \<notin> hindex ` live pq}"] unfolding free_ok_def moved_def by force

lemma free_elem_ok:
  assumes l: "linked pq" and e: "e < hmax pq" "e \<notin> hindex ` live pq"
    and f: "free_set pq ({e. e < hmax pq \<and> e \<notin> hindex ` live pq} - {e})"
    and u: "\<forall>k < hmax pq. used (elements pq ! k) \<longrightarrow> k \<in> hindex ` live pq \<or> k = e"
  shows "linked (free_elem e pq)" and "free_ok (free_elem e pq)" and "live (free_elem e pq) = live pq"
proof -
  let ?pq = "free_elem e pq"
  show live: "live ?pq = live pq" by (simp add: free_elem_def live_def)
  have len: "length (elements pq) = hmax pq" using f by (simp add: free_set_def)
  have nth: "elements ?pq ! k = (if k = e then \<lparr>posn = freelist pq, used = False\<rparr> else elements pq ! k)" for k
    using e len by (simp add: free_elem_def)
  have "assert_used ?pq i = Inr ()" if "i < htop pq" for i
  proof -
    have "hindex (heap pq ! i) \<noteq> e" using live_nth [OF l that] e(2) by blast
    then show ?thesis using linkedD [OF l that] nth len by (simp add: assert_used_iff free_elem_def)
  qed
  then show "linked ?pq" using l by (simp add: linked_def free_elem_def)
  obtain fs where fs: "distinct fs" "set fs = {e. e < hmax pq \<and> e \<notin> hindex ` live pq} - {e}"
      "chain (elements pq) (freelist pq) fs"
    using f by (auto simp: free_set_def)
  have "chain (elements ?pq) (freelist pq) fs" using fs chain_cong [of fs "elements pq" "elements ?pq"] nth by auto
  then have "chain (elements ?pq) (freelist ?pq) (e # fs)" using nth [of e] by (simp add: free_elem_def)
  moreover have "distinct (e # fs)" "set (e # fs) = {e. e < hmax pq \<and> e \<notin> hindex ` live pq}" using fs e by auto
  ultimately have "free_set ?pq {e. e < hmax pq \<and> e \<notin> hindex ` live pq}"
    using len unfolding free_set_def by (metis (no_types, lifting) free_elem_def length_list_update pqueue.select_convs(2,5)
        pqueue.surjective pqueue.update_convs(2,6))
  moreover have "k \<in> hindex ` live pq" if "k < hmax pq" "used (elements ?pq ! k)" for k
    using that nth [of k] u by (auto split: if_splits)
  moreover have "hmax ?pq = hmax pq" by (simp add: free_elem_def)
  ultimately show "free_ok ?pq" unfolding free_ok_def live by simp
qed

section \<open>Taking elements out\<close>

lemma live_shrink:
  assumes l: "linked pq" and t: "htop pq = Suc t"
  shows "linked (pq\<lparr>htop := t\<rparr>)" and "live (pq\<lparr>htop := t\<rparr>) = live pq - {heap pq ! t}" and "heap pq ! t \<in> live pq"
proof -
  show "linked (pq\<lparr>htop := t\<rparr>)" using l t by (auto simp: linked_def assert_used_iff)
  then have "c \<in> live (pq\<lparr>htop := t\<rparr>) \<longleftrightarrow> (\<exists>i < t. heap pq ! i = c)" for c by (simp add: live_iff)
  moreover have "heap pq ! i \<noteq> heap pq ! t" if "i < t" for i using linked_inj [OF l, of i t] that t by fastforce
  ultimately show "live (pq\<lparr>htop := t\<rparr>) = live pq - {heap pq ! t}"
    using t by (auto simp: live_iff [OF l] less_Suc_eq)
  show "heap pq ! t \<in> live pq" using live_nth [OF l] t by simp
qed

lemma move_elem_ok:
  assumes l: "linked pq" and t: "htop pq = Suc t" and "0 < t"
  obtains pq' where "pqueue_move_elem (pq\<lparr>htop := t\<rparr>) t 0 = Inr pq'" and "linked pq'" and "htop pq' = t"
    and "live pq' = live pq - {heap pq ! 0}" and "heap pq' = (heap pq)[0 := heap pq ! t]"
    and "compare pq' = compare pq" and "hmax pq' = hmax pq" and "freelist pq' = freelist pq"
    and "length (elements pq') = length (elements pq)"
    and "\<forall>e. e \<noteq> hindex (heap pq ! t) \<longrightarrow> elements pq' ! e = elements pq ! e" and "\<forall>e. used (elements pq' ! e) = used (elements pq ! e)"
proof -
  let ?h = "(heap pq)[0 := heap pq ! t]" and ?m = "hindex (heap pq ! t)"
  let ?pq = "pq\<lparr>htop := t, heap := ?h, elements := set_posn ?m 0 (elements pq)\<rparr>"
  note lt = linkedD [OF l, of t]
  have len: "htop pq \<le> length (heap pq)" using l by (simp add: linked_def)
  then have ne: "heap pq \<noteq> []" using t by auto
  have es: "set_posn ?m 0 (elements pq) ! e = (if e = ?m then (elements pq ! e)\<lparr>posn := 0\<rparr> else elements pq ! e)" for e
    using lt(3) t by (simp add: set_posn_nth)
  have "assert_used (pq\<lparr>htop := t\<rparr>) t = Inr ()" using lt t by (simp add: assert_used_iff)
  then have eq: "pqueue_move_elem (pq\<lparr>htop := t\<rparr>) t 0 = Inr ?pq"
    using ne by (simp add: pqueue_move_elem_def Let_def)
  have a: "assert_used ?pq i = Inr ()" if "i < t" for i
  proof (cases "i = 0")
    case True
    then show ?thesis using lt t es ne by (simp add: assert_used_iff)
  next
    case False
    then have "hindex (heap pq ! i) \<noteq> ?m" using linked_inj [OF l, of i t] that t by auto
    then show ?thesis using linkedD [OF l, of i] that t es False by (simp add: assert_used_iff)
  qed
  then have l': "linked ?pq" using len t by (simp add: linked_def)
  have "c \<in> live ?pq \<longleftrightarrow> c \<in> live pq \<and> c \<noteq> heap pq ! 0" for c
  proof -
    have "c \<in> live ?pq \<longleftrightarrow> (\<exists>i < t. ?h ! i = c)" using live_iff [OF l'] by simp
    also have "\<dots> \<longleftrightarrow> (\<exists>i < Suc t. 0 < i \<and> heap pq ! i = c)"
    proof
      assume "\<exists>i < t. ?h ! i = c"
      then obtain i where "i < t" "?h ! i = c" by blast
      then show "\<exists>i < Suc t. 0 < i \<and> heap pq ! i = c"
        using \<open>0 < t\<close> ne by (cases "i = 0") (auto intro: exI [of _ t] exI [of _ i])
    next
      assume "\<exists>i < Suc t. 0 < i \<and> heap pq ! i = c"
      then obtain i where "i < Suc t" "0 < i" "heap pq ! i = c" by blast
      then show "\<exists>i < t. ?h ! i = c"
        using \<open>0 < t\<close> ne by (cases "i = t") (auto intro: exI [of _ 0] exI [of _ i])
    qed
    also have "\<dots> \<longleftrightarrow> c \<in> live pq \<and> c \<noteq> heap pq ! 0"
    proof
      assume "\<exists>i < Suc t. 0 < i \<and> heap pq ! i = c"
      then obtain i where i: "i < Suc t" "0 < i" "heap pq ! i = c" by blast
      then have "c \<noteq> heap pq ! 0" using linked_inj [OF l, of i 0] t by fastforce
      then show "c \<in> live pq \<and> c \<noteq> heap pq ! 0" using i live_nth [OF l, of i] t by simp
    next
      assume c: "c \<in> live pq \<and> c \<noteq> heap pq ! 0"
      then obtain i where i: "i < Suc t" "heap pq ! i = c" using live_iff [OF l, of c] t by auto
      then have "0 < i" using c by (cases i) auto
      then show "\<exists>i < Suc t. 0 < i \<and> heap pq ! i = c" using i by blast
    qed
    finally show ?thesis .
  qed
  then have "live ?pq = live pq - {heap pq ! 0}" by blast
  then show ?thesis using that [OF eq l'] es by simp
qed

lemma index_minus:
  assumes l: "linked pq" and c: "c \<in> live pq" and f: "free_ok pq"
  shows "hindex c < hmax pq" and "hindex c \<notin> hindex ` (live pq - {c})"
    and "{e. e < hmax pq \<and> e \<notin> hindex ` (live pq - {c})} - {hindex c} = {e. e < hmax pq \<and> e \<notin> hindex ` live pq}"
    and "\<forall>e < hmax pq. used (elements pq ! e) \<longrightarrow> e \<in> hindex ` (live pq - {c}) \<or> e = hindex c"
proof -
  show "hindex c < hmax pq" using live_index_less [OF l, of "hindex c"] c f by (auto simp: free_ok_def free_set_def)
  show "hindex c \<notin> hindex ` (live pq - {c})" using live_index [OF l c] by auto
  have "hindex ` live pq = insert (hindex c) (hindex ` (live pq - {c}))" using c by blast
  then show "{e. e < hmax pq \<and> e \<notin> hindex ` (live pq - {c})} - {hindex c} = {e. e < hmax pq \<and> e \<notin> hindex ` live pq}"
    "\<forall>e < hmax pq. used (elements pq ! e) \<longrightarrow> e \<in> hindex ` (live pq - {c}) \<or> e = hindex c"
    using f by (auto simp: free_ok_def)
qed

context cmp_order
begin

lemma pop_ok:
  assumes l: "linked pq" and f: "free_ok pq" and t: "htop pq = Suc t" and o: "ord_hole (keys key pq) (htop pq) 0"
    and c: "compare pq = cmp"
  shows "\<exists>pq'. ossl_pqueue_pop pq = Inr (Some (hdata (heap pq ! 0)), pq') \<and> linked pq' \<and> free_ok pq' \<and>
    heap_ord (keys key pq') (htop pq') \<and> htop pq' = t \<and> hmax pq' = hmax pq \<and> compare pq' = cmp \<and>
    length (heap pq') = length (heap pq) \<and> live pq' = live pq - {heap pq ! 0}"
proof -
  let ?c = "heap pq ! 0"
  have c0: "?c \<in> live pq" using live_nth [OF l] t by simp
  note ix = index_minus [OF l c0 f]
  have a0: "assert_used pq 0 = Inr ()" using linkedD(1) [OF l] t by simp
  have fs: "free_set pq {e. e < hmax pq \<and> e \<notin> hindex ` live pq}" using f by (simp add: free_ok_def)
  have "\<exists>pq'. (if t \<noteq> 0 then bind_res (pqueue_move_elem (pq\<lparr>htop := t\<rparr>) t 0) (\<lambda>pq. pqueue_move_up pq 0)
        else Inr (pq\<lparr>htop := t\<rparr>)) = Inr pq' \<and> linked pq' \<and> heap_ord (keys key pq') t \<and> htop pq' = t \<and> hmax pq' = hmax pq \<and>
      compare pq' = cmp \<and> length (heap pq') = length (heap pq) \<and> live pq' = live pq - {?c} \<and>
      free_set pq' {e. e < hmax pq \<and> e \<notin> hindex ` live pq} \<and> (\<forall>e. used (elements pq' ! e) = used (elements pq ! e))"
  proof (cases "t = 0")
    case True
    then show ?thesis using live_shrink [OF l t] fs c by (auto simp: heap_ord_def free_set_def)
  next
    case False
    then obtain pq1 where m: "pqueue_move_elem (pq\<lparr>htop := t\<rparr>) t 0 = Inr pq1" "linked pq1" "htop pq1 = t"
        "live pq1 = live pq - {?c}" "heap pq1 = (heap pq)[0 := heap pq ! t]" "compare pq1 = compare pq"
        "hmax pq1 = hmax pq" "freelist pq1 = freelist pq" "length (elements pq1) = length (elements pq)"
        "\<forall>e. e \<noteq> hindex (heap pq ! t) \<longrightarrow> elements pq1 ! e = elements pq ! e"
        "\<forall>e. used (elements pq1 ! e) = used (elements pq ! e)"
      using move_elem_ok [OF l t] by blast
    have len: "htop pq \<le> length (heap pq)" using l by (simp add: linked_def)
    then have ne: "heap pq \<noteq> []" using t by auto
    have eq: "\<forall>x < t. keys key pq1 x = (\<lambda>i. if i = 0 then keys key pq t else keys key pq i) x"
      using m(5) len t ne by (auto simp: nth_list_update)
    have "ord_hole (keys key pq) t 0" using o t by (auto simp: ord_hole_def bridged_def)
    then have od: "ord_down (keys key pq1) (htop pq1) 0"
      unfolding m(3) ord_cong(3) [OF eq disjI2 [OF refl]] by (rule hole_root)
    have cm: "compare pq1 = cmp" using m(6) c by simp
    obtain b where b: "second_child pq1 (0 * 2 + 1) = Inr b" "b \<longrightarrow> 0 * 2 + 2 < htop pq1"
        "\<forall>x < htop pq1. 0 < x \<longrightarrow> par x = 0 \<longrightarrow> keys key pq1 (0 * 2 + 1 + of_bool b) \<le> keys key pq1 x"
      using second_child_ok [OF m(2) cm, of 0] by blast
    have pos: "0 < htop pq1" using False m(3) by simp
    obtain pq2 where r: "move_up_loop (htop pq1) pq1 0 b = Inr pq2" "moved pq1 pq2" "linked pq2" "heap_ord (keys key pq2) (htop pq1)"
      using move_up_loop_ok [OF m(2) pos od cm refl b(3,2)] by blast
    have "assert_used pq1 0 = Inr ()" "htop pq1 > 2 \<Longrightarrow> assert_used pq1 1 = Inr ()"
      using linkedD(1) [OF m(2)] pos by simp_all
    then have up: "pqueue_move_up pq1 0 = Inr pq2" using b(1) r(1) by (simp add: pqueue_move_up_def Let_def)
    have dis: "{e. e < hmax pq \<and> e \<notin> hindex ` live pq} \<inter> hindex ` live pq1 = {}" using m(4) by auto
    have "heap pq ! t \<in> live pq" using live_nth [OF l] t by simp
    then have "hindex (heap pq ! t) \<in> hindex ` live pq" by blast
    then have "free_set pq1 {e. e < hmax pq \<and> e \<notin> hindex ` live pq}"
      using fs m(7-10) chain_cong [of _ "elements pq" "elements pq1"] unfolding free_set_def by (metis (no_types, lifting) mem_Collect_eq)
    from moved_free [OF r(2) m(2) this dis] show ?thesis
      using False m up r c unfolding moved_def by auto
  qed
  then obtain pq' where p: "(if t \<noteq> 0 then bind_res (pqueue_move_elem (pq\<lparr>htop := t\<rparr>) t 0) (\<lambda>pq. pqueue_move_up pq 0)
        else Inr (pq\<lparr>htop := t\<rparr>)) = Inr pq'" "linked pq'" "heap_ord (keys key pq') t" "htop pq' = t" "hmax pq' = hmax pq"
      "compare pq' = cmp" "length (heap pq') = length (heap pq)" "live pq' = live pq - {?c}"
      "free_set pq' {e. e < hmax pq \<and> e \<notin> hindex ` live pq}" "\<forall>e. used (elements pq' ! e) = used (elements pq ! e)" by blast
  have pop: "ossl_pqueue_pop pq = Inr (Some (hdata ?c), free_elem (hindex ?c) pq')"
    using a0 t p(1) by (auto simp: ossl_pqueue_pop_def Let_def)
  have fe: "linked (free_elem (hindex ?c) pq')" "free_ok (free_elem (hindex ?c) pq')"
      "live (free_elem (hindex ?c) pq') = live pq'"
    using free_elem_ok [OF p(2), of "hindex ?c"] ix p(5,8-10) by simp_all
  show ?thesis using pop fe p(3-8) by (intro exI [of _ "free_elem (hindex ?c) pq'"]) (simp add: free_elem_def)
qed

text \<open>The operations on a queue that satisfies the invariant.\<close>

lemma pop_holds:
  assumes h: "pq_holds key pq m" and c: "compare pq = cmp"
  shows "if m = Map.empty then ossl_pqueue_pop pq = Inr (None, pq)
    else \<exists>e d pq'. ossl_pqueue_pop pq = Inr (Some d, pq') \<and> m e = Some d \<and> (\<forall>d' \<in> ran m. key d \<le> key d') \<and>
      pq_holds key pq' (m(e := None)) \<and> compare pq' = cmp"
proof -
  have inv: "linked pq" "free_ok pq" "heap_ord (keys key pq) (htop pq)" "htop pq < hmax pq"
      "hmax pq \<le> length (heap pq)" "min_nodes \<le> hmax pq" "hmax pq \<le> max_nodes"
    using h by (simp_all add: pq_holds_def pq_inv_def)
  show ?thesis
  proof (cases "htop pq")
    case 0
    then have "m = Map.empty" using holds_dom(1) [OF h] by (simp add: live_def)
    then show ?thesis using 0 by (simp add: ossl_pqueue_pop_def)
  next
    case (Suc t)
    let ?c = "heap pq ! 0"
    have c0: "?c \<in> live pq" using live_nth [OF inv(1)] Suc by simp
    then have m0: "m (hindex ?c) = Some (hdata ?c)" using holds_live [OF h] by blast
    have "ord_hole (keys key pq) (htop pq) 0" using heap_imp_hole [OF inv(3)] Suc by simp
    from pop_ok [OF inv(1,2) Suc this c] obtain pq' where p: "ossl_pqueue_pop pq = Inr (Some (hdata ?c), pq')"
        "linked pq'" "free_ok pq'" "heap_ord (keys key pq') (htop pq')" "htop pq' = t" "hmax pq' = hmax pq" "compare pq' = cmp"
        "length (heap pq') = length (heap pq)" "live pq' = live pq - {?c}" by blast
    have "pq_inv key pq'" using p inv Suc by (simp add: pq_inv_def)
    moreover have "x \<in> live pq' \<longleftrightarrow> (m(hindex ?c := None)) (hindex x) = Some (hdata x)" for x
      using p(9) holds_live [OF h, of x] m0 by (cases x; cases ?c) auto
    ultimately have "pq_holds key pq' (m(hindex ?c := None))" by (simp add: pq_holds_def)
    moreover have "key (hdata ?c) \<le> key d'" if d': "d' \<in> ran m" for d'
    proof -
      obtain c where "c \<in> live pq" "hdata c = d'" using d' holds_dom(2) [OF h] by auto
      then obtain i where "i < htop pq" "hdata (heap pq ! i) = d'" using live_iff [OF inv(1), of c] by blast
      then show ?thesis using heap_ord_root [OF inv(3)] by blast
    qed
    ultimately show ?thesis using p(1,7) m0 by auto
  qed
qed

lemma remove_holds:
  assumes h: "pq_holds key pq m" and c: "compare pq = cmp" and e: "m e = Some d"
  shows "\<exists>pq'. ossl_pqueue_remove pq e = Inr (Some d, pq') \<and> pq_holds key pq' (m(e := None)) \<and> compare pq' = cmp"
proof -
  have inv: "linked pq" "free_ok pq" "heap_ord (keys key pq) (htop pq)" "htop pq < hmax pq"
      "hmax pq \<le> length (heap pq)" "min_nodes \<le> hmax pq" "hmax pq \<le> max_nodes"
    using h by (simp_all add: pq_holds_def pq_inv_def)
  have len: "length (elements pq) = hmax pq" using inv(2) by (simp add: free_ok_def free_set_def)
  have cell: "\<lparr>hdata = d, hindex = e\<rparr> \<in> live pq" by (rule holds_cell [OF h e])
  then obtain n where n: "n < htop pq" "heap pq ! n = \<lparr>hdata = d, hindex = e\<rparr>" using live_iff [OF inv(1)] by auto
  note ln = linkedD [OF inv(1) n(1), unfolded n(2), simplified]
  obtain t where t: "htop pq = Suc t" using n(1) by (cases "htop pq") auto
  have final: "pq_holds key pq' (m(e := None))"
    if "linked pq'" "free_ok pq'" "heap_ord (keys key pq') (htop pq')" "htop pq' = t" "hmax pq' = hmax pq"
      "length (heap pq') = length (heap pq)" "live pq' = live pq - {\<lparr>hdata = d, hindex = e\<rparr>}" for pq'
  proof -
    have "x \<in> live pq' \<longleftrightarrow> (m(e := None)) (hindex x) = Some (hdata x)" for x
      using that(7) holds_live [OF h, of x] e by (cases x) auto
    then show ?thesis using that inv t by (simp add: pq_holds_def pq_inv_def)
  qed
  show ?thesis
  proof (cases "n = t")
    case True
    let ?pq = "pq\<lparr>htop := t\<rparr>"
    note sh = live_shrink [OF inv(1) t] and ix = index_minus [OF inv(1) cell inv(2)]
    have live: "live ?pq = live pq - {\<lparr>hdata = d, hindex = e\<rparr>}" using sh(2) True n(2) by simp
    have "free_set ?pq {e. e < hmax pq \<and> e \<notin> hindex ` live pq}" using inv(2) by (simp add: free_ok_def free_set_def)
    then have fe: "linked (free_elem e ?pq)" "free_ok (free_elem e ?pq)" "live (free_elem e ?pq) = live ?pq"
      using free_elem_ok [OF sh(1), of e] ix unfolding live by simp_all
    have "ossl_pqueue_remove pq e = Inr (Some d, free_elem e ?pq)"
      using ln len t True n(2) inv(4) by (simp add: ossl_pqueue_remove_def Let_def free_elem_def)
    moreover have "heap_ord (keys key (free_elem e ?pq)) (htop (free_elem e ?pq))"
      using inv(3) t by (simp add: heap_ord_def free_elem_def)
    ultimately show ?thesis using final [of "free_elem e ?pq"] fe live c by (simp add: free_elem_def)
  next
    case False
    have "\<exists>pq1. (if n > 0 then pqueue_force_bottom pq n else Inr pq) = Inr pq1 \<and> moved pq pq1 \<and> linked pq1 \<and>
        heap pq1 ! 0 = heap pq ! n \<and> ord_hole (keys key pq1) (htop pq) 0"
    proof (cases "n = 0")
      case True
      then show ?thesis using inv heap_imp_hole n(1) by auto
    next
      case pos: False
      obtain pq1 where "force_bottom_loop pq n = Inr pq1" "moved pq pq1" "linked pq1" "heap pq1 ! 0 = heap pq ! n"
          "ord_hole (keys key pq1) (htop pq) 0"
        using force_bottom_loop_ok [OF inv(1) n(1) heap_imp_hole [OF inv(3) n(1)]] by blast
      then show ?thesis using pos linkedD(1) [OF inv(1) n(1)] by (simp add: pqueue_force_bottom_def)
    qed
    then obtain pq1 where p1: "(if n > 0 then pqueue_force_bottom pq n else Inr pq) = Inr pq1" "moved pq pq1" "linked pq1"
        "heap pq1 ! 0 = heap pq ! n" "ord_hole (keys key pq1) (htop pq) 0" by blast
    have same: "htop pq1 = Suc t" "hmax pq1 = hmax pq" "compare pq1 = cmp" "length (heap pq1) = length (heap pq)" "live pq1 = live pq"
      using p1(2) t c by (simp_all add: moved_def)
    have "ord_hole (keys key pq1) (htop pq1) 0" using p1(5) same(1) t by simp
    from pop_ok [OF p1(3) moved_free_ok [OF p1(2) inv(1,2)] same(1) this same(3)]
    obtain pq' where p: "ossl_pqueue_pop pq1 = Inr (Some d, pq')"
        "linked pq'" "free_ok pq'" "heap_ord (keys key pq') (htop pq')" "htop pq' = t" "hmax pq' = hmax pq" "compare pq' = cmp"
        "length (heap pq') = length (heap pq)" "live pq' = live pq - {\<lparr>hdata = d, hindex = e\<rparr>}"
      using p1(4) n(2) same by auto
    have "ossl_pqueue_remove pq e = Inr (Some d, pq')"
      using ln len t False n p1(1) p(1) inv(4) by (simp add: ossl_pqueue_remove_def Let_def)
    then show ?thesis using final [of pq'] p by auto
  qed
qed

end

section \<open>Growth of the storage\<close>

lemma grow_step:
  assumes "2 \<le> c" and "c < max_nodes" and v: "safe_muldiv_u (of_nat c :: 32 word) 8 5 False = (v, err)"
  shows "\<not> err" and "unat v = c * 8 div 5" and "c < c * 8 div 5"
proof -
  have u: "uint (of_nat c :: 32 word) = int c" using assms(2) by (simp add: unsigned_of_nat take_bit_eq_mod)
  then show e: "\<not> err" using muldiv_u(2) [OF _ v] assms(2) by simp
  have "uint v = int c * 8 div 5" using muldiv_u(1) [OF _ v e] u by simp
  then show "unat v = c * 8 div 5" by (simp add: unat_eq_nat_uint nat_div_distrib nat_mult_distrib)
  have "Suc c * 5 \<le> c * 8" using assms(1) by simp
  then show "c < c * 8 div 5" by (simp only: Suc_le_eq [symmetric] less_eq_div_iff_mult_less_eq zero_less_numeral)
qed

lemma compute_pqueue_growth_ok:
  assumes "2 \<le> c" and "c \<le> max_nodes"
  shows "\<exists>r. compute_pqueue_growth target c = Some r \<and>
    (if target \<le> max_nodes then target \<le> r \<and> c \<le> r \<and> r \<le> max_nodes else r = 0)"
  using assms
proof (induction "max_nodes - c" arbitrary: c rule: less_induct)
  case less
  show ?case
  proof (cases "c < target \<and> c < max_nodes")
    case False
    then show ?thesis using less.prems by (subst compute_pqueue_growth.simps) auto
  next
    case True
    obtain v err where v: "safe_muldiv_u (of_nat c :: 32 word) 8 5 False = (v, err)" by force
    note g = grow_step [OF less.prems(1) conjunct2 [OF True] v]
    let ?c = "if c * 8 div 5 \<ge> max_nodes then max_nodes else c * 8 div 5"
    have c: "c < ?c" "?c \<le> max_nodes" "2 \<le> ?c" "max_nodes - ?c < max_nodes - c" using g(3) True less.prems by auto
    have "compute_pqueue_growth target c = compute_pqueue_growth target ?c"
      using True g(1,2) v by (subst compute_pqueue_growth.simps) simp
    then show ?thesis using less.hyps [OF c(4,3,2)] c(1) by (auto split: if_splits)
  qed
qed

lemma chain_new:
  assumes "a < b" and "\<forall>k. a \<le> k \<longrightarrow> k < b \<longrightarrow> posn (es ! k) = (if k = a then f else k - 1)" and "chain es f fs"
  shows "chain es (b - 1) (rev [a ..< b] @ fs)"
  using assms
proof (induction b)
  case (Suc b)
  show ?case
  proof (cases "a = b")
    case True
    then show ?thesis using Suc.prems by simp
  next
    case False
    then have "a < b" "posn (es ! b) = b - 1" using Suc.prems(1,2) by simp_all
    then show ?thesis using Suc.IH Suc.prems by simp
  qed
qed simp

lemma add_freelist_free:
  assumes e: "length e = new" "from < new" and f: "chain e (freelist pq) fs" "distinct fs" "set fs \<subseteq> {..< from}"
  shows "free_set (pqueue_add_freelist (pq\<lparr>elements := e, hmax := new\<rparr>) from) ({from ..< new} \<union> set fs)"
proof -
  let ?es = "take from e @ map (\<lambda>i. \<lparr>posn = if i = from then freelist pq else i - 1, used = False\<rparr>) [from ..< new]"
  have "?es ! k = e ! k" if "k < from" for k using that e by (simp add: nth_append)
  then have "\<forall>k \<in> set fs. e ! k = ?es ! k" using f(3) by force
  then have "chain ?es (freelist pq) fs" using chain_cong [of fs e ?es] f(1) by blast
  moreover have "\<forall>k. from \<le> k \<longrightarrow> k < new \<longrightarrow> posn (?es ! k) = (if k = from then freelist pq else k - 1)"
    using e by (auto simp: nth_append)
  ultimately have "chain ?es (new - 1) (rev [from ..< new] @ fs)" using chain_new [OF e(2)] by blast
  moreover have "distinct (rev [from ..< new] @ fs)" using f(2,3) by auto
  moreover have "set (rev [from ..< new] @ fs) = {from ..< new} \<union> set fs" by auto
  ultimately show ?thesis using e unfolding free_set_def pqueue_add_freelist_def
    by (intro conjI exI [of _ "rev [from ..< new] @ fs"]) (simp_all cong: if_cong)
qed

lemma add_freelist_holds:
  assumes p: "pq_holds key pq m" and h: "length h = new" "take (hmax pq) h = take (hmax pq) (heap pq)"
    and e: "length e = new" "take (hmax pq) e = elements pq" and new: "hmax pq < new" "new \<le> max_nodes"
  shows "pq_holds key (pqueue_add_freelist (pq\<lparr>heap := h, elements := e, hmax := new\<rparr>) (hmax pq)) m"
proof -
  let ?pq = "pqueue_add_freelist (pq\<lparr>heap := h, elements := e, hmax := new\<rparr>) (hmax pq)"
  have inv: "linked pq" "free_ok pq" "heap_ord (keys key pq) (htop pq)" "htop pq < hmax pq" "hmax pq \<le> length (heap pq)"
      "min_nodes \<le> hmax pq"
    using p by (simp_all add: pq_holds_def pq_inv_def)
  have len: "length (elements pq) = hmax pq" using inv(2) by (simp add: free_ok_def free_set_def)
  have es: "elements ?pq ! k = elements pq ! k" if "k < hmax pq" for k
    using that len e by (simp add: pqueue_add_freelist_def nth_append)
  have unused: "\<not> used (elements ?pq ! k)" if "hmax pq \<le> k" "k < new" for k
    using that len e by (simp add: pqueue_add_freelist_def nth_append)
  have flds: "heap ?pq = h" "htop ?pq = htop pq" "hmax ?pq = new" "length (elements ?pq) = new"
    using e len new by (simp_all add: pqueue_add_freelist_def)
  have hs: "h ! i = heap pq ! i" if "i < htop pq" for i
    using that inv(4,5) h by (metis less_trans nth_take)
  have live: "live ?pq = live pq"
    using h(2) inv(4) flds(1,2) unfolding live_def by (metis less_imp_le min.absorb1 take_take)
  have "assert_used ?pq i = Inr ()" if "i < htop pq" for i
    using linkedD [OF inv(1) that] that es hs [OF that] len new h inv(4) flds by (simp add: assert_used_iff)
  then have l: "linked ?pq" using h inv new flds by (simp add: linked_def)
  obtain fs where fs: "distinct fs" "set fs = {e. e < hmax pq \<and> e \<notin> hindex ` live pq}" "chain (elements pq) (freelist pq) fs"
    using inv(2) by (auto simp: free_ok_def free_set_def)
  have "\<forall>k \<in> set fs. elements pq ! k = e ! k" using fs(2) e(2) by (metis (no_types, lifting) mem_Collect_eq nth_take)
  then have ch: "chain e (freelist (pq\<lparr>heap := h\<rparr>)) fs" using chain_cong [of fs "elements pq" e] fs(3) by simp
  have "free_set (pqueue_add_freelist ((pq\<lparr>heap := h\<rparr>)\<lparr>elements := e, hmax := new\<rparr>) (hmax pq)) ({hmax pq ..< new} \<union> set fs)"
    by (rule add_freelist_free [OF e(1) new(1) ch fs(1)]) (use fs(2) in auto)
  moreover have "{hmax pq ..< new} \<union> set fs = {e. e < new \<and> e \<notin> hindex ` live pq}"
    using fs(2) new live_index_less [OF inv(1)] len by fastforce
  ultimately have "free_set ?pq {e. e < hmax ?pq \<and> e \<notin> hindex ` live ?pq}" unfolding live flds by simp
  moreover have "\<forall>k < hmax ?pq. used (elements ?pq ! k) \<longrightarrow> k \<in> hindex ` live ?pq"
    using inv(2) es unused unfolding flds live free_ok_def by (metis not_le)
  ultimately have "free_ok ?pq" by (simp add: free_ok_def)
  moreover have "heap_ord (keys key ?pq) (htop ?pq)"
    using inv(3) hs flds by (auto simp: heap_ord_def dest: par_less less_trans)
  ultimately have "pq_inv key ?pq" using l inv new h flds by (simp add: pq_inv_def)
  then show ?thesis using holds_live [OF p] live by (simp add: pq_holds_def)
qed

lemma larger_heap:
  assumes p: "pq_holds key pq m" and h: "hmax pq \<le> length h" "take (hmax pq) h = take (hmax pq) (heap pq)"
  shows "pq_holds key (pq\<lparr>heap := h\<rparr>) m"
proof -
  let ?pq = "pq\<lparr>heap := h\<rparr>"
  have inv: "linked pq" "free_ok pq" "heap_ord (keys key pq) (htop pq)" "htop pq < hmax pq" "hmax pq \<le> length (heap pq)"
    using p by (simp_all add: pq_holds_def pq_inv_def)
  have hs: "h ! i = heap pq ! i" if "i < htop pq" for i using that inv(4,5) h by (metis less_trans nth_take)
  have live: "live ?pq = live pq"
    using h(2) inv(4) unfolding live_def by (simp) (metis less_imp_le min.absorb1 take_take)
  have "assert_used ?pq i = Inr ()" if "i < htop pq" for i
    using linkedD [OF inv(1) that] that hs [OF that] h inv(4) by (simp add: assert_used_iff)
  then have "linked ?pq" using h inv by (simp add: linked_def)
  moreover have "free_ok ?pq" using inv(2) unfolding free_ok_def free_set_def live by simp
  moreover have "heap_ord (keys key ?pq) (htop ?pq)"
    using inv(3) hs by (auto simp: heap_ord_def dest: par_less less_trans)
  ultimately show ?thesis using p h live by (simp add: pq_holds_def pq_inv_def)
qed

lemma reserve_holds:
  assumes p: "pq_holds key pq m" and al: "alloc_ok ah" "alloc_ok ae" and n: "n \<le> max_nodes"
  shows "\<exists>ok pq'. ossl_pqueue_reserve ah ae pq n = Some (ok, pq') \<and> pq_holds key pq' m \<and> compare pq' = compare pq \<and>
    (ok \<longrightarrow> htop pq' + n < hmax pq') \<and>
    (\<not> ok \<longrightarrow> max_nodes < htop pq + n + n \<or> (\<exists>k. ah k = None) \<or> (\<exists>k. ae k = None))"
proof -
  have inv: "linked pq" "free_ok pq" "htop pq < hmax pq" "hmax pq \<le> length (heap pq)" "min_nodes \<le> hmax pq" "hmax pq \<le> max_nodes"
    using p by (simp_all add: pq_holds_def pq_inv_def)
  have len: "length (elements pq) = hmax pq" using inv(2) by (simp add: free_ok_def free_set_def)
  have small: "(htop pq + n) mod 2 ^ 32 = htop pq + n" "(n + hmax pq) mod 2 ^ 32 = n + hmax pq" using inv n by simp_all
  obtain r where r: "compute_pqueue_growth (n + hmax pq) (hmax pq) = Some r"
      "if n + hmax pq \<le> max_nodes then n + hmax pq \<le> r \<and> hmax pq \<le> r \<and> r \<le> max_nodes else r = 0"
    using compute_pqueue_growth_ok [of "hmax pq" "n + hmax pq"] inv by auto
  consider "htop pq + n < hmax pq" | "hmax pq \<le> htop pq + n" "r = 0"
    | "hmax pq \<le> htop pq + n" "0 < r" "realloc ah (heap pq) r = None"
    | h where "hmax pq \<le> htop pq + n" "0 < r" "realloc ah (heap pq) r = Some h" "realloc ae (elements pq) r = None"
    | h e where "hmax pq \<le> htop pq + n" "0 < r" "realloc ah (heap pq) r = Some h" "realloc ae (elements pq) r = Some e"
    by (metis gr0I not_le option.exhaust)
  then show ?thesis
  proof cases
    case 1
    then show ?thesis using small p by (intro exI [of _ True]) (simp add: ossl_pqueue_reserve_def Let_def)
  next
    case 2
    then show ?thesis using small p r inv by (auto simp: ossl_pqueue_reserve_def Let_def split: if_splits)
  next
    case 3
    then show ?thesis using small p r by (auto simp: ossl_pqueue_reserve_def Let_def realloc_def)
  next
    case 4
    have "length h = r" "take (hmax pq) h = take (hmax pq) (heap pq)"
      using realloc_ok [OF al(1) 4(3)] inv r 4(2) by (auto split: if_splits)
    then have "pq_holds key (pq\<lparr>heap := h\<rparr>) m" using larger_heap [OF p] r 4(2) by (simp split: if_splits)
    then have "ossl_pqueue_reserve ah ae pq n = Some (False, pq\<lparr>heap := h\<rparr>) \<and> pq_holds key (pq\<lparr>heap := h\<rparr>) m"
      using 4 small r by (simp add: ossl_pqueue_reserve_def Let_def)
    moreover have "\<exists>k. ae k = None" using 4(4) by (auto simp: realloc_def)
    ultimately show ?thesis by auto
  next
    case 5
    have "length h = r" "take (hmax pq) h = take (hmax pq) (heap pq)" "length e = r" "take (hmax pq) e = elements pq"
      "hmax pq < r" "r \<le> max_nodes" "n + hmax pq \<le> r"
      using realloc_ok [OF al(1) 5(3)] realloc_ok [OF al(2) 5(4)] inv len r 5(1,2) by (auto split: if_splits)
    note a = add_freelist_holds [OF p this(1-6)] this
    then show ?thesis using 5 small r inv
      by (intro exI [of _ True]) (simp add: ossl_pqueue_reserve_def Let_def, simp add: pqueue_add_freelist_def)
  qed
qed

section \<open>Putting elements in\<close>

definition put_cell :: "'a \<Rightarrow> 'a pqueue \<Rightarrow> 'a pqueue" where
  \<comment> \<open>a push before the item is moved to its place\<close>
  "put_cell d pq = pq\<lparr>htop := htop pq + 1, freelist := posn (elements pq ! freelist pq),
     heap := (heap pq)[htop pq := \<lparr>hdata = d, hindex = freelist pq\<rparr>],
     elements := (elements pq)[freelist pq := \<lparr>posn = htop pq, used = True\<rparr>]\<rparr>"

lemma freelist_head:
  assumes "linked pq" and "free_ok pq" and "htop pq < hmax pq"
  obtains fs where "distinct (freelist pq # fs)" and "set (freelist pq # fs) = {e. e < hmax pq \<and> e \<notin> hindex ` live pq}"
    and "chain (elements pq) (posn (elements pq ! freelist pq)) fs"
proof -
  obtain fs where fs: "distinct fs" "set fs = {e. e < hmax pq \<and> e \<notin> hindex ` live pq}" "chain (elements pq) (freelist pq) fs"
    using assms(2) by (auto simp: free_ok_def free_set_def)
  have "\<not> {..< hmax pq} \<subseteq> hindex ` live pq"
    using card_live [OF assms(1)] card_mono [of "hindex ` live pq" "{..< hmax pq}"] assms(3) by (auto simp: live_def)
  then have "fs \<noteq> []" using fs(2) by auto
  then show ?thesis using that fs by (cases fs) auto
qed

lemma put_cell_ok:
  assumes p: "pq_holds key pq m" and top: "htop pq + 1 < hmax pq"
  shows "freelist pq < hmax pq" "freelist pq \<notin> dom m" "linked (put_cell d pq)" "free_ok (put_cell d pq)"
    "live (put_cell d pq) = insert \<lparr>hdata = d, hindex = freelist pq\<rparr> (live pq)"
    "ord_up (keys key (put_cell d pq)) (htop (put_cell d pq)) (htop pq)"
proof -
  let ?pq = "put_cell d pq" and ?m = "freelist pq" and ?c = "\<lparr>hdata = d, hindex = freelist pq\<rparr>"
  have inv: "linked pq" "free_ok pq" "heap_ord (keys key pq) (htop pq)" "htop pq < hmax pq" "hmax pq \<le> length (heap pq)"
    using p by (simp_all add: pq_holds_def pq_inv_def)
  have len: "length (elements pq) = hmax pq" using inv(2) by (simp add: free_ok_def free_set_def)
  obtain fs where fs: "distinct (?m # fs)" "set (?m # fs) = {e. e < hmax pq \<and> e \<notin> hindex ` live pq}"
      "chain (elements pq) (posn (elements pq ! ?m)) fs"
    using freelist_head [OF inv(1,2,4)] .
  have m: "?m < hmax pq" "?m \<notin> hindex ` live pq" using fs(2) by (metis (no_types, lifting) list.set_intros(1) mem_Collect_eq)+
  show "?m < hmax pq" "?m \<notin> dom m" using m holds_dom(1) [OF p] by simp_all
  have flds: "htop ?pq = Suc (htop pq)" "hmax ?pq = hmax pq" "length (heap ?pq) = length (heap pq)"
      "length (elements ?pq) = hmax pq" "freelist ?pq = posn (elements pq ! ?m)"
    using len by (simp_all add: put_cell_def)
  have hs: "heap ?pq ! i = (if i = htop pq then ?c else heap pq ! i)" for i
    using inv(4,5) by (simp add: put_cell_def)
  have es: "elements ?pq ! k = (if k = ?m then \<lparr>posn = htop pq, used = True\<rparr> else elements pq ! k)" for k
    using m(1) len by (simp add: put_cell_def)
  have "assert_used ?pq i = Inr ()" if "i < Suc (htop pq)" for i
  proof (cases "i = htop pq")
    case True
    then show ?thesis using m inv(4,5) flds hs [of i] es by (simp add: assert_used_iff)
  next
    case False
    then have i: "i < htop pq" using that by simp
    have "hindex (heap pq ! i) \<noteq> ?m" using live_nth [OF inv(1) i] m(2) by (metis imageI)
    then show ?thesis using linkedD [OF inv(1) i] False flds len hs [of i] es by (simp add: assert_used_iff)
  qed
  then show l: "linked ?pq" using inv(4,5) flds by (simp add: linked_def)
  have "x \<in> live ?pq \<longleftrightarrow> x = ?c \<or> x \<in> live pq" for x
    unfolding live_iff [OF l] live_iff [OF inv(1)] flds(1) hs by (metis less_Suc_eq less_irrefl)
  then show live: "live ?pq = insert ?c (live pq)" by blast
  have "\<forall>k \<in> set fs. elements pq ! k = elements ?pq ! k" using fs(1) es by auto
  then have ch: "chain (elements ?pq) (freelist ?pq) fs" using chain_cong [of fs] fs(3) flds(5) by metis
  have "set fs = set (?m # fs) - {?m}" using fs(1) by auto
  also have "\<dots> = {e. e < hmax ?pq \<and> e \<notin> hindex ` live ?pq}" unfolding fs(2) flds live by auto
  finally have "free_set ?pq {e. e < hmax ?pq \<and> e \<notin> hindex ` live ?pq}"
    using fs(1) ch flds by (auto simp: free_set_def)
  moreover have "\<forall>k < hmax ?pq. used (elements ?pq ! k) \<longrightarrow> k \<in> hindex ` live ?pq"
    using inv(2) unfolding free_ok_def flds live es by auto
  ultimately show "free_ok ?pq" by (simp add: free_ok_def)
  have "keys key ?pq x = keys key pq x" if "x < htop pq" for x using hs [of x] that by simp
  then show "ord_up (keys key ?pq) (htop ?pq) (htop pq)"
    using inv(3) par_less unfolding flds(1)
    by (auto simp: ord_up_def bridged_def heap_ord_def less_Suc_eq dest: less_trans) (metis less_asym less_irrefl less_trans)+
qed

context cmp_order
begin

lemma push_holds:
  assumes p: "pq_holds key pq m" and c: "compare pq = cmp" and al: "alloc_ok ah" "alloc_ok ae"
  shows "\<exists>r pq'. ossl_pqueue_push ah ae pq d = Some (Inr (r, pq')) \<and> compare pq' = cmp \<and>
    (case r of None \<Rightarrow> pq_holds key pq' m \<and> (max_nodes \<le> htop pq + 1 \<or> (\<exists>k. ah k = None) \<or> (\<exists>k. ae k = None))
     | Some e \<Rightarrow> m e = None \<and> pq_holds key pq' (m(e \<mapsto> d)))"
proof -
  obtain ok pq1 where r: "ossl_pqueue_reserve ah ae pq 1 = Some (ok, pq1)" "pq_holds key pq1 m" "compare pq1 = cmp"
      "ok \<longrightarrow> htop pq1 + 1 < hmax pq1" "\<not> ok \<longrightarrow> max_nodes < htop pq + 1 + 1 \<or> (\<exists>k. ah k = None) \<or> (\<exists>k. ae k = None)"
    using reserve_holds [OF p al, of 1] c by auto
  show ?thesis
  proof (cases ok)
    case False
    then show ?thesis using r by (auto simp: ossl_pqueue_push_def)
  next
    case True
    let ?e = "freelist pq1" and ?n = "htop pq1" and ?pq = "put_cell d pq1"
    have top: "htop pq1 + 1 < hmax pq1" using True r(4) by simp
    note k = put_cell_ok(1,2) [OF r(2) top] put_cell_ok(3-6) [OF r(2) top, of d]
    have inv: "hmax pq1 \<le> length (heap pq1)" "length (elements pq1) = hmax pq1" "min_nodes \<le> hmax pq1" "hmax pq1 \<le> max_nodes"
      using r(2) by (simp_all add: pq_holds_def pq_inv_def free_ok_def free_set_def)
    have flds: "htop ?pq = Suc ?n" "hmax ?pq = hmax pq1" "length (heap ?pq) = length (heap pq1)" "compare ?pq = cmp"
      using r(3) by (simp_all add: put_cell_def)
    have nt: "?n < htop ?pq" using flds(1) by simp
    obtain pq2 where d: "move_down_loop ?pq ?n = Inr pq2" "moved ?pq pq2" "linked pq2" "heap_ord (keys key pq2) (htop ?pq)"
      using move_down_loop_ok [OF k(3) nt k(6) flds(4)] by blast
    have same: "htop pq2 = Suc ?n" "hmax pq2 = hmax pq1" "compare pq2 = cmp" "length (heap pq2) = length (heap pq1)"
        "live pq2 = insert \<lparr>hdata = d, hindex = ?e\<rparr> (live pq1)"
      using d(2) k(5) flds by (simp_all add: moved_def)
    have "pq_inv key pq2"
      using d(3,4) moved_free_ok [OF d(2) k(3,4)] same flds inv top by (simp add: pq_inv_def)
    moreover have "x \<in> live pq2 \<longleftrightarrow> (m(?e \<mapsto> d)) (hindex x) = Some (hdata x)" for x
      using same(5) holds_live [OF r(2), of x] k(2) by (cases x) auto
    ultimately have h: "pq_holds key pq2 (m(?e \<mapsto> d))" by (simp add: pq_holds_def)
    have "pqueue_move_down ?pq ?n = Inr pq2" using d(1) linkedD(1) [OF k(3) nt] by (simp add: pqueue_move_down_def)
    then have "ossl_pqueue_push ah ae pq d = Some (Inr (Some ?e, pq2))"
      using True r(1) k(1) inv top by (simp add: ossl_pqueue_push_def Let_def put_cell_def)
    then show ?thesis using h same(3) k(2) by auto
  qed
qed

lemma peek_holds:
  assumes p: "pq_holds key pq m"
  shows "if m = Map.empty then ossl_pqueue_peek pq = Inr None
    else \<exists>e d. ossl_pqueue_peek pq = Inr (Some d) \<and> m e = Some d \<and> (\<forall>d' \<in> ran m. key d \<le> key d')"
proof -
  have inv: "linked pq" "heap_ord (keys key pq) (htop pq)" using p by (simp_all add: pq_holds_def pq_inv_def)
  show ?thesis
  proof (cases "htop pq")
    case 0
    then have "m = Map.empty" using holds_dom(1) [OF p] by (simp add: live_def)
    then show ?thesis using 0 by (simp add: ossl_pqueue_peek_def)
  next
    case (Suc t)
    then have m0: "m (hindex (heap pq ! 0)) = Some (hdata (heap pq ! 0))"
      using holds_live [OF p] live_nth [OF inv(1)] by simp
    have "key (hdata (heap pq ! 0)) \<le> key d'" if d': "d' \<in> ran m" for d'
    proof -
      obtain c where "c \<in> live pq" "hdata c = d'" using d' holds_dom(2) [OF p] by auto
      then obtain i where "i < htop pq" "hdata (heap pq ! i) = d'" using live_iff [OF inv(1), of c] by blast
      then show ?thesis using heap_ord_root [OF inv(2)] by blast
    qed
    then show ?thesis using m0 Suc linkedD(1) [OF inv(1), of 0] by (auto simp: ossl_pqueue_peek_def)
  qed
qed

end

lemma remove_absent:
  assumes p: "pq_holds key pq m" and e: "m e = None"
  shows "ossl_pqueue_remove pq e = (if e \<ge> hmax pq \<or> m = Map.empty then Inr (None, pq) else Inl Assert_Failed)"
proof -
  have inv: "linked pq" "free_ok pq" using p by (simp_all add: pq_holds_def pq_inv_def)
  have "m = Map.empty \<longleftrightarrow> htop pq = 0"
    using card_live [OF inv(1)] holds_dom(1) [OF p] by (auto simp: live_def)
  moreover have "e \<notin> hindex ` live pq" using holds_dom(1) [OF p] e by blast
  then have "length (elements pq) = hmax pq" "e < hmax pq \<Longrightarrow> \<not> used (elements pq ! e)"
    using inv(2) by (auto simp: free_ok_def free_set_def)
  ultimately show ?thesis by (simp add: ossl_pqueue_remove_def)
qed

lemma pqueue_new_holds:
  assumes "ossl_pqueue_new ah ae ok c = Some pq" and al: "alloc_ok ah" "alloc_ok ae"
  shows "pq_holds key pq Map.empty" and "c = Some (compare pq)"
proof -
  obtain h e f where n: "ah min_nodes = Some h" "ae min_nodes = Some e" "c = Some f"
      "pq = pqueue_add_freelist \<lparr>heap = h, elements = e, compare = f, htop = 0, hmax = min_nodes, freelist = 0\<rparr> 0"
    using assms(1) by (auto simp: ossl_pqueue_new_def split: option.splits if_splits)
  have len: "length h = 8" "length e = 8" using al n(1,2) by (simp_all add: alloc_ok_def)
  let ?pq = "\<lparr>heap = h, elements = e, compare = f, htop = 0, hmax = 8, freelist = 0\<rparr>"
  have "free_set (pqueue_add_freelist (?pq\<lparr>elements := e, hmax := 8\<rparr>) 0) ({0 ..< 8} \<union> set [])"
    by (rule add_freelist_free) (use len in simp_all)
  then have fs: "free_set pq {e. e < 8}" using n(4) by (simp add: atLeast0LessThan lessThan_def)
  have flds: "htop pq = 0" "hmax pq = 8" "heap pq = h" "\<forall>k < 8. \<not> used (elements pq ! k)"
    using n(4) len by (simp_all add: pqueue_add_freelist_def)
  then have "pq_inv key pq" using fs len by (simp add: pq_inv_def linked_def free_ok_def live_def heap_ord_def)
  then show "pq_holds key pq Map.empty" using flds by (simp add: pq_holds_def live_def)
  show "c = Some (compare pq)" using n by (simp add: pqueue_add_freelist_def)
qed

section \<open>The specification\<close>

text \<open>
  What a client may rely on: a map from handles to items. \<open>fail\<close> says that an allocation may fail. The result of an operation
  is a handle or an item.
\<close>

datatype 'a pq_op = Op_push 'a | Op_pop | Op_peek | Op_remove nat
datatype 'a pq_out = Handle "nat option" | Item "'a option"

inductive iq_step :: "bool \<Rightarrow> ('a \<Rightarrow> 'k::linorder) \<Rightarrow> (nat \<rightharpoonup> 'a) \<Rightarrow> 'a pq_op \<Rightarrow> 'a pq_out \<Rightarrow> (nat \<rightharpoonup> 'a) \<Rightarrow> bool"
  for fail key where
  iq_push: "m e = None \<Longrightarrow> iq_step fail key m (Op_push d) (Handle (Some e)) (m(e \<mapsto> d))"
| iq_full: "fail \<or> max_nodes \<le> card (dom m) + 1 \<Longrightarrow> iq_step fail key m (Op_push d) (Handle None) m"
| iq_pop: "m e = Some d \<Longrightarrow> \<forall>d' \<in> ran m. key d \<le> key d' \<Longrightarrow> iq_step fail key m Op_pop (Item (Some d)) (m(e := None))"
| iq_pop_empty: "iq_step fail key Map.empty Op_pop (Item None) Map.empty"
| iq_peek: "m e = Some d \<Longrightarrow> \<forall>d' \<in> ran m. key d \<le> key d' \<Longrightarrow> iq_step fail key m Op_peek (Item (Some d)) m"
| iq_peek_empty: "iq_step fail key Map.empty Op_peek (Item None) Map.empty"
| iq_remove: "m e = Some d \<Longrightarrow> iq_step fail key m (Op_remove e) (Item (Some d)) (m(e := None))"
| iq_absent: "m e = None \<Longrightarrow> iq_step fail key m (Op_remove e) (Item None) m"

inductive iq_steps ::
    "bool \<Rightarrow> ('a \<Rightarrow> 'k::linorder) \<Rightarrow> (nat \<rightharpoonup> 'a) \<Rightarrow> 'a pq_op list \<Rightarrow> 'a pq_out list \<Rightarrow> (nat \<rightharpoonup> 'a) \<Rightarrow> bool"
  for fail key where
  iq_nil: "iq_steps fail key m [] [] m"
| iq_cons: "iq_step fail key m opn out m1 \<Longrightarrow> iq_steps fail key m1 ops outs m2 \<Longrightarrow>
    iq_steps fail key m (opn # ops) (out # outs) m2"

inductive_cases iq_popE: "iq_step fail key m Op_pop out m'"
inductive_cases iq_pushE: "iq_step fail key m (Op_push d) out m'"
inductive_cases iq_stepsE: "iq_steps fail key m (opn # ops) outs m'"
inductive_cases iq_steps_nilE: "iq_steps fail key m [] outs m'"

definition pq_apply ::
    "'a pq_heap allocator \<Rightarrow> pq_elem allocator \<Rightarrow> 'a pq_op \<Rightarrow> 'a pqueue \<Rightarrow> ('a pq_out \<times> 'a pqueue) comp" where
  "pq_apply ah ae opn pq =
     (case opn of
        Op_push d \<Rightarrow> bind_comp (ossl_pqueue_push ah ae pq d) (\<lambda>(e, pq). Some (Inr (Handle e, pq)))
      | Op_pop \<Rightarrow> Some (bind_res (ossl_pqueue_pop pq) (\<lambda>(d, pq). Inr (Item d, pq)))
      | Op_peek \<Rightarrow> Some (bind_res (ossl_pqueue_peek pq) (\<lambda>d. Inr (Item d, pq)))
      | Op_remove e \<Rightarrow> Some (bind_res (ossl_pqueue_remove pq e) (\<lambda>(d, pq). Inr (Item d, pq))))"

fun pq_run ::
    "'a pq_heap allocator \<Rightarrow> pq_elem allocator \<Rightarrow> 'a pq_op list \<Rightarrow> 'a pqueue \<Rightarrow> ('a pq_out list \<times> 'a pqueue) comp" where
  "pq_run ah ae [] pq = Some (Inr ([], pq))"
| "pq_run ah ae (opn # ops) pq =
     bind_comp (pq_apply ah ae opn pq) (\<lambda>(out, pq).
     bind_comp (pq_run ah ae ops pq) (\<lambda>(outs, pq). Some (Inr (out # outs, pq))))"

abbreviation may_fail :: "'a pq_heap allocator \<Rightarrow> pq_elem allocator \<Rightarrow> bool" where
  "may_fail ah ae \<equiv> (\<exists>k. ah k = None) \<or> (\<exists>k. ae k = None)"

context cmp_order
begin

lemma pq_apply_sim:
  assumes p: "pq_holds key pq m" and c: "compare pq = cmp" and al: "alloc_ok ah" "alloc_ok ae"
  obtains out pq' m' where "pq_apply ah ae opn pq = Some (Inr (out, pq'))" and "iq_step (may_fail ah ae) key m opn out m'"
    and "pq_holds key pq' m'" and "compare pq' = cmp"
  | e where "pq_apply ah ae opn pq = Some (Inl Assert_Failed)" and "opn = Op_remove e" and "m e = None"
proof (cases opn)
  case (Op_push d)
  obtain r pq' where r: "ossl_pqueue_push ah ae pq d = Some (Inr (r, pq'))" "compare pq' = cmp"
    "case r of None \<Rightarrow> pq_holds key pq' m \<and> (max_nodes \<le> htop pq + 1 \<or> may_fail ah ae)
     | Some e \<Rightarrow> m e = None \<and> pq_holds key pq' (m(e \<mapsto> d))"
    using push_holds [OF p c al] by blast
  have "linked pq" using p by (simp add: pq_holds_def pq_inv_def)
  then have "htop pq = card (dom m)" using card_live holds_dom(1) [OF p] by metis
  then have "\<exists>m'. iq_step (may_fail ah ae) key m opn (Handle r) m' \<and> pq_holds key pq' m'"
    using r(3) Op_push iq_full [of "may_fail ah ae" m key d] by (cases r) (auto intro: iq_push)
  then show ?thesis using r(1,2) Op_push that(1) by (auto simp: pq_apply_def)
next
  case Op_pop
  show ?thesis
  proof (cases "m = Map.empty")
    case True
    then show ?thesis using pop_holds [OF p c] p c Op_pop that(1) [of "Item None" pq Map.empty]
      by (auto simp: pq_apply_def intro: iq_pop_empty)
  next
    case False
    then show ?thesis using pop_holds [OF p c] Op_pop that(1) by (auto simp: pq_apply_def intro!: iq_pop)
  qed
next
  case Op_peek
  show ?thesis
  proof (cases "m = Map.empty")
    case True
    then show ?thesis using peek_holds [OF p] p c Op_peek that(1) [of "Item None" pq Map.empty]
      by (auto simp: pq_apply_def intro: iq_peek_empty)
  next
    case False
    then show ?thesis using peek_holds [OF p] p c Op_peek that(1) by (auto simp: pq_apply_def intro!: iq_peek)
  qed
next
  case (Op_remove e)
  show ?thesis
  proof (cases "m e")
    case None
    then show ?thesis using remove_absent [OF p None] p c Op_remove that(1) [of "Item None" pq m] that(2)
      by (auto simp: pq_apply_def intro: iq_absent split: if_splits)
  next
    case (Some d)
    then show ?thesis using remove_holds [OF p c Some] Op_remove that(1) by (auto simp: pq_apply_def intro!: iq_remove)
  qed
qed

lemma pq_run_sim:
  assumes "pq_holds key pq m" and "compare pq = cmp" and al: "alloc_ok ah" "alloc_ok ae"
  shows "(\<exists>outs pq' m'. pq_run ah ae ops pq = Some (Inr (outs, pq')) \<and> iq_steps (may_fail ah ae) key m ops outs m' \<and> pq_holds key pq' m') \<or>
    (\<exists>before e after outs m'. pq_run ah ae ops pq = Some (Inl Assert_Failed) \<and> ops = before @ Op_remove e # after \<and>
       iq_steps (may_fail ah ae) key m before outs m' \<and> m' e = None)"
  using assms(1,2)
proof (induction ops arbitrary: pq m)
  case Nil
  then show ?case using iq_nil by auto
next
  case (Cons opn ops)
  from Cons.prems al show ?case
  proof (cases rule: pq_apply_sim [where opn = opn])
    case (1 out pq1 m1)
    from Cons.IH [OF 1(3,4)] show ?thesis
    proof (elim disjE exE conjE)
      fix outs pq' m' assume "pq_run ah ae ops pq1 = Some (Inr (outs, pq'))" "iq_steps (may_fail ah ae) key m1 ops outs m'"
        "pq_holds key pq' m'"
      then show ?thesis using 1 iq_cons [OF 1(2)] by (intro disjI1) auto
    next
      fix before e after outs m' assume "pq_run ah ae ops pq1 = Some (Inl Assert_Failed)" "ops = before @ Op_remove e # after"
        "iq_steps (may_fail ah ae) key m1 before outs m'" "m' e = None"
      then show ?thesis using 1 iq_cons [OF 1(2)]
        by (intro disjI2 exI [of _ "opn # before"] exI [of _ e] exI [of _ after] exI [of _ "out # outs"] exI [of _ m']) simp
    qed
  next
    case (2 e)
    then show ?thesis using iq_nil by (intro disjI2 exI [of _ "[]"] exI [of _ e] exI [of _ ops] exI [of _ m]) simp
  qed
qed

end

lemma pop_all_sorted:
  assumes "iq_steps fail key m (replicate n Op_pop) outs m'" and "finite (dom m)" and "card (dom m) = n"
  shows "\<exists>ds. outs = map (\<lambda>d. Item (Some d)) ds \<and> sorted (map key ds) \<and> set ds \<subseteq> ran m \<and>
    mset ds = image_mset (\<lambda>e. the (m e)) (mset_set (dom m))"
  using assms
proof (induction n arbitrary: m outs)
  case 0
  then show ?case by (auto elim: iq_steps_nilE)
next
  case (Suc n)
  then obtain out m1 outs1 where o: "outs = out # outs1" "iq_step fail key m Op_pop out m1"
      "iq_steps fail key m1 (replicate n Op_pop) outs1 m'"
    by (auto elim: iq_stepsE)
  then obtain e d where e: "m e = Some d" "\<forall>d' \<in> ran m. key d \<le> key d'" "out = Item (Some d)" "m1 = m(e := None)"
    using Suc.prems(3) by (auto elim: iq_popE)
  have dm: "dom m = insert e (dom m1)" "e \<notin> dom m1" "finite (dom m1)" using e(1,4) Suc.prems(2) by auto
  then have "card (dom m1) = n" using Suc.prems(3) by simp
  from Suc.IH [OF o(3) dm(3) this] obtain ds where ds: "outs1 = map (\<lambda>d. Item (Some d)) ds" "sorted (map key ds)"
      "set ds \<subseteq> ran m1" "mset ds = image_mset (\<lambda>e. the (m1 e)) (mset_set (dom m1))" by blast
  have "ran m1 \<subseteq> ran m" using e(4) by (auto simp: ran_def split: if_splits)
  moreover have "d \<in> ran m" using e(1) by (auto intro: ranI)
  moreover have "image_mset (\<lambda>e. the (m1 e)) (mset_set (dom m1)) = image_mset (\<lambda>e. the (m e)) (mset_set (dom m1))"
    using e(4) dm(2,3) by (intro image_mset_cong) auto
  ultimately have "set (d # ds) \<subseteq> ran m" "mset (d # ds) = image_mset (\<lambda>e. the (m e)) (mset_set (dom m))"
    using ds(3,4) dm e(1) by auto
  moreover from this(1) have "sorted (map key (d # ds))" using ds(2) e(2) by auto
  ultimately show ?case using o(1) e(3) ds(1) by (intro exI [of _ "d # ds"]) simp
qed

lemma push_all:
  assumes "iq_steps False key m (map Op_push ds @ ops) outs m'" and "finite (dom m)" and "card (dom m) + length ds < max_nodes - 1"
  shows "\<exists>hs outs1 m1. outs = map (\<lambda>h. Handle (Some h)) hs @ outs1 \<and> length hs = length ds \<and> iq_steps False key m1 ops outs1 m' \<and>
    finite (dom m1) \<and> card (dom m1) = card (dom m) + length ds \<and>
    image_mset (\<lambda>e. the (m1 e)) (mset_set (dom m1)) = image_mset (\<lambda>e. the (m e)) (mset_set (dom m)) + mset ds"
  using assms
proof (induction ds arbitrary: m outs)
  case Nil
  then show ?case by auto
next
  case (Cons d ds)
  then obtain out m1 outs1 where o: "outs = out # outs1" "iq_step False key m (Op_push d) out m1"
      "iq_steps False key m1 (map Op_push ds @ ops) outs1 m'"
    by (auto elim: iq_stepsE)
  then obtain e where e: "m e = None" "out = Handle (Some e)" "m1 = m(e \<mapsto> d)"
    using Cons.prems(3) by (auto elim: iq_pushE)
  have fin: "finite (dom m1)" "card (dom m1) = Suc (card (dom m))" using e Cons.prems(2) by (auto simp: domIff)
  have "image_mset (\<lambda>x. the (m1 x)) (mset_set (dom m)) = image_mset (\<lambda>x. the (m x)) (mset_set (dom m))"
    using e Cons.prems(2) by (intro image_mset_cong) auto
  then have im: "image_mset (\<lambda>x. the (m1 x)) (mset_set (dom m1)) = add_mset d (image_mset (\<lambda>x. the (m x)) (mset_set (dom m)))"
    using e Cons.prems(2) by (simp add: domIff)
  have "card (dom m1) + length ds < max_nodes - 1" using fin Cons.prems(3) by simp
  from Cons.IH [OF o(3) fin(1) this] obtain hs outs2 m2 where r: "outs1 = map (\<lambda>h. Handle (Some h)) hs @ outs2"
      "length hs = length ds" "iq_steps False key m2 ops outs2 m'" "finite (dom m2)" "card (dom m2) = card (dom m1) + length ds"
      "image_mset (\<lambda>e. the (m2 e)) (mset_set (dom m2)) = image_mset (\<lambda>e. the (m1 e)) (mset_set (dom m1)) + mset ds" by blast
  then show ?case using o(1) e(2) fin im
    by (intro exI [of _ "e # hs"] exI [of _ outs2] exI [of _ m2]) simp
qed

section \<open>Properties\<close>

text \<open>
  C15: A priority queue made by \<open>ossl_pqueue_new\<close> behaves, for every sequence of operations, like a map
  from handles to items: a push returns a handle that is not in use, or no handle if an allocation fails or the
  queue is as large as it can get; a pop or a peek returns an item that no item precedes in the order of
  the comparison function; a removal returns the item of its handle. No operation runs forever or accesses
  memory outside the arrays, and the only assertion that can fail is that of a removal through a handle that is not in use.
\<close>

theorem pqueue_refines_indexed_queue:
  assumes "\<And>x y. cmp x y < 0 \<longleftrightarrow> key x < key y" and "\<And>x y. 0 < cmp x y \<longleftrightarrow> key y < key x"
    and al: "alloc_ok ah" "alloc_ok ae" and new: "ossl_pqueue_new ah ae True (Some cmp) = Some pq"
  shows "(\<exists>outs pq' m. pq_run ah ae ops pq = Some (Inr (outs, pq')) \<and> iq_steps (may_fail ah ae) key Map.empty ops outs m \<and>
       pq_holds key pq' m) \<or>
    (\<exists>before e after outs m. pq_run ah ae ops pq = Some (Inl Assert_Failed) \<and> ops = before @ Op_remove e # after \<and>
       iq_steps (may_fail ah ae) key Map.empty before outs m \<and> m e = None)"
proof -
  have o: "cmp_order cmp key" using assms(1,2) by unfold_locales
  have "compare pq = cmp" using pqueue_new_holds(2) [OF new al] by simp
  then show ?thesis by (rule cmp_order.pq_run_sim [OF o pqueue_new_holds(1) [OF new al] _ al])
qed

definition zeroed_cells :: "nat pq_heap allocator" where
  "zeroed_cells n = Some (replicate n \<lparr>hdata = 0, hindex = 0\<rparr>)"
definition zeroed_elems :: "pq_elem allocator" where
  "zeroed_elems n = Some (replicate n \<lparr>posn = 0, used = False\<rparr>)"
definition nat_cmp :: "nat \<Rightarrow> nat \<Rightarrow> int" where
  "nat_cmp x y = int x - int y"
definition sample_pqueue :: "nat pqueue" where
  "sample_pqueue = the (ossl_pqueue_new zeroed_cells zeroed_elems True (Some nat_cmp))"
definition sample_outs :: "nat pq_op list \<Rightarrow> nat pq_out list option" where
  "sample_outs ops = (case pq_run zeroed_cells zeroed_elems ops sample_pqueue of Some (Inr (outs, _)) \<Rightarrow> Some outs | _ \<Rightarrow> None)"

lemma sample_ok:
  "alloc_ok zeroed_cells" "alloc_ok zeroed_elems" "\<forall>k. zeroed_cells k \<noteq> None" "\<forall>k. zeroed_elems k \<noteq> None"
  "ossl_pqueue_new zeroed_cells zeroed_elems True (Some nat_cmp) = Some sample_pqueue"
  "nat_cmp x y < 0 \<longleftrightarrow> x < y" "0 < nat_cmp x y \<longleftrightarrow> y < x"
  by (auto simp: alloc_ok_def zeroed_cells_def zeroed_elems_def sample_pqueue_def ossl_pqueue_new_def nat_cmp_def)

theorem pqueue_refines_indexed_queue_witness:
  "\<exists>m. iq_steps False (\<lambda>d :: nat. d) Map.empty [Op_push 7, Op_push 3, Op_remove 7, Op_pop]
     [Handle (Some 7), Handle (Some 6), Item (Some 7), Item (Some 3)] m"
proof -
  let ?ops = "[Op_push 7, Op_push 3, Op_remove 7, Op_pop]"
  have r: "sample_outs ?ops = Some [Handle (Some 7), Handle (Some 6), Item (Some 7), Item (Some 3)]" by code_simp
  have f: "may_fail zeroed_cells zeroed_elems = False" using sample_ok(3,4) by simp
  show ?thesis
    using pqueue_refines_indexed_queue [OF sample_ok(6,7,1,2,5), of ?ops] r
    unfolding f by (auto simp: sample_outs_def)
qed

text \<open>
  When no allocation fails, items pushed onto a new queue are all accepted, up to its maximal size, and popping as often
  gives exactly these items, in ascending order of the comparison function.
\<close>

lemma pqueue_sorts:
  assumes "\<And>x y. cmp x y < 0 \<longleftrightarrow> key x < key y" and "\<And>x y. 0 < cmp x y \<longleftrightarrow> key y < key x"
    and al: "alloc_ok ah" "alloc_ok ae" and new: "ossl_pqueue_new ah ae True (Some cmp) = Some pq"
    and all: "\<forall>k. ah k \<noteq> None" "\<forall>k. ae k \<noteq> None" and len: "length ds < max_nodes - 1"
  shows "\<exists>hs ds' pq'. pq_run ah ae (map Op_push ds @ replicate (length ds) Op_pop) pq =
      Some (Inr (map (\<lambda>h. Handle (Some h)) hs @ map (\<lambda>d. Item (Some d)) ds', pq')) \<and>
    length hs = length ds \<and> mset ds' = mset ds \<and> sorted (map key ds')"
proof -
  let ?ops = "map Op_push ds @ replicate (length ds) Op_pop"
  have "cmp_order cmp key" using assms(1,2) by unfold_locales
  have "compare pq = cmp" using pqueue_new_holds(2) [OF new al] by simp
  note sim = cmp_order.pq_run_sim [OF \<open>cmp_order cmp key\<close> pqueue_new_holds(1) [OF new al] this al, of ?ops]
  have "may_fail ah ae = False" using all by simp
  have "Op_remove e \<notin> set ?ops" for e by auto
  then have "?ops \<noteq> before @ Op_remove e # after" for before e after by (metis in_set_conv_decomp)
  then obtain outs pq' m' where r: "pq_run ah ae ?ops pq = Some (Inr (outs, pq'))" "iq_steps False key Map.empty ?ops outs m'"
    using sim unfolding \<open>may_fail ah ae = False\<close> by blast
  from push_all [OF r(2)] len obtain hs outs1 m1 where p: "outs = map (\<lambda>h. Handle (Some h)) hs @ outs1"
      "length hs = length ds" "iq_steps False key m1 (replicate (length ds) Op_pop) outs1 m'" "finite (dom m1)"
      "card (dom m1) = length ds" "image_mset (\<lambda>e. the (m1 e)) (mset_set (dom m1)) = mset ds" by auto
  from pop_all_sorted [OF p(3-5)] show ?thesis using r(1) p by auto
qed

end
