(* ===== verification/Event_Queue.thy ===== *)
theory Event_Queue
  imports Pqueue Ossl_Time
begin

text \<open>
  The event queue of the vendored OpenSSL, \<open>ssl/event_queue.c\<close>: two priority queues of pointers to events, one ordered by
  time for events that lie in the future and one ordered by priority for those that are due. The events are storage that
  belongs to the caller or to the queue, so the state has the contents of the events by address, and the comparison
  functions of the two queues read them. The clock, \<open>ossl_time_now\<close>, is an argument of the operations that read it; the allocators
  are those of the priority queue. The member \<open>queue\<close> of an event points to one of the two queues or is \<open>NULL\<close>.
\<close>

section \<open>State\<close>

datatype pq_id = Timed | Now

record event =
  ev_type :: "32 word"
  ev_priority :: "32 word"
  ev_when :: ossl_time
  ev_ctx :: nat
  ev_payload :: nat
  ev_payload_size :: nat
  ev_queue :: "pq_id option"
  ev_ref :: nat
  flag_dynamic :: bool

record event_queue =
  timed_events :: "nat pqueue"
  now_events :: "nat pqueue"
  events :: "nat \<Rightarrow> event"
  allocated :: "nat set"

type_synonym allocators = "nat pq_heap allocator \<times> pq_elem allocator"

section \<open>Comparison\<close>

definition event_compare_times :: "(nat \<Rightarrow> event) \<Rightarrow> nat \<Rightarrow> nat \<Rightarrow> int" where
  "event_compare_times st a b = ossl_time_compare (ev_when (st a)) (ev_when (st b))"

definition event_compare_priority :: "(nat \<Rightarrow> event) \<Rightarrow> nat \<Rightarrow> nat \<Rightarrow> int" where
  "event_compare_priority st a b =
     (if ev_priority (st a) > ev_priority (st b) then - 1
      else if ev_priority (st a) < ev_priority (st b) then 1 else 0)"

section \<open>Access to the state\<close>

fun get_pq :: "pq_id \<Rightarrow> event_queue \<Rightarrow> nat pqueue" where
  "get_pq Timed q = (timed_events q)\<lparr>compare := event_compare_times (events q)\<rparr>"
| "get_pq Now q = (now_events q)\<lparr>compare := event_compare_priority (events q)\<rparr>"

fun put_pq :: "pq_id \<Rightarrow> nat pqueue \<Rightarrow> event_queue \<Rightarrow> event_queue" where
  "put_pq Timed pq q = q\<lparr>timed_events := pq\<rparr>"
| "put_pq Now pq q = q\<lparr>now_events := pq\<rparr>"

definition upd_event :: "nat \<Rightarrow> (event \<Rightarrow> event) \<Rightarrow> event_queue \<Rightarrow> event_queue" where
  "upd_event p f q = q\<lparr>events := (events q)(p := f (events q p))\<rparr>"

section \<open>Operations\<close>

definition ossl_event_queue_new ::
    "allocators \<Rightarrow> bool \<times> bool \<times> bool \<Rightarrow> (nat \<Rightarrow> event) \<Rightarrow> nat set \<Rightarrow> event_queue option" where
  \<comment> \<open>the flags: whether the allocations of the three structures succeed\<close>
  "ossl_event_queue_new al oks st mem =
     (case oks of (ok, ok_t, ok_n) \<Rightarrow>
        if \<not> ok then None
        else case (ossl_pqueue_new (fst al) (snd al) ok_t (Some (event_compare_times st)),
                   ossl_pqueue_new (fst al) (snd al) ok_n (Some (event_compare_priority st))) of
               (Some t, Some n) \<Rightarrow> Some \<lparr>timed_events = t, now_events = n, events = st, allocated = mem\<rparr>
             | _ \<Rightarrow> None)"

definition ossl_event_free :: "nat option \<Rightarrow> event_queue \<Rightarrow> event_queue" where
  "ossl_event_free event q =
     (case event of
        None \<Rightarrow> q
      | Some p \<Rightarrow>
          if flag_dynamic (events q p) then q\<lparr>allocated := allocated q - {p}\<rparr>
          else upd_event p (ev_queue_update (\<lambda>_. None)) q)"

partial_function (option) event_queue_free :: "pq_id \<Rightarrow> event_queue \<Rightarrow> event_queue comp" where
  "event_queue_free i q =
     (case ossl_pqueue_pop (get_pq i q) of
        Inl err \<Rightarrow> Some (Inl err)
      | Inr (None, pq) \<Rightarrow> Some (Inr (put_pq i pq q))
      | Inr (Some e, pq) \<Rightarrow> event_queue_free i (ossl_event_free (Some e) (put_pq i pq q)))"

definition ossl_event_queue_free :: "event_queue \<Rightarrow> event_queue comp" where
  "ossl_event_queue_free q = bind_comp (event_queue_free Now q) (event_queue_free Timed)"

definition event_queue_add :: "allocators \<Rightarrow> ossl_time \<Rightarrow> event_queue \<Rightarrow> nat \<Rightarrow> (bool \<times> event_queue) comp" where
  "event_queue_add al now q p =
     (let i = (if ossl_time_compare (ev_when (events q p)) now \<le> 0 then Now else Timed)
      in bind_comp (ossl_pqueue_push (fst al) (snd al) (get_pq i q) p) (\<lambda>(r, pq).
         let q = put_pq i pq q
         in case r of
              None \<Rightarrow> Some (Inr (False, q))
            | Some h \<Rightarrow> Some (Inr (True, upd_event p (\<lambda>e. e\<lparr>ev_ref := h, ev_queue := Some i\<rparr>) q))))"

definition ossl_event_set ::
    "32 word \<Rightarrow> 32 word \<Rightarrow> ossl_time \<Rightarrow> nat \<Rightarrow> nat \<Rightarrow> nat \<Rightarrow> event \<Rightarrow> event" where
  "ossl_event_set ty prio t c pl psz e =
     e\<lparr>ev_type := ty, ev_priority := prio, ev_when := t, ev_ctx := c, ev_payload := pl, ev_payload_size := psz\<rparr>"

definition ossl_event_queue_add_new ::
    "allocators \<Rightarrow> ossl_time \<Rightarrow> nat option \<Rightarrow> event_queue option \<Rightarrow> (event \<Rightarrow> event) \<Rightarrow> (nat option \<times> event_queue option) comp" where
  \<comment> \<open>\<open>malloc\<close> is the address the allocation of the event returns, \<open>setf\<close> the call of \<open>ossl_event_set\<close>\<close>
  "ossl_event_queue_add_new al now malloc queue setf =
     (case (malloc, queue) of
        (Some p, Some q) \<Rightarrow>
          bind_comp (event_queue_add al now (upd_event p (\<lambda>e. (setf e)\<lparr>flag_dynamic := True\<rparr>) (q\<lparr>allocated := insert p (allocated q)\<rparr>)) p)
            (\<lambda>(ok, q). if ok then Some (Inr (Some p, Some q))
                       else Some (Inr (None, Some (q\<lparr>allocated := allocated q - {p}\<rparr>))))
      | _ \<Rightarrow> Some (Inr (None, queue)))"

definition ossl_event_queue_add ::
    "allocators \<Rightarrow> ossl_time \<Rightarrow> event_queue option \<Rightarrow> nat option \<Rightarrow> (event \<Rightarrow> event) \<Rightarrow> (bool \<times> event_queue option) comp" where
  "ossl_event_queue_add al now queue event setf =
     (case (event, queue) of
        (Some p, Some q) \<Rightarrow>
          bind_comp (event_queue_add al now (upd_event p (\<lambda>e. (setf e)\<lparr>flag_dynamic := False\<rparr>) q) p)
            (\<lambda>(ok, q). Some (Inr (ok, Some q)))
      | _ \<Rightarrow> Some (Inr (False, queue)))"

definition ossl_event_queue_remove :: "event_queue \<Rightarrow> nat option \<Rightarrow> event_queue res" where
  \<comment> \<open>it always returns 1\<close>
  "ossl_event_queue_remove q event =
     (case event of
        None \<Rightarrow> Inr q
      | Some p \<Rightarrow>
          case ev_queue (events q p) of
            None \<Rightarrow> Inr q
          | Some i \<Rightarrow>
              bind_res (ossl_pqueue_remove (get_pq i q) (ev_ref (events q p))) (\<lambda>(_, pq).
              Inr (upd_event p (ev_queue_update (\<lambda>_. None)) (put_pq i pq q))))"

definition ossl_event_time_until :: "ossl_time \<Rightarrow> event_queue \<Rightarrow> nat option \<Rightarrow> ossl_time" where
  "ossl_event_time_until now q event =
     (case event of None \<Rightarrow> ossl_time_infinite | Some p \<Rightarrow> ossl_time_subtract (ev_when (events q p)) now)"

definition ossl_event_queue_time_until_next :: "ossl_time \<Rightarrow> event_queue option \<Rightarrow> ossl_time res" where
  "ossl_event_queue_time_until_next now queue =
     (case queue of
        None \<Rightarrow> Inr ossl_time_infinite
      | Some q \<Rightarrow>
          if ossl_pqueue_num (get_pq Now q) > 0 then Inr ossl_time_zero
          else bind_res (ossl_pqueue_peek (get_pq Timed q)) (\<lambda>e. Inr (ossl_event_time_until now q e)))"

definition ossl_event_queue_postpone_until ::
    "allocators \<Rightarrow> ossl_time \<Rightarrow> event_queue \<Rightarrow> nat option \<Rightarrow> ossl_time \<Rightarrow> (bool \<times> event_queue) comp" where
  "ossl_event_queue_postpone_until al now q event t =
     bind_comp (Some (ossl_event_queue_remove q event)) (\<lambda>q.
     case event of
       None \<Rightarrow> Some (Inl Null_Deref)
     | Some p \<Rightarrow> event_queue_add al now (upd_event p (ev_when_update (\<lambda>_. t)) q) p)"

partial_function (option) expire_events :: "allocators \<Rightarrow> ossl_time \<Rightarrow> event_queue \<Rightarrow> (bool \<times> event_queue) comp" where
  \<comment> \<open>the loop of \<open>ossl_event_queue_get1_next_event\<close>\<close>
  "expire_events al now q =
     (case ossl_pqueue_peek (get_pq Timed q) of
        Inl err \<Rightarrow> Some (Inl err)
      | Inr None \<Rightarrow> Some (Inr (True, q))
      | Inr (Some e) \<Rightarrow>
          if ossl_time_compare (ev_when (events q e)) now \<le> 0
          then case ossl_pqueue_pop (get_pq Timed q) of
                 Inl err \<Rightarrow> Some (Inl err)
               | Inr (None, pq) \<Rightarrow> Some (Inl Null_Deref)
               | Inr (Some e, pq) \<Rightarrow>
                   let q = put_pq Timed pq q
                   in case ossl_pqueue_push (fst al) (snd al) (get_pq Now q) e of
                        None \<Rightarrow> None
                      | Some (Inl err) \<Rightarrow> Some (Inl err)
                      | Some (Inr (None, pq)) \<Rightarrow> Some (Inr (False, upd_event e (ev_queue_update (\<lambda>_. None)) (put_pq Now pq q)))
                      | Some (Inr (Some h, pq)) \<Rightarrow> expire_events al now (upd_event e (ev_ref_update (\<lambda>_. h)) (put_pq Now pq q))
          else Some (Inr (True, q)))"

definition ossl_event_queue_get1_next_event ::
    "allocators \<Rightarrow> ossl_time \<Rightarrow> event_queue \<Rightarrow> (nat option option \<times> event_queue) comp" where
  \<comment> \<open>the event stored in \<open>*event\<close>, \<open>None\<close> where the source returns 0\<close>
  "ossl_event_queue_get1_next_event al now q =
     bind_comp (expire_events al now q) (\<lambda>(ok, q).
     if \<not> ok then Some (Inr (None, q))
     else bind_comp (Some (ossl_pqueue_pop (get_pq Now q))) (\<lambda>(e, pq). Some (Inr (Some e, put_pq Now pq q))))"

declare expire_events.simps [code] event_queue_free.simps [code]

section \<open>The two orders\<close>

abbreviation when_of :: "(nat \<Rightarrow> event) \<Rightarrow> nat \<Rightarrow> ossl_time" where "when_of st p \<equiv> ev_when (st p)"
abbreviation urgency :: "(nat \<Rightarrow> event) \<Rightarrow> nat \<Rightarrow> int" where "urgency st p \<equiv> - uint (ev_priority (st p))"

interpretation by_time: cmp_order "event_compare_times st" "when_of st" for st
  by unfold_locales (simp_all add: event_compare_times_def time_compare_iff)

interpretation by_priority: cmp_order "event_compare_priority st" "urgency st" for st
  by unfold_locales (auto simp: event_compare_priority_def word_less_def)

section \<open>Representation\<close>

definition tracked :: "event_queue \<Rightarrow> (nat \<rightharpoonup> nat) \<Rightarrow> bool" where
  \<comment> \<open>the queued events are allocated and know their handles\<close>
  "tracked q m \<longleftrightarrow> (\<forall>h p. m h = Some p \<longrightarrow> ev_ref (events q p) = h \<and> p \<in> allocated q)"

definition eq_rep :: "event_queue \<Rightarrow> (nat \<rightharpoonup> nat) \<Rightarrow> (nat \<rightharpoonup> nat) \<Rightarrow> bool" where
  \<comment> \<open>the timed events and the due events, by handle\<close>
  "eq_rep q t n \<longleftrightarrow> pq_holds (when_of (events q)) (timed_events q) t \<and> pq_holds (urgency (events q)) (now_events q) n \<and>
     tracked q t \<and> tracked q n \<and> ran t \<inter> ran n = {}"

definition contents :: "event \<Rightarrow> event" where
  \<comment> \<open>an event without the members for internal use\<close>
  "contents e = e\<lparr>ev_ref := 0, ev_queue := None\<rparr>"

definition kept :: "event_queue \<Rightarrow> event_queue \<Rightarrow> bool" where
  "kept q q' \<longleftrightarrow> allocated q' = allocated q \<and> (\<forall>p. contents (events q' p) = contents (events q p))"

lemma kept_refl [simp]: "kept q q"
  by (simp add: kept_def)

lemma kept_trans: "kept q q' \<Longrightarrow> kept q' q'' \<Longrightarrow> kept q q''"
  by (simp add: kept_def)

lemma contents_sel: "ev_when (contents e) = ev_when e" "ev_priority (contents e) = ev_priority e"
  by (simp_all add: contents_def)

lemma kept_orders:
  assumes "kept q q'"
  shows "when_of (events q') = when_of (events q)" and "urgency (events q') = urgency (events q)"
  using assms unfolding kept_def by (metis contents_sel)+

lemma holds_compare [simp]: "pq_holds key (pq\<lparr>compare := c\<rparr>) m = pq_holds key pq m"
  by (simp add: pq_holds_def pq_inv_def linked_def assert_used_def free_ok_def free_set_def live_def)

lemma holds_finite: "pq_holds key pq m \<Longrightarrow> finite (dom m) \<and> card (dom m) = htop pq"
  using holds_dom(1) card_live by (metis List.finite_set finite_imageI live_def pq_holds_def pq_inv_def)

lemma tracked_del: "tracked q m \<Longrightarrow> m h = Some p \<Longrightarrow> ran (m(h := None)) = ran m - {p}"
  unfolding tracked_def ran_def by (auto split: if_splits) (metis option.inject)+

lemma tracked_card: "tracked q m \<Longrightarrow> card (ran m) = card (dom m)"
proof -
  assume "tracked q m"
  then have "inj_on (\<lambda>h. the (m h)) (dom m)" by (auto simp: tracked_def inj_on_def) metis
  moreover have "ran m = (\<lambda>h. the (m h)) ` dom m" by (force simp: ran_def dom_def)
  ultimately show ?thesis by (simp add: card_image)
qed

lemma state_simps [simp]:
  "events (put_pq i pq q) = events q" "allocated (put_pq i pq q) = allocated q"
  "timed_events (put_pq i pq q) = (if i = Timed then pq else timed_events q)"
  "now_events (put_pq i pq q) = (if i = Now then pq else now_events q)"
  "events (upd_event p f q) = (events q)(p := f (events q p))" "allocated (upd_event p f q) = allocated q"
  "timed_events (upd_event p f q) = timed_events q" "now_events (upd_event p f q) = now_events q"
  by (cases i; simp add: upd_event_def)+


lemma compare_get_pq [simp]:
  "compare (get_pq Timed q) = event_compare_times (events q)" "compare (get_pq Now q) = event_compare_priority (events q)"
  by simp_all

lemma holds_get_pq [simp]:
  "pq_holds key (get_pq Timed q) m = pq_holds key (timed_events q) m" "pq_holds key (get_pq Now q) m = pq_holds key (now_events q) m"
  by simp_all

lemma htop_get_pq [simp]: "htop (get_pq Timed q) = htop (timed_events q)" "htop (get_pq Now q) = htop (now_events q)"
  by simp_all

declare get_pq.simps [simp del] put_pq.simps [simp del]

lemma tracked_put [simp]: "tracked (put_pq i pq q) m = tracked q m"
  by (simp add: tracked_def)

lemma kept_put [simp]: "kept q (put_pq i pq q)" "kept q' (put_pq i pq q) = kept q' q"
  by (simp_all add: kept_def)

lemma kept_upd: "contents (f (events q p)) = contents (events q p) \<Longrightarrow> kept q (upd_event p f q)"
  by (simp add: kept_def)

lemma tracked_upd: "tracked q m \<Longrightarrow> p \<notin> ran m \<Longrightarrow> tracked (upd_event p f q) m"
  by (auto simp: tracked_def ran_def)

lemma tracked_add:
  "tracked q m \<Longrightarrow> p \<notin> ran m \<Longrightarrow> p \<in> allocated q \<Longrightarrow> ev_ref (f (events q p)) = h \<Longrightarrow> tracked (upd_event p f q) (m(h \<mapsto> p))"
  by (auto simp: tracked_def ran_def)

lemma tracked_drop: "tracked q m \<Longrightarrow> tracked q (m(h := None))"
  by (simp add: tracked_def)

lemma eq_rep_upd:
  assumes "eq_rep q t n" and "p \<notin> ran t \<union> ran n" and "contents (f (events q p)) = contents (events q p)"
  shows "eq_rep (upd_event p f q) t n"
  using assms kept_orders [of q "upd_event p f q", OF kept_upd [of f q p, OF assms(3)]] tracked_upd [of q _ p f] unfolding eq_rep_def by simp

lemma pop_timed:
  assumes "eq_rep q t n"
  shows "if t = Map.empty then ossl_pqueue_pop (get_pq Timed q) = Inr (None, get_pq Timed q)
    else \<exists>h p pq. ossl_pqueue_pop (get_pq Timed q) = Inr (Some p, pq) \<and> t h = Some p \<and>
      (\<forall>p' \<in> ran t. when_of (events q) p \<le> when_of (events q) p') \<and> eq_rep (put_pq Timed pq q) (t(h := None)) n"
proof -
  have h: "pq_holds (when_of (events q)) (get_pq Timed q) t" using assms by (simp add: eq_rep_def)
  have c: "compare (get_pq Timed q) = event_compare_times (events q)" by simp
  have "eq_rep (put_pq Timed pq q) (t(h := None)) n"
    if "pq_holds (when_of (events q)) pq (t(h := None))" "t h = Some p" for h p pq
    using assms that tracked_drop tracked_del by (auto simp: eq_rep_def)
  then show ?thesis using by_time.pop_holds [OF h c] by fastforce
qed

lemma pop_now:
  assumes "eq_rep q t n"
  shows "if n = Map.empty then ossl_pqueue_pop (get_pq Now q) = Inr (None, get_pq Now q)
    else \<exists>h p pq. ossl_pqueue_pop (get_pq Now q) = Inr (Some p, pq) \<and> n h = Some p \<and>
      (\<forall>p' \<in> ran n. ev_priority (events q p') \<le> ev_priority (events q p)) \<and> eq_rep (put_pq Now pq q) t (n(h := None))"
proof -
  have h: "pq_holds (urgency (events q)) (get_pq Now q) n" using assms by (simp add: eq_rep_def)
  have c: "compare (get_pq Now q) = event_compare_priority (events q)" by simp
  have "eq_rep (put_pq Now pq q) t (n(h := None))"
    if "pq_holds (urgency (events q)) pq (n(h := None))" "n h = Some p" for h p pq
    using assms that tracked_drop tracked_del by (auto simp: eq_rep_def)
  then show ?thesis using by_priority.pop_holds [OF h c] by (fastforce simp: word_le_def)
qed

lemma eq_rep_finite: "eq_rep q t n \<Longrightarrow> finite (ran t)" "eq_rep q t n \<Longrightarrow> finite (ran n)"
  unfolding eq_rep_def using holds_finite finite_ran by metis+

lemma queue_full:
  assumes "eq_rep q t n" and "max_nodes \<le> htop (get_pq i q) + 1"
  shows "max_nodes \<le> card (ran t \<union> ran n) + 1"
proof -
  have f: "finite (ran t)" "finite (ran n)" "htop (timed_events q) = card (ran t)" "htop (now_events q) = card (ran n)"
    using assms(1) holds_finite tracked_card finite_ran unfolding eq_rep_def by metis+
  then have "htop (get_pq i q) \<le> card (ran t \<union> ran n)" by (cases i) (simp_all add: card_mono)
  then show ?thesis using assms(2) by linarith
qed

lemma push_rep:
  assumes rep: "eq_rep q t n" and p: "p \<notin> ran t \<union> ran n" "p \<in> allocated q" and al: "alloc_ok (fst al)" "alloc_ok (snd al)"
  obtains pq where "ossl_pqueue_push (fst al) (snd al) (get_pq i q) p = Some (Inr (None, pq))" and "eq_rep (put_pq i pq q) t n"
      and "may_fail (fst al) (snd al) \<or> max_nodes \<le> card (ran t \<union> ran n) + 1"
    | h pq where "ossl_pqueue_push (fst al) (snd al) (get_pq i q) p = Some (Inr (Some h, pq))"
      and "if i = Timed then t h = None else n h = None"
      and "\<And>f. contents (f (events q p)) = contents (events q p) \<Longrightarrow> ev_ref (f (events q p)) = h \<Longrightarrow>
        eq_rep (upd_event p f (put_pq i pq q)) (if i = Timed then t(h \<mapsto> p) else t) (if i = Timed then n else n(h \<mapsto> p))"
proof (cases i)
  case Timed
  have h: "pq_holds (when_of (events q)) (get_pq i q) t" using rep Timed by (simp add: eq_rep_def)
  have c: "compare (get_pq i q) = event_compare_times (events q)" using Timed by simp
  obtain r pq where r: "ossl_pqueue_push (fst al) (snd al) (get_pq i q) p = Some (Inr (r, pq))"
      "case r of None \<Rightarrow> pq_holds (when_of (events q)) pq t \<and> (max_nodes \<le> htop (get_pq i q) + 1 \<or> may_fail (fst al) (snd al))
       | Some e \<Rightarrow> t e = None \<and> pq_holds (when_of (events q)) pq (t(e \<mapsto> p))"
    using by_time.push_holds [OF h c al, of p] by blast
  show ?thesis
  proof (cases r)
    case None
    then show ?thesis using that(1) [of pq] r rep Timed queue_full [OF rep, of i] by (auto simp: eq_rep_def)
  next
    case (Some h)
    have "eq_rep (upd_event p f (put_pq i pq q)) (t(h \<mapsto> p)) n"
      if f: "contents (f (events q p)) = contents (events q p)" "ev_ref (f (events q p)) = h" for f
    proof -
      note o = kept_orders [of q "upd_event p f q", OF kept_upd [of f q p, OF f(1)]]
      show ?thesis using r(2) Some rep p f Timed tracked_add [of "put_pq i pq q" t p f h] tracked_upd [of "put_pq i pq q" n p f] o
        by (auto simp: eq_rep_def ran_map_upd)
    qed
    then show ?thesis using that(2) [of h pq] r Some Timed by simp
  qed
next
  case Now
  have h: "pq_holds (urgency (events q)) (get_pq i q) n" using rep Now by (simp add: eq_rep_def)
  have c: "compare (get_pq i q) = event_compare_priority (events q)" using Now by simp
  obtain r pq where r: "ossl_pqueue_push (fst al) (snd al) (get_pq i q) p = Some (Inr (r, pq))"
      "case r of None \<Rightarrow> pq_holds (urgency (events q)) pq n \<and> (max_nodes \<le> htop (get_pq i q) + 1 \<or> may_fail (fst al) (snd al))
       | Some e \<Rightarrow> n e = None \<and> pq_holds (urgency (events q)) pq (n(e \<mapsto> p))"
    using by_priority.push_holds [OF h c al, of p] by blast
  show ?thesis
  proof (cases r)
    case None
    then show ?thesis using that(1) [of pq] r rep Now queue_full [OF rep, of i] by (auto simp: eq_rep_def)
  next
    case (Some h)
    have "eq_rep (upd_event p f (put_pq i pq q)) t (n(h \<mapsto> p))"
      if f: "contents (f (events q p)) = contents (events q p)" "ev_ref (f (events q p)) = h" for f
    proof -
      note o = kept_orders [of q "upd_event p f q", OF kept_upd [of f q p, OF f(1)]]
      show ?thesis using r(2) Some rep p f Now tracked_add [of "put_pq i pq q" n p f h] tracked_upd [of "put_pq i pq q" t p f] o
        by (auto simp: eq_rep_def ran_map_upd)
    qed
    then show ?thesis using that(2) [of h pq] r Some Now by simp
  qed
qed

section \<open>The operations on a represented queue\<close>

abbreviation due :: "ossl_time \<Rightarrow> event_queue \<Rightarrow> (nat \<rightharpoonup> nat) \<Rightarrow> nat set" where
  "due now q t \<equiv> {p \<in> ran t. when_of (events q) p \<le> now}"

lemma peek_timed:
  assumes "eq_rep q t n"
  shows "if t = Map.empty then ossl_pqueue_peek (get_pq Timed q) = Inr None
    else \<exists>p. ossl_pqueue_peek (get_pq Timed q) = Inr (Some p) \<and> p \<in> ran t \<and>
      (\<forall>p' \<in> ran t. when_of (events q) p \<le> when_of (events q) p')"
proof -
  have h: "pq_holds (when_of (events q)) (get_pq Timed q) t" using assms by (simp add: eq_rep_def)
  show ?thesis using by_time.peek_holds [OF h] ranI [of t] by metis
qed

definition expired :: "allocators \<Rightarrow> ossl_time \<Rightarrow> event_queue \<Rightarrow> (nat \<rightharpoonup> nat) \<Rightarrow> (nat \<rightharpoonup> nat) \<Rightarrow> bool \<times> event_queue \<Rightarrow> bool" where
  \<comment> \<open>what the loop of \<open>ossl_event_queue_get1_next_event\<close> returns\<close>
  "expired al now q t n r \<longleftrightarrow> (case r of (ok, q') \<Rightarrow> \<exists>t' n'. eq_rep q' t' n' \<and> kept q q' \<and>
     (if ok then ran t' = ran t - due now q t \<and> ran n' = ran n \<union> due now q t
      else (may_fail (fst al) (snd al) \<or> max_nodes \<le> card (ran t \<union> ran n) + 1) \<and>
        (\<exists>p \<in> due now q t. p \<notin> ran t' \<union> ran n' \<and> insert p (ran t' \<union> ran n') = ran t \<union> ran n \<and> ev_queue (events q' p) = None)))"

lemma expired_full:
  assumes "eq_rep q' t' n'" and "kept q q'" and "may_fail (fst al) (snd al) \<or> max_nodes \<le> card (ran t \<union> ran n) + 1"
    and "p \<in> due now q t" and "p \<notin> ran t' \<union> ran n'" and "insert p (ran t' \<union> ran n') = ran t \<union> ran n"
    and "ev_queue (events q' p) = None"
  shows "expired al now q t n (False, q')"
  using assms unfolding expired_def by auto

lemma expire_events_ok:
  assumes "eq_rep q t n" and al: "alloc_ok (fst al)" "alloc_ok (snd al)"
  shows "\<exists>r. expire_events al now q = Some (Inr r) \<and> expired al now q t n r"
  using assms(1)
proof (induction "card (dom t)" arbitrary: q t n rule: less_induct)
  case (less t q n)
  note rep = less.prems
  have fin: "finite (dom t)" using rep holds_finite unfolding eq_rep_def by blast
  show ?case
  proof (cases "due now q t = {}")
    case True
    then have "expire_events al now q = Some (Inr (True, q))"
      using peek_timed [OF rep] by (subst expire_events.simps) (auto simp: time_compare_iff split: if_splits)
    then show ?thesis using rep True by (auto simp: expired_def)
  next
    case False
    then have ne: "t \<noteq> Map.empty" by auto
    then obtain e where e: "ossl_pqueue_peek (get_pq Timed q) = Inr (Some e)" "\<forall>p' \<in> ran t. when_of (events q) e \<le> when_of (events q) p'"
      using peek_timed [OF rep] by auto
    obtain h p pq where p: "ossl_pqueue_pop (get_pq Timed q) = Inr (Some p, pq)" "t h = Some p"
        "\<forall>p' \<in> ran t. when_of (events q) p \<le> when_of (events q) p'" "eq_rep (put_pq Timed pq q) (t(h := None)) n"
      using pop_timed [OF rep] ne by auto
    let ?q1 = "put_pq Timed pq q" and ?t1 = "t(h := None)"
    have pt: "p \<in> ran t" using p(2) by (rule ranI)
    have exp: "when_of (events q) e \<le> now" "when_of (events q) p \<le> now" using False e(2) p(3) by (auto intro: order_trans)
    have tr: "tracked q t" "ran t \<inter> ran n = {}" using rep by (simp_all add: eq_rep_def)
    have rt1: "ran ?t1 = ran t - {p}" using tracked_del [OF tr(1) p(2)] .
    have fresh: "p \<notin> ran ?t1 \<union> ran n" "p \<in> allocated ?q1" using rt1 pt tr p(2) by (auto simp: tracked_def)
    from p(4) fresh al show ?thesis
    proof (cases rule: push_rep [where i = Now])
      case (1 pq')
      let ?q2 = "upd_event p (ev_queue_update (\<lambda>_. None)) (put_pq Now pq' ?q1)"
      have eq: "expire_events al now q = Some (Inr (False, ?q2))"
        using e(1) p(1) 1(1) exp by (subst expire_events.simps) (simp add: time_compare_iff Let_def)
      have "eq_rep ?q2 ?t1 n" by (rule eq_rep_upd [OF 1(2) fresh(1)]) (simp add: contents_def)
      moreover have "kept q ?q2" by (simp add: kept_def contents_def)
      moreover have "card (ran ?t1 \<union> ran n) \<le> card (ran t \<union> ran n)"
        using rt1 eq_rep_finite [OF rep] by (intro card_mono) auto
      moreover have "insert p (ran ?t1 \<union> ran n) = ran t \<union> ran n" using rt1 pt by auto
      ultimately have "expired al now q t n (False, ?q2)"
        using 1(3) fresh(1) exp(2) pt by (intro expired_full [where p = p]) auto
      then show ?thesis using eq by blast
    next
      case (2 k pq')
      let ?q2 = "upd_event p (ev_ref_update (\<lambda>_. k)) (put_pq Now pq' ?q1)" and ?n2 = "n(k \<mapsto> p)"
      have "eq_rep ?q2 ?t1 ?n2" using 2(3) [of "ev_ref_update (\<lambda>_. k)"] by (simp add: contents_def)
      moreover have "card (dom ?t1) < card (dom t)" using fin p(2) by (auto intro!: psubset_card_mono)
      ultimately obtain r where r: "expire_events al now ?q2 = Some (Inr r)" "expired al now ?q2 ?t1 ?n2 r"
        using less.hyps by blast
      have eq: "expire_events al now q = Some (Inr r)"
        using e(1) p(1) 2(1) exp r(1) by (subst expire_events.simps) (simp add: time_compare_iff Let_def)
      have k: "kept q ?q2" by (simp add: kept_def contents_def)
      have w: "when_of (events ?q2) = when_of (events q)" by (rule kept_orders [OF k])
      have rn: "ran ?n2 = insert p (ran n)" using 2(2) by (simp add: ran_map_upd)
      have du: "insert p (due now ?q2 ?t1) = due now q t" "p \<notin> due now ?q2 ?t1" unfolding w rt1 using pt exp(2) by auto
      have un: "ran ?t1 \<union> ran ?n2 = ran t \<union> ran n" unfolding rt1 rn using pt by auto
      obtain ok q' where okq: "r = (ok, q')" by force
      obtain t' n' where t': "eq_rep q' t' n'" "kept ?q2 q'"
        "if ok then ran t' = ran ?t1 - due now ?q2 ?t1 \<and> ran n' = ran ?n2 \<union> due now ?q2 ?t1
         else (may_fail (fst al) (snd al) \<or> max_nodes \<le> card (ran ?t1 \<union> ran ?n2) + 1) \<and>
          (\<exists>p \<in> due now ?q2 ?t1. p \<notin> ran t' \<union> ran n' \<and> insert p (ran t' \<union> ran n') = ran ?t1 \<union> ran ?n2 \<and> ev_queue (events q' p) = None)"
        using r(2) unfolding okq expired_def by auto
      have "expired al now q t n r"
      proof (cases ok)
        case True
        have "ran t' = (ran t - {p}) - due now ?q2 ?t1" "ran n' = insert p (ran n) \<union> due now ?q2 ?t1"
          using t'(3) True rt1 rn by simp_all
        then have "ran t' = ran t - insert p (due now ?q2 ?t1)" "ran n' = ran n \<union> insert p (due now ?q2 ?t1)" by blast+
        then show ?thesis
          unfolding okq expired_def du(1) using True t'(1) kept_trans [OF k t'(2)] by (auto simp only: prod.case if_True)
      next
        case False
        then have f: "(may_fail (fst al) (snd al) \<or> max_nodes \<le> card (ran t \<union> ran n) + 1) \<and> (\<exists>p \<in> due now ?q2 ?t1.
            p \<notin> ran t' \<union> ran n' \<and> insert p (ran t' \<union> ran n') = ran t \<union> ran n \<and> ev_queue (events q' p) = None)"
          using t'(3) unfolding un by (simp only: if_False)
        then obtain p' where p': "p' \<in> due now ?q2 ?t1" "p' \<notin> ran t' \<union> ran n'" "insert p' (ran t' \<union> ran n') = ran t \<union> ran n"
            "ev_queue (events q' p') = None" by blast
        then have "p' \<in> due now q t" unfolding du(1) [symmetric] by (simp only: insertI2)
        from expired_full [OF t'(1) kept_trans [OF k t'(2)] conjunct1 [OF f] this p'(2-4)]
        show ?thesis unfolding okq using False by (simp only:)
      qed
      then show ?thesis using eq by blast
    qed
  qed
qed

lemma event_queue_add_ok:
  assumes rep: "eq_rep q t n" and p: "p \<notin> ran t \<union> ran n" "p \<in> allocated q" and al: "alloc_ok (fst al)" "alloc_ok (snd al)"
  shows "\<exists>ok q' t' n'. event_queue_add al now q p = Some (Inr (ok, q')) \<and> eq_rep q' t' n' \<and> kept q q' \<and>
    (\<forall>p'. p' \<noteq> p \<longrightarrow> events q' p' = events q p') \<and>
    (if \<not> ok then t' = t \<and> n' = n \<and> (may_fail (fst al) (snd al) \<or> max_nodes \<le> card (ran t \<union> ran n) + 1)
     else if when_of (events q) p \<le> now
       then t' = t \<and> n' = n(ev_ref (events q' p) \<mapsto> p) \<and> n (ev_ref (events q' p)) = None \<and> ev_queue (events q' p) = Some Now
       else n' = n \<and> t' = t(ev_ref (events q' p) \<mapsto> p) \<and> t (ev_ref (events q' p)) = None \<and> ev_queue (events q' p) = Some Timed)"
proof -
  let ?i = "if when_of (events q) p \<le> now then Now else Timed"
  from rep p al show ?thesis
  proof (cases rule: push_rep [where i = ?i])
    case (1 pq)
    have "event_queue_add al now q p = Some (Inr (False, put_pq ?i pq q))"
      using 1(1) by (simp add: event_queue_add_def time_compare_iff Let_def)
    then show ?thesis using 1(2,3) by (intro exI [of _ False] exI [of _ "put_pq ?i pq q"] exI [of _ t] exI [of _ n]) simp
  next
    case (2 h pq)
    let ?q = "upd_event p (\<lambda>e. e\<lparr>ev_ref := h, ev_queue := Some ?i\<rparr>) (put_pq ?i pq q)"
    have a: "event_queue_add al now q p = Some (Inr (True, ?q))"
      using 2(1) by (simp add: event_queue_add_def time_compare_iff Let_def)
    have "eq_rep ?q (if ?i = Timed then t(h \<mapsto> p) else t) (if ?i = Timed then n else n(h \<mapsto> p))"
      by (rule 2(3)) (simp_all add: contents_def)
    moreover have "kept q ?q" by (simp add: kept_def contents_def)
    ultimately show ?thesis using a 2(2)
      by (intro exI [of _ True] exI [of _ ?q] exI [of _ "if ?i = Timed then t(h \<mapsto> p) else t"]
          exI [of _ "if ?i = Timed then n else n(h \<mapsto> p)"]) simp
  qed
qed

lemma event_queue_remove_ok:
  assumes rep: "eq_rep q t n" and p: "if i = Timed then p \<in> ran t else p \<in> ran n" and tag: "ev_queue (events q p) = Some i"
  obtains q' t' n' where "ossl_event_queue_remove q (Some p) = Inr q'" and "eq_rep q' t' n'" and "kept q q'"
    and "ran t' = ran t - {p}" and "ran n' = ran n - {p}" and "ev_queue (events q' p) = None"
    and "\<forall>p'. p' \<noteq> p \<longrightarrow> events q' p' = events q p'"
proof (cases i)
  case Timed
  let ?h = "ev_ref (events q p)" and ?c = "contents (events q p)"
  have tr: "tracked q t" "tracked q n" "ran t \<inter> ran n = {}" using rep by (simp_all add: eq_rep_def)
  have th: "t ?h = Some p" using p Timed tr(1) by (auto simp: ran_def tracked_def)
  have h: "pq_holds (when_of (events q)) (get_pq Timed q) t" using rep by (simp add: eq_rep_def)
  obtain pq where r: "ossl_pqueue_remove (get_pq Timed q) ?h = Inr (Some p, pq)" "pq_holds (when_of (events q)) pq (t(?h := None))"
    using by_time.remove_holds [OF h compare_get_pq(1) th] by blast
  let ?q = "upd_event p (ev_queue_update (\<lambda>_. None)) (put_pq Timed pq q)"
  have ran: "ran (t(?h := None)) = ran t - {p}" using tracked_del [OF tr(1) th] .
  have "eq_rep (put_pq Timed pq q) (t(?h := None)) n" using rep r(2) tr ran tracked_drop [OF tr(1)] by (auto simp: eq_rep_def)
  then have "eq_rep ?q (t(?h := None)) n" by (rule eq_rep_upd) (use ran p Timed tr(3) in \<open>auto simp: contents_def\<close>)
  moreover have "ossl_event_queue_remove q (Some p) = Inr ?q" using tag Timed r(1) by (simp add: ossl_event_queue_remove_def)
  moreover have "kept q ?q" by (simp add: kept_def contents_def)
  moreover have "ran n = ran n - {p}" using p Timed tr(3) by auto
  ultimately show ?thesis using that [of ?q "t(?h := None)" n] ran by simp
next
  case Now
  let ?h = "ev_ref (events q p)"
  have tr: "tracked q t" "tracked q n" "ran t \<inter> ran n = {}" using rep by (simp_all add: eq_rep_def)
  have nh: "n ?h = Some p" using p Now tr(2) by (auto simp: ran_def tracked_def)
  have h: "pq_holds (urgency (events q)) (get_pq Now q) n" using rep by (simp add: eq_rep_def)
  obtain pq where r: "ossl_pqueue_remove (get_pq Now q) ?h = Inr (Some p, pq)" "pq_holds (urgency (events q)) pq (n(?h := None))"
    using by_priority.remove_holds [OF h compare_get_pq(2) nh] by blast
  let ?q = "upd_event p (ev_queue_update (\<lambda>_. None)) (put_pq Now pq q)"
  have ran: "ran (n(?h := None)) = ran n - {p}" using tracked_del [OF tr(2) nh] .
  have "eq_rep (put_pq Now pq q) t (n(?h := None))" using rep r(2) tr ran tracked_drop [OF tr(2)] by (auto simp: eq_rep_def)
  then have "eq_rep ?q t (n(?h := None))" by (rule eq_rep_upd) (use ran p Now tr(3) in \<open>auto simp: contents_def\<close>)
  moreover have "ossl_event_queue_remove q (Some p) = Inr ?q" using tag Now r(1) by (simp add: ossl_event_queue_remove_def)
  moreover have "kept q ?q" by (simp add: kept_def contents_def)
  moreover have "ran t = ran t - {p}" using p Now tr(3) by auto
  ultimately show ?thesis using that [of ?q t "n(?h := None)"] ran by simp
qed

lemma event_queue_new_ok:
  assumes "ossl_event_queue_new al oks st mem = Some q" and "alloc_ok (fst al)" "alloc_ok (snd al)"
  shows "eq_rep q Map.empty Map.empty" and "events q = st" and "allocated q = mem"
proof -
  obtain ok1 ok2 t n where q: "ossl_pqueue_new (fst al) (snd al) ok1 (Some (event_compare_times st)) = Some t"
      "ossl_pqueue_new (fst al) (snd al) ok2 (Some (event_compare_priority st)) = Some n"
      "q = \<lparr>timed_events = t, now_events = n, events = st, allocated = mem\<rparr>"
    using assms(1) by (auto simp: ossl_event_queue_new_def split: prod.splits option.splits if_splits)
  show "eq_rep q Map.empty Map.empty" "events q = st" "allocated q = mem"
    using pqueue_new_holds(1) [OF q(1) assms(2,3), of "when_of st"] pqueue_new_holds(1) [OF q(2) assms(2,3), of "urgency st"] q(3) by (simp_all add: eq_rep_def tracked_def)
qed

definition released :: "nat set \<Rightarrow> event_queue \<Rightarrow> event_queue \<Rightarrow> bool" where
  \<comment> \<open>\<open>ossl_event_free\<close> has been called for the events of the set\<close>
  "released S q q' \<longleftrightarrow> allocated q' = allocated q - {p \<in> S. flag_dynamic (events q p)} \<and>
     (\<forall>p. events q' p = (if p \<in> S \<and> \<not> flag_dynamic (events q p) then (events q p)\<lparr>ev_queue := None\<rparr> else events q p))"

lemma released_trans: "released S q q1 \<Longrightarrow> released S' q1 q2 \<Longrightarrow> released (S \<union> S') q q2"
  by (auto simp: released_def)

lemma event_free_ok:
  assumes rep: "eq_rep q t n" and p: "p \<notin> ran t \<union> ran n"
  shows "eq_rep (ossl_event_free (Some p) q) t n" and "released {p} q (ossl_event_free (Some p) q)"
proof -
  have "tracked (q\<lparr>allocated := allocated q - {p}\<rparr>) m" if "tracked q m" "p \<notin> ran m" for m
    using that by (auto simp: tracked_def ran_def)
  then have "eq_rep (q\<lparr>allocated := allocated q - {p}\<rparr>) t n" using rep p by (simp add: eq_rep_def)
  moreover have "eq_rep (upd_event p (ev_queue_update (\<lambda>_. None)) q) t n" by (rule eq_rep_upd [OF rep p]) (simp add: contents_def)
  ultimately show "eq_rep (ossl_event_free (Some p) q) t n" by (simp add: ossl_event_free_def)
  show "released {p} q (ossl_event_free (Some p) q)" by (auto simp: ossl_event_free_def released_def)
qed

lemma free_now_ok:
  assumes "eq_rep q t n"
  shows "\<exists>q'. event_queue_free Now q = Some (Inr q') \<and> eq_rep q' t Map.empty \<and> released (ran n) q q'"
  using assms
proof (induction "card (dom n)" arbitrary: q n rule: less_induct)
  case (less n q)
  note rep = less.prems
  show ?case
  proof (cases "n = Map.empty")
    case True
    let ?q = "put_pq Now (get_pq Now q) q"
    have "event_queue_free Now q = Some (Inr ?q)" using pop_now [OF rep] True by (subst event_queue_free.simps) simp
    moreover have "eq_rep ?q t Map.empty" using rep True by (simp add: eq_rep_def)
    ultimately show ?thesis using True by (auto simp: released_def)
  next
    case False
    obtain h p pq where p: "ossl_pqueue_pop (get_pq Now q) = Inr (Some p, pq)" "n h = Some p" "eq_rep (put_pq Now pq q) t (n(h := None))"
      using pop_now [OF rep] False by auto
    have tr: "tracked q n" "ran t \<inter> ran n = {}" "finite (dom n)" using rep holds_finite by (auto simp: eq_rep_def)
    have rn: "ran (n(h := None)) = ran n - {p}" "p \<in> ran n" using tracked_del [OF tr(1) p(2)] ranI [of n, OF p(2)] by auto
    then have f: "p \<notin> ran t \<union> ran (n(h := None))" using tr(2) by auto
    note fr = event_free_ok [OF p(3) f]
    have "card (dom (n(h := None))) < card (dom n)" using tr(3) p(2) by (auto intro!: psubset_card_mono)
    from less.hyps [OF this fr(1)] obtain q' where q': "event_queue_free Now (ossl_event_free (Some p) (put_pq Now pq q)) = Some (Inr q')"
        "eq_rep q' t Map.empty" "released (ran n - {p}) (ossl_event_free (Some p) (put_pq Now pq q)) q'"
      using rn(1) by auto
    have "event_queue_free Now q = Some (Inr q')" using p(1) q'(1) by (subst event_queue_free.simps) simp
    moreover have "released ({p} \<union> (ran n - {p})) (put_pq Now pq q) q'" by (rule released_trans [OF fr(2) q'(3)])
    then have "released (ran n) q q'" using rn(2) by (simp add: released_def insert_absorb)
    ultimately show ?thesis using q'(2) by blast
  qed
qed

lemma free_timed_ok:
  assumes "eq_rep q t n"
  shows "\<exists>q'. event_queue_free Timed q = Some (Inr q') \<and> eq_rep q' Map.empty n \<and> released (ran t) q q'"
  using assms
proof (induction "card (dom t)" arbitrary: q t rule: less_induct)
  case (less t q)
  note rep = less.prems
  show ?case
  proof (cases "t = Map.empty")
    case True
    let ?q = "put_pq Timed (get_pq Timed q) q"
    have "event_queue_free Timed q = Some (Inr ?q)" using pop_timed [OF rep] True by (subst event_queue_free.simps) simp
    moreover have "eq_rep ?q Map.empty n" using rep True by (simp add: eq_rep_def)
    ultimately show ?thesis using True by (auto simp: released_def)
  next
    case False
    obtain h p pq where p: "ossl_pqueue_pop (get_pq Timed q) = Inr (Some p, pq)" "t h = Some p" "eq_rep (put_pq Timed pq q) (t(h := None)) n"
      using pop_timed [OF rep] False by auto
    have tr: "tracked q t" "ran t \<inter> ran n = {}" "finite (dom t)" using rep holds_finite by (auto simp: eq_rep_def)
    have rt: "ran (t(h := None)) = ran t - {p}" "p \<in> ran t" using tracked_del [OF tr(1) p(2)] ranI [of t, OF p(2)] by auto
    then have f: "p \<notin> ran (t(h := None)) \<union> ran n" using tr(2) by auto
    note fr = event_free_ok [OF p(3) f]
    have "card (dom (t(h := None))) < card (dom t)" using tr(3) p(2) by (auto intro!: psubset_card_mono)
    from less.hyps [OF this fr(1)] obtain q' where q': "event_queue_free Timed (ossl_event_free (Some p) (put_pq Timed pq q)) = Some (Inr q')"
        "eq_rep q' Map.empty n" "released (ran t - {p}) (ossl_event_free (Some p) (put_pq Timed pq q)) q'"
      using rt(1) by auto
    have "event_queue_free Timed q = Some (Inr q')" using p(1) q'(1) by (subst event_queue_free.simps) simp
    moreover have "released ({p} \<union> (ran t - {p})) (put_pq Timed pq q) q'" by (rule released_trans [OF fr(2) q'(3)])
    then have "released (ran t) q q'" using rt(2) by (simp add: released_def insert_absorb)
    ultimately show ?thesis using q'(2) by blast
  qed
qed

section \<open>Properties\<close>

text \<open>
  C14: The next event. All events whose time has come become due; if there is a due event,
  one of the highest priority is returned and taken out, otherwise no event is returned. The call fails only if an
  allocation fails or a queue is as large as it can get; then one event, which is in no queue any more, is marked as such, and
  the others stay.
\<close>

theorem event_queue_next_event:
  assumes rep: "eq_rep q t n" and al: "alloc_ok (fst al)" "alloc_ok (snd al)"
  shows "\<exists>r q' t' n'. ossl_event_queue_get1_next_event al now q = Some (Inr (r, q')) \<and> eq_rep q' t' n' \<and> kept q q' \<and>
    (case r of
       None \<Rightarrow> (may_fail (fst al) (snd al) \<or> max_nodes \<le> card (ran t \<union> ran n) + 1) \<and>
         (\<exists>p \<in> due now q t. p \<notin> ran t' \<union> ran n' \<and> insert p (ran t' \<union> ran n') = ran t \<union> ran n \<and> ev_queue (events q' p) = None)
     | Some None \<Rightarrow> ran n \<union> due now q t = {} \<and> ran t' = ran t \<and> ran n' = {}
     | Some (Some p) \<Rightarrow> p \<in> ran n \<union> due now q t \<and>
         (\<forall>p' \<in> ran n \<union> due now q t. ev_priority (events q p') \<le> ev_priority (events q p)) \<and>
         ran t' = ran t - due now q t \<and> ran n' = (ran n \<union> due now q t) - {p})"
proof -
  obtain ok q1 where r: "expire_events al now q = Some (Inr (ok, q1))" "expired al now q t n (ok, q1)"
    using expire_events_ok [OF rep al, of now] by auto
  obtain t1 n1 where e: "eq_rep q1 t1 n1" "kept q q1"
    "if ok then ran t1 = ran t - due now q t \<and> ran n1 = ran n \<union> due now q t
      else (may_fail (fst al) (snd al) \<or> max_nodes \<le> card (ran t \<union> ran n) + 1) \<and>
        (\<exists>p \<in> due now q t. p \<notin> ran t1 \<union> ran n1 \<and> insert p (ran t1 \<union> ran n1) = ran t \<union> ran n \<and> ev_queue (events q1 p) = None)"
    using r(2) unfolding expired_def by (auto simp only: prod.case)
  have prio: "ev_priority (events q1 p) = ev_priority (events q p)" for p
    using e(2) contents_sel(2) unfolding kept_def by metis
  consider "\<not> ok" | "ok" "n1 = Map.empty" | "ok" "n1 \<noteq> Map.empty" by blast
  then show ?thesis
  proof cases
    case 1
    then have "ossl_event_queue_get1_next_event al now q = Some (Inr (None, q1))"
      using r(1) by (simp add: ossl_event_queue_get1_next_event_def)
    then show ?thesis using e 1 by (intro exI [of _ None] exI [of _ q1] exI [of _ t1] exI [of _ n1]) (simp only: option.case if_False simp_thms)
  next
    case 2
    then have "ossl_event_queue_get1_next_event al now q = Some (Inr (Some None, put_pq Now (get_pq Now q1) q1))"
      using r(1) pop_now [OF e(1)] by (simp add: ossl_event_queue_get1_next_event_def)
    moreover have "eq_rep (put_pq Now (get_pq Now q1) q1) t1 n1" using e(1) by (simp add: eq_rep_def)
    moreover have "ran n \<union> due now q t = {}" "ran n1 = {}" "ran t1 = ran t" using e(3) 2 by auto
    ultimately show ?thesis using e(2)
      by (intro exI [of _ "Some None"] exI [of _ "put_pq Now (get_pq Now q1) q1"] exI [of _ t1] exI [of _ n1]) simp
  next
    case 3
    then obtain h p pq where p: "ossl_pqueue_pop (get_pq Now q1) = Inr (Some p, pq)" "n1 h = Some p"
        "\<forall>p' \<in> ran n1. ev_priority (events q1 p') \<le> ev_priority (events q1 p)" "eq_rep (put_pq Now pq q1) t1 (n1(h := None))"
      using pop_now [OF e(1)] by auto
    have "tracked q1 n1" using e(1) by (simp add: eq_rep_def)
    from tracked_del [OF this p(2)] have rn: "ran (n1(h := None)) = ran n1 - {p}" "p \<in> ran n1" using ranI [of n1, OF p(2)] by auto
    have "ossl_event_queue_get1_next_event al now q = Some (Inr (Some (Some p), put_pq Now pq q1))"
      using r(1) p(1) 3 by (simp add: ossl_event_queue_get1_next_event_def)
    moreover have "ran t1 = ran t - due now q t" "ran n1 = ran n \<union> due now q t" using e(3) 3 by simp_all
    moreover have "kept q (put_pq Now pq q1)" using e(2) by simp
    ultimately show ?thesis using p(3,4) rn prio
      by (intro exI [of _ "Some (Some p)"] exI [of _ "put_pq Now pq q1"] exI [of _ t1] exI [of _ "n1(h := None)"]) (simp only: option.case simp_thms ball_simps)
  qed
qed

definition zero_event :: event where
  "zero_event = \<lparr>ev_type = 0, ev_priority = 0, ev_when = 0, ev_ctx = 0, ev_payload = 0, ev_payload_size = 0,
     ev_queue = None, ev_ref = 0, flag_dynamic = False\<rparr>"

definition sample_al :: allocators where "sample_al = (zeroed_cells, zeroed_elems)"

definition sample_events :: "nat \<Rightarrow> event" where
  "sample_events p = zero_event\<lparr>ev_priority := (if p = 2 then 5 else 0), ev_when := (if p \<le> 2 then 10 else 100)\<rparr>"

definition sample_queue :: event_queue where
  "sample_queue = the (ossl_event_queue_new sample_al (True, True, True) sample_events {1, 2, 3, 4})"

lemma sample_al_ok: "alloc_ok (fst sample_al)" "alloc_ok (snd sample_al)"
  using sample_ok(1,2) by (simp_all add: sample_al_def)

lemma sample_queue_new: "ossl_event_queue_new sample_al (True, True, True) sample_events {1, 2, 3, 4} = Some sample_queue"
  by (simp add: sample_queue_def ossl_event_queue_new_def sample_al_def ossl_pqueue_new_def zeroed_cells_def zeroed_elems_def)

lemmas sample_rep = event_queue_new_ok [OF sample_queue_new sample_al_ok]

lemma sample_add:
  "\<exists>q1 t1 n1. event_queue_add sample_al 5 sample_queue 1 = Some (Inr (True, q1)) \<and> eq_rep q1 t1 n1 \<and> ran t1 = {1} \<and> ran n1 = {} \<and>
     when_of (events q1) 1 = 10"
proof -
  have m: "may_fail (fst sample_al) (snd sample_al) = False" using sample_ok(3,4) by (simp add: sample_al_def)
  have "1 \<in> allocated sample_queue" by (simp add: sample_rep(3))
  moreover have w: "when_of (events sample_queue) 1 = 10" by (simp add: sample_rep(2) sample_events_def)
  ultimately obtain q1 t1 n1 where a: "event_queue_add sample_al 5 sample_queue 1 = Some (Inr (True, q1))" "eq_rep q1 t1 n1"
      "kept sample_queue q1" "ran t1 = {1}" "ran n1 = {}"
    using event_queue_add_ok [OF sample_rep(1) _ _ sample_al_ok, of 1 5] unfolding m by (auto split: if_splits)
  have "when_of (events q1) 1 = 10" using fun_cong [OF kept_orders(1) [OF a(3)], of 1] w by simp
  then show ?thesis using a by blast
qed

theorem event_queue_next_event_witness:
  "\<exists>q1 q2. event_queue_add sample_al 5 sample_queue 1 = Some (Inr (True, q1)) \<and>
     ossl_event_queue_get1_next_event sample_al 20 q1 = Some (Inr (Some (Some 1), q2))"
proof -
  have m: "may_fail (fst sample_al) (snd sample_al) = False" using sample_ok(3,4) by (simp add: sample_al_def)
  obtain q1 t1 n1 where a: "event_queue_add sample_al 5 sample_queue 1 = Some (Inr (True, q1))" "eq_rep q1 t1 n1"
      "ran t1 = {1}" "ran n1 = {}" "when_of (events q1) 1 = 10"
    using sample_add by blast
  have le: "(10 :: ossl_time) \<le> 20" by simp
  have d: "due 20 q1 t1 = {1}" unfolding a(3) using le unfolding a(5) [symmetric] by blast
  obtain r q2 where r: "ossl_event_queue_get1_next_event sample_al 20 q1 = Some (Inr (r, q2))"
      "case r of None \<Rightarrow> max_nodes \<le> card ({1} \<union> {}) + 1 | Some None \<Rightarrow> {} \<union> {1 :: nat} = {} | Some (Some p) \<Rightarrow> p \<in> {} \<union> {1}"
    using event_queue_next_event [OF a(2) sample_al_ok, of 20] unfolding m d unfolding a(3,4)
    by (elim exE conjE) (rule that, assumption, simp split: option.splits)
  then have "r = Some (Some 1)" by (auto split: option.splits)
  then show ?thesis using a(1) r(1) by blast
qed

text \<open>
  Adding an event that is in no queue and then removing it leaves the same events in the queues as before. Between the two
  calls it is among the due events or among the timed ones, according to its time and the clock.
\<close>

lemma event_queue_add_remove:
  assumes rep: "eq_rep q t n" and p: "p \<notin> ran t \<union> ran n" "p \<in> allocated q" and al: "alloc_ok (fst al)" "alloc_ok (snd al)"
    and add: "event_queue_add al now q p = Some (Inr (True, q1))"
  shows "\<exists>t1 n1 q2 t2 n2. eq_rep q1 t1 n1 \<and>
    (if ev_when (events q p) \<le> now then ran t1 = ran t \<and> ran n1 = insert p (ran n) else ran t1 = insert p (ran t) \<and> ran n1 = ran n) \<and>
    ossl_event_queue_remove q1 (Some p) = Inr q2 \<and> eq_rep q2 t2 n2 \<and> ran t2 = ran t \<and> ran n2 = ran n \<and> kept q q2"
proof -
  let ?i = "if when_of (events q) p \<le> now then Now else Timed"
  obtain t1 n1 where a: "eq_rep q1 t1 n1" "kept q q1" "ev_queue (events q1 p) = Some ?i"
      "if when_of (events q) p \<le> now then ran t1 = ran t \<and> ran n1 = insert p (ran n) else ran t1 = insert p (ran t) \<and> ran n1 = ran n"
    using event_queue_add_ok [OF rep p al, of now] add by (fastforce simp: ran_map_upd split: if_splits)
  have "if ?i = Timed then p \<in> ran t1 else p \<in> ran n1" using a(4) by auto
  then obtain q2 t2 n2 where r: "ossl_event_queue_remove q1 (Some p) = Inr q2" "eq_rep q2 t2 n2" "kept q1 q2"
      "ran t2 = ran t1 - {p}" "ran n2 = ran n1 - {p}"
    using event_queue_remove_ok [OF a(1) _ a(3)] by metis
  have "ran t2 = ran t" "ran n2 = ran n" using r(4,5) a(4) p(1) by (auto split: if_splits)
  then show ?thesis using a r kept_trans [OF a(2) r(3)] by blast
qed

text \<open>
  The time until the next event is zero if an event is due, otherwise the time from the clock until the earliest timed
  event, zero if that has passed, and infinite if there is no event.
\<close>

lemma event_queue_time_until_next:
  assumes rep: "eq_rep q t n"
  shows "ossl_event_queue_time_until_next now (Some q) =
    Inr (if ran n \<noteq> {} then 0 else if ran t = {} then ossl_time_infinite
         else ossl_time_subtract (Min (when_of (events q) ` ran t)) now)"
proof -
  have top: "htop (now_events q) = card (ran n)" "finite (ran t)" "finite (ran n)"
    using rep holds_finite tracked_card eq_rep_finite [OF rep] unfolding eq_rep_def by metis+
  consider "ran n \<noteq> {}" | "ran n = {}" "t = Map.empty" | "ran n = {}" "t \<noteq> Map.empty" by blast
  then show ?thesis
  proof cases
    case 3
    then obtain p where p: "ossl_pqueue_peek (get_pq Timed q) = Inr (Some p)" "p \<in> ran t"
        "\<forall>p' \<in> ran t. when_of (events q) p \<le> when_of (events q) p'"
      using peek_timed [OF rep] by auto
    then have "Min (when_of (events q) ` ran t) = when_of (events q) p" using top(2) by (intro Min_eqI) auto
    then show ?thesis using 3 p top
      by (auto simp: ossl_event_queue_time_until_next_def ossl_pqueue_num_def ossl_event_time_until_def)
  qed (use top peek_timed [OF rep] in \<open>auto simp: ossl_event_queue_time_until_next_def ossl_pqueue_num_def
      ossl_event_time_until_def ossl_time_zero_def card_gt_0_iff\<close>)
qed

text \<open>
  Freeing an event queue ends, and frees exactly the queued events that were allocated by it; those of the caller are marked as
  being in no queue.
\<close>

lemma event_queue_free_releases:
  assumes rep: "eq_rep q t n"
  shows "\<exists>q'. ossl_event_queue_free q = Some (Inr q') \<and> released (ran t \<union> ran n) q q'"
proof -
  obtain q1 where 1: "event_queue_free Now q = Some (Inr q1)" "eq_rep q1 t Map.empty" "released (ran n) q q1"
    using free_now_ok [OF rep] by blast
  obtain q2 where 2: "event_queue_free Timed q1 = Some (Inr q2)" "released (ran t) q1 q2"
    using free_timed_ok [OF 1(2)] by blast
  show ?thesis using 1 2 released_trans [OF 1(3) 2(2)] by (auto simp: ossl_event_queue_free_def Un_commute)
qed

text \<open>
  An event that was moved from the timed to the due events keeps the pointer to its former queue. Events 1 and 2 are added
  for time 10, and at time 20 the next event, 2, is taken, which makes 1 due. Then events 3 and 4 are added for time 100, and
  1 is removed. The removal takes another event out of the timed queue: at time 200, event 1 is still delivered
  first, one of the other two is delivered next, and the remaining one never.
\<close>

definition stale_scenario :: "nat option option list comp" where
  "stale_scenario =
     bind_comp (event_queue_add sample_al 0 sample_queue 1) (\<lambda>(_, q).
     bind_comp (event_queue_add sample_al 0 q 2) (\<lambda>(_, q).
     bind_comp (ossl_event_queue_get1_next_event sample_al 20 q) (\<lambda>(e1, q).
     bind_comp (event_queue_add sample_al 20 q 3) (\<lambda>(_, q).
     bind_comp (event_queue_add sample_al 20 q 4) (\<lambda>(_, q).
     bind_comp (Some (ossl_event_queue_remove q (Some 1))) (\<lambda>q.
     bind_comp (ossl_event_queue_get1_next_event sample_al 200 q) (\<lambda>(e2, q).
     bind_comp (ossl_event_queue_get1_next_event sample_al 200 q) (\<lambda>(e3, q).
     bind_comp (ossl_event_queue_get1_next_event sample_al 200 q) (\<lambda>(e4, q).
     Some (Inr [e1, e2, e3, e4]))))))))))"

lemma event_queue_stale_queue:
  "stale_scenario = Some (Inr [Some (Some 2), Some (Some 1), Some (Some 3), Some None])"
  by code_simp

end
