(* ===== verification/Ossl_Stack.thy ===== *)
theory Ossl_Stack
  imports Safe_Math Ossl_Common "HOL-Library.Multiset" "HOL-Library.Code_Target_Nat"
begin

text \<open>
  The stack container of the vendored OpenSSL, \<open>crypto/stack/stack.c\<close>, with the binary search of
  \<open>crypto/bsearch.c\<close>: an array of pointers that grows by a factor of 8/5, with an optional comparison function. A
  pointer is an option, whose \<open>None\<close> is \<open>NULL\<close>; the array is the list of all its allocated cells, of which the first
  \<open>num\<close> are in use. Function pointers are numbers, so that they can be compared, and the
  argument \<open>fn\<close> says what a comparison function computes. \<open>qsort\<close>, whose order of equal elements C leaves open, is an
  argument as well. The numbers in the structure are never negative and are natural numbers here; \<open>int\<close> arguments are integers.
\<close>

section \<open>Binary search\<close>

text \<open>The comparison with the key is one argument, the function \<open>c\<close>; the result is an index.\<close>

function bsearch_loop :: "('e \<Rightarrow> int) \<Rightarrow> 'e list \<Rightarrow> nat \<Rightarrow> nat \<Rightarrow> nat \<times> int \<Rightarrow> nat \<times> int" where
  "bsearch_loop c xs l h (i, r) =
     (if l < h
      then let i = (l + h) div 2; r = c (xs ! i)
           in if r < 0 then bsearch_loop c xs l i (i, r)
              else if r > 0 then bsearch_loop c xs (i + 1) h (i, r)
              else (i, r)
      else (i, r))"
  by pat_completeness auto
termination
  by (relation "measure (\<lambda>(c, xs, l, h, _). h - l)") auto

fun first_value :: "('e \<Rightarrow> int) \<Rightarrow> 'e list \<Rightarrow> nat \<Rightarrow> nat" where
  "first_value c xs 0 = 0"
| "first_value c xs (Suc i) = (if c (xs ! i) = 0 then first_value c xs i else Suc i)"

definition ossl_bsearch :: "('e \<Rightarrow> int) \<Rightarrow> 'e list \<Rightarrow> nat \<Rightarrow> bool \<Rightarrow> bool \<Rightarrow> nat option" where
  \<comment> \<open>the flags \<open>OSSL_BSEARCH_VALUE_ON_NOMATCH\<close> and \<open>OSSL_BSEARCH_FIRST_VALUE_ON_MATCH\<close>\<close>
  "ossl_bsearch c xs num on_nomatch first =
     (if num = 0 then None
      else case bsearch_loop c xs 0 num (0, 0) of (i, r) \<Rightarrow>
        if r \<noteq> 0 \<and> \<not> on_nomatch then None
        else if r = 0 \<and> first then Some (first_value c xs i)
        else Some i)"

section \<open>State\<close>

record 'a ossl_stack =
  st_num :: nat
  st_data :: "'a option list option"
  st_sorted :: bool
  st_num_alloc :: nat
  st_comp :: "nat option"

abbreviation sk_min_nodes :: nat where "sk_min_nodes \<equiv> 4"
abbreviation sk_max_nodes :: nat where "sk_max_nodes \<equiv> 1073741823"   \<comment> \<open>\<open>SIZE_MAX / sizeof(void *)\<close>\<close>

type_synonym 'a comps = "nat \<Rightarrow> 'a option \<Rightarrow> 'a option \<Rightarrow> int"

definition on_stack :: "'a ossl_stack option \<Rightarrow> 'r \<Rightarrow> ('a ossl_stack \<Rightarrow> ('r \<times> 'a ossl_stack) comp) \<Rightarrow> ('r \<times> 'a ossl_stack option) comp" where
  \<comment> \<open>\<open>if (st == NULL) return r;\<close>\<close>
  "on_stack st r f =
     (case st of None \<Rightarrow> Some (Inr (r, None)) | Some s \<Rightarrow> bind_comp (f s) (\<lambda>(x, s). Some (Inr (x, Some s))))"

definition with_data :: "'a ossl_stack \<Rightarrow> ('a option list \<Rightarrow> 'b res) \<Rightarrow> 'b res" where
  "with_data st f = (case st_data st of None \<Rightarrow> Inl Null_Deref | Some d \<Rightarrow> f d)"

section \<open>Storage\<close>

partial_function (option) compute_growth :: "int \<Rightarrow> int \<Rightarrow> int option" where
  "compute_growth target current =
     (if current < target then
        if current \<ge> int sk_max_nodes then Some 0
        else case safe_muldiv_s 32 current 8 5 False of (v, err) \<Rightarrow>
          if err then Some 0
          else compute_growth target (if v \<ge> int sk_max_nodes then int sk_max_nodes else v)
      else Some current)"

declare compute_growth.simps [code]

definition set_storage :: "'a option list option \<Rightarrow> nat \<Rightarrow> 'a ossl_stack \<Rightarrow> bool \<times> 'a ossl_stack" where
  \<comment> \<open>the use of the result of an allocation\<close>
  "set_storage d n st = (case d of None \<Rightarrow> (False, st) | Some d \<Rightarrow> (True, st\<lparr>st_data := Some d, st_num_alloc := n\<rparr>))"

definition sk_reserve :: "'a option allocator \<Rightarrow> 'a ossl_stack \<Rightarrow> int \<Rightarrow> bool \<Rightarrow> (bool \<times> 'a ossl_stack) option" where
  "sk_reserve al st n exact =
     (if n > int sk_max_nodes - int (st_num st) then Some (False, st)
      else let num_alloc = max (nat (int (st_num st) + n)) sk_min_nodes
           in case st_data st of
                None \<Rightarrow> Some (set_storage (map_option (\<lambda>_. replicate num_alloc None) (al num_alloc)) num_alloc st)
              | Some d \<Rightarrow>
                  if \<not> exact
                  then if num_alloc \<le> st_num_alloc st then Some (True, st)
                       else map_option (\<lambda>new. if new = 0 then (False, st) else set_storage (realloc al d (nat new)) (nat new) st)
                              (compute_growth (int num_alloc) (int (st_num_alloc st)))
                  else if num_alloc = st_num_alloc st then Some (True, st)
                  else Some (set_storage (realloc al d num_alloc) num_alloc st))"

section \<open>Creation and copies\<close>

definition zero_stack :: "'a ossl_stack" where
  "zero_stack = \<lparr>st_num = 0, st_data = None, st_sorted = False, st_num_alloc = 0, st_comp = None\<rparr>"

definition OPENSSL_sk_new_reserve :: "'a option allocator \<Rightarrow> bool \<Rightarrow> nat option \<Rightarrow> int \<Rightarrow> 'a ossl_stack option option" where
  \<comment> \<open>\<open>ok\<close>: whether the allocation of the structure succeeds\<close>
  "OPENSSL_sk_new_reserve al ok c n =
     (if \<not> ok then Some None
      else let st = zero_stack\<lparr>st_comp := c\<rparr>
           in if n \<le> 0 then Some (Some st)
              else map_option (\<lambda>(r, st). if r then Some st else None) (sk_reserve al st n True))"

definition OPENSSL_sk_new :: "'a option allocator \<Rightarrow> bool \<Rightarrow> nat option \<Rightarrow> 'a ossl_stack option option" where
  "OPENSSL_sk_new al ok c = OPENSSL_sk_new_reserve al ok c 0"

definition OPENSSL_sk_new_null :: "'a option allocator \<Rightarrow> bool \<Rightarrow> 'a ossl_stack option option" where
  "OPENSSL_sk_new_null al ok = OPENSSL_sk_new_reserve al ok None 0"

definition OPENSSL_sk_set_cmp_func :: "'a ossl_stack option \<Rightarrow> nat option \<Rightarrow> (nat option \<times> 'a ossl_stack) res" where
  "OPENSSL_sk_set_cmp_func sk c =
     (case sk of
        None \<Rightarrow> Inl Null_Deref
      | Some st \<Rightarrow> Inr (st_comp st, (if st_comp st \<noteq> c then st\<lparr>st_sorted := False\<rparr> else st)\<lparr>st_comp := c\<rparr>))"

definition OPENSSL_sk_dup :: "'a option allocator \<Rightarrow> bool \<Rightarrow> 'a ossl_stack option \<Rightarrow> 'a ossl_stack option res" where
  "OPENSSL_sk_dup al ok sk =
     (if \<not> ok then Inr None
      else let ret = (case sk of None \<Rightarrow> zero_stack | Some st \<Rightarrow> st)
           in if st_num ret = 0 then Inr (Some (ret\<lparr>st_data := None, st_num_alloc := 0\<rparr>))
              else case al (st_num_alloc ret) of
                     None \<Rightarrow> Inr None
                   | Some cells \<Rightarrow>
                       with_data ret (\<lambda>d.
                         if st_num ret \<le> length d \<and> st_num ret \<le> length cells
                         then Inr (Some (ret\<lparr>st_data := Some (take (st_num ret) d @ drop (st_num ret) cells)\<rparr>))
                         else Inl Buffer_Overflow))"

text \<open>
  The copy function takes and returns the state of the world, as does the function that frees an element; the loop collects the copies
  in reverse, and on failure frees them, the latest first.
\<close>

fun copy_loop :: "('a \<Rightarrow> 's \<Rightarrow> 'a option \<times> 's) \<Rightarrow> ('a \<Rightarrow> 's \<Rightarrow> 's) \<Rightarrow> 'a option list \<Rightarrow> 'a option list \<Rightarrow> 's \<Rightarrow> 'a option list option \<times> 's" where
  "copy_loop cf ff [] acc s = (Some (rev acc), s)"
| "copy_loop cf ff (None # xs) acc s = copy_loop cf ff xs (None # acc) s"
| "copy_loop cf ff (Some x # xs) acc s =
     (case cf x s of
        (None, s) \<Rightarrow> (None, fold ff (concat (map (case_option [] (\<lambda>y. [y])) acc)) s)
      | (Some y, s) \<Rightarrow> copy_loop cf ff xs (Some y # acc) s)"

definition OPENSSL_sk_deep_copy ::
    "'a option allocator \<Rightarrow> bool \<Rightarrow> 'a ossl_stack option \<Rightarrow> ('a \<Rightarrow> 's \<Rightarrow> 'a option \<times> 's) \<Rightarrow> ('a \<Rightarrow> 's \<Rightarrow> 's) \<Rightarrow> 's \<Rightarrow>
     ('a ossl_stack option \<times> 's) res" where
  "OPENSSL_sk_deep_copy al ok sk cf ff s =
     (if \<not> ok then Inr (None, s)
      else let ret = (case sk of None \<Rightarrow> zero_stack | Some st \<Rightarrow> st)
           in if st_num ret = 0 then Inr (Some (ret\<lparr>st_data := None, st_num_alloc := 0\<rparr>), s)
              else let n = max (st_num ret) sk_min_nodes
                   in case al n of
                        None \<Rightarrow> Inr (None, s)
                      | Some _ \<Rightarrow>
                          with_data ret (\<lambda>d.
                            if st_num ret \<le> length d
                            then case copy_loop cf ff (take (st_num ret) d) [] s of
                                   (None, s) \<Rightarrow> Inr (None, s)
                                 | (Some xs, s) \<Rightarrow>
                                     Inr (Some (ret\<lparr>st_data := Some (xs @ replicate (n - st_num ret) None), st_num_alloc := n\<rparr>), s)
                            else Inl Buffer_Overflow))"

section \<open>Insertion and deletion\<close>

definition OPENSSL_sk_reserve :: "'a option allocator \<Rightarrow> 'a ossl_stack option \<Rightarrow> int \<Rightarrow> (bool \<times> 'a ossl_stack option) comp" where
  "OPENSSL_sk_reserve al st n = on_stack st False (\<lambda>st. if n < 0 then Some (Inr (True, st)) else map_option Inr (sk_reserve al st n True))"

definition store_at :: "'a ossl_stack \<Rightarrow> 'a option \<Rightarrow> int \<Rightarrow> (int \<times> 'a ossl_stack) res" where
  \<comment> \<open>\<open>OPENSSL_sk_insert\<close> after the reservation\<close>
  "store_at st x loc =
     with_data st (\<lambda>d.
       if st_num st < length d
       then let d' = (if loc \<ge> int (st_num st) \<or> loc < 0 then d[st_num st := x]
                      else take (nat loc) d @ x # take (st_num st - nat loc) (drop (nat loc) d) @ drop (st_num st + 1) d)
            in Inr (int (st_num st) + 1, st\<lparr>st_data := Some d', st_num := st_num st + 1, st_sorted := False\<rparr>)
       else Inl Buffer_Overflow)"

definition OPENSSL_sk_insert :: "'a option allocator \<Rightarrow> 'a ossl_stack option \<Rightarrow> 'a option \<Rightarrow> int \<Rightarrow> (int \<times> 'a ossl_stack option) comp" where
  "OPENSSL_sk_insert al st x loc =
     on_stack st 0 (\<lambda>st.
       if st_num st = sk_max_nodes then Some (Inr (0, st))
       else case sk_reserve al st 1 False of
              None \<Rightarrow> None
            | Some (False, st) \<Rightarrow> Some (Inr (0, st))
            | Some (True, st) \<Rightarrow> Some (store_at st x loc))"

definition internal_delete :: "'a ossl_stack \<Rightarrow> nat \<Rightarrow> ('a option \<times> 'a ossl_stack) res" where
  "internal_delete st loc =
     with_data st (\<lambda>d.
       if loc < length d \<and> st_num st \<le> length d
       then let d' = (if loc \<noteq> st_num st - 1
                      then take loc d @ take (st_num st - loc - 1) (drop (loc + 1) d) @ drop (st_num st - 1) d else d)
            in Inr (d ! loc, st\<lparr>st_data := Some d', st_num := st_num st - 1\<rparr>)
       else Inl Buffer_Overflow)"

definition OPENSSL_sk_delete_ptr :: "'a ossl_stack option \<Rightarrow> 'a option \<Rightarrow> ('a option \<times> 'a ossl_stack option) comp" where
  "OPENSSL_sk_delete_ptr st p =
     on_stack st None (\<lambda>st.
       if st_num st = 0 then Some (Inr (None, st))
       else Some (with_data st (\<lambda>d.
         if st_num st \<le> length d
         then let i = length (takeWhile (\<lambda>x. x \<noteq> p) (take (st_num st) d))
              in if i < st_num st then internal_delete st i else Inr (None, st)
         else Inl Buffer_Overflow)))"

definition OPENSSL_sk_delete :: "'a ossl_stack option \<Rightarrow> int \<Rightarrow> ('a option \<times> 'a ossl_stack option) comp" where
  "OPENSSL_sk_delete st loc =
     on_stack st None (\<lambda>st.
       if loc < 0 \<or> loc \<ge> int (st_num st) then Some (Inr (None, st)) else Some (internal_delete st (nat loc)))"

definition OPENSSL_sk_push :: "'a option allocator \<Rightarrow> 'a ossl_stack option \<Rightarrow> 'a option \<Rightarrow> (int \<times> 'a ossl_stack option) comp" where
  "OPENSSL_sk_push al st x =
     (case st of None \<Rightarrow> Some (Inr (0, None)) | Some s \<Rightarrow> OPENSSL_sk_insert al st x (int (st_num s)))"

definition OPENSSL_sk_unshift :: "'a option allocator \<Rightarrow> 'a ossl_stack option \<Rightarrow> 'a option \<Rightarrow> (int \<times> 'a ossl_stack option) comp" where
  "OPENSSL_sk_unshift al st x = OPENSSL_sk_insert al st x 0"

definition OPENSSL_sk_shift :: "'a ossl_stack option \<Rightarrow> ('a option \<times> 'a ossl_stack option) comp" where
  "OPENSSL_sk_shift st =
     on_stack st None (\<lambda>st. if st_num st = 0 then Some (Inr (None, st)) else Some (internal_delete st 0))"

definition OPENSSL_sk_pop :: "'a ossl_stack option \<Rightarrow> ('a option \<times> 'a ossl_stack option) comp" where
  "OPENSSL_sk_pop st =
     on_stack st None (\<lambda>st. if st_num st = 0 then Some (Inr (None, st)) else Some (internal_delete st (st_num st - 1)))"

definition OPENSSL_sk_zero :: "'a ossl_stack option \<Rightarrow> (unit \<times> 'a ossl_stack option) comp" where
  "OPENSSL_sk_zero st =
     on_stack st () (\<lambda>st.
       if st_num st = 0 then Some (Inr ((), st))
       else Some (with_data st (\<lambda>d.
         if st_num st \<le> length d
         then Inr ((), st\<lparr>st_data := Some (replicate (st_num st) None @ drop (st_num st) d), st_num := 0\<rparr>)
         else Inl Buffer_Overflow)))"

section \<open>Access\<close>

definition OPENSSL_sk_num :: "'a ossl_stack option \<Rightarrow> int" where
  "OPENSSL_sk_num st = (case st of None \<Rightarrow> - 1 | Some st \<Rightarrow> int (st_num st))"

definition OPENSSL_sk_value :: "'a ossl_stack option \<Rightarrow> int \<Rightarrow> 'a option res" where
  "OPENSSL_sk_value st i =
     (case st of
        None \<Rightarrow> Inr None
      | Some st \<Rightarrow>
          if i < 0 \<or> i \<ge> int (st_num st) then Inr None
          else with_data st (\<lambda>d. if nat i < length d then Inr (d ! nat i) else Inl Buffer_Overflow))"

definition OPENSSL_sk_set :: "'a ossl_stack option \<Rightarrow> int \<Rightarrow> 'a option \<Rightarrow> ('a option \<times> 'a ossl_stack option) comp" where
  "OPENSSL_sk_set st i x =
     on_stack st None (\<lambda>st.
       if i < 0 \<or> i \<ge> int (st_num st) then Some (Inr (None, st))
       else Some (with_data st (\<lambda>d.
         if nat i < length d then Inr (x, st\<lparr>st_data := Some (d[nat i := x]), st_sorted := False\<rparr>) else Inl Buffer_Overflow)))"

definition OPENSSL_sk_sort ::
    "(('a option \<Rightarrow> 'a option \<Rightarrow> int) \<Rightarrow> 'a option list \<Rightarrow> 'a option list) \<Rightarrow> 'a comps \<Rightarrow> 'a ossl_stack option \<Rightarrow>
     (unit \<times> 'a ossl_stack option) comp" where
  "OPENSSL_sk_sort qsort fn st =
     on_stack st () (\<lambda>st.
       case st_comp st of
         None \<Rightarrow> Some (Inr ((), st))
       | Some c \<Rightarrow>
           if st_sorted st then Some (Inr ((), st))
           else if st_num st > 1
           then Some (with_data st (\<lambda>d.
             if st_num st \<le> length d
             then Inr ((), st\<lparr>st_data := Some (qsort (fn c) (take (st_num st) d) @ drop (st_num st) d), st_sorted := True\<rparr>)
             else Inl Buffer_Overflow))
           else Some (Inr ((), st\<lparr>st_sorted := True\<rparr>)))"

definition OPENSSL_sk_is_sorted :: "'a ossl_stack option \<Rightarrow> bool" where
  "OPENSSL_sk_is_sorted st = (case st of None \<Rightarrow> True | Some st \<Rightarrow> st_sorted st)"

definition OPENSSL_sk_pop_free :: "('a \<Rightarrow> 's \<Rightarrow> 's) \<Rightarrow> 'a ossl_stack option \<Rightarrow> 's \<Rightarrow> 's res" where
  \<comment> \<open>then the stack's own storage is freed\<close>
  "OPENSSL_sk_pop_free func st s =
     (case st of
        None \<Rightarrow> Inr s
      | Some st \<Rightarrow>
          if st_num st = 0 then Inr s
          else with_data st (\<lambda>d.
            if st_num st \<le> length d then Inr (fold func (concat (map (case_option [] (\<lambda>y. [y])) (take (st_num st) d))) s)
            else Inl Buffer_Overflow))"

section \<open>Search\<close>

fun find_loop :: "('e \<Rightarrow> int) \<Rightarrow> bool \<Rightarrow> 'e list \<Rightarrow> int \<Rightarrow> int \<Rightarrow> int \<Rightarrow> int \<times> int" where
  \<comment> \<open>the search in a stack that is not sorted: \<open>i\<close>, \<open>res\<close> and \<open>*pnum\<close>; \<open>one\<close> if a single result is wanted\<close>
  "find_loop c one [] i res pnum = (res, pnum)"
| "find_loop c one (x # xs) i res pnum =
     (if c x = 0
      then if one then (i, pnum + 1) else find_loop c one xs (i + 1) (if res = - 1 then i else res) (pnum + 1)
      else find_loop c one xs (i + 1) res pnum)"

definition internal_find ::
    "'a comps \<Rightarrow> 'a ossl_stack option \<Rightarrow> 'a option \<Rightarrow> bool \<Rightarrow> bool \<Rightarrow> int option \<Rightarrow> (int \<times> int option) res" where
  \<comment> \<open>\<open>pnum_matched\<close> is \<open>None\<close> for \<open>NULL\<close>, otherwise the value it points to; the second result is the new value\<close>
  "internal_find fn st data on_nomatch first pnum_matched =
     (case st of
        None \<Rightarrow> Inr (- 1, pnum_matched)
      | Some st \<Rightarrow>
          if st_num st = 0 then Inr (- 1, pnum_matched)
          else with_data st (\<lambda>d.
            if \<not> st_num st \<le> length d then Inl Buffer_Overflow
            else let xs = take (st_num st) d; set_pnum = (\<lambda>n. map_option (\<lambda>_. n) pnum_matched)
                 in case st_comp st of
                      None \<Rightarrow>
                        let i = length (takeWhile (\<lambda>x. x \<noteq> data) xs)
                        in if i < st_num st then Inr (int i, set_pnum 1) else Inr (- 1, set_pnum 0)
                    | Some c \<Rightarrow>
                        if data = None then Inr (- 1, pnum_matched)
                        else if \<not> st_sorted st
                        then case find_loop (fn c data) (pnum_matched = None) xs 0 (- 1)
                                   (case pnum_matched of None \<Rightarrow> 0 | Some n \<Rightarrow> n) of
                               (res, n) \<Rightarrow> Inr (res, set_pnum (if res = - 1 then 0 else n))
                        else case ossl_bsearch (fn c data) xs (st_num st) on_nomatch (first \<or> pnum_matched \<noteq> None) of
                               None \<Rightarrow> Inr (- 1, set_pnum 0)
                             | Some i \<Rightarrow> Inr (int i, set_pnum (int (length (takeWhile (\<lambda>x. fn c data x = 0) (drop i xs))))))) "

definition OPENSSL_sk_find :: "'a comps \<Rightarrow> 'a ossl_stack option \<Rightarrow> 'a option \<Rightarrow> int res" where
  "OPENSSL_sk_find fn st data = bind_res (internal_find fn st data False True None) (\<lambda>(i, _). Inr i)"

definition OPENSSL_sk_find_ex :: "'a comps \<Rightarrow> 'a ossl_stack option \<Rightarrow> 'a option \<Rightarrow> int res" where
  "OPENSSL_sk_find_ex fn st data = bind_res (internal_find fn st data True False None) (\<lambda>(i, _). Inr i)"

definition OPENSSL_sk_find_all :: "'a comps \<Rightarrow> 'a ossl_stack option \<Rightarrow> 'a option \<Rightarrow> int \<Rightarrow> (int \<times> int option) res" where
  "OPENSSL_sk_find_all fn st data pnum = internal_find fn st data False True (Some pnum)"

section \<open>Growth\<close>

lemma sdiv_nonneg: "0 \<le> a \<Longrightarrow> 0 < b \<Longrightarrow> a sdiv b = a div b" "0 \<le> a \<Longrightarrow> 0 < b \<Longrightarrow> a smod b = a mod b" for a b :: int
  by (simp_all add: signed_divide_int_def signed_modulo_int_def sgn_if)

lemma in_range_int: "in_range 32 k \<longleftrightarrow> - 2147483648 \<le> k \<and> k \<le> 2147483647"
  by (simp add: in_range_def MINS_def MAXS_def)

lemma mul_s_fits: "0 \<le> a \<Longrightarrow> 0 \<le> b \<Longrightarrow> in_range 32 a \<Longrightarrow> in_range 32 b \<Longrightarrow> in_range 32 (a * b) \<Longrightarrow> safe_mul_s 32 a b e = (a * b, e)"
proof -
  assume a: "0 \<le> a" "0 \<le> b" "in_range 32 a" "in_range 32 b" "in_range 32 (a * b)"
  then have "a * b \<noteq> MINS 32" using MINS_neg [of 32] mult_nonneg_nonneg [of a b] by linarith
  then show ?thesis using mul_s_builtin [OF a(3,4), of e] a(5) by (simp add: safe_mul_s_builtin_def)
qed

lemma stack_grow_step:
  assumes "2 \<le> c" and "c < int sk_max_nodes"
  shows "safe_muldiv_s 32 c 8 5 False = (c * 8 div 5, False)" and "c < c * 8 div 5"
proof -
  have "(c + 1) * 5 \<le> c * 8" using assms(1) by simp
  then have "(c + 1) * 5 div 5 \<le> c * 8 div 5" by (rule zdiv_mono1) simp
  then show "c < c * 8 div 5" by simp
  show "safe_muldiv_s 32 c 8 5 False = (c * 8 div 5, False)"
  proof (cases "c * 8 \<le> 2147483647")
    case True
    then have "safe_mul_s 32 c 8 False = (c * 8, False)" using assms by (intro mul_s_fits) (auto simp: in_range_int)
    then show ?thesis using assms by (simp add: safe_muldiv_s_def safe_div_s_def sdiv_nonneg)
  next
    case False
    have m: "0 \<le> c mod 5" "c mod 5 < 5" by simp_all
    have d: "c div 5 * 8 \<le> 2147483647" "0 \<le> c div 5" using assms by linarith+
    have "safe_mul_s 32 c 8 False = (MAXS 32, True)"
      using mul_s_builtin [of 32 c 8 False] assms False by (auto simp: safe_mul_s_builtin_def in_range_int MINS_def)
    moreover have "safe_mul_s 32 (c mod 5) 8 False = (c mod 5 * 8, False)" using m by (intro mul_s_fits) (auto simp: in_range_int)
    moreover have "safe_mul_s 32 (c div 5) 8 False = (c div 5 * 8, False)" using d by (intro mul_s_fits) (auto simp: in_range_int)
    moreover have "c div 5 * 8 + c mod 5 * 8 div 5 = c * 8 div 5" by (rule muldiv_nat) simp
    ultimately have s: "safe_mul_s 32 c 8 False = (MAXS 32, True)" "safe_mul_s 32 (c mod 5) 8 False = (c mod 5 * 8, False)"
        "safe_mul_s 32 (c div 5) 8 False = (c div 5 * 8, False)" "c div 5 * 8 + c mod 5 * 8 div 5 = c * 8 div 5"
      by blast+
    have "0 \<le> c mod 5 * 8 div 5" using m(1) by (simp add: pos_imp_zdiv_nonneg_iff)
    moreover have "c * 8 div 5 \<le> 2147483647" using assms by simp
    ultimately have rg: "in_range 32 (c div 5 * 8)" "in_range 32 (c mod 5 * 8 div 5)" "in_range 32 (c * 8 div 5)"
      unfolding in_range_int using d s(4) by linarith+
    have q: "safe_div_s 32 c 5 False = (c div 5, False)" "safe_mod_s 32 c 5 False = (c mod 5, False)"
        "safe_div_s 32 (c mod 5 * 8) 5 False = (c mod 5 * 8 div 5, False)"
      using assms m by (simp_all add: safe_div_s_def safe_mod_s_def sdiv_nonneg)
    have a: "safe_add_s 32 (c div 5 * 8) (c mod 5 * 8 div 5) False = (c * 8 div 5, False)"
      using add_s_builtin [OF rg(1,2), of False] s(4) rg(3) by (simp add: safe_add_s_builtin_def)
    have "\<not> c < 8" using False by simp
    then show ?thesis unfolding safe_muldiv_s_def by (simp add: s(1-3) q a)
  qed
qed

lemma compute_growth_ok:
  assumes "2 \<le> c" and "c \<le> int sk_max_nodes" and "target \<le> int sk_max_nodes"
  shows "\<exists>r. compute_growth target c = Some r \<and> target \<le> r \<and> c \<le> r \<and> r \<le> int sk_max_nodes"
  using assms
proof (induction "nat (int sk_max_nodes - c)" arbitrary: c rule: less_induct)
  case less
  show ?case
  proof (cases "c < target")
    case False
    then show ?thesis using less.prems by (subst compute_growth.simps) auto
  next
    case True
    then have lt: "c < int sk_max_nodes" using less.prems by simp
    note g = stack_grow_step [OF less.prems(1) lt]
    let ?c = "if c * 8 div 5 \<ge> int sk_max_nodes then int sk_max_nodes else c * 8 div 5"
    have c: "c < ?c" "?c \<le> int sk_max_nodes" "2 \<le> ?c" "nat (int sk_max_nodes - ?c) < nat (int sk_max_nodes - c)"
      using g(2) lt less.prems by auto
    have "compute_growth target c = compute_growth target ?c"
      using True lt g(1) by (subst compute_growth.simps) simp
    then show ?thesis using less.hyps [OF c(4,3,2) less.prems(3)] c(1) by auto
  qed
qed

section \<open>Invariant\<close>

definition sk_items :: "'a ossl_stack \<Rightarrow> 'a option list" where
  \<comment> \<open>the elements in use\<close>
  "sk_items st = (case st_data st of None \<Rightarrow> [] | Some d \<Rightarrow> take (st_num st) d)"

definition storage_ok :: "'a ossl_stack \<Rightarrow> bool" where
  "storage_ok st \<longleftrightarrow> (case st_data st of
     None \<Rightarrow> st_num st = 0 \<and> st_num_alloc st = 0
   | Some d \<Rightarrow> length d = st_num_alloc st \<and> sk_min_nodes \<le> st_num_alloc st \<and> st_num_alloc st \<le> sk_max_nodes \<and>
       st_num st \<le> st_num_alloc st)"

definition flag_ok :: "'a comps \<Rightarrow> 'a ossl_stack \<Rightarrow> bool" where
  \<comment> \<open>a stack marked as sorted is sorted\<close>
  "flag_ok fn st \<longleftrightarrow> (st_sorted st \<longrightarrow> (\<exists>c. st_comp st = Some c \<and> sorted_wrt (\<lambda>x y. fn c x y \<le> 0) (sk_items st)))"

definition sk_holds :: "'a comps \<Rightarrow> 'a ossl_stack \<Rightarrow> 'a option list \<Rightarrow> bool" where
  "sk_holds fn st xs \<longleftrightarrow> storage_ok st \<and> flag_ok fn st \<and> sk_items st = xs"

lemma sorted_flag_simps [simp]:
  "sk_items (st\<lparr>st_sorted := b\<rparr>) = sk_items st" "storage_ok (st\<lparr>st_sorted := b\<rparr>) = storage_ok st"
  "sk_items (st\<lparr>st_comp := c\<rparr>) = sk_items st" "storage_ok (st\<lparr>st_comp := c\<rparr>) = storage_ok st"
  by (cases "st_data st"; simp add: sk_items_def storage_ok_def)+

lemma items_length: "storage_ok st \<Longrightarrow> length (sk_items st) = st_num st"
  by (auto simp: storage_ok_def sk_items_def split: option.splits)

lemma holds_data:
  assumes "sk_holds fn st xs" and "xs \<noteq> []"
  obtains d where "st_data st = Some d" "take (st_num st) d = xs" "st_num st \<le> length d" "length xs = st_num st"
    "length d = st_num_alloc st"
  using assms by (auto simp: sk_holds_def storage_ok_def sk_items_def split: option.splits)

lemma holds_num: "sk_holds fn st xs \<Longrightarrow> st_num st = length xs"
  using items_length [of st] by (auto simp: sk_holds_def)

lemma sk_reserve_ok:
  assumes h: "sk_holds fn st xs" and al: "alloc_ok al" and n: "0 \<le> n" "n \<le> int sk_max_nodes"
  obtains ok st' where "sk_reserve al st n exact = Some (ok, st')" and "sk_holds fn st' xs"
    and "ok \<longrightarrow> (\<exists>d. st_data st' = Some d \<and> int (st_num st') + n \<le> int (length d))"
    and "\<not> ok \<longrightarrow> int sk_max_nodes < int (length xs) + n \<or> (\<exists>k. al k = None)"
    and "st_comp st' = st_comp st" and "st_sorted st' = st_sorted st"
proof -
  have inv: "storage_ok st" "flag_ok fn st" "sk_items st = xs" "st_num st = length xs"
    using h holds_num [OF h] by (simp_all add: sk_holds_def)
  let ?m = "max (nat (int (st_num st) + n)) sk_min_nodes"
  have grown: "sk_holds fn (st\<lparr>st_data := Some d', st_num_alloc := k\<rparr>) xs"
    if "length d' = k" "take (st_num st) d' = xs" "sk_min_nodes \<le> k" "k \<le> sk_max_nodes" "st_num st \<le> k" for d' k
    using that inv by (auto simp: sk_holds_def storage_ok_def flag_ok_def sk_items_def)
  have re: "set_storage (realloc al d k) k st = (ok, st') \<Longrightarrow> st_data st = Some d \<Longrightarrow> ?m \<le> k \<Longrightarrow> k \<le> sk_max_nodes \<Longrightarrow>
      sk_holds fn st' xs \<and> (ok \<longrightarrow> (\<exists>d. st_data st' = Some d \<and> int (st_num st') + n \<le> int (length d))) \<and> (\<not> ok \<longrightarrow> (\<exists>k. al k = None)) \<and>
      st_comp st' = st_comp st \<and> st_sorted st' = st_sorted st" for d k ok st'
  proof (cases "realloc al d k")
    case None
    then show "set_storage (realloc al d k) k st = (ok, st') \<Longrightarrow> ?thesis" using h by (auto simp: set_storage_def realloc_def)
  next
    case (Some d')
    assume a: "set_storage (realloc al d k) k st = (ok, st')" "st_data st = Some d" "?m \<le> k" "k \<le> sk_max_nodes"
    note r = realloc_ok [OF al Some]
    have "st_num st \<le> length d" "take (st_num st) d = xs" using inv a(2) by (auto simp: storage_ok_def sk_items_def)
    moreover have "st_num st \<le> k" using a(3) n by linarith
    ultimately have "take (st_num st) d' = xs" using r(2) [of "st_num st"] by simp
    then show ?thesis using grown [of d' k] a r(1) Some n by (auto simp: set_storage_def)
  qed
  show ?thesis
  proof (cases "n > int sk_max_nodes - int (st_num st)")
    case True
    then show ?thesis using that [of False st] h inv by (simp add: sk_reserve_def)
  next
    case False
    then have m: "?m \<le> sk_max_nodes" "int (st_num st) + n \<le> int ?m" "sk_min_nodes \<le> ?m" by auto
    show ?thesis
    proof (cases "st_data st")
      case None
      show ?thesis
      proof (cases "al ?m")
        case none: None
        then show ?thesis using that [of False st] None False h by (auto simp: sk_reserve_def Let_def set_storage_def)
      next
        case (Some cs)
        have "xs = []" using None inv by (simp add: sk_items_def)
        then show ?thesis
          using that [of True "st\<lparr>st_data := Some (replicate ?m None), st_num_alloc := ?m\<rparr>"] None Some False m inv
            grown [of "replicate ?m None" ?m] by (simp add: sk_reserve_def Let_def set_storage_def)
      qed
    next
      case (Some d)
      have len: "length d = st_num_alloc st" "sk_min_nodes \<le> st_num_alloc st" "st_num_alloc st \<le> sk_max_nodes" "st_num st \<le> st_num_alloc st"
        using inv(1) Some by (simp_all add: storage_ok_def)
      consider "exact" "?m = st_num_alloc st" | "exact" "?m \<noteq> st_num_alloc st" | "\<not> exact" "?m \<le> st_num_alloc st" | "\<not> exact" "st_num_alloc st < ?m"
        by linarith
      then show ?thesis
      proof cases
        case 1
        then show ?thesis using that [of True st] Some False h len m by (auto simp: sk_reserve_def Let_def)
      next
        case 2
        obtain ok st' where r: "set_storage (realloc al d ?m) ?m st = (ok, st')" by force
        show ?thesis using that [of ok st'] re [OF r Some] m 2 r Some False by (auto simp: sk_reserve_def Let_def)
      next
        case 3
        then show ?thesis using that [of True st] Some False h len m by (auto simp: sk_reserve_def Let_def)
      next
        case 4
        obtain g where g: "compute_growth (int ?m) (int (st_num_alloc st)) = Some g" "int ?m \<le> g" "g \<le> int sk_max_nodes"
          using compute_growth_ok [of "int (st_num_alloc st)" "int ?m"] len m by auto
        obtain ok st' where r: "set_storage (realloc al d (nat g)) (nat g) st = (ok, st')" by force
        have k: "?m \<le> nat g" "nat g \<le> sk_max_nodes" "g \<noteq> 0" using g m by auto
        have "\<not> ?m \<le> st_num_alloc st" using 4(2) by (simp only: not_le)
        then have "sk_reserve al st n exact = Some (ok, st')"
          unfolding sk_reserve_def Let_def using Some False 4(1) g(1) r k(3)
          by (simp only: if_False if_True not_False_eq_True option.case option.map)
        then show ?thesis using that [of ok st'] re [OF r Some k(1,2)] by blast
      qed
    qed
  qed
qed

section \<open>The array as a list\<close>

definition insert_at :: "'e list \<Rightarrow> 'e \<Rightarrow> int \<Rightarrow> 'e list" where
  "insert_at xs x loc = (if loc \<ge> int (length xs) \<or> loc < 0 then xs @ [x] else take (nat loc) xs @ x # drop (nat loc) xs)"

definition delete_at :: "'e list \<Rightarrow> nat \<Rightarrow> 'e list" where
  "delete_at xs i = take i xs @ drop (Suc i) xs"

definition first_index :: "('e \<Rightarrow> bool) \<Rightarrow> 'e list \<Rightarrow> int" where
  "first_index P xs = (let i = length (takeWhile (\<lambda>x. \<not> P x) xs) in if i < length xs then int i else - 1)"

lemma delete_sorted: "sorted_wrt P xs \<Longrightarrow> sorted_wrt P (delete_at xs i)"
proof (cases "i < length xs")
  case True
  assume "sorted_wrt P xs"
  then have "sorted_wrt P (take i xs @ xs ! i # drop (Suc i) xs)" using id_take_nth_drop [OF True] by simp
  then show ?thesis by (auto simp: delete_at_def sorted_wrt_append)
qed (simp add: delete_at_def)

lemma take_insert:
  "i < n \<Longrightarrow> n < length d \<Longrightarrow>
     take (n + 1) (take i d @ x # take (n - i) (drop i d) @ drop (n + 1) d) = take i (take n d) @ x # drop i (take n d)"
  by (simp add: drop_take Suc_diff_le min_def)

lemma take_delete:
  assumes "i < n" and "n \<le> length d"
  shows "take (n - 1) (if i \<noteq> n - 1 then take i d @ take (n - i - 1) (drop (i + 1) d) @ drop (n - 1) d else d) = delete_at (take n d) i"
proof (cases "i = n - 1")
  case True
  then show ?thesis using assms by (simp add: delete_at_def min_def)
next
  case False
  have "take i (take n d) = take i d" "drop (Suc i) (take n d) = take (n - i - 1) (drop (i + 1) d)"
    using assms by (simp_all add: drop_take min_def)
  moreover have "length (take i d @ take (n - i - 1) (drop (i + 1) d)) = n - 1" using assms False by simp
  then have "take (n - 1) ((take i d @ take (n - i - 1) (drop (i + 1) d)) @ drop (n - 1) d) = take i d @ take (n - i - 1) (drop (i + 1) d)"
    by (metis append_eq_conv_conj)
  ultimately show ?thesis using False by (simp add: delete_at_def)
qed

lemma store_at_ok:
  assumes h: "sk_holds fn st xs" and d: "st_data st = Some d" "st_num st < length d"
  obtains st' where "store_at st x loc = Inr (int (length xs) + 1, st')" and "sk_holds fn st' (insert_at xs x loc)"
    and "st_comp st' = st_comp st"
proof -
  let ?n = "st_num st"
  have xs: "xs = take ?n d" "length xs = ?n" "length d = st_num_alloc st" "sk_min_nodes \<le> st_num_alloc st" "st_num_alloc st \<le> sk_max_nodes"
    using h d by (auto simp: sk_holds_def storage_ok_def sk_items_def)
  let ?d = "if loc \<ge> int ?n \<or> loc < 0 then d[?n := x]
    else take (nat loc) d @ x # take (?n - nat loc) (drop (nat loc) d) @ drop (?n + 1) d"
  let ?st = "st\<lparr>st_data := Some ?d, st_num := ?n + 1, st_sorted := False\<rparr>"
  have "take (?n + 1) ?d = insert_at xs x loc"
  proof (cases "loc \<ge> int ?n \<or> loc < 0")
    case True
    then show ?thesis using d(2) xs(1,2) by (simp add: insert_at_def take_Suc_conv_app_nth)
  next
    case False
    then have "nat loc < ?n" by linarith
    from take_insert [OF this d(2), of x] show ?thesis
      unfolding insert_at_def xs(2) xs(1) [symmetric] using False by (simp only: if_False)
  qed
  moreover have "length ?d = length d" using d(2) by (auto simp: min_def)
  ultimately have "sk_holds fn ?st (insert_at xs x loc)"
    using xs d by (simp add: sk_holds_def storage_ok_def flag_ok_def sk_items_def)
  moreover have "store_at st x loc = Inr (int (length xs) + 1, ?st)" using d xs(2) by (simp add: store_at_def with_data_def)
  ultimately show ?thesis using that by simp
qed

lemma internal_delete_ok:
  assumes h: "sk_holds fn st xs" and i: "i < length xs"
  obtains st' where "internal_delete st i = Inr (xs ! i, st')" and "sk_holds fn st' (delete_at xs i)" and "st_comp st' = st_comp st"
proof -
  let ?n = "st_num st"
  have "xs \<noteq> []" using i by auto
  then obtain d where d: "st_data st = Some d" "take ?n d = xs" "?n \<le> length d" "length xs = ?n" "length d = st_num_alloc st"
    using holds_data [OF h] by metis
  let ?d = "if i \<noteq> ?n - 1 then take i d @ take (?n - i - 1) (drop (i + 1) d) @ drop (?n - 1) d else d"
  let ?st = "st\<lparr>st_data := Some ?d, st_num := ?n - 1\<rparr>"
  have del: "take (?n - 1) ?d = delete_at xs i" using take_delete [of i ?n d] i d by simp
  have "length ?d = length d" using d i by auto
  moreover have "flag_ok fn ?st"
    using h delete_sorted [of _ xs i] d(1) del by (auto simp: sk_holds_def flag_ok_def sk_items_def)
  ultimately have "sk_holds fn ?st (delete_at xs i)"
    using h d del by (auto simp: sk_holds_def storage_ok_def sk_items_def)
  moreover have "internal_delete st i = Inr (xs ! i, ?st)"
    using d i by (auto simp: internal_delete_def with_data_def)
  ultimately show ?thesis using that by simp
qed

section \<open>Binary search\<close>

declare bsearch_loop.simps [simp del]

context cmp_order
begin

lemma bsearch_loop_ok:
  assumes "sorted_wrt (\<lambda>x y. cmp x y \<le> 0) xs" and "l \<le> h" and "h \<le> length xs"
    and "\<forall>j < l. key (xs ! j) < key k" and "\<forall>j. h \<le> j \<longrightarrow> j < length xs \<longrightarrow> key k < key (xs ! j)"
    and "l < h \<or> i < length xs \<and> r = cmp k (xs ! i) \<and> r \<noteq> 0"
    and "bsearch_loop (cmp k) xs l h (i, r) = (i', r')"
  shows "i' < length xs \<and> r' = cmp k (xs ! i') \<and> (r' \<noteq> 0 \<longrightarrow> (\<forall>j < length xs. key (xs ! j) \<noteq> key k))"
  using assms
proof (induction "cmp k" xs l h "(i, r)" arbitrary: i r rule: bsearch_loop.induct)
  case (1 xs l h i r)
  let ?i = "(l + h) div 2" and ?r = "cmp k (xs ! ((l + h) div 2))"
  have mono: "key (xs ! a) \<le> key (xs ! b)" if "a \<le> b" "b < length xs" for a b
    using that sorted_wrt_nth_less [OF "1.prems"(1), of a b] cmp_nonpos by (cases "a = b") auto
  show ?case
  proof (cases "l < h")
    case False
    have "key (xs ! j) \<noteq> key k" if "j < length xs" for j
      using that "1.prems"(2,4,5) False by (metis le_antisym less_irrefl not_le)
    then show ?thesis using "1.prems"(6,7) False by (subst (asm) bsearch_loop.simps) auto
  next
    case True
    then have i: "l \<le> ?i" "?i < h" "?i < length xs" using "1.prems"(3) by auto
    consider "?r < 0" | "0 < ?r" | "?r = 0" by linarith
    then show ?thesis
    proof cases
      case 1
      then have "bsearch_loop (cmp k) xs l ?i (?i, ?r) = (i', r')"
        using "1.prems"(7) True by (subst (asm) bsearch_loop.simps) (simp add: Let_def)
      moreover have "\<forall>j. ?i \<le> j \<longrightarrow> j < length xs \<longrightarrow> key k < key (xs ! j)"
        using 1 mono [of ?i] cmp_less by (meson less_le_trans)
      ultimately show ?thesis using "1.hyps"(1) [OF True refl refl 1 "1.prems"(1) i(1) _ "1.prems"(4)] i 1 by auto
    next
      case 2
      then have "bsearch_loop (cmp k) xs (?i + 1) h (?i, ?r) = (i', r')"
        using "1.prems"(7) True by (subst (asm) bsearch_loop.simps) (simp add: Let_def)
      moreover have "\<forall>j < ?i + 1. key (xs ! j) < key k"
      proof (intro allI impI)
        fix j assume "j < ?i + 1"
        then have "key (xs ! j) \<le> key (xs ! ?i)" using mono [of j ?i] i(3) by simp
        then show "key (xs ! j) < key k" using 2 cmp_greater le_less_trans by blast
      qed
      ultimately show ?thesis using "1.hyps"(2) [OF True refl refl _ 2 "1.prems"(1) _ "1.prems"(3) _ "1.prems"(5)] i 2 by auto
    next
      case 3
      then have "(?i, ?r) = (i', r')" using "1.prems"(7) True by (subst (asm) bsearch_loop.simps) (simp add: Let_def)
      then show ?thesis using i 3 by auto
    qed
  qed
qed

lemma first_value_ok:
  assumes "sorted_wrt (\<lambda>x y. cmp x y \<le> 0) xs" and "i < length xs" and "cmp k (xs ! i) = 0"
  shows "int (first_value (cmp k) xs i) = first_index (\<lambda>x. cmp k x = 0) xs"
  using assms(2,3)
proof (induction i)
  case 0
  then have "takeWhile (\<lambda>x. cmp k x \<noteq> 0) xs = []" by (cases xs) auto
  then show ?case using 0 by (simp add: first_index_def)
next
  case (Suc i)
  show ?case
  proof (cases "cmp k (xs ! i) = 0")
    case True
    then show ?thesis using Suc by simp
  next
    case False
    have mono: "key (xs ! a) \<le> key (xs ! b)" if "a \<le> b" "b < length xs" for a b
      using that sorted_wrt_nth_less [OF assms(1), of a b] cmp_nonpos by (cases "a = b") auto
    have k: "key (xs ! Suc i) = key k" using Suc.prems(2) cmp_equal by metis
    have "key (xs ! i) \<noteq> key k" using False cmp_equal by metis
    then have lt: "key (xs ! i) < key k" using mono [of i "Suc i"] Suc.prems(1) k by auto
    have "cmp k (xs ! j) \<noteq> 0" if "j < Suc i" for j
      using mono [of j i] that Suc.prems(1) lt cmp_equal by (metis Suc_lessD leD less_Suc_eq_le)
    then have "takeWhile (\<lambda>x. cmp k x \<noteq> 0) xs = take (Suc i) xs"
      using Suc.prems(2) by (intro takeWhile_eq_take_P_nth) auto
    then show ?thesis using False Suc.prems(1) by (simp add: first_index_def)
  qed
qed

end

section \<open>The results of searches\<close>

definition matches :: "'a comps \<Rightarrow> nat option \<Rightarrow> 'a option \<Rightarrow> 'a option \<Rightarrow> bool" where
  "matches fn c p x = (case c of None \<Rightarrow> x = p | Some f \<Rightarrow> p \<noteq> None \<and> fn f p x = 0)"

lemma first_index_Cons: "first_index P (x # xs) = (if P x then 0 else if first_index P xs = - 1 then - 1 else first_index P xs + 1)"
  by (simp add: first_index_def Let_def)

lemma first_index_Nil [simp]: "first_index P [] = - 1"
  by (simp add: first_index_def)

lemma first_index_ge: "first_index P xs \<ge> - 1"
  by (simp add: first_index_def Let_def)

lemma first_index_ne [simp]: "2 + first_index P xs \<noteq> 0"
  using first_index_ge [of P xs] by linarith

lemma first_index_none: "first_index P xs = - 1 \<longleftrightarrow> (\<forall>x \<in> set xs. \<not> P x)"
  by (induction xs) (auto simp: first_index_Cons)

lemma find_loop_one:
  "find_loop c True xs i (- 1) n = (if first_index (\<lambda>x. c x = 0) xs = - 1 then (- 1, n) else (i + first_index (\<lambda>x. c x = 0) xs, n + 1))"
  by (induction xs arbitrary: i) (simp_all add: first_index_Cons)

lemma find_loop_found: "res \<noteq> - 1 \<Longrightarrow> find_loop c False xs i res n = (res, n + int (length (filter (\<lambda>x. c x = 0) xs)))"
  by (induction xs arbitrary: i n) simp_all

lemma find_loop_all:
  "0 \<le> i \<Longrightarrow> find_loop c False xs i (- 1) n =
    (if first_index (\<lambda>x. c x = 0) xs = - 1 then - 1 else i + first_index (\<lambda>x. c x = 0) xs, n + int (length (filter (\<lambda>x. c x = 0) xs)))"
  by (induction xs arbitrary: i n) (simp_all add: first_index_Cons find_loop_found)

context cmp_order
begin

lemma bsearch_first:
  assumes s: "sorted_wrt (\<lambda>x y. cmp x y \<le> 0) xs" and ne: "xs \<noteq> []"
  shows "ossl_bsearch (cmp k) xs (length xs) False True =
    (if first_index (\<lambda>x. cmp k x = 0) xs = - 1 then None else Some (nat (first_index (\<lambda>x. cmp k x = 0) xs)))"
proof -
  obtain i r where b: "bsearch_loop (cmp k) xs 0 (length xs) (0, 0) = (i, r)" by force
  have o: "i < length xs" "r = cmp k (xs ! i)" "r \<noteq> 0 \<longrightarrow> (\<forall>j < length xs. key (xs ! j) \<noteq> key k)"
    using bsearch_loop_ok [OF s _ _ _ _ _ b] ne by auto
  show ?thesis
  proof (cases "r = 0")
    case True
    then have "int (first_value (cmp k) xs i) = first_index (\<lambda>x. cmp k x = 0) xs" using first_value_ok [OF s o(1)] o(2) by simp
    then show ?thesis using b True ne first_index_none [of "\<lambda>x. cmp k x = 0" xs] o by (auto simp: ossl_bsearch_def)
  next
    case False
    then have "cmp k x \<noteq> 0" if "x \<in> set xs" for x using that o(3) cmp_equal by (metis in_set_conv_nth)
    then show ?thesis using b False ne by (auto simp: ossl_bsearch_def first_index_none)
  qed
qed

lemma matches_together:
  assumes s: "sorted_wrt (\<lambda>x y. cmp x y \<le> 0) xs" and f: "first_index (\<lambda>x. cmp k x = 0) xs = int i"
  shows "takeWhile (\<lambda>x. cmp k x = 0) (drop i xs) = filter (\<lambda>x. cmp k x = 0) xs"
  using assms
proof (induction xs arbitrary: i)
  case (Cons x xs)
  have le: "\<forall>y \<in> set xs. key x \<le> key y" using Cons.prems(1) cmp_nonpos by simp
  show ?case
  proof (cases "cmp k x = 0")
    case True
    then have "i = 0" using Cons.prems(2) by (simp add: first_index_Cons)
    have "takeWhile (\<lambda>x. cmp k x = 0) ys = filter (\<lambda>x. cmp k x = 0) ys"
      if "sorted_wrt (\<lambda>x y. cmp x y \<le> 0) ys" "\<forall>y \<in> set ys. key k \<le> key y" for ys
      using that
    proof (induction ys)
      case (Cons y ys)
      have "filter (\<lambda>x. cmp k x = 0) ys = []" if "cmp k y \<noteq> 0"
      proof -
        have "key k \<noteq> key y" "key k \<le> key y" using that Cons.prems(2) by (simp_all add: cmp_equal)
        then have "key k < key y" by simp
        moreover have "\<forall>z \<in> set ys. key y \<le> key z" using Cons.prems(1) by (simp add: cmp_nonpos)
        ultimately have "\<forall>z \<in> set ys. key k < key z" by (metis less_le_trans)
        then show ?thesis by (auto simp: cmp_equal filter_empty_conv)
      qed
      then show ?case using Cons by auto
    qed simp
    moreover have "key k = key x" using True cmp_equal by simp
    ultimately show ?thesis using \<open>i = 0\<close> True le Cons.prems(1) by simp
  next
    case False
    then have "i \<noteq> 0" "first_index (\<lambda>x. cmp k x = 0) xs = int (i - 1)"
      using Cons.prems(2) first_index_ge [of "\<lambda>x. cmp k x = 0" xs] by (auto simp: first_index_Cons split: if_splits)
    then show ?thesis using Cons.IH [of "i - 1"] Cons.prems(1) False by (cases i) auto
  qed
qed (simp add: first_index_def)

end

section \<open>Specification\<close>

text \<open>
  What a client may rely on: a comparison function and a list. \<open>fail\<close> says that an allocation may fail.
\<close>

datatype 'a sk_op =
    Sk_insert "'a option" int | Sk_push "'a option" | Sk_unshift "'a option" | Sk_delete int | Sk_delete_ptr "'a option"
  | Sk_pop | Sk_shift | Sk_zero | Sk_set int "'a option" | Sk_value int | Sk_num | Sk_sort | Sk_find "'a option"
  | Sk_reserve int | Sk_set_cmp "nat option"

datatype 'a sk_out = Count int | Elem "'a option" | Func "nat option" | Nothing

type_synonym 'a sk_state = "nat option \<times> 'a option list"

definition elem_at :: "'a option list \<Rightarrow> int \<Rightarrow> 'a option" where
  "elem_at xs i = (if 0 \<le> i \<and> i < int (length xs) then xs ! nat i else None)"

definition without :: "'a option list \<Rightarrow> int \<Rightarrow> 'a option list" where
  "without xs i = (if 0 \<le> i \<and> i < int (length xs) then delete_at xs (nat i) else xs)"

definition inserted :: "bool \<Rightarrow> 'a sk_state \<Rightarrow> 'a option list \<Rightarrow> 'a sk_out \<Rightarrow> 'a sk_state \<Rightarrow> bool" where
  "inserted fail s ys out s' \<longleftrightarrow> out = Count (int (length (snd s)) + 1) \<and> s' = (fst s, ys) \<or>
     (fail \<or> length (snd s) = sk_max_nodes) \<and> out = Count 0 \<and> s' = s"

fun sk_spec :: "bool \<Rightarrow> 'a comps \<Rightarrow> 'a sk_op \<Rightarrow> 'a sk_state \<Rightarrow> 'a sk_out \<Rightarrow> 'a sk_state \<Rightarrow> bool" where
  "sk_spec fail fn (Sk_insert x loc) (c, xs) out s' = inserted fail (c, xs) (insert_at xs x loc) out s'"
| "sk_spec fail fn (Sk_push x) (c, xs) out s' = inserted fail (c, xs) (xs @ [x]) out s'"
| "sk_spec fail fn (Sk_unshift x) (c, xs) out s' = inserted fail (c, xs) (x # xs) out s'"
| "sk_spec fail fn (Sk_delete i) (c, xs) out s' = (out = Elem (elem_at xs i) \<and> s' = (c, without xs i))"
| "sk_spec fail fn (Sk_delete_ptr p) (c, xs) out s' =
     (out = Elem (if p \<in> set xs then p else None) \<and> s' = (c, remove1 p xs))"
| "sk_spec fail fn Sk_pop (c, xs) out s' = (out = Elem (if xs = [] then None else last xs) \<and> s' = (c, butlast xs))"
| "sk_spec fail fn Sk_shift (c, xs) out s' = (out = Elem (if xs = [] then None else hd xs) \<and> s' = (c, tl xs))"
| "sk_spec fail fn Sk_zero (c, xs) out s' = (out = Nothing \<and> s' = (c, []))"
| "sk_spec fail fn (Sk_set i x) (c, xs) out s' =
     (if 0 \<le> i \<and> i < int (length xs) then out = Elem x \<and> s' = (c, xs[nat i := x]) else out = Elem None \<and> s' = (c, xs))"
| "sk_spec fail fn (Sk_value i) (c, xs) out s' = (out = Elem (elem_at xs i) \<and> s' = (c, xs))"
| "sk_spec fail fn Sk_num (c, xs) out s' = (out = Count (int (length xs)) \<and> s' = (c, xs))"
| "sk_spec fail fn Sk_sort (c, xs) out s' = (out = Nothing \<and> fst s' = c \<and> mset (snd s') = mset xs \<and>
     (case c of None \<Rightarrow> snd s' = xs | Some f \<Rightarrow> sorted_wrt (\<lambda>x y. fn f x y \<le> 0) (snd s')))"
| "sk_spec fail fn (Sk_find p) (c, xs) out s' = (out = Count (first_index (matches fn c p) xs) \<and> s' = (c, xs))"
| "sk_spec fail fn (Sk_reserve n) (c, xs) out s' =
     ((out = Count 1 \<or> (fail \<or> int sk_max_nodes < int (length xs) + n) \<and> out = Count 0) \<and> s' = (c, xs))"
| "sk_spec fail fn (Sk_set_cmp c') (c, xs) out s' = (out = Func c \<and> s' = (c', xs))"

fun sk_specs :: "bool \<Rightarrow> 'a comps \<Rightarrow> 'a sk_op list \<Rightarrow> 'a sk_state \<Rightarrow> 'a sk_out list \<Rightarrow> 'a sk_state \<Rightarrow> bool" where
  "sk_specs fail fn [] s outs s' = (outs = [] \<and> s' = s)"
| "sk_specs fail fn (opn # ops) s outs s' =
     (\<exists>out outs' s1. outs = out # outs' \<and> sk_spec fail fn opn s out s1 \<and> sk_specs fail fn ops s1 outs' s')"

definition out_with :: "('r \<Rightarrow> 'a sk_out) \<Rightarrow> ('r \<times> 'a ossl_stack option) comp \<Rightarrow> ('a sk_out \<times> 'a ossl_stack option) comp" where
  "out_with f m = bind_comp m (\<lambda>(r, st). Some (Inr (f r, st)))"

type_synonym 'a sorter = "('a option \<Rightarrow> 'a option \<Rightarrow> int) \<Rightarrow> 'a option list \<Rightarrow> 'a option list"

fun sk_apply ::
    "'a option allocator \<Rightarrow> 'a sorter \<Rightarrow> 'a comps \<Rightarrow> 'a sk_op \<Rightarrow> 'a ossl_stack option \<Rightarrow> ('a sk_out \<times> 'a ossl_stack option) comp" where
  "sk_apply al qs fn (Sk_insert x loc) st = out_with Count (OPENSSL_sk_insert al st x loc)"
| "sk_apply al qs fn (Sk_push x) st = out_with Count (OPENSSL_sk_push al st x)"
| "sk_apply al qs fn (Sk_unshift x) st = out_with Count (OPENSSL_sk_unshift al st x)"
| "sk_apply al qs fn (Sk_delete i) st = out_with Elem (OPENSSL_sk_delete st i)"
| "sk_apply al qs fn (Sk_delete_ptr p) st = out_with Elem (OPENSSL_sk_delete_ptr st p)"
| "sk_apply al qs fn Sk_pop st = out_with Elem (OPENSSL_sk_pop st)"
| "sk_apply al qs fn Sk_shift st = out_with Elem (OPENSSL_sk_shift st)"
| "sk_apply al qs fn Sk_zero st = out_with (\<lambda>_. Nothing) (OPENSSL_sk_zero st)"
| "sk_apply al qs fn (Sk_set i x) st = out_with Elem (OPENSSL_sk_set st i x)"
| "sk_apply al qs fn (Sk_value i) st = Some (bind_res (OPENSSL_sk_value st i) (\<lambda>x. Inr (Elem x, st)))"
| "sk_apply al qs fn Sk_num st = Some (Inr (Count (OPENSSL_sk_num st), st))"
| "sk_apply al qs fn Sk_sort st = out_with (\<lambda>_. Nothing) (OPENSSL_sk_sort qs fn st)"
| "sk_apply al qs fn (Sk_find p) st = Some (bind_res (OPENSSL_sk_find fn st p) (\<lambda>i. Inr (Count i, st)))"
| "sk_apply al qs fn (Sk_reserve n) st = out_with (\<lambda>ok. Count (of_bool ok)) (OPENSSL_sk_reserve al st n)"
| "sk_apply al qs fn (Sk_set_cmp c) st = Some (bind_res (OPENSSL_sk_set_cmp_func st c) (\<lambda>(old, st). Inr (Func old, Some st)))"

fun sk_run ::
    "'a option allocator \<Rightarrow> 'a sorter \<Rightarrow> 'a comps \<Rightarrow> 'a sk_op list \<Rightarrow> 'a ossl_stack option \<Rightarrow> ('a sk_out list \<times> 'a ossl_stack option) comp" where
  "sk_run al qs fn [] st = Some (Inr ([], st))"
| "sk_run al qs fn (opn # ops) st =
     bind_comp (sk_apply al qs fn opn st) (\<lambda>(out, st). bind_comp (sk_run al qs fn ops st) (\<lambda>(outs, st). Some (Inr (out # outs, st))))"

definition qsort_ok :: "'a sorter \<Rightarrow> 'a comps \<Rightarrow> bool" where
  \<comment> \<open>what C promises of \<open>qsort\<close>\<close>
  "qsort_ok qs fn \<longleftrightarrow> (\<forall>c xs. mset (qs (fn c) xs) = mset xs \<and> sorted_wrt (\<lambda>x y. fn c x y \<le> 0) (qs (fn c) xs))"

section \<open>The operations implement the specification\<close>

lemma on_stack_some [simp]: "on_stack (Some st) r f = bind_comp (f st) (\<lambda>(x, st). Some (Inr (x, Some st)))"
  by (simp add: on_stack_def)

lemma sk_insert_holds:
  assumes h: "sk_holds fn st xs" and al: "alloc_ok al"
  obtains r st' ys where "OPENSSL_sk_insert al (Some st) x loc = Some (Inr (r, Some st'))" and "sk_holds fn st' ys"
    and "st_comp st' = st_comp st" and "inserted (\<exists>k. al k = None) (st_comp st, xs) (insert_at xs x loc) (Count r) (st_comp st', ys)"
proof (cases "st_num st = sk_max_nodes")
  case True
  then show ?thesis using that [of 0 st xs] h holds_num [OF h] by (simp add: OPENSSL_sk_insert_def inserted_def)
next
  case False
  obtain ok st1 where r: "sk_reserve al st 1 False = Some (ok, st1)" "sk_holds fn st1 xs"
      "ok \<longrightarrow> (\<exists>d. st_data st1 = Some d \<and> int (st_num st1) + 1 \<le> int (length d))"
      "\<not> ok \<longrightarrow> int sk_max_nodes < int (length xs) + 1 \<or> (\<exists>k. al k = None)" "st_comp st1 = st_comp st"
    by (rule sk_reserve_ok [OF h al, of 1 False]) simp_all
  show ?thesis
  proof (cases ok)
    case True
    then obtain d where "st_data st1 = Some d" "st_num st1 < length d" using r(3) by auto
    then obtain st' where "store_at st1 x loc = Inr (int (length xs) + 1, st')" "sk_holds fn st' (insert_at xs x loc)" "st_comp st' = st_comp st1"
      using store_at_ok [OF r(2)] by metis
    then show ?thesis using that [of "int (length xs) + 1" st' "insert_at xs x loc"] True False r
      by (simp add: OPENSSL_sk_insert_def inserted_def)
  next
    case no: False
    have "length xs \<le> sk_max_nodes" using h holds_num [OF h] by (auto simp: sk_holds_def storage_ok_def split: option.splits)
    then have "\<exists>k. al k = None" using r(4) no False holds_num [OF h] by auto
    then show ?thesis using that [of 0 st1 xs] no False r by (simp add: OPENSSL_sk_insert_def inserted_def)
  qed
qed

lemma sk_delete_holds:
  assumes h: "sk_holds fn st xs"
  obtains st' where "OPENSSL_sk_delete (Some st) i = Some (Inr (elem_at xs i, Some st'))" and "sk_holds fn st' (without xs i)"
    and "st_comp st' = st_comp st"
proof (cases "0 \<le> i \<and> i < int (length xs)")
  case False
  then show ?thesis using that [of st] h holds_num [OF h] by (auto simp: OPENSSL_sk_delete_def elem_at_def without_def)
next
  case True
  then have "nat i < length xs" by auto
  then obtain st' where "internal_delete st (nat i) = Inr (xs ! nat i, st')" "sk_holds fn st' (delete_at xs (nat i))" "st_comp st' = st_comp st"
    using internal_delete_ok [OF h] by metis
  then show ?thesis using that [of st'] True holds_num [OF h] by (auto simp: OPENSSL_sk_delete_def elem_at_def without_def)
qed

lemma find_holds:
  assumes h: "sk_holds fn st xs" and ord: "\<And>c. cmp_order (fn c) (key c)"
  shows "OPENSSL_sk_find fn (Some st) p = Inr (first_index (matches fn (st_comp st) p) xs)"
proof (cases "xs = []")
  case True
  then show ?thesis using holds_num [OF h] by (simp add: OPENSSL_sk_find_def internal_find_def)
next
  case False
  then obtain d where d: "st_data st = Some d" "take (st_num st) d = xs" "st_num st \<le> length d" "length xs = st_num st"
    using holds_data [OF h] by metis
  have n: "st_num st \<noteq> 0" using False d(4) [symmetric] by simp
  show ?thesis
  proof (cases "st_comp st")
    case None
    then show ?thesis using d n by (auto simp: OPENSSL_sk_find_def internal_find_def with_data_def Let_def matches_def first_index_def)
  next
    case (Some c)
    have m: "matches fn (Some c) p = (\<lambda>x. fn c p x = 0)" if "p \<noteq> None" using that by (auto simp: matches_def)
    consider "p = None" | "p \<noteq> None" "\<not> st_sorted st" | "p \<noteq> None" "st_sorted st" by blast
    then show ?thesis
    proof cases
      case 1
      then have "first_index (matches fn (st_comp st) p) xs = - 1" using Some by (simp add: first_index_none matches_def)
      then show ?thesis using 1 Some d n by (simp add: OPENSSL_sk_find_def internal_find_def with_data_def Let_def)
    next
      case 2
      then show ?thesis using Some d n
        by (auto simp: OPENSSL_sk_find_def internal_find_def with_data_def m find_loop_one Let_def)
    next
      case 3
      have "sorted_wrt (\<lambda>x y. fn c x y \<le> 0) xs" using h 3 Some by (auto simp: sk_holds_def flag_ok_def)
      from cmp_order.bsearch_first [OF ord this False, of p] show ?thesis
        using Some d n 3 first_index_ge [of "\<lambda>x. fn c p x = 0" xs]
        by (auto simp: OPENSSL_sk_find_def internal_find_def with_data_def m Let_def)
    qed
  qed
qed

lemma delete_ptr_holds:
  assumes h: "sk_holds fn st xs"
  obtains st' where "OPENSSL_sk_delete_ptr (Some st) p = Some (Inr (if p \<in> set xs then p else None, Some st'))"
    and "sk_holds fn st' (remove1 p xs)" and "st_comp st' = st_comp st"
proof (cases "xs = []")
  case True
  then show ?thesis using that [of st] h holds_num [OF h] by (simp add: OPENSSL_sk_delete_ptr_def)
next
  case False
  then obtain d where d: "st_data st = Some d" "take (st_num st) d = xs" "st_num st \<le> length d" "length xs = st_num st"
    using holds_data [OF h] by metis
  have n: "st_num st \<noteq> 0" using False d(4) [symmetric] by simp
  let ?i = "length (takeWhile (\<lambda>x. x \<noteq> p) xs)"
  have eq: "OPENSSL_sk_delete_ptr (Some st) p =
      bind_comp (Some (if ?i < length xs then internal_delete st ?i else Inr (None, st))) (\<lambda>(x, st). Some (Inr (x, Some st)))"
    using d n by (simp add: OPENSSL_sk_delete_ptr_def with_data_def Let_def)
  show ?thesis
  proof (cases "p \<in> set xs")
    case True
    then have i: "?i < length xs" by (induction xs) auto
    have at: "xs ! ?i = p" using nth_length_takeWhile [OF i] by simp
    have re: "remove1 p xs = delete_at xs ?i" unfolding delete_at_def using True by (induction xs) auto
    obtain st' where "internal_delete st ?i = Inr (xs ! ?i, st')" "sk_holds fn st' (delete_at xs ?i)" "st_comp st' = st_comp st"
      by (rule internal_delete_ok [OF h i])
    then show ?thesis using that [of st'] eq i at True re by simp
  next
    case no: False
    then have "takeWhile (\<lambda>x. x \<noteq> p) xs = xs" by (induction xs) auto
    then have "\<not> ?i < length xs" by (metis less_irrefl)
    then have "OPENSSL_sk_delete_ptr (Some st) p = Some (Inr (None, Some st))"
      unfolding eq by (simp only: if_False bind_comp_simps prod.case)
    then show ?thesis using that [of st] no h by (simp add: remove1_idem)
  qed
qed

lemma delete_ends: "xs \<noteq> [] \<Longrightarrow> delete_at xs 0 = tl xs" "xs \<noteq> [] \<Longrightarrow> delete_at xs (length xs - 1) = butlast xs"
  by (simp_all add: delete_at_def drop_Suc butlast_conv_take)

lemma overwrite_holds:
  assumes h: "sk_holds fn st xs" and ys: "length ys = length xs" and d: "st_data st = Some d"
    and f: "st_sorted st' \<Longrightarrow> \<exists>c. st_comp st' = Some c \<and> sorted_wrt (\<lambda>x y. fn c x y \<le> 0) ys"
    and st': "st_data st' = Some (ys @ drop (length xs) d)" "st_num st' = st_num st" "st_num_alloc st' = st_num_alloc st"
  shows "sk_holds fn st' ys"
  using assms holds_num [OF h] by (auto simp: sk_holds_def storage_ok_def flag_ok_def sk_items_def)

lemma set_holds:
  assumes h: "sk_holds fn st xs" and i: "0 \<le> i" "i < int (length xs)"
  obtains st' where "OPENSSL_sk_set (Some st) i x = Some (Inr (x, Some st'))" and "sk_holds fn st' (xs[nat i := x])"
    and "st_comp st' = st_comp st"
proof -
  have "xs \<noteq> []" using i by auto
  then obtain d where d: "st_data st = Some d" "take (st_num st) d = xs" "st_num st \<le> length d" "length xs = st_num st"
    using holds_data [OF h] by metis
  let ?st = "st\<lparr>st_data := Some (d[nat i := x]), st_sorted := False\<rparr>"
  have "nat i < length xs" using i by simp
  then have "d[nat i := x] = xs[nat i := x] @ drop (length xs) d"
    using d(2,4) by (metis append_take_drop_id list_update_append1)
  then have "sk_holds fn ?st (xs[nat i := x])" by (intro overwrite_holds [OF h _ d(1)]) simp_all
  moreover have "OPENSSL_sk_set (Some st) i x = Some (Inr (x, Some ?st))"
    using i d by (auto simp: OPENSSL_sk_set_def with_data_def)
  ultimately show ?thesis using that by simp
qed

lemma sort_holds:
  assumes h: "sk_holds fn st xs" and qs: "qsort_ok qs fn"
  obtains st' ys where "OPENSSL_sk_sort qs fn (Some st) = Some (Inr ((), Some st'))" and "sk_holds fn st' ys"
    and "st_comp st' = st_comp st" and "mset ys = mset xs"
    and "case st_comp st of None \<Rightarrow> ys = xs | Some f \<Rightarrow> sorted_wrt (\<lambda>x y. fn f x y \<le> 0) ys"
proof (cases "st_comp st")
  case None
  then show ?thesis using that [of st xs] h by (simp add: OPENSSL_sk_sort_def)
next
  case (Some c)
  consider "st_sorted st" | "\<not> st_sorted st" "st_num st \<le> 1" | "\<not> st_sorted st" "1 < st_num st" by linarith
  then show ?thesis
  proof cases
    case 1
    then show ?thesis using that [of st xs] h Some by (auto simp: OPENSSL_sk_sort_def sk_holds_def flag_ok_def)
  next
    case 2
    have "sorted_wrt P xs" for P using 2(2) holds_num [OF h] by (cases xs rule: remdups_adj.cases) auto
    then show ?thesis using that [of "st\<lparr>st_sorted := True\<rparr>" xs] h Some 2
      by (auto simp: OPENSSL_sk_sort_def sk_holds_def flag_ok_def)
  next
    case 3
    then have "xs \<noteq> []" using holds_num [OF h] by auto
    then obtain d where d: "st_data st = Some d" "take (st_num st) d = xs" "st_num st \<le> length d" "length xs = st_num st"
      using holds_data [OF h] by metis
    let ?ys = "qs (fn c) xs" and ?st = "st\<lparr>st_data := Some (qs (fn c) xs @ drop (st_num st) d), st_sorted := True\<rparr>"
    have q: "mset ?ys = mset xs" "sorted_wrt (\<lambda>x y. fn c x y \<le> 0) ?ys" using qs by (simp_all add: qsort_ok_def)
    then have "sk_holds fn ?st ?ys" using Some d(4) by (intro overwrite_holds [OF h _ d(1)]) (auto dest: mset_eq_length)
    then show ?thesis using that [of ?st ?ys] q 3 Some d by (simp add: OPENSSL_sk_sort_def with_data_def)
  qed
qed

lemma zero_holds:
  assumes h: "sk_holds fn st xs"
  obtains st' where "OPENSSL_sk_zero (Some st) = Some (Inr ((), Some st'))" and "sk_holds fn st' []" and "st_comp st' = st_comp st"
proof (cases "xs = []")
  case True
  then show ?thesis using that [of st] h holds_num [OF h] by (simp add: OPENSSL_sk_zero_def)
next
  case False
  then obtain d where d: "st_data st = Some d" "take (st_num st) d = xs" "st_num st \<le> length d" "length xs = st_num st"
    using holds_data [OF h] by metis
  have n: "st_num st \<noteq> 0" using False d(4) [symmetric] by simp
  let ?st = "st\<lparr>st_data := Some (replicate (st_num st) None @ drop (st_num st) d), st_num := 0\<rparr>"
  have "sk_holds fn ?st []" using h d(1,3) by (auto simp: sk_holds_def storage_ok_def flag_ok_def sk_items_def)
  then show ?thesis using that [of ?st] n d by (simp add: OPENSSL_sk_zero_def with_data_def)
qed

lemma sk_pop_holds:
  assumes h: "sk_holds fn st xs"
  obtains st' where "OPENSSL_sk_pop (Some st) = Some (Inr (if xs = [] then None else last xs, Some st'))"
    and "sk_holds fn st' (butlast xs)" and "st_comp st' = st_comp st"
proof (cases "xs = []")
  case True
  then show ?thesis using that [of st] h holds_num [OF h] by (simp add: OPENSSL_sk_pop_def)
next
  case False
  then have i: "length xs - 1 < length xs" by simp
  obtain st' where "internal_delete st (length xs - 1) = Inr (xs ! (length xs - 1), st')" "sk_holds fn st' (delete_at xs (length xs - 1))"
      "st_comp st' = st_comp st"
    by (rule internal_delete_ok [OF h i])
  then show ?thesis using that [of st'] False holds_num [OF h] delete_ends(2) [OF False] by (auto simp: OPENSSL_sk_pop_def last_conv_nth)
qed

lemma sk_shift_holds:
  assumes h: "sk_holds fn st xs"
  obtains st' where "OPENSSL_sk_shift (Some st) = Some (Inr (if xs = [] then None else hd xs, Some st'))"
    and "sk_holds fn st' (tl xs)" and "st_comp st' = st_comp st"
proof (cases "xs = []")
  case True
  then show ?thesis using that [of st] h holds_num [OF h] by (simp add: OPENSSL_sk_shift_def)
next
  case False
  then have i: "0 < length xs" by simp
  obtain st' where "internal_delete st 0 = Inr (xs ! 0, st')" "sk_holds fn st' (delete_at xs 0)" "st_comp st' = st_comp st"
    by (rule internal_delete_ok [OF h i])
  then show ?thesis using that [of st'] False holds_num [OF h] delete_ends(1) [OF False] by (auto simp: OPENSSL_sk_shift_def hd_conv_nth)
qed

lemma value_holds:
  assumes h: "sk_holds fn st xs"
  shows "OPENSSL_sk_value (Some st) i = Inr (elem_at xs i)"
proof (cases "0 \<le> i \<and> i < int (length xs)")
  case True
  then have "xs \<noteq> []" by auto
  then obtain d where d: "st_data st = Some d" "take (st_num st) d = xs" "st_num st \<le> length d" "length xs = st_num st"
    using holds_data [OF h] by metis
  have "xs ! nat i = d ! nat i" using True d(2,4) by (metis nat_int nat_less_iff nth_take)
  then show ?thesis using True d by (auto simp: OPENSSL_sk_value_def with_data_def elem_at_def)
next
  case False
  then show ?thesis using holds_num [OF h] by (auto simp: OPENSSL_sk_value_def elem_at_def)
qed

lemma set_cmp_holds:
  assumes h: "sk_holds fn st xs"
  obtains st' where "OPENSSL_sk_set_cmp_func (Some st) c = Inr (st_comp st, st')" and "sk_holds fn st' xs" and "st_comp st' = c"
  using that [of "(if st_comp st \<noteq> c then st\<lparr>st_sorted := False\<rparr> else st)\<lparr>st_comp := c\<rparr>"] h
  by (cases "st_comp st = c") (auto simp: OPENSSL_sk_set_cmp_func_def sk_holds_def flag_ok_def)

lemma sk_apply_sim:
  fixes key :: "nat \<Rightarrow> 'a option \<Rightarrow> 'k::linorder"
  assumes h: "sk_holds fn st xs" and al: "alloc_ok al" and ord: "\<And>c. cmp_order (fn c) (key c)" and qs: "qsort_ok qs fn"
  shows "\<exists>out st' ys. sk_apply al qs fn opn (Some st) = Some (Inr (out, Some st')) \<and> sk_holds fn st' ys \<and>
    sk_spec (\<exists>k. al k = None) fn opn (st_comp st, xs) out (st_comp st', ys)"
proof (cases opn)
  case (Sk_insert x loc)
  then show ?thesis using sk_insert_holds [OF h al, of x loc] by (fastforce simp: out_with_def)
next
  case (Sk_push x)
  have "insert_at xs x (int (st_num st)) = xs @ [x]" using holds_num [OF h] by (simp add: insert_at_def)
  then show ?thesis using Sk_push sk_insert_holds [OF h al, of x "int (st_num st)"] by (fastforce simp: out_with_def OPENSSL_sk_push_def)
next
  case (Sk_unshift x)
  have "insert_at xs x 0 = x # xs" by (auto simp: insert_at_def)
  then show ?thesis using Sk_unshift sk_insert_holds [OF h al, of x 0] by (fastforce simp: out_with_def OPENSSL_sk_unshift_def)
next
  case (Sk_delete i)
  obtain st' where "OPENSSL_sk_delete (Some st) i = Some (Inr (elem_at xs i, Some st'))" "sk_holds fn st' (without xs i)" "st_comp st' = st_comp st"
    by (rule sk_delete_holds [OF h])
  then show ?thesis using Sk_delete by (auto simp: out_with_def)
next
  case (Sk_delete_ptr p)
  obtain st' where "OPENSSL_sk_delete_ptr (Some st) p = Some (Inr (if p \<in> set xs then p else None, Some st'))"
      "sk_holds fn st' (remove1 p xs)" "st_comp st' = st_comp st"
    by (rule delete_ptr_holds [OF h])
  then show ?thesis using Sk_delete_ptr by (auto simp: out_with_def)
next
  case Sk_pop
  obtain st' where "OPENSSL_sk_pop (Some st) = Some (Inr (if xs = [] then None else last xs, Some st'))" "sk_holds fn st' (butlast xs)"
      "st_comp st' = st_comp st"
    by (rule sk_pop_holds [OF h])
  then show ?thesis using Sk_pop by (auto simp: out_with_def)
next
  case Sk_shift
  obtain st' where "OPENSSL_sk_shift (Some st) = Some (Inr (if xs = [] then None else hd xs, Some st'))" "sk_holds fn st' (tl xs)"
      "st_comp st' = st_comp st"
    by (rule sk_shift_holds [OF h])
  then show ?thesis using Sk_shift by (auto simp: out_with_def)
next
  case Sk_zero
  obtain st' where "OPENSSL_sk_zero (Some st) = Some (Inr ((), Some st'))" "sk_holds fn st' []" "st_comp st' = st_comp st"
    by (rule zero_holds [OF h])
  then show ?thesis using Sk_zero by (auto simp: out_with_def)
next
  case (Sk_set i x)
  show ?thesis
  proof (cases "0 \<le> i \<and> i < int (length xs)")
    case True
    obtain st' where "OPENSSL_sk_set (Some st) i x = Some (Inr (x, Some st'))" "sk_holds fn st' (xs[nat i := x])" "st_comp st' = st_comp st"
      by (rule set_holds [OF h]) (use True in auto)
    then show ?thesis using Sk_set True by (auto simp: out_with_def)
  next
    case False
    then have "OPENSSL_sk_set (Some st) i x = Some (Inr (None, Some st))" using holds_num [OF h] by (auto simp: OPENSSL_sk_set_def)
    then show ?thesis using Sk_set False h by (auto simp: out_with_def)
  qed
next
  case (Sk_value i)
  then show ?thesis using value_holds [OF h] h by auto
next
  case Sk_num
  then show ?thesis using holds_num [OF h] h by (auto simp: OPENSSL_sk_num_def)
next
  case Sk_sort
  obtain st' ys where "OPENSSL_sk_sort qs fn (Some st) = Some (Inr ((), Some st'))" "sk_holds fn st' ys" "st_comp st' = st_comp st"
      "mset ys = mset xs" "case st_comp st of None \<Rightarrow> ys = xs | Some f \<Rightarrow> sorted_wrt (\<lambda>x y. fn f x y \<le> 0) ys"
    by (rule sort_holds [OF h qs])
  then show ?thesis using Sk_sort by (auto simp: out_with_def intro!: exI [of _ ys] split: option.splits)
next
  case (Sk_find p)
  then show ?thesis using find_holds [OF h ord] h by auto
next
  case (Sk_reserve n)
  show ?thesis
  proof (cases "n < 0 \<or> int sk_max_nodes < n")
    case True
    then show ?thesis using Sk_reserve h holds_num [OF h]
      by (cases "n < 0") (auto simp: out_with_def OPENSSL_sk_reserve_def sk_reserve_def)
  next
    case False
    then obtain ok st1 where "sk_reserve al st n True = Some (ok, st1)" "sk_holds fn st1 xs"
        "\<not> ok \<longrightarrow> int sk_max_nodes < int (length xs) + n \<or> (\<exists>k. al k = None)" "st_comp st1 = st_comp st"
      using sk_reserve_ok [OF h al, of n True] by (metis linorder_not_less)
    then show ?thesis using Sk_reserve False by (cases ok) (auto simp: out_with_def OPENSSL_sk_reserve_def)
  qed
next
  case (Sk_set_cmp c)
  obtain st' where "OPENSSL_sk_set_cmp_func (Some st) c = Inr (st_comp st, st')" "sk_holds fn st' xs" "st_comp st' = c"
    by (rule set_cmp_holds [OF h])
  then show ?thesis using Sk_set_cmp by auto
qed

lemma sk_run_sim:
  fixes key :: "nat \<Rightarrow> 'a option \<Rightarrow> 'k::linorder"
  assumes "sk_holds fn st xs" and al: "alloc_ok al" and ord: "\<And>c. cmp_order (fn c) (key c)" and qs: "qsort_ok qs fn"
  shows "\<exists>outs st' ys. sk_run al qs fn ops (Some st) = Some (Inr (outs, Some st')) \<and> sk_holds fn st' ys \<and>
    sk_specs (\<exists>k. al k = None) fn ops (st_comp st, xs) outs (st_comp st', ys)"
  using assms(1)
proof (induction ops arbitrary: st xs)
  case Nil
  then show ?case by auto
next
  case (Cons opn ops)
  obtain out st1 ys where o: "sk_apply al qs fn opn (Some st) = Some (Inr (out, Some st1))" "sk_holds fn st1 ys"
      "sk_spec (\<exists>k. al k = None) fn opn (st_comp st, xs) out (st_comp st1, ys)"
    using sk_apply_sim [OF Cons.prems al ord qs] by blast
  obtain outs st' zs where r: "sk_run al qs fn ops (Some st1) = Some (Inr (outs, Some st'))" "sk_holds fn st' zs"
      "sk_specs (\<exists>k. al k = None) fn ops (st_comp st1, ys) outs (st_comp st', zs)"
    using Cons.IH [OF o(2)] by blast
  have "sk_specs (\<exists>k. al k = None) fn (opn # ops) (st_comp st, xs) (out # outs) (st_comp st', zs)"
    unfolding sk_specs.simps using o(3) r(3) by blast
  then show ?case using o(1) r(1,2) by (auto simp del: sk_specs.simps)
qed

lemma new_stack_holds:
  assumes "OPENSSL_sk_new_reserve al True c n = Some (Some st)" and al: "alloc_ok al" and "n \<le> int sk_max_nodes"
  shows "sk_holds fn st []" and "st_comp st = c"
proof -
  have z: "sk_holds fn (zero_stack\<lparr>st_comp := c\<rparr>) []" by (simp add: sk_holds_def storage_ok_def flag_ok_def sk_items_def zero_stack_def)
  have "sk_holds fn st [] \<and> st_comp st = c"
  proof (cases "n \<le> 0")
    case True
    then show ?thesis using assms(1) z by (auto simp: OPENSSL_sk_new_reserve_def zero_stack_def)
  next
    case False
    then obtain ok st' where "sk_reserve al (zero_stack\<lparr>st_comp := c\<rparr>) n True = Some (ok, st')" "sk_holds fn st' []" "st_comp st' = c"
      using sk_reserve_ok [OF z al, of n True] assms(3) by (metis linorder_le_cases ossl_stack.select_convs(5) ossl_stack.surjective ossl_stack.update_convs(5))
    then show ?thesis using assms(1) False by (auto simp: OPENSSL_sk_new_reserve_def split: if_splits)
  qed
  then show "sk_holds fn st []" "st_comp st = c" by blast+
qed

section \<open>Properties\<close>

text \<open>
  C18: A stack made by \<open>OPENSSL_sk_new_reserve\<close> behaves, for every sequence of operations, like a list: insertion,
  deletion by index and by pointer, the operations at both ends, access, sorting and searching return and leave what
  the operations on lists do, whether a search is linear or binary. An insertion or a
  reservation fails only if an allocation fails or the stack is as large as it can get, and then changes nothing. No
  operation runs forever or accesses memory outside the array.
\<close>

theorem stack_is_list:
  fixes key :: "nat \<Rightarrow> 'a option \<Rightarrow> 'k::linorder"
  assumes ord: "\<And>c x y. fn c x y < 0 \<longleftrightarrow> key c x < key c y" "\<And>c x y. 0 < fn c x y \<longleftrightarrow> key c y < key c x"
    and al: "alloc_ok al" and qs: "qsort_ok qs fn"
    and new: "OPENSSL_sk_new_reserve al True c n = Some (Some st)" "n \<le> int sk_max_nodes"
  shows "\<exists>outs st' s'. sk_run al qs fn ops (Some st) = Some (Inr (outs, Some st')) \<and>
    sk_specs (\<exists>k. al k = None) fn ops (c, []) outs s'"
proof -
  have o: "cmp_order (fn c) (key c)" for c using ord by unfold_locales
  show ?thesis using sk_run_sim [OF new_stack_holds(1) [OF new(1) al new(2)] al o qs, of ops] new_stack_holds(2) [OF new(1) al new(2)] by metis
qed

definition sample_key :: "nat option \<Rightarrow> int" where
  "sample_key x = (case x of None \<Rightarrow> - 1 | Some n \<Rightarrow> int n)"
definition sample_fn :: "nat comps" where
  "sample_fn c x y = sample_key x - sample_key y"
definition sample_sort :: "nat sorter" where
  "sample_sort f xs = sort_key sample_key xs"
definition null_cells :: "nat option allocator" where
  "null_cells n = Some (replicate n None)"
definition sample_stack :: "nat ossl_stack" where
  "sample_stack = zero_stack\<lparr>st_comp := Some 0\<rparr>"
definition sample_run :: "nat sk_op list \<Rightarrow> nat sk_out list option" where
  "sample_run ops = (case sk_run null_cells sample_sort sample_fn ops (Some sample_stack) of Some (Inr (outs, _)) \<Rightarrow> Some outs | _ \<Rightarrow> None)"

lemma sample_stack_ok:
  "sample_fn c x y < 0 \<longleftrightarrow> sample_key x < sample_key y" "0 < sample_fn c x y \<longleftrightarrow> sample_key y < sample_key x"
  "alloc_ok null_cells" "qsort_ok sample_sort sample_fn" "\<forall>k. null_cells k \<noteq> None"
  "OPENSSL_sk_new_reserve null_cells True (Some 0) 0 = Some (Some sample_stack)" "(0 :: int) \<le> int sk_max_nodes"
  using sorted_sort_key [of sample_key]
  by (auto simp: sample_fn_def alloc_ok_def null_cells_def qsort_ok_def sample_sort_def OPENSSL_sk_new_reserve_def sample_stack_def sorted_map)

theorem stack_is_list_witness:
  "\<exists>s'. sk_specs False sample_fn [Sk_push (Some 5), Sk_push (Some 7), Sk_unshift (Some 9), Sk_sort, Sk_find (Some 7), Sk_pop, Sk_delete 0]
     (Some 0, []) [Count 1, Count 2, Count 3, Nothing, Count 1, Elem (Some 9), Elem (Some 5)] s'"
proof -
  let ?ops = "[Sk_push (Some 5), Sk_push (Some 7), Sk_unshift (Some 9), Sk_sort, Sk_find (Some 7), Sk_pop, Sk_delete 0]"
  have r: "sample_run ?ops = Some [Count 1, Count 2, Count 3, Nothing, Count 1, Elem (Some 9), Elem (Some 5)]" by code_simp
  have f: "(\<exists>k. null_cells k = None) = False" using sample_stack_ok(5) by simp
  obtain outs st' s' where "sk_run null_cells sample_sort sample_fn ?ops (Some sample_stack) = Some (Inr (outs, Some st'))"
      "sk_specs False sample_fn ?ops (Some 0, []) outs s'"
    using stack_is_list [OF sample_stack_ok(1-4,6,7), of ?ops] unfolding f by blast
  moreover from this(1) have "outs = [Count 1, Count 2, Count 3, Nothing, Count 1, Elem (Some 9), Elem (Some 5)]"
    using r by (simp add: sample_run_def del: sk_run.simps)
  ultimately show ?thesis by blast
qed

text \<open>
  The search for all matching elements, on a stack with a comparison function. The index is that of the first match. The number of matches is
  stored for a sorted stack; for one that is not sorted it is added to whatever the caller's variable held, and
  only a search without a match stores a number, 0.
\<close>

lemma stack_find_all:
  fixes key :: "nat \<Rightarrow> 'a option \<Rightarrow> 'k::linorder"
  assumes ord: "\<And>c x y. fn c x y < 0 \<longleftrightarrow> key c x < key c y" "\<And>c x y. 0 < fn c x y \<longleftrightarrow> key c y < key c x"
    and h: "sk_holds fn st xs" and c: "st_comp st = Some c" and ne: "xs \<noteq> []" and p: "p \<noteq> None"
  shows "OPENSSL_sk_find_all fn (Some st) p pnum = Inr (first_index (matches fn (Some c) p) xs,
    Some (if \<forall>x \<in> set xs. \<not> matches fn (Some c) p x then 0
          else if st_sorted st then int (length (filter (matches fn (Some c) p) xs))
          else pnum + int (length (filter (matches fn (Some c) p) xs))))"
proof -
  have o: "cmp_order (fn c) (key c)" using ord by unfold_locales
  obtain d where d: "st_data st = Some d" "take (st_num st) d = xs" "st_num st \<le> length d" "length xs = st_num st"
    using holds_data [OF h ne] by metis
  have n: "st_num st \<noteq> 0" using ne d(4) [symmetric] by simp
  have m: "matches fn (Some c) p = (\<lambda>x. fn c p x = 0)" using p by (auto simp: matches_def)
  let ?f = "first_index (\<lambda>x. fn c p x = 0) xs"
  have none: "(\<forall>x \<in> set xs. fn c p x \<noteq> 0) \<longleftrightarrow> ?f = - 1" by (simp add: first_index_none)
  show ?thesis
  proof (cases "st_sorted st")
    case False
    then show ?thesis using c d n p by (auto simp: OPENSSL_sk_find_all_def internal_find_def with_data_def m none find_loop_all Let_def)
  next
    case True
    have s: "sorted_wrt (\<lambda>x y. fn c x y \<le> 0) xs" using h True c by (auto simp: sk_holds_def flag_ok_def)
    note b = cmp_order.bsearch_first [OF o s ne, of p]
    have "takeWhile (\<lambda>x. fn c p x = 0) (drop (nat ?f) xs) = filter (\<lambda>x. fn c p x = 0) xs" if "?f \<noteq> - 1"
      using cmp_order.matches_together [OF o s, of p "nat ?f"] that first_index_ge [of "\<lambda>x. fn c p x = 0" xs] by simp
    then show ?thesis using True c d n p b first_index_ge [of "\<lambda>x. fn c p x = 0" xs]
      by (auto simp: OPENSSL_sk_find_all_def internal_find_def with_data_def m none Let_def)
  qed
qed

text \<open>A duplicate holds the same elements in storage of its own.\<close>

lemma dup_holds:
  assumes h: "sk_holds fn st xs" and al: "alloc_ok al"
  shows "\<exists>r. OPENSSL_sk_dup al ok (Some st) = Inr r \<and>
    (case r of None \<Rightarrow> \<not> ok \<or> al (st_num_alloc st) = None | Some st' \<Rightarrow> sk_holds fn st' xs \<and> st_comp st' = st_comp st)"
proof (cases "\<not> ok \<or> xs = []")
  case True
  have "sk_holds fn (st\<lparr>st_data := None, st_num_alloc := 0\<rparr>) xs" if "xs = []"
    using that h holds_num [OF h] by (auto simp: sk_holds_def storage_ok_def flag_ok_def sk_items_def)
  then show ?thesis using True holds_num [OF h] by (cases ok) (auto simp: OPENSSL_sk_dup_def Let_def)
next
  case False
  then obtain d where d: "st_data st = Some d" "take (st_num st) d = xs" "st_num st \<le> length d" "length xs = st_num st" "length d = st_num_alloc st"
    using holds_data [OF h] by metis
  have n: "st_num st \<noteq> 0" using False d(4) [symmetric] by simp
  show ?thesis
  proof (cases "al (st_num_alloc st)")
    case None
    then show ?thesis using False n by (simp add: OPENSSL_sk_dup_def)
  next
    case (Some cells)
    then have "length cells = length d" using al d(5) by (simp add: alloc_ok_def)
    then have "sk_holds fn (st\<lparr>st_data := Some (xs @ drop (st_num st) cells)\<rparr>) xs"
      using h d by (auto simp: sk_holds_def storage_ok_def flag_ok_def sk_items_def)
    then show ?thesis using False n Some d \<open>length cells = length d\<close> by (simp add: OPENSSL_sk_dup_def with_data_def)
  qed
qed

text \<open>
  If an element of a deep copy cannot be copied, exactly the copies of the elements before it are freed, the latest first.
\<close>

lemma copy_loop_failure:
  assumes "copy_loop cf ff xs acc s = (None, s')"
  shows "\<exists>pre x post copies s1 s2. xs = pre @ Some x # post \<and> copy_loop cf ff pre acc s = (Some copies, s1) \<and>
    cf x s1 = (None, s2) \<and> s' = fold ff (concat (map (case_option [] (\<lambda>y. [y])) (rev copies))) s2"
  using assms
proof (induction cf ff xs acc s rule: copy_loop.induct)
  case (2 cf ff xs acc s)
  then obtain pre x post copies s1 s2 where "xs = pre @ Some x # post" "copy_loop cf ff pre (None # acc) s = (Some copies, s1)"
      "cf x s1 = (None, s2)" "s' = fold ff (concat (map (case_option [] (\<lambda>y. [y])) (rev copies))) s2"
    by fastforce
  then show ?case by - (rule exI [of _ "None # pre"], rule exI [of _ "x"], rule exI [of _ "post"], rule exI [of _ "copies"], rule exI [of _ "s1"], rule exI [of _ "s2"], simp)
next
  case (3 cf ff x xs acc s)
  obtain r t where r: "cf x s = (r, t)" by force
  show ?case
  proof (cases r)
    case None
    then show ?thesis using "3.prems" r by - (rule exI [of _ "[]"], rule exI [of _ "x"], rule exI [of _ "xs"], rule exI [of _ "rev acc"], rule exI [of _ "s"], rule exI [of _ "t"], simp)
  next
    case (Some y)
    then obtain pre x' post copies s1 s2 where "xs = pre @ Some x' # post" "copy_loop cf ff pre (Some y # acc) t = (Some copies, s1)"
        "cf x' s1 = (None, s2)" "s' = fold ff (concat (map (case_option [] (\<lambda>y. [y])) (rev copies))) s2"
      using "3.IH" [OF r [symmetric] Some] "3.prems" r by auto
    then show ?thesis using r Some by - (rule exI [of _ "Some x # pre"], rule exI [of _ "x'"], rule exI [of _ "post"], rule exI [of _ "copies"], rule exI [of _ "s1"], rule exI [of _ "s2"], simp)
  qed
qed simp

end
