(* ===== verification/Cts_Modes.thy ===== *)
theory Cts_Modes
  imports Seed_Cipher
begin

unbundle bit_operations_syntax

text \<open>
  Ciphertext stealing in the vendored OpenSSL, \<open>crypto/modes/cts128.c\<close>: CBC for texts that are not made of whole blocks, with a
  ciphertext of the same length. There are two conventions, that of RFC 2040, which swaps the last two blocks, and the one of the proposal to
  NIST, and for each a pair of functions on a block function and a pair on a function for CBC. Each returns the length it
  reports, the output and the new value of \<open>ivec\<close>. Input and output do not overlap. The argument \<open>truncated\<close> says whether \<open>CBC_HANDLES_TRUNCATED_IO\<close> is
  defined; a function for CBC takes the input, the length, \<open>ivec\<close> and \<open>enc\<close>.
\<close>

type_synonym cbc_fn = "byte list \<Rightarrow> nat \<Rightarrow> byte list \<Rightarrow> bool \<Rightarrow> byte list \<times> byte list"
type_synonym cts_result = "nat \<times> byte list \<times> byte list"

section \<open>Encryption\<close>

definition last_part :: "nat \<Rightarrow> nat" where
  \<comment> \<open>\<open>if ((residue = len % 16) == 0) residue = 16;\<close>\<close>
  "last_part len = (if len mod 16 = 0 then 16 else len mod 16)"

definition CRYPTO_cts128_encrypt_block :: "block_fn \<Rightarrow> byte list \<Rightarrow> byte list \<Rightarrow> cts_result" where
  "CRYPTO_cts128_encrypt_block block inp iv =
     (if length inp \<le> 16 then (0, [], iv)
      else let residue = last_part (length inp);
               len = length inp - residue
           in case CRYPTO_cbc128_encrypt block (take len inp) iv of (out, iv) \<Rightarrow>
              let iv = block (map2 (XOR) (drop len inp) iv @ drop residue iv)
              in (len + residue, take (len - 16) out @ iv @ take residue (drop (len - 16) out), iv))"

definition CRYPTO_nistcts128_encrypt_block :: "block_fn \<Rightarrow> byte list \<Rightarrow> byte list \<Rightarrow> cts_result" where
  "CRYPTO_nistcts128_encrypt_block block inp iv =
     (if length inp < 16 then (0, [], iv)
      else let residue = length inp mod 16;
               len = length inp - residue
           in case CRYPTO_cbc128_encrypt block (take len inp) iv of (out, iv) \<Rightarrow>
              if residue = 0 then (len, out, iv)
              else let iv = block (map2 (XOR) (drop len inp) iv @ drop residue iv)
                   in (len + residue, take (len - 16 + residue) out @ iv, iv))"

definition CRYPTO_cts128_encrypt :: "bool \<Rightarrow> cbc_fn \<Rightarrow> byte list \<Rightarrow> byte list \<Rightarrow> cts_result" where
  "CRYPTO_cts128_encrypt truncated cbc inp iv =
     (if length inp \<le> 16 then (0, [], iv)
      else let residue = last_part (length inp);
               len = length inp - residue
           in case cbc (take len inp) len iv True of (out, iv) \<Rightarrow>
              if truncated
              then let tmp = drop (len - 16) out
                   in case cbc (drop len inp) residue iv True of (blk, iv) \<Rightarrow>
                      (len + residue, take (len - 16) out @ blk @ take residue tmp, iv)
              else let tmp = drop len inp @ replicate (16 - residue) 0
                   in case cbc tmp 16 iv True of (blk, iv) \<Rightarrow>
                      (len + residue, take (len - 16) out @ blk @ take residue (drop (len - 16) out), iv))"

definition CRYPTO_nistcts128_encrypt :: "bool \<Rightarrow> cbc_fn \<Rightarrow> byte list \<Rightarrow> byte list \<Rightarrow> cts_result" where
  "CRYPTO_nistcts128_encrypt truncated cbc inp iv =
     (if length inp < 16 then (0, [], iv)
      else let residue = length inp mod 16;
               len = length inp - residue
           in case cbc (take len inp) len iv True of (out, iv) \<Rightarrow>
              if residue = 0 then (len, out, iv)
              else case (if truncated then cbc (drop len inp) residue iv True
                         else cbc (drop len inp @ replicate (16 - residue) 0) 16 iv True) of (blk, iv) \<Rightarrow>
                   (len + residue, take (len - 16 + residue) out @ blk, iv))"

section \<open>Decryption\<close>

definition CRYPTO_cts128_decrypt_block :: "block_fn \<Rightarrow> byte list \<Rightarrow> byte list \<Rightarrow> cts_result" where
  \<comment> \<open>the last loop leaves \<open>residue\<close> increased by 16\<close>
  "CRYPTO_cts128_decrypt_block block inp iv =
     (if length inp \<le> 16 then (0, [], iv)
      else let residue = last_part (length inp);
               len = length inp - (16 + residue)
           in case (if len \<noteq> 0 then CRYPTO_cbc128_decrypt block inp len iv else ([], iv)) of (out, iv) \<Rightarrow>
              let inp = drop len inp;
                  hi = block (take 16 inp);
                  lo = block (take residue (drop 16 inp) @ drop residue hi);
                  out1 = map2 (XOR) lo iv;
                  out2 = map2 (XOR) (take residue hi) (take residue (drop 16 inp));
                  residue = residue + 16
              in (16 + len + residue, out @ out1 @ out2, take 16 inp))"

definition CRYPTO_nistcts128_decrypt_block :: "block_fn \<Rightarrow> byte list \<Rightarrow> byte list \<Rightarrow> cts_result" where
  "CRYPTO_nistcts128_decrypt_block block inp iv =
     (if length inp < 16 then (0, [], iv)
      else let residue = length inp mod 16
           in if residue = 0
              then case CRYPTO_cbc128_decrypt block inp (length inp) iv of (out, iv) \<Rightarrow> (length inp, out, iv)
              else let len = length inp - (16 + residue)
                   in case (if len \<noteq> 0 then CRYPTO_cbc128_decrypt block inp len iv else ([], iv)) of (out, iv) \<Rightarrow>
                      let inp = drop len inp;
                          hi = block (take 16 (drop residue inp));
                          lo = block (take residue inp @ drop residue hi);
                          out1 = map2 (XOR) lo iv;
                          out2 = map2 (XOR) (take residue hi) (take residue inp);
                          iv = take 16 (drop residue inp);
                          residue = residue + 16
                      in (16 + len + residue, out @ out1 @ out2, iv))"

definition decrypt_stolen :: "bool \<Rightarrow> cbc_fn \<Rightarrow> byte list \<Rightarrow> byte list \<Rightarrow> nat \<Rightarrow> byte list \<Rightarrow> byte list \<times> byte list" where
  \<comment> \<open>the common end of the two functions below: \<open>whole\<close> is the whole block of the last two, \<open>part\<close> the other one\<close>
  "decrypt_stolen truncated cbc whole part residue iv =
     (case cbc whole 16 (replicate 16 0) False of (lo, hi) \<Rightarrow>
      let tmp = part @ drop residue lo @ hi
      in if truncated then cbc tmp (16 + residue) iv False
         else case cbc tmp 32 iv False of (tmp, iv) \<Rightarrow> (take (16 + residue) tmp, iv))"

definition CRYPTO_cts128_decrypt :: "bool \<Rightarrow> cbc_fn \<Rightarrow> byte list \<Rightarrow> byte list \<Rightarrow> cts_result" where
  "CRYPTO_cts128_decrypt truncated cbc inp iv =
     (if length inp \<le> 16 then (0, [], iv)
      else let residue = last_part (length inp);
               len = length inp - (16 + residue)
           in case (if len \<noteq> 0 then cbc inp len iv False else ([], iv)) of (out, iv) \<Rightarrow>
              case decrypt_stolen truncated cbc (take 16 (drop len inp)) (take residue (drop (len + 16) inp)) residue iv of
                (out2, iv) \<Rightarrow> (16 + len + residue, out @ out2, iv))"

definition CRYPTO_nistcts128_decrypt :: "bool \<Rightarrow> cbc_fn \<Rightarrow> byte list \<Rightarrow> byte list \<Rightarrow> cts_result" where
  "CRYPTO_nistcts128_decrypt truncated cbc inp iv =
     (if length inp < 16 then (0, [], iv)
      else let residue = length inp mod 16
           in if residue = 0 then (case cbc inp (length inp) iv False of (out, iv) \<Rightarrow> (length inp, out, iv))
              else let len = length inp - (16 + residue)
                   in case (if len \<noteq> 0 then cbc inp len iv False else ([], iv)) of (out, iv) \<Rightarrow>
                      case decrypt_stolen truncated cbc (take 16 (drop (len + residue) inp)) (take residue (drop len inp)) residue iv of
                        (out2, iv) \<Rightarrow> (16 + len + residue, out @ out2, iv))"

section \<open>CBC block by block\<close>

lemma cbc_encrypt_full_append:
  "length p mod 16 = 0 \<Longrightarrow> cbc_encrypt_full block (p @ q) iv =
    (case cbc_encrypt_full block p iv of (c, iv1, r) \<Rightarrow>
     case cbc_encrypt_full block q iv1 of (d, iv2, r2) \<Rightarrow> (c @ d, iv2, r2))"
proof (induction "length p div 16" arbitrary: p iv)
  case 0
  then have "p = []" by (simp add: div_eq_0_iff)
  then show ?case by (simp add: cbc_encrypt_full.simps [of block "[]"] split: prod.splits)
next
  case (Suc k)
  then have p: "length p \<ge> 16" by (metis Suc_neq_Zero div_less not_le)
  have k: "k = length (drop 16 p) div 16" "length (drop 16 p) mod 16 = 0" using Suc p by (simp_all add: mod_if [of "length p"] le_mod_geq)
  show ?case
    using p Suc.hyps(1) [OF k]
    by (subst cbc_encrypt_full.simps, subst (2) cbc_encrypt_full.simps) (auto simp: Let_def split: prod.splits)
qed

lemma cbc_decrypt_tail_0 [simp]: "cbc_decrypt_tail dec inp 0 iv = ([], iv)"
  by (simp add: cbc_decrypt_tail.simps)

lemma cbc_decrypt_one: "length b = 16 \<Longrightarrow> CRYPTO_cbc128_decrypt dec b 16 iv = (map2 (XOR) (dec b) iv, b)"
  by (simp add: CRYPTO_cbc128_decrypt_def Let_def)

lemma cbc_decrypt_two:
  assumes "length a = 16" and "length b = 16" and "0 < n" and "n \<le> 16" and "length (dec b) = 16"
  shows "CRYPTO_cbc128_decrypt dec (a @ b) (16 + n) iv = (map2 (XOR) (dec a) iv @ take n (map2 (XOR) (dec b) a), b)"
proof (cases "n = 16")
  case True
  then show ?thesis using assms by (simp add: CRYPTO_cbc128_decrypt_def Let_def numeral_2_eq_2)
next
  case False
  then have "(16 + n) div 16 = Suc 0" "(16 + n) mod 16 = n" using assms(4) by auto
  then show ?thesis using assms False
    by (simp add: CRYPTO_cbc128_decrypt_def Let_def cbc_decrypt_tail.simps [of dec b])
qed

lemma last_part_bounds: "0 < last_part n" "last_part n \<le> 16" "0 < n \<Longrightarrow> last_part n \<le> n" "(n - last_part n) mod 16 = 0"
proof -
  have "n mod 16 < 16" by simp
  then show "0 < last_part n" "last_part n \<le> 16" by (auto simp: last_part_def)
  show "last_part n \<le> n" if "0 < n" using that by (auto simp: last_part_def dvd_imp_le)
  show "(n - last_part n) mod 16 = 0" by (simp add: last_part_def minus_mod_eq_mult_div flip: dvd_eq_mod_eq_0)
qed

lemma last_part_sum:
  assumes "m mod 16 = 0" and "0 < n" and "n \<le> 16"
  shows "last_part (m + 16 + n) = n"
proof -
  obtain k where "m = 16 * k" using assms(1) by (auto elim!: dvdE simp flip: dvd_eq_mod_eq_0)
  then have "m + 16 + n = n + 16 * (k + 1)" by simp
  then have "(m + 16 + n) mod 16 = n mod 16" by (simp only: mod_mult_self2)
  then show ?thesis using assms(2,3) by (cases "n = 16") (auto simp: last_part_def)
qed

definition stolen_sum :: "byte list \<Rightarrow> byte list \<Rightarrow> byte list" where
  \<comment> \<open>\<open>for (n = 0; n < residue; ++n) ivec[n] ^= in[n];\<close>\<close>
  "stolen_sum t iv = map2 (XOR) t iv @ drop (length t) iv"

lemma stolen_sum_facts:
  assumes "length t \<le> 16" and "length iv = 16"
  shows "length (stolen_sum t iv) = 16" "map2 (XOR) (take (length t) (stolen_sum t iv)) (take (length t) iv) = t"
    "drop (length t) (stolen_sum t iv) = drop (length t) iv"
    "map2 (XOR) (t @ replicate (16 - length t) 0) iv = stolen_sum t iv"
proof -
  show "length (stolen_sum t iv) = 16" "drop (length t) (stolen_sum t iv) = drop (length t) iv"
    using assms by (auto simp: stolen_sum_def)
  show "map2 (XOR) (take (length t) (stolen_sum t iv)) (take (length t) iv) = t"
    using assms by (simp add: stolen_sum_def list_eq_iff_nth_eq xor.assoc)
  show "map2 (XOR) (t @ replicate (16 - length t) 0) iv = stolen_sum t iv"
    using assms by (intro nth_equalityI) (auto simp: stolen_sum_def nth_append)
qed

lemma nistcts_decrypt_form:
  assumes "length inp = m + 16 + n" and "(m + 16 + n) mod 16 = n" and "0 < n"
    and "(if m \<noteq> 0 then CRYPTO_cbc128_decrypt dec inp m iv else ([], iv)) = (out, iv1)"
  shows "CRYPTO_nistcts128_decrypt_block dec inp iv = (m + 16 + n + 16,
    out @ map2 (XOR) (dec (take n (drop m inp) @ drop n (dec (take 16 (drop n (drop m inp)))))) iv1 @
      map2 (XOR) (take n (dec (take 16 (drop n (drop m inp))))) (take n (drop m inp)),
    take 16 (drop n (drop m inp)))"
proof -
  have l: "m + 16 + n - (16 + n) = m" "\<not> m + 16 + n < 16" "n \<noteq> 0" using assms(3) by auto
  show ?thesis
    unfolding CRYPTO_nistcts128_decrypt_block_def Let_def assms(1,2) l assms(4) if_False using l by simp
qed

lemma cts_text_parts:
  assumes "16 < length x"
  obtains p q t where "x = p @ q @ t" "length p mod 16 = 0" "length q = 16" "length t = last_part (length x)"
proof
  let ?r = "last_part (length x)" and ?n = "length x - last_part (length x)"
  have n: "?n mod 16 = 0" "0 < ?n" "?n \<le> length x" using last_part_bounds [of "length x"] assms by auto
  have m: "16 \<le> ?n" using n(1,2) by (meson dvd_imp_le mod_0_imp_dvd)
  show "x = take (?n - 16) x @ take 16 (drop (?n - 16) x) @ drop ?n x"
    using m by (metis append_take_drop_id drop_drop add.commute le_add_diff_inverse)
  have "(?n - 16) mod 16 = 0" using le_mod_geq [OF m] n(1) by simp
  then show "length (take (?n - 16) x) mod 16 = 0" by (simp add: min_absorb2)
  show "length (take 16 (drop (?n - 16) x)) = 16" using n m by simp
  show "length (drop ?n x) = last_part (length x)" using last_part_bounds(3) [of "length x"] assms by force
qed

lemma cts_decrypt_form:
  assumes "length inp = m + 16 + n" and "last_part (m + 16 + n) = n" and "0 < n"
    and "(if m \<noteq> 0 then CRYPTO_cbc128_decrypt dec inp m iv else ([], iv)) = (out, iv1)"
  shows "CRYPTO_cts128_decrypt_block dec inp iv = (m + 16 + n + 16,
    out @ map2 (XOR) (dec (take n (drop 16 (drop m inp)) @ drop n (dec (take 16 (drop m inp))))) iv1 @
      map2 (XOR) (take n (dec (take 16 (drop m inp)))) (take n (drop 16 (drop m inp))),
    take 16 (drop m inp))"
proof -
  have l: "m + 16 + n - (16 + n) = m" "\<not> m + 16 + n \<le> 16" using assms(3) by auto
  show ?thesis unfolding CRYPTO_cts128_decrypt_block_def Let_def assms(1,2) l assms(4) if_False using assms(3) by simp
qed

context block_cipher
begin

lemma cbc_whole:
  assumes "length p mod 16 = 0" and "length iv = 16" and "CRYPTO_cbc128_encrypt enc p iv = (c, iv')"
  shows "cbc_encrypt_full enc p iv = (c, iv', [])" "length c = length p" "length iv' = 16"
    "CRYPTO_cbc128_decrypt dec (c @ more_in) (length p) iv = (p, iv')"
proof -
  obtain c1 iv1 r where f: "cbc_encrypt_full enc p iv = (c1, iv1, r)" using prod_cases3 by blast
  have l: "16 * (length p div 16) = length p" using assms(1) by (simp add: mult_div_mod_eq mod_0_imp_dvd)
  note full = cbc_full_inverse [OF f assms(2), unfolded l]
  have c: "c = c1" "iv' = iv1"
    using assms(3) f full
    by (auto simp: CRYPTO_cbc128_encrypt_def cbc_encrypt_tail.simps cbc_encrypt_full.simps [of enc "[]"] split: if_splits)
  then show "cbc_encrypt_full enc p iv = (c, iv', [])" "length c = length p" "length iv' = 16" using f full by auto
  show "CRYPTO_cbc128_decrypt dec (c @ more_in) (length p) iv = (p, iv')"
    using full c assms f l
    by (auto simp: CRYPTO_cbc128_decrypt_def cbc_decrypt_tail.simps cbc_encrypt_full.simps [of enc "[]"])
qed

lemma cbc_encrypt_part:
  assumes "0 < length q" and "length q \<le> 16" and "length iv = 16"
  shows "CRYPTO_cbc128_encrypt enc q iv = (enc (stolen_sum q iv), enc (stolen_sum q iv))"
proof (cases "length q = 16")
  case True
  then show ?thesis using assms
    by (auto simp: CRYPTO_cbc128_encrypt_def stolen_sum_def cbc_encrypt_full.simps [of enc q] cbc_encrypt_full.simps [of enc "[]"]
        cbc_encrypt_tail.simps Let_def)
next
  case False
  then show ?thesis using assms
    by (auto simp: CRYPTO_cbc128_encrypt_def stolen_sum_def cbc_encrypt_full.simps [of enc q] cbc_encrypt_tail.simps Let_def)
qed

lemma cbc_snoc:
  assumes "length p mod 16 = 0" and "length q = 16" and "length iv = 16" and "CRYPTO_cbc128_encrypt enc p iv = (c, iv1)"
  shows "CRYPTO_cbc128_encrypt enc (p @ q) iv = (c @ enc (map2 (XOR) q iv1), enc (map2 (XOR) q iv1))"
proof -
  have "cbc_encrypt_full enc q iv1 = (enc (map2 (XOR) q iv1), enc (map2 (XOR) q iv1), [])"
    using assms(2) by (simp add: cbc_encrypt_full.simps [of enc q] cbc_encrypt_full.simps [of enc "[]"] Let_def)
  then have "cbc_encrypt_full enc (p @ q) iv = (c @ enc (map2 (XOR) q iv1), enc (map2 (XOR) q iv1), [])"
    using cbc_encrypt_full_append [OF assms(1), of enc q iv] cbc_whole(1) [OF assms(1,3,4)] by simp
  then show ?thesis using assms(2) by (auto simp: CRYPTO_cbc128_encrypt_def cbc_encrypt_tail.simps)
qed

text \<open>
  A text is \<open>p @ q @ t\<close>, where \<open>p\<close> has whole blocks, \<open>q\<close> is one block and \<open>t\<close> the rest. CBC of \<open>p\<close> gives \<open>c\<close> and the
  vector \<open>iv1\<close>, that of \<open>q\<close> the block \<open>b\<close>, from which the last block \<open>z\<close> takes its missing bytes.
\<close>

lemma cts_forms:
  assumes p: "length p mod 16 = 0" and q: "length q = 16" and t: "0 < length t" "length t \<le> 16" and iv: "length iv = 16"
    and e: "CRYPTO_cbc128_encrypt enc p iv = (c, iv1)"
  defines "b \<equiv> enc (map2 (XOR) q iv1)"
  defines "z \<equiv> enc (stolen_sum t b)"
  shows "CRYPTO_cts128_encrypt_block enc (p @ q @ t) iv = (length p + 16 + length t, c @ z @ take (length t) b, z)"
    and "length t < 16 \<Longrightarrow>
      CRYPTO_nistcts128_encrypt_block enc (p @ q @ t) iv = (length p + 16 + length t, c @ take (length t) b @ z, z)"
    and "length b = 16" "length z = 16" "length c = length p" "length iv1 = 16" "dec b = map2 (XOR) q iv1" "dec z = stolen_sum t b"
proof -
  show c: "length c = length p" and iv1: "length iv1 = 16" using cbc_whole [OF p iv e] by auto
  have x: "length (map2 (XOR) q iv1) = 16" using q iv1 by simp
  show b: "length b = 16" and "dec b = map2 (XOR) q iv1" using enc_length [OF x] dec_enc [OF x] by (auto simp: b_def)
  note y = stolen_sum_facts(1) [OF t(2) b]
  show z: "length z = 16" and "dec z = stolen_sum t b" using enc_length [OF y] dec_enc [OF y] by (auto simp: z_def)
  have pq: "CRYPTO_cbc128_encrypt enc (p @ q) iv = (c @ b, b)" using cbc_snoc [OF p q iv e] by (simp add: b_def)
  have len: "length p + (16 + length t) - length t = length p + 16" by simp
  have lp: "last_part (length p + (16 + length t)) = length t" using last_part_sum [OF p t] by (simp add: add.assoc)
  show "CRYPTO_cts128_encrypt_block enc (p @ q @ t) iv = (length p + 16 + length t, c @ z @ take (length t) b, z)"
    using q t pq c b lp by (simp add: CRYPTO_cts128_encrypt_block_def Let_def z_def stolen_sum_def)
  assume lt: "length t < 16"
  then have "(length p + (16 + length t)) mod 16 = length t"
    using last_part_sum [OF p t] by (simp add: last_part_def add.assoc split: if_splits)
  then show "CRYPTO_nistcts128_encrypt_block enc (p @ q @ t) iv = (length p + 16 + length t, c @ take (length t) b @ z, z)"
    using q t pq c b by (simp add: CRYPTO_nistcts128_encrypt_block_def Let_def z_def stolen_sum_def)
qed

lemma cts_inverse_parts:
  assumes "length p mod 16 = 0" and "length q = 16" and "0 < length t" "length t \<le> 16" and "length iv = 16"
  shows "\<exists>c iv'. CRYPTO_cts128_encrypt_block enc (p @ q @ t) iv = (length (p @ q @ t), c, iv') \<and> length c = length (p @ q @ t) \<and>
    CRYPTO_cts128_decrypt_block dec c iv = (length (p @ q @ t) + 16, p @ q @ t, iv')"
proof -
  obtain c iv1 where e: "CRYPTO_cbc128_encrypt enc p iv = (c, iv1)" by force
  let ?b = "enc (map2 (XOR) q iv1)" and ?n = "length t"
  let ?z = "enc (stolen_sum t ?b)"
  note f = cts_forms [OF assms e]
  note ss = stolen_sum_facts [OF assms(4) f(3)]
  note lp = last_part_sum [OF assms(1,3,4)]
  have d: "(if length p \<noteq> 0 then CRYPTO_cbc128_decrypt dec (c @ ?z @ take ?n ?b) (length p) iv else ([], iv)) = (p, iv1)"
    using cbc_whole(4) [OF assms(1,5) e] e by (auto simp: CRYPTO_cbc128_encrypt_def)
  have lo: "take ?n ?b @ drop ?n (dec ?z) = ?b" using f(8) ss(3) by simp
  have q: "map2 (XOR) (dec ?b) iv1 = q" using f(6,7) xor_cancel [of q iv1] assms(2) by simp
  have t: "map2 (XOR) (take ?n (dec ?z)) (take ?n ?b) = t" using f(8) ss(2) by simp
  have "CRYPTO_cts128_decrypt_block dec (c @ ?z @ take ?n ?b) iv = (length p + 16 + ?n + 16, p @ q @ t, ?z)"
    using cts_decrypt_form [OF _ lp assms(3) d] assms(4) f(3-5) lo q t by simp
  then show ?thesis using f assms(2,4) by (auto simp: min_def)
qed

lemma nistcts_inverse_parts:
  assumes "length p mod 16 = 0" and "length q = 16" and "0 < length t" "length t < 16" and "length iv = 16"
  shows "\<exists>c iv'. CRYPTO_nistcts128_encrypt_block enc (p @ q @ t) iv = (length (p @ q @ t), c, iv') \<and> length c = length (p @ q @ t) \<and>
    CRYPTO_nistcts128_decrypt_block dec c iv = (length (p @ q @ t) + 16, p @ q @ t, iv')"
proof -
  obtain c iv1 where e: "CRYPTO_cbc128_encrypt enc p iv = (c, iv1)" by force
  have t16: "length t \<le> 16" using assms(4) by simp
  let ?b = "enc (map2 (XOR) q iv1)" and ?n = "length t"
  let ?z = "enc (stolen_sum t ?b)"
  note f = cts_forms [OF assms(1-3) t16 assms(5) e]
  note ss = stolen_sum_facts [OF t16 f(3)]
  have lp: "(length p + 16 + ?n) mod 16 = ?n"
    using last_part_sum [OF assms(1,3) t16] assms(4) by (simp only: last_part_def split: if_splits)
  have d: "(if length p \<noteq> 0 then CRYPTO_cbc128_decrypt dec (c @ take ?n ?b @ ?z) (length p) iv else ([], iv)) = (p, iv1)"
    using cbc_whole(4) [OF assms(1,5) e] e by (auto simp: CRYPTO_cbc128_encrypt_def)
  have lo: "take ?n ?b @ drop ?n (dec ?z) = ?b" using f(8) ss(3) by simp
  have q: "map2 (XOR) (dec ?b) iv1 = q" using f(6,7) xor_cancel [of q iv1] assms(2) by simp
  have t: "map2 (XOR) (take ?n (dec ?z)) (take ?n ?b) = t" using f(8) ss(2) by simp
  have "CRYPTO_nistcts128_decrypt_block dec (c @ take ?n ?b @ ?z) iv = (length p + 16 + ?n + 16, p @ q @ t, ?z)"
    using nistcts_decrypt_form [OF _ lp assms(3) d] t16 f(3-5) lo q t by simp
  then show ?thesis using f assms(2,4) by (auto simp: min_def)
qed

end

section \<open>The functions on CBC\<close>

definition cbc128 :: "block_fn \<Rightarrow> block_fn \<Rightarrow> cbc_fn" where
  \<comment> \<open>the functions of \<open>cbc128.c\<close> behind the interface \<open>cbc128_f\<close>\<close>
  "cbc128 block_enc block_dec inp len iv enc =
     (if enc then CRYPTO_cbc128_encrypt block_enc (take len inp) iv else CRYPTO_cbc128_decrypt block_dec inp len iv)"

lemma cbc_decrypt_full_iv: "length iv = 16 \<Longrightarrow> 16 * k \<le> length inp \<Longrightarrow> length (snd (cbc_decrypt_full dec inp k iv)) = 16"
proof (induction k arbitrary: inp iv)
  case (Suc k)
  obtain out iv' where d: "cbc_decrypt_full dec (drop 16 inp) k (take 16 inp) = (out, iv')" by force
  have "length (take 16 inp) = 16" "16 * k \<le> length (drop 16 inp)" using Suc.prems(2) by auto
  from Suc.IH [OF this] show ?case using d by (simp add: Let_def)
qed simp

lemma cbc_decrypt_iv:
  assumes "length iv = 16" and "len mod 16 = 0" and "len \<le> length inp" and "CRYPTO_cbc128_decrypt dec inp len iv = (out, iv')"
  shows "length iv' = 16"
proof (cases "len = 0")
  case False
  have "16 * (len div 16) = len" using assms(2) by (simp add: mult_div_mod_eq mod_0_imp_dvd)
  then show ?thesis using cbc_decrypt_full_iv [OF assms(1), of "len div 16" inp dec] assms(2-4) False
    by (auto simp: CRYPTO_cbc128_decrypt_def split: prod.splits)
qed (use assms in \<open>simp add: CRYPTO_cbc128_decrypt_def\<close>)

lemma decrypt_stolen_eq:
  assumes "block_sized dec" and "length whole = 16" and "length part = n" and "0 < n" and "n \<le> 16" and "length iv = 16"
  shows "decrypt_stolen tr (cbc128 enc dec) whole part n iv =
    (map2 (XOR) (dec (part @ drop n (dec whole))) iv @ map2 (XOR) (take n (dec whole)) part, whole)"
proof -
  have l: "length (dec whole) = 16" using assms(1,2) by (simp add: block_sized_def)
  then have z: "map2 (XOR) (dec whole) (replicate 16 0) = dec whole" by (intro nth_equalityI) auto
  let ?a = "part @ drop n (dec whole)"
  have a: "length ?a = 16" using l assms(3,5) by simp
  then have "length (dec ?a) = 16" using assms(1) by (simp add: block_sized_def)
  moreover have "take n (map2 (XOR) (dec whole) ?a) = map2 (XOR) (take n (dec whole)) part"
    using l assms(3,5) by (intro nth_equalityI) (auto simp: nth_append)
  ultimately show ?thesis
    using cbc_decrypt_one [OF assms(2), of dec "replicate 16 0"] cbc_decrypt_two [of ?a whole n dec] cbc_decrypt_two [of ?a whole 16 dec] a l z assms(2-6)
    by (simp add: decrypt_stolen_def cbc128_def Let_def)
qed

lemma cts_encrypt_agree:
  assumes "block_cipher enc dec" and "length iv = 16"
  shows "CRYPTO_cts128_encrypt tr (cbc128 enc dec) x iv = CRYPTO_cts128_encrypt_block enc x iv"
    and "CRYPTO_nistcts128_encrypt tr (cbc128 enc dec) x iv = CRYPTO_nistcts128_encrypt_block enc x iv"
proof -
  have blk: "cbc128 enc dec t n iv1 True = (enc (stolen_sum t iv1), enc (stolen_sum t iv1)) \<and>
      cbc128 enc dec (t @ replicate (16 - n) 0) 16 iv1 True = (enc (stolen_sum t iv1), enc (stolen_sum t iv1))"
    if "length t = n" "0 < n" "n \<le> 16" "length iv1 = 16" for t n iv1
    using that block_cipher.cbc_encrypt_part [OF assms(1), of t iv1] stolen_sum_facts(4) [of t iv1]
      block_cipher.cbc_encrypt_part [OF assms(1), of "t @ replicate (16 - n) 0" iv1]
    by (simp add: cbc128_def stolen_sum_def)
  have cbc: "length iv1 = 16"
    if "CRYPTO_cbc128_encrypt enc (take n x) iv = (out, iv1)" "n mod 16 = 0" "n \<le> length x" for n out iv1
    using block_cipher.cbc_whole(3) [OF assms(1) _ assms(2) that(1)] that(2,3) by simp
  show "CRYPTO_cts128_encrypt tr (cbc128 enc dec) x iv = CRYPTO_cts128_encrypt_block enc x iv"
  proof (cases "length x \<le> 16")
    case False
    let ?r = "last_part (length x)" and ?n = "length x - last_part (length x)"
    have r: "0 < ?r" "?r \<le> 16" "?n mod 16 = 0" "length (drop ?n x) = ?r" using last_part_bounds [of "length x"] False by auto
    obtain out iv1 where e: "CRYPTO_cbc128_encrypt enc (take ?n x) iv = (out, iv1)" by force
    then have "cbc128 enc dec (take ?n x) ?n iv True = (out, iv1)" by (simp add: cbc128_def)
    then show ?thesis using e blk [OF r(4,1,2) cbc [OF e r(3)]] r False
      by (simp add: CRYPTO_cts128_encrypt_def CRYPTO_cts128_encrypt_block_def Let_def stolen_sum_def)
  qed (simp add: CRYPTO_cts128_encrypt_def CRYPTO_cts128_encrypt_block_def)
  show "CRYPTO_nistcts128_encrypt tr (cbc128 enc dec) x iv = CRYPTO_nistcts128_encrypt_block enc x iv"
  proof (cases "length x < 16")
    case False
    let ?r = "length x mod 16" and ?n = "length x - length x mod 16"
    have r: "?r \<le> 16" "?n mod 16 = 0" "length (drop ?n x) = ?r" by (auto simp: minus_mod_eq_mult_div less_imp_le minus_mult_div_eq_mod)
    obtain out iv1 where e: "CRYPTO_cbc128_encrypt enc (take ?n x) iv = (out, iv1)" by force
    then have c: "cbc128 enc dec (take ?n x) ?n iv True = (out, iv1)" by (simp add: cbc128_def)
    show ?thesis
    proof (cases "?r = 0")
      case True
      then show ?thesis using c e False
        by (simp add: CRYPTO_nistcts128_encrypt_def CRYPTO_nistcts128_encrypt_block_def Let_def)
    next
      case False
      then show ?thesis using c e blk [OF r(3) _ r(1) cbc [OF e r(2)]] r(3) \<open>\<not> length x < 16\<close>
        by (simp add: CRYPTO_nistcts128_encrypt_def CRYPTO_nistcts128_encrypt_block_def Let_def stolen_sum_def)
    qed
  qed (simp add: CRYPTO_nistcts128_encrypt_def CRYPTO_nistcts128_encrypt_block_def)
qed

lemma cbc128_prefix:
  assumes "length iv = 16" and "m mod 16 = 0" and "m \<le> length x"
  obtains out iv1 where "(if m \<noteq> 0 then CRYPTO_cbc128_decrypt dec x m iv else ([], iv)) = (out, iv1)" "length iv1 = 16"
    "(if m \<noteq> 0 then cbc128 enc dec x m iv False else ([], iv)) = (out, iv1)"
  using cbc_decrypt_iv [OF assms, of dec] assms(1) by (cases "m = 0") (auto simp: cbc128_def, metis prod.exhaust)

lemma cts_decrypt_agree:
  assumes "block_sized dec" and "length iv = 16" and "16 < length x"
  shows "CRYPTO_cts128_decrypt tr (cbc128 enc dec) x iv = (length x, snd (CRYPTO_cts128_decrypt_block dec x iv))"
proof -
  obtain p q t where x: "x = p @ q @ t" "length p mod 16 = 0" "length q = 16" "length t = last_part (length x)"
    using cts_text_parts [OF assms(3)] .
  have t: "0 < length t" "length t \<le> 16" using last_part_bounds x(4) by auto
  have m: "length p \<le> length x" "length x = length p + 16 + length t" using x(1,3) by auto
  obtain out iv1 where d: "(if length p \<noteq> 0 then CRYPTO_cbc128_decrypt dec x (length p) iv else ([], iv)) = (out, iv1)" "length iv1 = 16"
    "(if length p \<noteq> 0 then cbc128 enc dec x (length p) iv False else ([], iv)) = (out, iv1)"
    using cbc128_prefix [OF assms(2) x(2) m(1)] .
  have l: "length p + 16 + length t - (16 + length t) = length p" "\<not> length p + 16 + length t \<le> 16" using t by auto
  have "CRYPTO_cts128_decrypt tr (cbc128 enc dec) x iv =
      (case decrypt_stolen tr (cbc128 enc dec) q t (length t) iv1 of (out2, iv) \<Rightarrow> (length x, out @ out2, iv))"
    unfolding CRYPTO_cts128_decrypt_def Let_def m(2) last_part_sum [OF x(2) t] l if_False d(3) using x(1,3) t(1) by (simp split: prod.splits)
  then show ?thesis
    using cts_decrypt_form [OF m(2) last_part_sum [OF x(2) t] t(1) d(1)] decrypt_stolen_eq [OF assms(1) x(3) refl t d(2)] x(1,3) by simp
qed

lemma nistcts_decrypt_agree:
  assumes "block_sized dec" and "length iv = 16" and "16 \<le> length x"
  shows "CRYPTO_nistcts128_decrypt tr (cbc128 enc dec) x iv = (length x, snd (CRYPTO_nistcts128_decrypt_block dec x iv))"
proof (cases "length x mod 16 = 0")
  case True
  then show ?thesis using assms(3)
    by (simp add: CRYPTO_nistcts128_decrypt_def CRYPTO_nistcts128_decrypt_block_def cbc128_def Let_def split: prod.splits)
next
  case False
  then have "16 < length x" using assms(3) by (cases "length x = 16") auto
  then obtain p q0 t0 where x0: "x = p @ q0 @ t0" "length p mod 16 = 0" "length q0 = 16" "length t0 = last_part (length x)"
    using cts_text_parts by blast
  let ?n = "length t0" and ?t = "take (length t0) (q0 @ t0)" and ?q = "drop (length t0) (q0 @ t0)"
  have t: "0 < ?n" "?n < 16" "?n \<le> 16" "length x mod 16 = ?n"
    using False x0(4) by (auto simp: last_part_def less_imp_le)
  have m: "length p \<le> length x" "length x = length p + 16 + ?n" using x0(1,3) by auto
  have md: "(length p + 16 + ?n) mod 16 = ?n" using t(4) unfolding m(2) .
  obtain out iv1 where d: "(if length p \<noteq> 0 then CRYPTO_cbc128_decrypt dec x (length p) iv else ([], iv)) = (out, iv1)" "length iv1 = 16"
    "(if length p \<noteq> 0 then cbc128 enc dec x (length p) iv False else ([], iv)) = (out, iv1)"
    using cbc128_prefix [OF assms(2) x0(2) m(1)] .
  have l: "length p + 16 + ?n - (16 + ?n) = length p" "\<not> length p + 16 + ?n < 16" "?n \<noteq> 0" using t by auto
  have s: "take 16 (drop (length p + ?n) x) = ?q" "take ?n (drop (length p) x) = ?t" "take 16 (drop ?n (drop (length p) x)) = ?q"
    using x0(1,3) by (auto simp: add.commute)
  have qt: "length ?q = 16" "length ?t = ?n" using x0(3) by auto
  have "CRYPTO_nistcts128_decrypt tr (cbc128 enc dec) x iv =
      (case decrypt_stolen tr (cbc128 enc dec) ?q ?t ?n iv1 of (out2, iv) \<Rightarrow> (length x, out @ out2, iv))"
    unfolding CRYPTO_nistcts128_decrypt_def Let_def m(2) md l if_False d(3) s using l(3) by (simp split: prod.splits)
  then show ?thesis
    unfolding decrypt_stolen_eq [OF assms(1) qt t(1,3) d(2)] nistcts_decrypt_form [OF m(2) md t(1) d(1)] s by simp
qed

section \<open>Properties\<close>

text \<open>
  C26: ciphertext stealing keeps the length and can be undone. For every block cipher and every text of more than one block,
  encryption reports the length of the text and gives a ciphertext of this length, and decryption
  returns the text and the same \<open>ivec\<close>. The length that the decryption functions on a block function report is 16 bytes too large, unless the
  second convention has nothing to steal because the text consists of whole blocks.
\<close>
theorem cts_roundtrip:
  assumes "block_cipher enc dec" and "length iv = 16" and "16 < length x"
  shows "(\<exists>c iv'. CRYPTO_cts128_encrypt_block enc x iv = (length x, c, iv') \<and> length c = length x \<and>
      CRYPTO_cts128_decrypt_block dec c iv = (length x + 16, x, iv')) \<and>
    (\<exists>c iv'. CRYPTO_nistcts128_encrypt_block enc x iv = (length x, c, iv') \<and> length c = length x \<and>
      CRYPTO_nistcts128_decrypt_block dec c iv = (if length x mod 16 = 0 then length x else length x + 16, x, iv'))"
proof
  obtain p q t where x: "x = p @ q @ t" "length p mod 16 = 0" "length q = 16" "length t = last_part (length x)"
    using cts_text_parts [OF assms(3)] .
  have t: "0 < length t" "length t \<le> 16" using last_part_bounds x(4) by auto
  show "\<exists>c iv'. CRYPTO_cts128_encrypt_block enc x iv = (length x, c, iv') \<and> length c = length x \<and>
      CRYPTO_cts128_decrypt_block dec c iv = (length x + 16, x, iv')"
    using block_cipher.cts_inverse_parts [OF assms(1) x(2,3) t assms(2)] unfolding x(1) .
  show "\<exists>c iv'. CRYPTO_nistcts128_encrypt_block enc x iv = (length x, c, iv') \<and> length c = length x \<and>
      CRYPTO_nistcts128_decrypt_block dec c iv = (if length x mod 16 = 0 then length x else length x + 16, x, iv')"
  proof (cases "length x mod 16 = 0")
    case True
    obtain c iv' where e: "CRYPTO_cbc128_encrypt enc x iv = (c, iv')" by force
    note w = block_cipher.cbc_whole [OF assms(1) True assms(2) e]
    show ?thesis using e w(2) w(4) [of "[]"] True assms(3)
      by (simp add: CRYPTO_nistcts128_encrypt_block_def CRYPTO_nistcts128_decrypt_block_def)
  next
    case False
    then have "length t < 16" using x(4) by (simp add: last_part_def)
    then show ?thesis
      using block_cipher.nistcts_inverse_parts [OF assms(1) x(2,3) t(1) _ assms(2)] False unfolding x(1) by simp
  qed
qed

theorem cts_roundtrip_witness:
  "\<exists>c iv'. CRYPTO_cts128_encrypt_block (SEED_encrypt (replicate 32 5)) (replicate 20 1) (replicate 16 0) = (20, c, iv') \<and>
     length c = 20 \<and> CRYPTO_cts128_decrypt_block (SEED_decrypt (replicate 32 5)) c (replicate 16 0) = (36, replicate 20 1, iv')"
  using cts_roundtrip [OF seed.block_cipher_axioms, of "replicate 16 0" "replicate 20 1" "replicate 32 5"] by simp

text \<open>
  The functions on CBC compute what the functions on blocks compute, whether CBC handles incomplete blocks
  or not: the same output and the same \<open>ivec\<close>, for texts of every length and, in decryption, for every ciphertext. They report the
  length of the text, or 0 for a text that is too short.
\<close>
lemma cts_variants_agree:
  assumes "block_cipher enc dec" and "block_sized dec" and "length iv = 16"
  shows "CRYPTO_cts128_encrypt truncated (cbc128 enc dec) x iv = CRYPTO_cts128_encrypt_block enc x iv \<and>
    CRYPTO_nistcts128_encrypt truncated (cbc128 enc dec) x iv = CRYPTO_nistcts128_encrypt_block enc x iv \<and>
    CRYPTO_cts128_decrypt truncated (cbc128 enc dec) x iv =
      (if length x \<le> 16 then 0 else length x, snd (CRYPTO_cts128_decrypt_block dec x iv)) \<and>
    CRYPTO_nistcts128_decrypt truncated (cbc128 enc dec) x iv =
      (if length x < 16 then 0 else length x, snd (CRYPTO_nistcts128_decrypt_block dec x iv))"
proof (intro conjI)
  show "CRYPTO_cts128_decrypt truncated (cbc128 enc dec) x iv =
      (if length x \<le> 16 then 0 else length x, snd (CRYPTO_cts128_decrypt_block dec x iv))"
    using cts_decrypt_agree [OF assms(2,3), of x]
    by (cases "length x \<le> 16") (auto simp: CRYPTO_cts128_decrypt_def CRYPTO_cts128_decrypt_block_def)
  show "CRYPTO_nistcts128_decrypt truncated (cbc128 enc dec) x iv =
      (if length x < 16 then 0 else length x, snd (CRYPTO_nistcts128_decrypt_block dec x iv))"
    using nistcts_decrypt_agree [OF assms(2,3), of x]
    by (cases "length x < 16") (auto simp: CRYPTO_nistcts128_decrypt_def CRYPTO_nistcts128_decrypt_block_def)
qed (rule cts_encrypt_agree [OF assms(1,3)])+

end
