(* ===== verification/Ctr32_Mode.thy ===== *)
theory Ctr32_Mode
  imports Block_Modes
begin

unbundle bit_operations_syntax

text \<open>
  Counter mode over a routine that encrypts many blocks at once, \<open>CRYPTO_ctr128_encrypt_ctr32\<close> of
  \<open>crypto/modes/ctr128.c\<close>. The routine \<open>func\<close> is usually assembler code and counts with the last 32 bits of the counter only, so the
  caller has to stop at the point where they wrap. \<open>func\<close> is an argument, which from the input, the number of blocks and
  \<open>ivec\<close> computes the output.
\<close>

type_synonym ctr_fn = "byte list \<Rightarrow> nat \<Rightarrow> byte list \<Rightarrow> byte list"

section \<open>Operations\<close>

definition GETU32 :: "byte list \<Rightarrow> 32 word" where
  "GETU32 p = push_bit 24 (ucast (p ! 0)) OR push_bit 16 (ucast (p ! 1)) OR push_bit 8 (ucast (p ! 2)) OR ucast (p ! 3)"

definition PUTU32 :: "32 word \<Rightarrow> byte list" where
  "PUTU32 v = [ucast (drop_bit 24 v), ucast (drop_bit 16 v), ucast (drop_bit 8 v), ucast v]"

definition ctr96_inc :: "byte list \<Rightarrow> byte list" where
  "ctr96_inc counter = rev (inc_loop (rev (take 12 counter)) 1) @ drop 12 counter"

definition set_ctr32 :: "32 word \<Rightarrow> byte list \<Rightarrow> byte list" where
  \<comment> \<open>\<open>PUTU32(ivec + 12, ctr32); if (ctr32 == 0) ctr96_inc(ivec);\<close>\<close>
  "set_ctr32 ctr32 iv = (let iv = take 12 iv @ PUTU32 ctr32 in if ctr32 = 0 then ctr96_inc iv else iv)"

function ctr32_loop :: "ctr_fn \<Rightarrow> 32 word \<Rightarrow> byte list \<Rightarrow> byte list \<Rightarrow> byte list \<times> 32 word \<times> byte list \<times> byte list" where
  \<comment> \<open>\<open>while (len >= 16)\<close>: the output, the counter, \<open>ivec\<close> and the rest of the input\<close>
  "ctr32_loop func ctr32 iv inp =
     (if length inp \<ge> 16
      then let blocks = length inp div 16;
               ctr32 = ctr32 + of_nat blocks;
               (blocks, ctr32) = (if unat ctr32 < blocks then (blocks - unat ctr32, 0) else (blocks, ctr32));
               out = func (take (16 * blocks) inp) blocks iv
           in case ctr32_loop func ctr32 (set_ctr32 ctr32 iv) (drop (16 * blocks) inp) of
                (outs, ctr32, iv, rest) \<Rightarrow> (out @ outs, ctr32, iv, rest)
      else ([], ctr32, iv, inp))"
  by pat_completeness auto
termination
  by (relation "measure (\<lambda>(func, ctr32, iv, inp). length inp)") (auto split: if_splits)

declare ctr32_loop.simps [simp del]

definition CRYPTO_ctr128_encrypt_ctr32 :: "ctr_fn \<Rightarrow> stream \<Rightarrow> nat \<Rightarrow> byte list \<Rightarrow> byte list \<times> stream \<times> nat" where
  "CRYPTO_ctr128_encrypt_ctr32 func s num inp =
     (case lead_loop ctr_step s num inp of (ys1, s, n, rest) \<Rightarrow>
      case ctr32_loop func (GETU32 (drop 12 (ivec s))) (ivec s) rest of (ys2, ctr32, iv, rest) \<Rightarrow>
      if rest \<noteq> []
      then let s = s\<lparr>ecount_buf := func (replicate 16 0) 1 iv, ivec := set_ctr32 (ctr32 + 1) iv\<rparr>
           in case block_bytes ctr_step s n rest of (ys3, s, n) \<Rightarrow> (ys1 @ ys2 @ ys3, s, n)
      else (ys1 @ ys2, s\<lparr>ivec := iv\<rparr>, n))"

section \<open>The two parts of the counter\<close>

lemma le_val_append: "le_val (xs @ ys) = le_val xs + 256 ^ length xs * le_val ys"
  by (induction xs) (simp_all add: algebra_simps)

lemma be_val_append: "be_val (xs @ ys) = be_val xs * 256 ^ length ys + be_val ys"
  by (simp add: be_val_def le_val_append algebra_simps)

lemma be_val_less: "be_val bs < 256 ^ length bs"
  using le_val_less [of "rev bs"] by (simp add: be_val_def)

lemma le_val_inject: "length xs = length ys \<Longrightarrow> le_val xs = le_val ys \<Longrightarrow> xs = ys"
proof (induction xs arbitrary: ys)
  case (Cons x xs)
  then obtain y zs where ys: "ys = y # zs" by (cases ys) auto
  have b: "unat x < 256" "unat y < 256" by (rule unat_byte_less)+
  have e: "unat x + 256 * le_val xs = unat y + 256 * le_val zs" using Cons.prems(2) ys by simp
  have xy: "unat x = unat y" using arg_cong [OF e, of "\<lambda>k. k mod 256"] b by simp
  then have "le_val xs = le_val zs" using e by simp
  with xy show ?case using Cons.IH [of zs] Cons.prems(1) ys by (simp add: word_unat_eq_iff)
qed simp

lemma be_val_inject: "length xs = length ys \<Longrightarrow> be_val xs = be_val ys \<Longrightarrow> xs = ys"
  using le_val_inject [of "rev xs" "rev ys"] by (simp add: be_val_def)

lemma GETU32_PUTU32 [simp]: "GETU32 (PUTU32 v) = v"
proof (rule bit_word_eqI)
  fix n assume "n < LENGTH(32)"
  then consider "n < 8" | "8 \<le> n" "n < 16" | "16 \<le> n" "n < 24" | "24 \<le> n" "n < 32" by fastforce
  then show "bit (GETU32 (PUTU32 v)) n = bit v n"
    by cases (auto simp: GETU32_def PUTU32_def bit_or_iff bit_push_bit_iff bit_ucast_iff bit_drop_bit_eq)
qed

lemma PUTU32_GETU32:
  assumes "length p = 4"
  shows "PUTU32 (GETU32 p) = p"
proof -
  obtain a b c d where p: "p = [a, b, c, d]" using assms by (auto simp: length_Suc_conv numeral_eq_Suc)
  have "ucast (drop_bit 24 (GETU32 p)) = a" "ucast (drop_bit 16 (GETU32 p)) = b"
      "ucast (drop_bit 8 (GETU32 p)) = c" "ucast (GETU32 p) = d"
    by (rule bit_word_eqI, auto simp: p GETU32_def bit_or_iff bit_push_bit_iff bit_ucast_iff bit_drop_bit_eq
        dest: bit_imp_le_length)+
  then show ?thesis by (simp add: PUTU32_def p)
qed

lemma length_PUTU32 [simp]: "length (PUTU32 v) = 4"
  by (simp add: PUTU32_def)

lemma unat_byte_of: "unat (ucast (drop_bit k v) :: byte) = unat v div 2 ^ k mod 256" for v :: "32 word"
  by (simp add: unsigned_ucast_eq take_bit_eq_mod unat_drop_bit_eq) (simp add: drop_bit_eq_div)

lemma be_val_PUTU32: "be_val (PUTU32 v) = unat v"
proof -
  let ?y = "unat v div 256" and ?z = "unat v div 256 div 256"
  have w: "unat v div 65536 = ?z" "unat v div 16777216 = ?z div 256" by (simp_all flip: div_mult2_eq)
  have "unat v < 2 ^ 32" using unsigned_less [of v, where 'a = nat] by simp
  then have small: "?z div 256 < 256" by (simp flip: div_mult2_eq)
  have "be_val (PUTU32 v) = unat v mod 256 + 256 * (?y mod 256 + 256 * (?z mod 256 + 256 * (?z div 256)))"
    using unat_byte_of [of 0 v] small by (simp add: PUTU32_def be_val_def unat_byte_of w)
  also have "\<dots> = unat v" by (simp only: mod_mult_div_eq)
  finally show ?thesis .
qed

lemma unat_GETU32: "length p = 4 \<Longrightarrow> unat (GETU32 p) = be_val p"
  using be_val_PUTU32 [of "GETU32 p"] by (simp add: PUTU32_GETU32)

lemma ctr96_inc_adds_one:
  assumes "length a = 12" and "length b = 4"
  shows "length (ctr96_inc (a @ b)) = 16" "be_val (ctr96_inc (a @ b)) = (be_val a + 1) mod 2 ^ 96 * 2 ^ 32 + be_val b"
proof -
  show "length (ctr96_inc (a @ b)) = 16" using assms by (simp add: ctr96_inc_def)
  have "be_val (rev (inc_loop (rev a) 1)) = (be_val a + 1) mod 256 ^ 12"
    using assms(1) le_val_inc_loop [of 1 "rev a"] by (simp add: be_val_def)
  then show "be_val (ctr96_inc (a @ b)) = (be_val a + 1) mod 2 ^ 96 * 2 ^ 32 + be_val b"
    using assms by (simp add: ctr96_inc_def be_val_append)
qed

lemma length_set_ctr32: "length iv = 16 \<Longrightarrow> length (set_ctr32 c iv) = 16"
  using ctr96_inc_adds_one(1) [of "take 12 iv" "PUTU32 c"] by (auto simp: set_ctr32_def Let_def)

lemma GETU32_set_ctr32: "length iv = 16 \<Longrightarrow> GETU32 (drop 12 (set_ctr32 c iv)) = c"
  by (simp add: set_ctr32_def Let_def ctr96_inc_def)

lemma succ_mod: "g < N \<Longrightarrow> (g + 1) mod N = (if g + 1 = N then 0 else g + 1)" for g N :: nat
  by auto

lemma succ_mod_parts:
  fixes a g M N :: nat
  assumes "g < N"
  shows "(a * N + (g + 1)) mod (M * N) = (if g + 1 = N then (a + 1) mod M * N else a mod M * N + (g + 1))"
proof (cases "g + 1 = N")
  case True
  then have "a * N + (g + 1) = (a + 1) * N" by (simp only: add_mult_distrib mult_1)
  with True show ?thesis by (simp only: mod_mult_mult2 if_True simp_thms)
next
  case False
  with assms obtain r where r: "g + 1 = r" "r < N" by simp
  then have "(a * N + r) mod (N * M) = N * (a mod M) + r" by (simp add: mod_mult2_eq)
  with r(1) have "(a * N + (g + 1)) mod (N * M) = N * (a mod M) + (g + 1)" by (simp only:)
  with False show ?thesis by (simp only: if_False mult.commute)
qed

lemma ctr128_inc_parts:
  assumes iv: "length iv = 16"
  shows "ctr128_inc iv = set_ctr32 (GETU32 (drop 12 iv) + 1) iv"
proof (rule be_val_inject)
  let ?a = "take 12 iv" and ?b = "drop 12 iv"
  let ?c = "GETU32 ?b + 1"
  show "length (ctr128_inc iv) = length (set_ctr32 ?c iv)"
    using iv ctr128_inc_adds_one [OF iv] length_set_ctr32 [OF iv] by simp
  have b: "be_val iv = be_val ?a * 2 ^ 32 + unat (GETU32 ?b)"
    using be_val_append [of ?a ?b] iv unat_GETU32 [of ?b] by simp
  have a: "be_val ?a < 2 ^ 96" using be_val_less [of ?a] iv by simp
  have lt: "unat (GETU32 ?b) < 2 ^ 32" using unsigned_less [of "GETU32 ?b", where 'a = nat] by simp
  have c: "unat ?c = (unat (GETU32 ?b) + 1) mod 2 ^ 32" by (simp add: unat_word_ariths)
  have "be_val (ctr128_inc iv) = (be_val ?a * 2 ^ 32 + (unat (GETU32 ?b) + 1)) mod (2 ^ 96 * 2 ^ 32)"
    using ctr128_inc_adds_one [OF iv] b by (simp add: add.assoc)
  note inc = this [unfolded succ_mod_parts [OF lt]]
  have at: "be_val ?a mod 2 ^ 96 = be_val ?a" using a by (rule mod_less)
  have z: "?c = 0 \<longleftrightarrow> unat (GETU32 ?b) + 1 = 2 ^ 32"
    unfolding unat_eq_zero [symmetric] c succ_mod [OF lt] by simp
  show "be_val (ctr128_inc iv) = be_val (set_ctr32 ?c iv)"
  proof (cases "?c = 0")
    case True
    then have "be_val (set_ctr32 ?c iv) = (be_val ?a + 1) mod 2 ^ 96 * 2 ^ 32"
      using iv ctr96_inc_adds_one(2) [of ?a "PUTU32 0"] by (simp add: set_ctr32_def be_val_PUTU32)
    then show ?thesis using inc True z by (simp only: if_True simp_thms)
  next
    case False
    then have ne: "unat (GETU32 ?b) + 1 \<noteq> 2 ^ 32" using z by simp
    have u: "unat ?c = unat (GETU32 ?b) + 1" unfolding c succ_mod [OF lt] using ne by (rule if_not_P)
    have "be_val (set_ctr32 ?c iv) = be_val ?a * 2 ^ 32 + unat ?c"
      using False iv by (simp add: set_ctr32_def be_val_append be_val_PUTU32)
    then show ?thesis using inc ne u at by (simp only: if_False)
  qed
qed

section \<open>Runs of blocks\<close>

fun ctr32_stream :: "block_fn \<Rightarrow> nat \<Rightarrow> byte list \<Rightarrow> byte list" where
  \<comment> \<open>the key stream of a routine that counts with the last 32 bits alone\<close>
  "ctr32_stream block 0 iv = []"
| "ctr32_stream block (Suc k) iv = block iv @ ctr32_stream block k (take 12 iv @ PUTU32 (GETU32 (drop 12 iv) + 1))"

definition ctr32_routine :: "block_fn \<Rightarrow> ctr_fn \<Rightarrow> bool" where
  \<comment> \<open>what a routine of type \<open>ctr128_f\<close> has to compute\<close>
  "ctr32_routine block func \<longleftrightarrow> (\<forall>inp blocks iv. length iv = 16 \<longrightarrow> length inp = 16 * blocks \<longrightarrow>
     func inp blocks iv = map2 (XOR) inp (ctr32_stream block blocks iv))"

abbreviation ctr_loop :: "block_fn \<Rightarrow> stream \<Rightarrow> nat \<Rightarrow> byte list \<Rightarrow> byte list \<times> stream \<times> nat" where
  "ctr_loop block \<equiv> byte_loop (ctr_refill block) ctr_step"

lemma ctr_block_bytes:
  "n + length xs \<le> length (ecount_buf s) \<Longrightarrow>
   block_bytes ctr_step s n xs = (map2 (XOR) xs (drop n (ecount_buf s)), s, n + length xs)"
proof (induction xs arbitrary: n)
  case (Cons x xs)
  then have "drop n (ecount_buf s) = ecount_buf s ! n # drop (n + 1) (ecount_buf s)"
    by (simp add: Cons_nth_drop_Suc)
  with Cons show ?case by (simp add: ctr_step_def)
qed simp

lemma ctr_loop_block:
  assumes "block_sized block" and "length (ivec s) = 16" and "length xs = 16"
  shows "ctr_loop block s 0 xs = (map2 (XOR) xs (block (ivec s)), ctr_refill block s, 0)"
proof -
  have e: "ecount_buf (ctr_refill block s) = block (ivec s)" "length (block (ivec s)) = 16"
    using assms by (auto simp: ctr_refill_def block_sized_def)
  have "xs \<noteq> []" using assms(3) by auto
  then show ?thesis using byte_loop_block [of xs "ctr_refill block" ctr_step s] assms(3) e
      ctr_block_bytes [of 0 xs "ctr_refill block s"] by simp
qed

lemma set_ctr32_low:
  assumes "length iv = 16" and "c \<noteq> 0"
  shows "set_ctr32 d (take 12 iv @ PUTU32 c) = set_ctr32 d iv"
  using assms by (simp add: set_ctr32_def)

lemma ctr_loop_run:
  assumes "block_sized block" and "length (ivec s) = 16" and "length xs = 16 * k" and "0 < k"
    and "unat (GETU32 (drop 12 (ivec s))) + k \<le> 2 ^ 32"
  shows "\<exists>e. ctr_loop block s 0 xs = (map2 (XOR) xs (ctr32_stream block k (ivec s)),
    s\<lparr>ivec := set_ctr32 (GETU32 (drop 12 (ivec s)) + of_nat k) (ivec s), ecount_buf := e\<rparr>, 0)"
  using assms(2-)
proof (induction k arbitrary: s xs)
  case (Suc k)
  let ?iv = "ivec s" and ?c = "GETU32 (drop 12 (ivec s))"
  have inc: "ctr128_inc ?iv = set_ctr32 (?c + 1) ?iv" using ctr128_inc_parts [OF Suc.prems(1)] .
  have l: "length (block ?iv) = 16" using assms(1) Suc.prems(1) by (simp add: block_sized_def)
  have first: "ctr_loop block s 0 (take 16 xs) = (map2 (XOR) (take 16 xs) (block ?iv), ctr_refill block s, 0)"
    using ctr_loop_block [OF assms(1) Suc.prems(1), of "take 16 xs"] Suc.prems(2) by simp
  show ?case
  proof (cases k)
    case 0
    have "ctr_refill block s = s\<lparr>ivec := set_ctr32 (?c + 1) ?iv, ecount_buf := block ?iv\<rparr>"
      by (simp add: ctr_refill_def inc)
    then show ?thesis using first Suc.prems(2) 0 by auto
  next
    case (Suc j)
    have lt: "unat ?c + 1 < 2 ^ 32" using Suc.prems(4) Suc by simp
    have c1: "unat (?c + 1) = unat ?c + 1" using lt by (simp add: unat_word_ariths)
    then have nz: "?c + 1 \<noteq> 0" by (metis Suc_eq_plus1 nat.distinct(1) unat_0)
    let ?iv1 = "take 12 ?iv @ PUTU32 (?c + 1)" and ?s = "ctr_refill block s"
    have iv1: "ivec ?s = ?iv1" using inc nz by (simp add: ctr_refill_def set_ctr32_def)
    have pre: "length (ivec ?s) = 16" "length (drop 16 xs) = 16 * k" "0 < k"
        "unat (GETU32 (drop 12 (ivec ?s))) + k \<le> 2 ^ 32"
      using Suc.prems Suc iv1 c1 by simp_all
    obtain e where "ctr_loop block ?s 0 (drop 16 xs) = (map2 (XOR) (drop 16 xs) (ctr32_stream block k ?iv1),
        ?s\<lparr>ivec := set_ctr32 (?c + 1 + of_nat k) ?iv1, ecount_buf := e\<rparr>, 0)"
      using Suc.IH [OF pre] iv1 Suc.prems(1) by auto
    then have "ctr_loop block s 0 (take 16 xs @ drop 16 xs) =
        (map2 (XOR) (take 16 xs) (block ?iv) @ map2 (XOR) (drop 16 xs) (ctr32_stream block k ?iv1),
         ?s\<lparr>ivec := set_ctr32 (?c + 1 + of_nat k) ?iv1, ecount_buf := e\<rparr>, 0)"
      unfolding byte_loop_append first by simp
    moreover have "map2 (XOR) (take 16 xs) (block ?iv) @ map2 (XOR) (drop 16 xs) (ctr32_stream block k ?iv1) =
        map2 (XOR) xs (ctr32_stream block (Suc k) ?iv)"
      using l Suc.prems(2) by (simp add: zip_append2 take_map drop_map)
    moreover have "?s\<lparr>ivec := set_ctr32 (?c + 1 + of_nat k) ?iv1, ecount_buf := e\<rparr> =
        s\<lparr>ivec := set_ctr32 (?c + of_nat (Suc k)) ?iv, ecount_buf := e\<rparr>"
      using set_ctr32_low [OF Suc.prems(1) nz] by (simp add: ctr_refill_def add.assoc)
    ultimately show ?thesis by auto
  qed
qed simp

lemma ctr32_split:
  fixes c :: "32 word"
  assumes "0 < B" and "B < 2 ^ 32"
    and "(if unat (c + of_nat B) < B then (B - unat (c + of_nat B), 0) else (B, c + of_nat B)) = (k, d)"
  shows "0 < k" "k \<le> B" "d = c + of_nat k" "unat c + k \<le> 2 ^ 32"
proof -
  have c: "unat c < 2 ^ 32" using unsigned_less [of c, where 'a = nat] by simp
  have B: "unat (of_nat B :: 32 word) = B" using assms(2) unat_of_nat_small [of B, where 'a = 32] by simp
  let ?t = "unat (c + of_nat B)"
  have t: "?t = (unat c + B) mod 2 ^ 32" using B by (simp add: unat_word_ariths)
  show "0 < k" "k \<le> B" using assms(1,3) by (auto split: if_splits)
  show "d = c + of_nat k"
  proof (cases "?t < B")
    case True
    then have "of_nat k = (of_nat B :: 32 word) - of_nat ?t" using assms(3) by (auto simp: of_nat_diff)
    then show ?thesis using True assms(3) by simp
  next
    case False
    then show ?thesis using assms(3) by auto
  qed
  show "unat c + k \<le> 2 ^ 32"
  proof (cases "unat c + B < 2 ^ 32")
    case True
    then have "?t = unat c + B" using t by (simp only: mod_less)
    then show ?thesis using True assms(3) by (auto split: if_splits)
  next
    case False
    then have "?t = unat c + B - 2 ^ 32" using t c assms(2) by (simp add: mod_if)
    then show ?thesis using False c assms(3) by (auto split: if_splits)
  qed
qed

lemma ctr32_loop_bytes:
  assumes "ctr32_routine block func" and "block_sized block"
  shows "ctr32_loop func (GETU32 (drop 12 iv)) iv inp = (outs, c, iv', rest) \<Longrightarrow> length iv = 16 \<Longrightarrow>
    length inp < 2 ^ 32 \<Longrightarrow> ivec s = iv \<Longrightarrow>
    \<exists>e. ctr_loop block s 0 inp = (case ctr_loop block (s\<lparr>ivec := iv', ecount_buf := e\<rparr>) 0 rest of (zs, s, n) \<Rightarrow> (outs @ zs, s, n)) \<and>
      length rest < 16 \<and> length iv' = 16 \<and> c = GETU32 (drop 12 iv')"
proof (induction "length inp" arbitrary: iv inp outs s rule: less_induct)
  case less
  let ?c = "GETU32 (drop 12 iv)"
  show ?case
  proof (cases "length inp \<ge> 16")
    case False
    then have "outs = []" "c = ?c" "iv' = iv" "rest = inp" using less.prems(1) by (subst (asm) ctr32_loop.simps, simp)+
    moreover have "s = s\<lparr>ivec := iv, ecount_buf := ecount_buf s\<rparr>" using less.prems(4) by simp
    ultimately show ?thesis using False less.prems(2) by (auto split: prod.splits intro!: exI [of _ "ecount_buf s"])
  next
    case True
    let ?B = "length inp div 16"
    obtain k d where kd: "(if unat (?c + of_nat ?B) < ?B then (?B - unat (?c + of_nat ?B), 0) else (?B, ?c + of_nat ?B)) = (k, d)"
      by fastforce
    have "0 < ?B" "?B < 2 ^ 32" using True less.prems(3) by (auto simp: div_greater_zero_iff)
    note k = ctr32_split [OF this kd]
    let ?iv = "set_ctr32 d iv" and ?in = "drop (16 * k) inp"
    obtain outs2 where o: "ctr32_loop func d ?iv ?in = (outs2, c, iv', rest)" "outs = func (take (16 * k) inp) k iv @ outs2"
      using less.prems(1) True kd by (subst (asm) ctr32_loop.simps) (auto simp: Let_def split: prod.splits)
    have len: "16 * k \<le> length inp" using k(2) by (simp add: less_eq_div_iff_mult_less_eq mult.commute)
    then have f: "func (take (16 * k) inp) k iv = map2 (XOR) (take (16 * k) inp) (ctr32_stream block k iv)"
      using assms(1) less.prems(2) by (simp add: ctr32_routine_def)
    obtain e where run: "ctr_loop block s 0 (take (16 * k) inp) =
        (func (take (16 * k) inp) k iv, s\<lparr>ivec := ?iv, ecount_buf := e\<rparr>, 0)"
      using ctr_loop_run [OF assms(2), of s "take (16 * k) inp" k] less.prems(2,4) len k f by auto
    let ?s = "s\<lparr>ivec := ?iv, ecount_buf := e\<rparr>"
    have iv: "length ?iv = 16" "GETU32 (drop 12 ?iv) = d"
      using length_set_ctr32 GETU32_set_ctr32 less.prems(2) by auto
    have in_: "length ?in < length inp" "length ?in < 2 ^ 32" using k(1) True less.prems(3) by auto
    have o': "ctr32_loop func (GETU32 (drop 12 ?iv)) ?iv ?in = (outs2, c, iv', rest)" using o(1) iv(2) by simp
    from less.hyps [OF in_(1) o' iv(1) in_(2), of ?s] obtain e' where
      ih: "ctr_loop block ?s 0 ?in = (case ctr_loop block (?s\<lparr>ivec := iv', ecount_buf := e'\<rparr>) 0 rest of (zs, s, n) \<Rightarrow> (outs2 @ zs, s, n))"
        "length rest < 16" "length iv' = 16" "c = GETU32 (drop 12 iv')" by fastforce
    have "ctr_loop block s 0 (take (16 * k) inp @ ?in) =
        (case ctr_loop block (s\<lparr>ivec := iv', ecount_buf := e'\<rparr>) 0 rest of (zs, s, n) \<Rightarrow> (outs @ zs, s, n))"
      unfolding byte_loop_append run using ih(1) o(2) by (auto split: prod.splits)
    then show ?thesis using ih by auto
  qed
qed

section \<open>Equivalence\<close>

definition same_stream :: "nat \<Rightarrow> stream \<Rightarrow> stream \<Rightarrow> bool" where
  \<comment> \<open>the key stream that is left over matters only inside a block\<close>
  "same_stream n s s' \<longleftrightarrow> ivec s = ivec s' \<and> (n \<noteq> 0 \<longrightarrow> ecount_buf s = ecount_buf s')"

lemma same_stream_refl [simp]: "same_stream n s s"
  by (simp add: same_stream_def)

lemma same_stream_eq: "same_stream n s s' \<Longrightarrow> n \<noteq> 0 \<Longrightarrow> s = s'"
  by (simp add: same_stream_def)

lemma lead_loop_ctr: "lead_loop ctr_step s n xs = (ys, s1, n1, rest) \<Longrightarrow> s1 = s \<and> length rest \<le> length xs"
  by (induction xs arbitrary: n ys) (fastforce simp: ctr_step_def split: if_splits prod.splits)+

lemma ctr_loop_refill_only:
  assumes "xs \<noteq> []" and "ivec s = ivec s'"
  shows "ctr_loop block s 0 xs = ctr_loop block s' 0 xs"
proof -
  have "ctr_refill block s = ctr_refill block s'" using assms(2) by (simp add: ctr_refill_def)
  then show ?thesis using assms(1) by (cases xs) (simp_all add: Let_def)
qed

lemma lead_loop_same:
  assumes "same_stream n s s'" and "lead_loop ctr_step s n xs = (ys, s, n1, rest)" and "n < 16"
  shows "\<exists>s1. ctr_loop block s' n xs = (case ctr_loop block s1 n1 rest of (zs, s, m) \<Rightarrow> (ys @ zs, s, m)) \<and>
    same_stream n1 s s1 \<and> (rest \<noteq> [] \<longrightarrow> n1 = 0)"
proof (cases "n = 0")
  case True
  then have "ys = [] \<and> n1 = n \<and> rest = xs" using assms(2) by (cases xs) auto
  then show ?thesis using True assms(1) by (intro exI [of _ s']) (auto split: prod.splits)
next
  case False
  then show ?thesis
    using same_stream_eq [OF assms(1)] lead_loop_bytes [OF assms(2,3), of "ctr_refill block"] by auto
qed

lemma ctr32_tail:
  assumes "ctr32_routine block func" and "block_sized block" and "length (ivec s) = 16" and "xs \<noteq> []" and "length xs < 16"
  shows "ctr_loop block s 0 xs = block_bytes ctr_step
    (s\<lparr>ecount_buf := func (replicate 16 0) 1 (ivec s), ivec := set_ctr32 (GETU32 (drop 12 (ivec s)) + 1) (ivec s)\<rparr>) 0 xs"
proof -
  have b: "length (block (ivec s)) = 16" using assms(2,3) by (simp add: block_sized_def)
  then have "func (replicate 16 0) 1 (ivec s) = block (ivec s)"
    using assms(1,3) by (simp add: ctr32_routine_def map2_map_map [symmetric] list_eq_iff_nth_eq)
  then have r: "ctr_refill block s =
      s\<lparr>ecount_buf := func (replicate 16 0) 1 (ivec s), ivec := set_ctr32 (GETU32 (drop 12 (ivec s)) + 1) (ivec s)\<rparr>"
    using ctr128_inc_parts [OF assms(3)] by (simp add: ctr_refill_def)
  obtain ys s1 m where bb: "block_bytes ctr_step (ctr_refill block s) 0 xs = (ys, s1, m)" using prod_cases3 by blast
  then have "m < 16" using block_bytes_n [OF bb] assms(5) by simp
  then show ?thesis using byte_loop_block [of xs "ctr_refill block" ctr_step s] assms(4,5) bb r by simp
qed

text \<open>
  C25: counter mode over a routine with a 32-bit counter is counter mode with a 128-bit counter. If \<open>func\<close> encrypts any number of blocks counting with the last
  32 bits of \<open>ivec\<close> alone, then \<open>CRYPTO_ctr128_encrypt_ctr32\<close> gives for inputs of any length the output, the counter and the position of
  \<open>CRYPTO_ctr128_encrypt\<close>, through every wrap of the 32 bits; and
  both leave the same key stream when they end inside a block, so that the calls can be mixed.
\<close>
theorem ctr32_is_ctr128:
  assumes "ctr32_routine block func" and "block_sized block" and "length (ivec s) = 16" and "num < 16"
    and "length inp < 2 ^ 32" and "same_stream num s s'"
  shows "case CRYPTO_ctr128_encrypt_ctr32 func s num inp of (out, s1, n) \<Rightarrow>
    case CRYPTO_ctr128_encrypt block s' num inp of (out', s1', n') \<Rightarrow> out = out' \<and> n = n' \<and> same_stream n s1 s1'"
proof -
  obtain ys1 sl n1 r1 where "lead_loop ctr_step s num inp = (ys1, sl, n1, r1)" using prod_cases4 by blast
  then have l: "lead_loop ctr_step s num inp = (ys1, s, n1, r1)" and len: "length r1 < 2 ^ 32"
    using lead_loop_ctr assms(5) by fastforce+
  obtain s0 where s0: "ctr_loop block s' num inp = (case ctr_loop block s0 n1 r1 of (zs, s, m) \<Rightarrow> (ys1 @ zs, s, m))"
      "same_stream n1 s s0" "r1 \<noteq> [] \<longrightarrow> n1 = 0"
    using lead_loop_same [OF assms(6) l assms(4)] by blast
  have ref: "CRYPTO_ctr128_encrypt block s' num inp = (case ctr_loop block s0 n1 r1 of (zs, s, m) \<Rightarrow> (ys1 @ zs, s, m))"
    using s0(1) assms(4) by (simp add: CRYPTO_ctr128_encrypt_def stream_loop_bytes)
  obtain ys2 c iv r2 where b: "ctr32_loop func (GETU32 (drop 12 (ivec s))) (ivec s) r1 = (ys2, c, iv, r2)"
    using prod_cases4 by blast
  obtain e where e: "ctr_loop block s 0 r1 = (case ctr_loop block (s\<lparr>ivec := iv, ecount_buf := e\<rparr>) 0 r2 of (zs, s, n) \<Rightarrow> (ys2 @ zs, s, n))"
      "length r2 < 16" "length iv = 16" "c = GETU32 (drop 12 iv)"
    using ctr32_loop_bytes [OF assms(1,2) b assms(3) len] by blast
  show ?thesis
  proof (cases "r1 = []")
    case True
    then have "ys2 = []" "iv = ivec s" "r2 = []" using b by (subst (asm) ctr32_loop.simps, simp)+
    then show ?thesis using True l b ref s0(2) by (simp add: CRYPTO_ctr128_encrypt_ctr32_def)
  next
    case False
    then have n1: "n1 = 0" "ivec s0 = ivec s" using s0(2,3) by (auto simp: same_stream_def)
    then have ref: "CRYPTO_ctr128_encrypt block s' num inp =
        (case ctr_loop block (s\<lparr>ivec := iv, ecount_buf := e\<rparr>) 0 r2 of (zs, s, n) \<Rightarrow> (ys1 @ ys2 @ zs, s, n))"
      using ref e(1) ctr_loop_refill_only [OF False, of s0 s] by (auto split: prod.splits)
    show ?thesis
    proof (cases "r2 = []")
      case True
      then show ?thesis using l b ref n1(1) by (simp add: CRYPTO_ctr128_encrypt_ctr32_def same_stream_def)
    next
      case r2: False
      have "ctr_loop block (s\<lparr>ivec := iv, ecount_buf := e\<rparr>) 0 r2 =
          block_bytes ctr_step (s\<lparr>ecount_buf := func (replicate 16 0) 1 iv, ivec := set_ctr32 (c + 1) iv\<rparr>) 0 r2"
        using ctr32_tail [OF assms(1,2) _ r2 e(2), of "s\<lparr>ivec := iv, ecount_buf := e\<rparr>"] e(3,4) by simp
      then have "CRYPTO_ctr128_encrypt_ctr32 func s num inp = CRYPTO_ctr128_encrypt block s' num inp"
        using l b ref n1(1) r2 by (simp add: CRYPTO_ctr128_encrypt_ctr32_def)
      then show ?thesis by (auto split: prod.splits)
    qed
  qed
qed

definition rev_ctr32 :: ctr_fn where
  "rev_ctr32 inp blocks iv = map2 (XOR) inp (ctr32_stream rev blocks iv)"

theorem ctr32_is_ctr128_witness:
  "case CRYPTO_ctr128_encrypt_ctr32 rev_ctr32 \<lparr>ivec = replicate 12 3 @ [255, 255, 255, 255], ecount_buf = []\<rparr> 0 (replicate 40 1) of
     (out, s1, n) \<Rightarrow> case CRYPTO_ctr128_encrypt rev \<lparr>ivec = replicate 12 3 @ [255, 255, 255, 255], ecount_buf = []\<rparr> 0 (replicate 40 1) of
     (out', s1', n') \<Rightarrow> out = out' \<and> n = n' \<and> same_stream n s1 s1'"
  by (rule ctr32_is_ctr128) (simp_all add: ctr32_routine_def rev_ctr32_def block_sized_def)

end
