(* ===== verification/Cfb_Bits.thy ===== *)
theory Cfb_Bits
  imports Ctr32_Mode
begin

unbundle bit_operations_syntax

text \<open>
  Cipher feedback of one bit and of eight bits at a time, \<open>CRYPTO_cfb128_1_encrypt\<close> and \<open>CRYPTO_cfb128_8_encrypt\<close> of
  \<open>crypto/modes/cfb128.c\<close>, on the general step \<open>cfbr_encrypt_block\<close>. Their parameter \<open>num\<close> is not used. Input and output do not overlap; the first function
  changes single bits of the output buffer, so it takes the contents of the buffer.
\<close>

section \<open>Operations\<close>

definition cfbr_encrypt_block :: "block_fn \<Rightarrow> bool \<Rightarrow> int \<Rightarrow> byte list \<Rightarrow> byte list \<Rightarrow> byte list \<times> byte list" where
  \<comment> \<open>the bytes stored in \<open>out\<close> and the new \<open>ivec\<close>\<close>
  "cfbr_encrypt_block block enc nbits inp iv =
     (if nbits \<le> 0 \<or> nbits > 128 then ([], iv)
      else let ovec = take 16 iv;
               iv = block iv;
               num = (nat nbits + 7) div 8;
               out = map2 (XOR) (take num inp) iv;
               ovec = ovec @ (if enc then out else take num inp);
               rem = nat nbits mod 8;
               num = nat nbits div 8
           in (out,
               if rem = 0 then take 16 (drop num ovec)
               else map (\<lambda>n. push_bit rem (ovec ! (n + num)) OR drop_bit (8 - rem) (ovec ! (n + num + 1))) [0..<16]))"

definition get_bit :: "byte list \<Rightarrow> nat \<Rightarrow> byte" where
  \<comment> \<open>\<open>(in[n / 8] & (1 << (7 - n % 8))) ? 0x80 : 0\<close>\<close>
  "get_bit inp n = (if inp ! (n div 8) AND push_bit (7 - n mod 8) 1 \<noteq> 0 then 0x80 else 0)"

definition put_bit :: "byte list \<Rightarrow> nat \<Rightarrow> byte \<Rightarrow> byte list" where
  "put_bit out n d =
     out[n div 8 := (out ! (n div 8) AND NOT (push_bit (7 - n mod 8) 1)) OR drop_bit (n mod 8) (d AND 0x80)]"

fun cfb1_loop :: "block_fn \<Rightarrow> bool \<Rightarrow> byte list \<Rightarrow> nat \<Rightarrow> nat \<Rightarrow> byte list \<Rightarrow> byte list \<Rightarrow> byte list \<times> byte list" where
  \<comment> \<open>\<open>k\<close> more bits from bit \<open>n\<close>\<close>
  "cfb1_loop block enc inp n 0 out iv = (out, iv)"
| "cfb1_loop block enc inp n (Suc k) out iv =
     (case cfbr_encrypt_block block enc 1 [get_bit inp n] iv of
        (d, iv) \<Rightarrow> cfb1_loop block enc inp (n + 1) k (put_bit out n (d ! 0)) iv)"

definition CRYPTO_cfb128_1_encrypt :: "block_fn \<Rightarrow> bool \<Rightarrow> byte list \<Rightarrow> nat \<Rightarrow> byte list \<Rightarrow> byte list \<Rightarrow> byte list \<times> byte list" where
  "CRYPTO_cfb128_1_encrypt block enc inp bits out iv = cfb1_loop block enc inp 0 bits out iv"

fun CRYPTO_cfb128_8_encrypt :: "block_fn \<Rightarrow> bool \<Rightarrow> byte list \<Rightarrow> byte list \<Rightarrow> byte list \<times> byte list" where
  "CRYPTO_cfb128_8_encrypt block enc [] iv = ([], iv)"
| "CRYPTO_cfb128_8_encrypt block enc (x # xs) iv =
     (case cfbr_encrypt_block block enc 8 [x] iv of
        (d, iv) \<Rightarrow> case CRYPTO_cfb128_8_encrypt block enc xs iv of (ys, iv) \<Rightarrow> (d @ ys, iv))"

section \<open>The shift register\<close>

lemma be_val_Cons: "be_val (x # xs) = unat x * 256 ^ length xs + be_val xs"
  using be_val_append [of "[x]" xs] by (simp add: be_val_def)

lemma unat_shift_in:
  fixes x y :: byte
  assumes "0 < r" and "r < 8"
  shows "unat (push_bit r x OR drop_bit (8 - r) y) = unat x * 2 ^ r mod 256 + unat y div 2 ^ (8 - r)"
proof -
  have "push_bit r x AND drop_bit (8 - r) y = 0"
    by (rule bit_word_eqI) (use assms in \<open>auto simp: bit_and_iff bit_push_bit_iff bit_drop_bit_eq dest: bit_imp_le_length\<close>)
  then have "unat (push_bit r x) AND unat (drop_bit (8 - r) y) = 0" by (metis unsigned_and_eq unat_0)
  then have "unat (push_bit r x OR drop_bit (8 - r) y) = unat (push_bit r x) + unat (drop_bit (8 - r) y)"
    by (simp add: unsigned_or_eq disjunctive_add_eq_or)
  moreover have "unat (push_bit r x) = unat x * 2 ^ r mod 256"
    using unsigned_push_bit_eq [of r x, where 'a = nat] by (simp add: push_bit_eq_mult [of r "unat x"] take_bit_eq_mod)
  moreover have "unat (drop_bit (8 - r) y) = unat y div 2 ^ (8 - r)" by (simp add: unat_drop_bit_eq) (simp add: drop_bit_eq_div)
  ultimately show ?thesis by simp
qed

fun shift_left :: "nat \<Rightarrow> byte list \<Rightarrow> byte list" where
  "shift_left r (x # y # xs) = (push_bit r x OR drop_bit (8 - r) y) # shift_left r (y # xs)"
| "shift_left r xs = []"

lemma shift_left_nth:
  "shift_left r xs = map (\<lambda>n. push_bit r (xs ! n) OR drop_bit (8 - r) (xs ! (n + 1))) [0..<length xs - 1]"
proof (induction r xs rule: shift_left.induct)
  case (1 r x y xs)
  have "[0..<length (x # y # xs) - 1] = 0 # map Suc [0..<length (y # xs) - 1]" by (simp add: map_Suc_upt upt_conv_Cons del: upt_Suc)
  then show ?case using 1 by (simp add: comp_def del: upt_Suc)
qed auto

lemma be_val_shift_left:
  assumes r: "0 < r" "r < 8"
  shows "be_val (shift_left r (x # xs)) = be_val (x # xs) div 2 ^ (8 - r) mod 256 ^ length xs"
proof (induction xs arbitrary: x)
  case Nil
  show ?case by (simp add: be_val_def)
next
  case (Cons y xs)
  let ?d = "2 ^ (8 - r) :: nat" and ?N = "256 ^ length xs :: nat" and ?B = "be_val (y # xs)"
  have split: "256 = 2 ^ r * ?d" using r by (simp flip: power_add)
  have B: "?B = unat y * ?N + be_val xs" "be_val xs < ?N" using be_val_less [of xs] by (auto simp: be_val_Cons)
  have "?B div (?N * ?d) = unat y div ?d" unfolding div_mult2_eq using B by simp
  then have Q: "?B div ?d = unat y div ?d * ?N + ?B div ?d mod ?N"
    by (metis div_mult2_eq mult.commute mod_div_decomp)
  have "be_val (x # y # xs) = unat x * 2 ^ r * ?N * ?d + ?B" by (simp add: be_val_Cons [of x] split algebra_simps)
  then have "be_val (x # y # xs) div ?d = unat x * 2 ^ r * ?N + ?B div ?d" by simp
  also have "\<dots> = (unat x * 2 ^ r + unat y div ?d) * ?N + ?B div ?d mod ?N" using Q by (simp add: algebra_simps)
  finally have "be_val (x # y # xs) div ?d mod (256 * ?N) = (unat x * 2 ^ r + unat y div ?d) mod 256 * ?N + ?B div ?d mod ?N"
    by (simp add: mod_mult2_eq mult.commute [of 256])
  moreover have "(unat x * 2 ^ r + unat y div ?d) mod 256 = unat (push_bit r x OR drop_bit (8 - r) y)"
    using unat_shift_in [OF r, of x y] unat_byte_less [of "push_bit r x OR drop_bit (8 - r) y"] by (metis mod_add_left_eq mod_less)
  moreover have "length (shift_left r (y # xs)) = length xs" by (simp add: shift_left_nth)
  ultimately show ?case using Cons [of y] by (simp add: be_val_Cons)
qed

lemma be_val_drop: "length xs = n + m \<Longrightarrow> be_val (drop n xs) = be_val xs mod 256 ^ m"
proof -
  assume l: "length xs = n + m"
  have "be_val xs = be_val (take n xs) * 256 ^ m + be_val (drop n xs)"
    using be_val_append [of "take n xs" "drop n xs"] l by simp
  moreover have "be_val (drop n xs) < 256 ^ m" using be_val_less [of "drop n xs"] l by simp
  ultimately show ?thesis by simp
qed

lemma ceil8: "0 < r \<Longrightarrow> r < 8 \<Longrightarrow> (8 * k + r + 7) div 8 = k + 1" "8 * k + r + (8 - r) = 8 * (k + 1) \<or> 8 < r" for k r :: nat
  by (auto intro!: div_nat_eqI)

lemma mod_mult_div: "v mod (d * m) div d = v div d mod m" for v d m :: nat
  by (cases "d = 0") (simp_all add: mod_mult2_eq)

definition shift_in :: "nat \<Rightarrow> byte list \<Rightarrow> byte list \<Rightarrow> byte list" where
  \<comment> \<open>the register after \<open>n\<close> bits of \<open>cs\<close> have been shifted in\<close>
  "shift_in n iv cs =
     (let ovec = iv @ cs; rem = n mod 8; num = n div 8
      in if rem = 0 then take 16 (drop num ovec)
         else map (\<lambda>n. push_bit rem (ovec ! (n + num)) OR drop_bit (8 - rem) (ovec ! (n + num + 1))) [0..<16])"

lemma cfbr_shift_in:
  assumes "length iv = 16" and "0 < n" and "n \<le> 128"
  shows "cfbr_encrypt_block block enc (int n) inp iv =
    (let out = map2 (XOR) (take ((n + 7) div 8) inp) (block iv)
     in (out, shift_in n iv (if enc then out else take ((n + 7) div 8) inp)))"
  using assms by (simp add: cfbr_encrypt_block_def shift_in_def Let_def)

lemma be_val_shift_in:
  assumes iv: "length iv = 16" and cs: "length cs = (n + 7) div 8"
  shows "be_val (shift_in n iv cs) = (be_val iv * 2 ^ n + be_val cs div 2 ^ (8 * length cs - n)) mod 2 ^ 128"
proof (cases "n mod 8 = 0")
  case True
  then obtain k where n: "n = 8 * k" by (auto elim!: dvdE simp flip: dvd_eq_mod_eq_0)
  then have k: "length cs = k" using cs by simp
  have "be_val (drop k (iv @ cs)) = be_val (iv @ cs) mod 256 ^ 16" using iv k by (intro be_val_drop) simp
  moreover have "(256 :: nat) ^ k = 2 ^ n" by (simp add: n power_mult)
  moreover have "(256 :: nat) ^ 16 = 2 ^ 128" by simp
  ultimately show ?thesis using iv k n by (simp add: shift_in_def be_val_append del: power_numeral)
next
  case False
  let ?r = "n mod 8" and ?k = "n div 8" and ?V = "be_val (iv @ cs)"
  have r: "0 < ?r" "?r < 8" using False by auto
  have n: "n = 8 * ?k + ?r" by simp
  have "(n + 7) div 8 = ?k + 1" using ceil8(1) [OF r, of ?k] by simp
  then have k: "length cs = ?k + 1" using cs by simp
  obtain x xs where L: "drop ?k (iv @ cs) = x # xs" "length xs = 16"
    using iv k by (cases "drop ?k (iv @ cs)") (auto dest: arg_cong [of _ _ length])
  have "shift_in n iv cs = shift_left ?r (x # xs)"
  proof -
    have "(x # xs) ! i = (iv @ cs) ! (i + ?k)" for i
      unfolding L(1) [symmetric] using k by (simp add: add.commute del: drop_append)
    then show ?thesis using False L(2) by (simp add: shift_left_nth shift_in_def Let_def del: nth_Cons_Suc)
  qed
  moreover have "be_val (x # xs) = ?V mod 256 ^ 17" unfolding L(1) [symmetric] using iv k by (intro be_val_drop) simp
  ultimately have "be_val (shift_in n iv cs) = ?V mod 256 ^ 17 div 2 ^ (8 - ?r) mod 256 ^ 16"
    using be_val_shift_left [OF r, of x xs] L(2) by simp
  also have "\<dots> = ?V div 2 ^ (8 - ?r) mod 256 ^ 16"
  proof -
    have "(256 :: nat) ^ 17 = 2 ^ (8 - ?r) * (2 ^ ?r * 256 ^ 16)" using r by (simp flip: power_add mult.assoc)
    then have "?V mod 256 ^ 17 div 2 ^ (8 - ?r) = ?V div 2 ^ (8 - ?r) mod (2 ^ ?r * 256 ^ 16)" by (simp only: mod_mult_div)
    then show ?thesis by (simp only: mod_mod_cancel dvd_triv_right)
  qed
  also have "?V = be_val iv * 2 ^ n * 2 ^ (8 - ?r) + be_val cs"
  proof -
    have "n + (8 - ?r) = 8 * (?k + 1)" using ceil8(2) [of ?k ?r] r by simp
    then have "2 ^ n * 2 ^ (8 - ?r) = ((2 :: nat) ^ 8) ^ (?k + 1)" by (simp only: power_mult flip: power_add)
    then have "(256 :: nat) ^ (?k + 1) = 2 ^ n * 2 ^ (8 - ?r)" by simp
    then show ?thesis using k by (simp add: be_val_append)
  qed
  finally have "be_val (shift_in n iv cs) = (be_val iv * 2 ^ n + be_val cs div 2 ^ (8 - ?r)) mod 256 ^ 16" by simp
  moreover have "8 * length cs - n = 8 - ?r" using k ceil8(2) [of ?k ?r] r by simp
  moreover have "(256 :: nat) ^ 16 = 2 ^ 128" by simp
  ultimately show ?thesis by (simp only:)
qed

lemma length_shift_in: "length iv = 16 \<Longrightarrow> length cs = (n + 7) div 8 \<Longrightarrow> length (shift_in n iv cs) = 16"
  by (auto simp: shift_in_def Let_def min_def not_le intro: le_trans [OF div_le_mono [of n "n + 7" 8]])

section \<open>Bits of a buffer\<close>

definition nth_bit :: "byte list \<Rightarrow> nat \<Rightarrow> bool" where
  \<comment> \<open>bit \<open>n\<close> of a buffer, the most significant bit of each byte first\<close>
  "nth_bit xs n = bit (xs ! (n div 8)) (7 - n mod 8)"

lemma get_bit_nth: "get_bit xs n = (if nth_bit xs n then 0x80 else 0)"
  by (simp only: get_bit_def nth_bit_def bit_iff_and_push_bit_not_eq_0)

lemma bit_128: "bit (0x80 :: byte) i \<longleftrightarrow> i = 7"
proof -
  have "(0x80 :: byte) = push_bit 7 1" by simp
  then show ?thesis by (simp only: bit_push_bit_iff bit_1_iff) auto
qed

lemma bit_NOT_single: "p < 8 \<Longrightarrow> bit (NOT (push_bit k 1) :: byte) p \<longleftrightarrow> p \<noteq> k"
  by (auto simp: bit_not_iff bit_exp_iff)

lemma nth_bit_put_bit:
  assumes "n div 8 < length out"
  shows "nth_bit (put_bit out n d) m = (if m = n then bit d 7 else nth_bit out m)"
proof (cases "m div 8 = n div 8")
  case False
  then show ?thesis by (auto simp: nth_bit_def put_bit_def)
next
  case True
  let ?p = "7 - m mod 8" and ?j = "n mod 8"
  have lt: "m mod 8 < 8" "?j < 8" "?p < 8" by auto
  have eq: "m = n \<longleftrightarrow> m mod 8 = ?j" using True by (metis div_mult_mod_eq)
  have p: "?p = 7 - ?j \<longleftrightarrow> m = n" "?j + ?p = 7 \<longleftrightarrow> m = n" unfolding eq using lt by linarith+
  have "nth_bit (put_bit out n d) m =
      bit ((out ! (n div 8) AND NOT (push_bit (7 - ?j) 1)) OR drop_bit ?j (d AND 0x80)) ?p"
    using True assms by (simp add: nth_bit_def put_bit_def)
  also have "\<dots> \<longleftrightarrow> bit (out ! (n div 8)) ?p \<and> ?p \<noteq> 7 - ?j \<or> bit d (?j + ?p) \<and> ?j + ?p = 7"
    by (simp only: bit_or_iff bit_and_iff bit_NOT_single [OF lt(3)] bit_drop_bit_eq comp_apply bit_128)
  also have "\<dots> = (if m = n then bit d 7 else nth_bit out m)" using p True by (auto simp: nth_bit_def)
  finally show ?thesis .
qed

lemma length_put_bit [simp]: "length (put_bit out n d) = length out"
  by (simp add: put_bit_def)

section \<open>One bit at a time\<close>

definition bit_sum :: "bool \<Rightarrow> bool \<Rightarrow> bool" where
  "bit_sum a b \<longleftrightarrow> a \<noteq> b"

fun cfb1_spec :: "block_fn \<Rightarrow> bool \<Rightarrow> bool list \<Rightarrow> byte list \<Rightarrow> bool list \<times> byte list" where
  \<comment> \<open>feedback of single bits: the first bit of the encrypted register is added to the bit, and the bit of the ciphertext is shifted in\<close>
  "cfb1_spec block enc [] iv = ([], iv)"
| "cfb1_spec block enc (b # bs) iv =
     (let out = bit_sum b (bit (block iv ! 0) 7); c = (if enc then out else b)
      in case cfb1_spec block enc bs (shift_in 1 iv [if c then 0x80 else 0]) of (outs, iv) \<Rightarrow> (out # outs, iv))"

lemma cfb1_spec_inverse: "cfb1_spec block True bs iv = (cs, iv') \<Longrightarrow> cfb1_spec block False cs iv = (bs, iv')"
  by (induction bs arbitrary: cs iv) (auto simp: Let_def bit_sum_def split: prod.splits if_splits)

lemma cfb1_spec_length: "cfb1_spec block enc bs iv = (cs, iv') \<Longrightarrow> length cs = length bs"
  by (induction bs arbitrary: cs iv) (fastforce simp: Let_def split: prod.splits)+

lemma shift_in_one:
  assumes "length iv = 16"
  shows "shift_in 1 iv [c] = shift_in 1 iv [if bit c 7 then 0x80 else 0]"
proof (rule be_val_inject)
  have "bit (unat c) 7 \<longleftrightarrow> bit c 7" by (simp add: bit_unsigned_iff)
  then have "bit c 7 \<longleftrightarrow> odd (unat c div 2 ^ 7)" by (simp only: bit_iff_odd)
  moreover have "unat c div 2 ^ 7 < 2" using unat_byte_less [of c] by simp
  ultimately have "unat c div 2 ^ 7 = (if bit c 7 then 1 else 0)" by (auto simp: less_2_cases_iff)
  then have "be_val [c] div 2 ^ 7 = be_val [if bit c 7 then 0x80 else 0] div 2 ^ 7" by (simp add: be_val_def)
  then show "be_val (shift_in 1 iv [c]) = be_val (shift_in 1 iv [if bit c 7 then 0x80 else 0])"
    using be_val_shift_in [OF assms, of "[c]" 1] be_val_shift_in [OF assms, of "[if bit c 7 then 0x80 else 0]" 1] by simp
qed (use assms length_shift_in [of iv "[_]" 1] in simp)

lemma cfb1_step:
  assumes "length iv = 16" and "block_sized block"
  shows "cfbr_encrypt_block block enc 1 [get_bit inp n] iv =
    ([get_bit inp n XOR block iv ! 0],
     shift_in 1 iv [if (if enc then bit_sum (nth_bit inp n) (bit (block iv ! 0) 7) else nth_bit inp n) then 0x80 else 0])"
proof -
  have "length (block iv) = 16" using assms by (simp add: block_sized_def)
  then obtain k ks where k: "block iv = k # ks" by (cases "block iv") auto
  have "bit (get_bit inp n XOR k) 7 \<longleftrightarrow> bit_sum (nth_bit inp n) (bit k 7)" by (simp add: bit_sum_def bit_xor_iff get_bit_nth bit_128)
  then show ?thesis
    using cfbr_shift_in [OF assms(1), of 1 block enc "[get_bit inp n]"] shift_in_one [OF assms(1), of "get_bit inp n XOR k"] k
    by (cases enc) (simp_all add: Let_def get_bit_nth)
qed

lemma cfb1_loop_spec:
  assumes "block_sized block"
  shows "length iv = 16 \<Longrightarrow> n + k \<le> 8 * length out \<Longrightarrow>
    cfb1_spec block enc (map (nth_bit inp) [n..<n + k]) iv = (outs, iv') \<Longrightarrow>
    \<exists>out'. cfb1_loop block enc inp n k out iv = (out', iv') \<and> length out' = length out \<and>
      (\<forall>m. nth_bit out' m = (if n \<le> m \<and> m < n + k then outs ! (m - n) else nth_bit out m)) \<and> length iv' = 16"
proof (induction k arbitrary: n out iv outs)
  case (Suc k)
  let ?b = "bit_sum (nth_bit inp n) (bit (block iv ! 0) 7)"
  let ?iv = "shift_in 1 iv [if (if enc then ?b else nth_bit inp n) then 0x80 else 0]"
  let ?d = "get_bit inp n XOR block iv ! 0"
  have up: "[n..<n + Suc k] = n # [n + 1..<n + 1 + k]" by (simp add: upt_conv_Cons del: upt_Suc)
  obtain os iv2 where "cfb1_spec block enc (map (nth_bit inp) [n + 1..<n + 1 + k]) ?iv = (os, iv2)" by force
  then have os: "cfb1_spec block enc (map (nth_bit inp) [n + 1..<n + 1 + k]) ?iv = (os, iv')" "outs = ?b # os"
    using Suc.prems(3) unfolding up by (simp_all add: Let_def del: upt_Suc)
  have iv: "length ?iv = 16" using Suc.prems(1) length_shift_in [of iv "[_]" 1] by simp
  have "n + 1 + k \<le> 8 * length (put_bit out n ?d)" using Suc.prems(2) by simp
  from Suc.IH [OF iv this os(1)] obtain out' where o: "cfb1_loop block enc inp (n + 1) k (put_bit out n ?d) ?iv = (out', iv')"
      "length out' = length out" "length iv' = 16"
      "\<forall>m. nth_bit out' m = (if n + 1 \<le> m \<and> m < n + 1 + k then os ! (m - (n + 1)) else nth_bit (put_bit out n ?d) m)" by auto
  have "n div 8 < length out" using Suc.prems(2) by (simp add: less_mult_imp_div_less mult.commute)
  then have put: "nth_bit (put_bit out n ?d) m = (if m = n then ?b else nth_bit out m)" for m
    by (simp add: nth_bit_put_bit bit_sum_def bit_xor_iff get_bit_nth bit_128)
  have "nth_bit out' m = (if n \<le> m \<and> m < n + Suc k then outs ! (m - n) else nth_bit out m)" for m
    using o(4) put os(2) by (auto simp: nth_Cons' Suc_diff_le split: nat.splits)
  then show ?case using o cfb1_step [OF Suc.prems(1) assms, of enc inp n] by simp
qed auto

section \<open>Properties\<close>

text \<open>
  The general step of cipher feedback is the standard's shift register. For every width from 1 to 128 bits, the output is
  the exclusive or of the input with the first bytes of the encrypted register, and the register, as a number of 128 bits, is shifted by the width and
  takes in exactly the first bits of the ciphertext, whatever the rest of its last byte is.
\<close>
lemma cfbr_shift_register:
  assumes "block_sized block" and "length iv = 16" and "0 < n" and "n \<le> 128" and "(n + 7) div 8 \<le> length inp"
  shows "case cfbr_encrypt_block block enc (int n) inp iv of (out, iv') \<Rightarrow>
    out = map2 (XOR) (take ((n + 7) div 8) inp) (block iv) \<and> length iv' = 16 \<and>
    be_val iv' = (be_val iv * 2 ^ n +
      be_val (if enc then out else take ((n + 7) div 8) inp) div 2 ^ (8 * ((n + 7) div 8) - n)) mod 2 ^ 128"
proof -
  let ?out = "map2 (XOR) (take ((n + 7) div 8) inp) (block iv)"
  have "(n + 7) div 8 \<le> 16" using assms(4) by (simp add: div_le_mono [of "n + 7" 135 8, simplified])
  moreover have "length (block iv) = 16" using assms(1,2) by (simp add: block_sized_def)
  ultimately have l: "length (if enc then ?out else take ((n + 7) div 8) inp) = (n + 7) div 8" using assms(5) by simp
  show ?thesis
    unfolding cfbr_shift_in [OF assms(2-4)] Let_def prod.case
    using be_val_shift_in [OF assms(2) l, unfolded l] length_shift_in [OF assms(2) l] by (intro conjI refl)
qed

lemma cfb8_inverse:
  assumes "block_sized block"
  shows "length iv = 16 \<Longrightarrow> CRYPTO_cfb128_8_encrypt block True xs iv = (ys, iv') \<Longrightarrow> CRYPTO_cfb128_8_encrypt block False ys iv = (xs, iv')"
proof (induction xs arbitrary: iv ys)
  case (Cons x xs)
  have "length (block iv) = 16" using assms Cons.prems(1) by (simp add: block_sized_def)
  then obtain k ks where k: "block iv = k # ks" by (cases "block iv") auto
  let ?iv = "shift_in 8 iv [x XOR k]"
  have step: "cfbr_encrypt_block block enc 8 [z] iv = ([z XOR k], shift_in 8 iv [if enc then z XOR k else z])" for enc z
    using cfbr_shift_in [OF Cons.prems(1), of 8 block enc "[z]"] k by (simp add: Let_def)
  obtain zs where z: "CRYPTO_cfb128_8_encrypt block True xs ?iv = (zs, iv')" "ys = (x XOR k) # zs"
    using Cons.prems(2) by (auto simp: step split: prod.splits)
  have "length ?iv = 16" using Cons.prems(1) length_shift_in [of iv "[_]" 8] by simp
  from Cons.IH [OF this z(1)] show ?case using z(2) by (simp add: step xor.assoc)
qed simp

text \<open>
  Cipher feedback of one bit and of eight bits decrypts what it encrypts. For one bit at a time, the first \<open>bits\<close> bits of the
  result are those of the input, each call leaves all other bits of its output buffer as they were, and both leave the same
  register.
\<close>
lemma cfb_bits_roundtrip:
  assumes "block_sized block" and "length iv = 16" and "bits \<le> 8 * length out" and "bits \<le> 8 * length out2"
  shows "(\<exists>c p iv'. CRYPTO_cfb128_1_encrypt block True inp bits out iv = (c, iv') \<and>
      CRYPTO_cfb128_1_encrypt block False c bits out2 iv = (p, iv') \<and>
      (\<forall>n \<ge> bits. nth_bit c n = nth_bit out n) \<and>
      (\<forall>n. nth_bit p n = nth_bit (if n < bits then inp else out2) n)) \<and>
    (\<exists>ys iv'. CRYPTO_cfb128_8_encrypt block True inp iv = (ys, iv') \<and> CRYPTO_cfb128_8_encrypt block False ys iv = (inp, iv'))"
proof
  obtain cs iv' where s: "cfb1_spec block True (map (nth_bit inp) [0..<0 + bits]) iv = (cs, iv')" by force
  obtain c where c: "cfb1_loop block True inp 0 bits out iv = (c, iv')" "\<forall>m. nth_bit c m = (if m < bits then cs ! m else nth_bit out m)"
    using cfb1_loop_spec [OF assms(1,2) _ s, of out] assms(3) by auto
  note inv = cfb1_spec_inverse [OF s]
  have "length cs = bits" using cfb1_spec_length [OF s] by simp
  then have "map (nth_bit c) [0..<0 + bits] = cs" using c(2) by (intro nth_equalityI) auto
  then have "cfb1_spec block False (map (nth_bit c) [0..<0 + bits]) iv = (map (nth_bit inp) [0..<0 + bits], iv')" using inv by simp
  from cfb1_loop_spec [OF assms(1,2) _ this, of out2] obtain p where
    "cfb1_loop block False c 0 bits out2 iv = (p, iv')" "\<forall>m. nth_bit p m = (if m < bits then nth_bit inp m else nth_bit out2 m)"
    using assms(4) by auto
  then show "\<exists>c p iv'. CRYPTO_cfb128_1_encrypt block True inp bits out iv = (c, iv') \<and>
      CRYPTO_cfb128_1_encrypt block False c bits out2 iv = (p, iv') \<and>
      (\<forall>n \<ge> bits. nth_bit c n = nth_bit out n) \<and>
      (\<forall>n. nth_bit p n = nth_bit (if n < bits then inp else out2) n)"
    using c by (auto simp: CRYPTO_cfb128_1_encrypt_def)
  show "\<exists>ys iv'. CRYPTO_cfb128_8_encrypt block True inp iv = (ys, iv') \<and> CRYPTO_cfb128_8_encrypt block False ys iv = (inp, iv')"
    using cfb8_inverse [OF assms(1,2)] by (metis prod.exhaust)
qed

end
