(* ===== verification/Spec2Isabelle.thy ===== *)
theory Spec2Isabelle
  imports Peer_Network Peer_V1 Registry Desktop_UI Uint_Set Lhash Seed_Cipher
    Quic_Vlint Quic_Transfer Event_Queue Ossl_Stack Cts_Modes Cfb_Bits
begin

text \<open>
  \<^bold>\<open>Verification of Tomypeers\<close>

  Tomypeers is a set of C programs for exchanging files between two computers, written for Windows sockets on i386. The
  repository holds two versions of the peer, a registry of peers, a window for it, and the sources of
  OpenSSL 3.3.1, which its encryption tests are to build on. This development models the programs function by
  function, and of OpenSSL the self-contained parts an encrypted, event-driven transfer needs: a block cipher with its modes
  and key wrapping, the containers, the checked arithmetic and the encodings below them. This theory imports
  all others and holds the property that spans two peers.

  \<^bold>\<open>The programs and how they interact\<close>

  A peer is one process with two threads. The thread \<open>listen_for_connections\<close> accepts one client after the other, sends
  the listing of the directory \<open>upload\<close> and then answers requests for files. The main thread reads commands; \<open>connect\<close>
  opens a connection to another peer's listening thread, reads its listing into an index from names to sizes,
  and downloads files into the directory \<open>download\<close> until the user types \<open>exit\<close>. The threads share no object, so each is modelled on its
  own; they meet through the sockets of two peers. \<open>peer_to_peer_transfer\<close> puts one after the other: the output of one peer's
  server is the input of the other one's client. \<open>Peer_Network\<close> lets them run at the same time. Paths below are relative to \<open>src/capstone\<close>.

  \<^item> \<open>TP_Prelude\<close>: how a C computation ends, the sequencing of such computations, generic facts on lists and words.
  \<^item> \<open>C_Runtime\<close>: the functions of the C library on strings that the programs call (\<open>strcpy\<close>, \<open>strcat\<close>, \<open>strtok\<close>, \<open>scanf\<close>, \<open>sscanf\<close>,
    \<open>sprintf\<close>), with the sizes of the destination arrays.
  \<^item> \<open>Peer_Env\<close>: sockets, directory scans and files, which are arguments of the programs.
  \<^item> \<open>File_Server\<close> (\<open>Project work solo/restructured code/tomypeersV2.c\<close>: \<open>send_file_list\<close>, \<open>create_file_list\<close>, \<open>list_directory\<close>,
    \<open>listen_for_connections\<close>). Shows when the listing fits its array, that a session with short segments stays inside the
    arrays, and that only files directly below \<open>upload\<close> influence what is sent.
  \<^item> \<open>Size_Index\<close>: the locale \<open>size_index\<close>, the contract of an index from names to sizes, interpreted by both versions.
  \<^item> \<open>File_List\<close> (the same file: \<open>createNode\<close>, \<open>appendNode\<close>, \<open>printlist\<close>, \<open>freelist\<close>, \<open>get_filesize\<close>): the linked list in a
    heap with live and freed nodes; it refines an association list.
  \<^item> \<open>Peer_Client\<close> and \<open>Peer_Session\<close> (the same file: \<open>recv_and_display_file_list\<close>, \<open>download_files\<close>, \<open>establish_connection\<close>,
    \<open>command_selection\<close>, \<open>main\<close>). Show that the client reads back the listing the server prints, that downloads are
    complete, hang when the peer delivers too little, what becomes of every command, and that a second \<open>connect\<close> uses the freed list; locale \<open>receive_loop\<close> states the receive loop once.
  \<^item> \<open>Peer_Network\<close> (the same file: the sending loop and the receiving code): a transfer as an inductive step relation that interleaves the two peers over
    a connection of bounded capacity. Every run ends with the file stored when it has less than 4096 bytes, is not empty and does not begin
    like the server's message; runs refine the sequential model; longer files can overrun the client's buffer, depending on the schedule, and an empty one blocks both peers.
  \<^item> \<open>Hash_Index\<close> and \<open>Peer_V1\<close> (\<open>Project work solo/tomypeers.c\<close>): the first version, with a hash table as its index. Its table
    implements a finite map, and a listed file is downloaded completely. Its server is, but for a comment and a trace, the text of the
    restructured one, and the two translations are shown to be the same functions.
  \<^item> \<open>Registry\<close> (\<open>multi-threaded w server client model/tomypeers.c\<close>): the table of peers, address search, \<open>find_max_fd\<close>. Shows an
    invariant of each round of \<open>run_registry\<close>, that no socket leaks, and what happens after a client has left.
  \<^item> \<open>Desktop_UI\<close> (\<open>Project work solo/ui.c\<close>): the controls, \<open>WindowProc\<close> and the message loop. Shows what a session leaves in
    the list box and that no connection is made.

  \<^bold>\<open>OpenSSL\<close> (paths relative to \<open>Project work solo/encryption tests/openssl-3.3.1\<close>)

  \<^item> \<open>Block_Modes\<close> (\<open>crypto/modes/cbc128.c\<close>, \<open>cfb128.c\<close>, \<open>ofb128.c\<close>, \<open>ctr128.c\<close>): the modes over any block function; round trips, and independence of how the
    data is cut into calls. Locales \<open>block_cipher\<close> and \<open>step_pair\<close>.
  \<^item> \<open>Ctr32_Mode\<close> (\<open>crypto/modes/ctr128.c\<close>), \<open>Cfb_Bits\<close> (\<open>cfb128.c\<close>) and \<open>Cts_Modes\<close> (\<open>cts128.c\<close>): counter mode over a routine with a 32-bit counter,
    feedback of single bits and bytes as a shift register, and ciphertext stealing in all its variants.
  \<^item> \<open>Key_Wrap\<close> (\<open>crypto/modes/wrap128.c\<close>): wrapping and unwrapping of keys, with and without padding.
  \<^item> \<open>Seed_Tables\<close> and \<open>Seed_Cipher\<close> (\<open>crypto/seed\<close>): the cipher on which the interfaces of modes and key wrapping are
    interpreted. Decryption inverts encryption, and the tables of the default build are those of the small build.
  \<^item> \<open>Safe_Math\<close> (\<open>include/internal/safe_math.h\<close>): arithmetic that reports overflow; locale \<open>checked_op\<close> is the contract of an operation.
  \<^item> \<open>Ossl_Time\<close> (\<open>include/internal/time.h\<close>): times on top of it, and where they saturate.
  \<^item> \<open>Ossl_Common\<close>: allocation of arrays, and the locale \<open>cmp_order\<close>, the contract of a comparison function.
  \<^item> \<open>Pqueue\<close> (\<open>ssl/priority_queue.c\<close>): a heap with handles. It refines a map from handles to items with a minimum.
  \<^item> \<open>Event_Queue\<close> (\<open>ssl/event_queue.c\<close>): timed events on two priority queues; which event comes next, and what freeing releases.
  \<^item> \<open>Ossl_Stack\<close> (\<open>crypto/stack/stack.c\<close>, \<open>crypto/bsearch.c\<close>): growing arrays with search; they refine lists.
  \<^item> \<open>Lhash\<close> (\<open>crypto/lhash/lhash.c\<close>): linear hashing; it refines a finite map through all expansions and contractions. Locales
    \<open>keyed_table\<close> and \<open>lh_functions\<close>.
  \<^item> \<open>Uint_Set\<close> (\<open>ssl/quic/uint_set.c\<close>): sets of 64-bit integers as lists of ranges; locale \<open>integer_set\<close>.
  \<^item> \<open>Ring_Buf\<close> (\<open>include/internal/ring_buf.h\<close>): byte rings that hold the retained window of a stream. Operations stay inside the storage and
    terminate; locale \<open>stream_window\<close> states that what is read is what was pushed.
  \<^item> \<open>Quic_Sstream\<close> (\<open>ssl/quic/quic_sstream.c\<close>): the sending side of a stream on a ring buffer and two integer sets. Its use is an inductive step
    relation, under the contract that only bytes in flight are reported as acknowledged and no acknowledged byte as lost, from which follow the invariant of the byte states, the contents of frames and the recognition of the end.
  \<^item> \<open>Quic_Fc\<close> (\<open>ssl/quic/quic_fc.c\<close>): flow control of the streams and of their connection, on a store of controllers. The sender keeps to all limits, also when more
    than the credit is consumed; the receiver detects exactly the violations, in any order of frames, and reopens its window as the application reads.
  \<^item> \<open>Quic_Statm\<close> (\<open>ssl/quic/quic_statm.c\<close>): the estimate of the round trip time and its bounds.
  \<^item> \<open>Sframe_List\<close> (\<open>ssl/quic/quic_sf_list.c\<close>): the list of received frames, which may overlap, with the references it holds to packets. What an
    insertion covers, and locale \<open>side_storage\<close> for the storage to which the data of frames can be moved.
  \<^item> \<open>Quic_Rstream\<close> (\<open>ssl/quic/quic_rstream.c\<close>): the receiving side of a stream. It interprets \<open>side_storage\<close> with the ring buffer; in whatever order frames
    arrive and are moved, the application reads the stream.
  \<^item> \<open>Quic_Transfer\<close>: sender and receiver of a stream, composed over a network that loses, repeats and reorders frames.
  \<^item> \<open>Quic_Vlint\<close> (\<open>crypto/quic_vlint.c\<close>, \<open>include/internal/quic_vlint.h\<close>): variable-length integers.

  \<^bold>\<open>State, errors and loops\<close>

  A structure of the source is a record, an enumeration or tagged value a datatype. Machine integers keep their width where a value can
  leave the range: hashes, sizes in a download, times and checked operations are words or integers with explicit ranges. \<open>int\<close>,
  \<open>long\<close>, \<open>size_t\<close> and sockets have 32 bits, as on the platform the checked-in objects were built for. Arrays are lists with the size
  of their storage written out: an access outside, a use of freed or null storage, a wild pointer, a false assertion and a call of
  \<open>exit\<close> are values of the type \<open>abort\<close>, so that the absence of each is something the theorems state. \<open>assert\<close> is active, as in a build for debugging; a false \<open>ossl_assert\<close>
  is the error that the code returns for it.

  A function whose loops are bounded is a total HOL function and returns a \<open>res\<close>. A loop that may run forever
  (the receive loops, the command loops, walks along pointers, the search of \<open>find_max_fd\<close>, the growth of an array, the copying of a ring buffer, appending to a stream, freeing and expiring events) is a partial function into an option, whose \<open>None\<close>
  is a run without end. No fuel is used. Where the code ends, the theorems state the result that it returns; where it does not,
  they state \<open>None\<close>.

  \<^bold>\<open>What stands for code outside the repository\<close>

  Sockets, the clock, standard input, directory scans, the file system, \<open>malloc\<close> and \<open>qsort\<close> are arguments. The theorems assume of them
  only what their documentation promises: \<open>recv\<close> returns at most what was asked for and the bytes arrive in
  order; an allocator that succeeds gives the requested number of cells, with arbitrary contents; \<open>qsort\<close> permutes and sorts. Every
  such property has a witness with concrete functions.

  \<^bold>\<open>Not modelled\<close>

  Console messages that only trace progress; the empty experiments (\<open>encryption tests/upnp_tests.c\<close>, \<open>encrpyt.c\<close>); the headers of pthreads; overlapping input and output
  buffers of the block modes; alternatives of OpenSSL that are written in assembler; functions that only return storage to
  the allocator (\<open>OPENSSL_sk_free\<close>, \<open>ossl_pqueue_free\<close>); and the rest of OpenSSL, which the programs do not call. Candidates for
  an extension are the remaining modes (\<open>ccm128.c\<close>, \<open>xts128.c\<close>) and the packet reader \<open>include/internal/packet.h\<close>.
\<close>

section \<open>From one peer to the other\<close>

text \<open>
  C1: a file arrives unchanged. A peer lists its upload directory; another peer reads that list, asks for a
  listed file and receives whatever the first one sends for this request, cut into segments in any way that
  keeps the first one not empty, shorter than 4096 bytes and different from the server's message that the file does not exist. If all listed names can be carried by the list
  (no white space, at most 71 bytes, pairwise different, sizes below 2 GiB) and the file has the size the
  directory gives, then the file in the download directory is the file in the upload directory.
\<close>
theorem peer_to_peer_transfer:
  assumes "create_file_list [] (Find_Entries e es err) = Inr fl" and "fd \<in> set (e # es)" and "visible fd"
    and "\<forall>fd \<in> set (e # es). visible fd \<longrightarrow> listable fd" and "distinct (map fst (entries (e # es)))"
    and "fs (''upload/'' @ cFileName fd) = Some content" and "length content = unat (nFileSizeLow fd)"
    and "sends_ok s" and "concat (outq (serve_request fs fl (cFileName fd) s)) = concat (outq s) @ concat (seg # q)"
    and "load_entries (empty_heap n) None (listing (e # es)) = Some (Inr (hp w, peer.start w))"
    and "length (entries (e # es)) \<le> n" and "inq (sock w) = seg # q" and "seg \<noteq> []" and "length seg < 4096"
    and "cstr seg \<noteq> ''File does not exist.''" and "inp w = cFileName fd @ newline # rest"
    and "cFileName fd \<noteq> ''exit''" and "creatable env (''download/'' @ cFileName fd)"
  shows "\<exists>w'. download_one env w = Some (Inr (True, w')) \<and>
    files w' (''download/'' @ cFileName fd) = Some content"
proof -
  let ?name = "cFileName fd"
  define fds where "fds = e # es"
  note facts = assms [folded fds_def]
  have ok: "listable fd" using facts(2,3,4) by blast
  then have name: "?name \<noteq> []" "length ?name \<le> 118" "NUL \<notin> set ?name"
    by (auto simp: listable_def)
  have fl: "fl = listing fds" using create_file_list_listing [OF assms(1)] by (simp add: fds_def)
  have "strstr_found fl ?name" using facts(2,3) by (simp add: fl listed_name_found)
  then have "concat (outq (serve_request fs fl ?name s)) = concat (outq s) @ content"
    using serve_request_file [of fl ?name fs content s, OF _ _ facts(6,8)] name(2) by simp
  then have content: "concat (seg # q) = content" using facts(9) by simp
  obtain h' p' where "load_entries (empty_heap n) None (listing fds) = Some (Inr (h', p'))"
      and "heap_list h' p' ([] @ entries fds)"
    using load_entries_heap [OF facts(4) heap_list_empty, of n] facts(11) by auto
  then have heap: "heap_list (hp w) (peer.start w) (entries fds)" using facts(10) by simp
  have size: "map_of (entries fds) ?name = Some (nFileSizeLow fd)"
    using facts(2,3,5) by (intro map_of_is_SomeI) (auto simp: entry_of_def)
  have scan: "scan_word (inp w) = (?name, newline # rest)"
    unfolding facts(16) using ok by (intro scan_word_word) (auto simp: listable_def is_space_def)
  have "length (concat (seg # q)) = unat (nFileSizeLow fd)" using content facts(7) by simp
  from download_one_stores [OF scan name(1) facts(17) name(2,3) heap size facts(12-15) this facts(18)]
  show ?thesis using content by auto
qed

theorem peer_to_peer_transfer_witness:
  "\<exists>w'. download_one sample_env (sample_peer\<lparr>inp := ''a.txt\<newline>exit''\<rparr>) = Some (Inr (True, w')) \<and>
     files w' ''download/a.txt'' = Some ''hello''"
proof -
  let ?fs = "\<lambda>p. if p = ''upload/a.txt'' then Some ''hello'' else None"
  let ?w = "sample_peer\<lparr>inp := ''a.txt\<newline>exit''\<rparr>"
  have list: "create_file_list [] (Find_Entries sample_entry [] 18) = Inr ''a.txt (5 bytes)\<newline>''"
    by (simp add: create_file_list_def listing_line_def sample_entry_def store_str_def strcat_buf_def
        dec_of_nat.simps digit_def)
  have ok: "visible sample_entry" "listable sample_entry"
    by (simp_all add: sample_entry_def listable_def visible_def is_space_def NUL_def)
  have "concat (outq (serve_request ?fs ''a.txt (5 bytes)\<newline>'' ''a.txt'' (sample_conn []))) = ''hello''"
    using serve_request_file [of "''a.txt (5 bytes)\<newline>''" "''a.txt''" ?fs "''hello''" "sample_conn []"]
    by (simp add: sample_conn_def sends_ok_def)
  then show ?thesis
    using peer_to_peer_transfer [OF list, of sample_entry ?fs "''hello''" "sample_conn []" "''he''" "[''llo'']" 9 ?w
        "''exit''" sample_env] sample_load ok
    by (simp add: sample_entry_def sample_peer_def sample_env_def entry_of_def)
       (simp add: sample_conn_def sends_ok_def NUL_def)
qed

end
